(* ===== verification/Prelude.thy ===== *)
theory Prelude
  imports Main "HOL-Library.Word"
begin

unbundle bit_operations_syntax

text \<open>
  Shared ground of the development: the machine types of \<open>include/core/Types.h\<close>, C++ failures as
  values, \<open>size_t\<close> arithmetic with its wrap-around, raw memory blocks with bounds-checked
  \<open>memcpy\<close>, the little-endian object representation of the integer types, and the list lemmas the
  component theories use. The collections \<open>rbind_simps\<close>, \<open>mem_simps\<close> and \<open>size_simps\<close> are what
  the component proofs hand to the simplifier.
\<close>

named_theorems rbind_simps \<open>sequencing of fallible steps\<close>
named_theorems mem_simps \<open>reading and writing memory blocks\<close>
named_theorems size_simps \<open>size_t arithmetic without wrap-around\<close>

section \<open>Machine types\<close>

type_synonym u8 = "8 word"
type_synonym u16 = "16 word"
type_synonym u32 = "32 word"
type_synonym u64 = "64 word"

section \<open>Failures as values\<close>

text \<open>
  \<open>AssertFailed\<close> is a failing \<open>BOOST_ASSERT\<close> (the process aborts), \<open>LengthError\<close> a thrown
  \<open>std::length_error\<close>, \<open>InvalidArgument\<close> a thrown \<open>std::invalid_argument\<close>, \<open>OutOfRange\<close> a
  thrown \<open>std::out_of_range\<close>, \<open>ActionThrew\<close> an exception a user callback throws, \<open>MemFault\<close>
  an access outside live memory (undefined behaviour in C++), and \<open>NoReturn\<close> a loop that did not
  end within the bound given to it.
\<close>

datatype error = AssertFailed | LengthError | InvalidArgument | OutOfRange | ActionThrew | MemFault
  | NoReturn

type_synonym 'a result = "error + 'a"

fun rbind :: "'a result \<Rightarrow> ('a \<Rightarrow> 'b result) \<Rightarrow> 'b result" where
  "rbind (Inl e) f = Inl e"
| "rbind (Inr x) f = f x"

definition assert_that :: "bool \<Rightarrow> unit result" where
  "assert_that c = (if c then Inr () else Inl AssertFailed)"

definition is_ok :: "'a result \<Rightarrow> bool" where
  "is_ok r = (case r of Inl _ \<Rightarrow> False | Inr _ \<Rightarrow> True)"

lemma rbind_Inr_iff [rbind_simps]: "rbind m f = Inr y \<longleftrightarrow> (\<exists>x. m = Inr x \<and> f x = Inr y)"
  by (cases m) auto

lemma rbind_assoc: "rbind (rbind m f) g = rbind m (\<lambda>x. rbind (f x) g)"
  by (cases m) auto

lemma rbind_cong [fundef_cong]:
  "m = m' \<Longrightarrow> (\<And>x. m' = Inr x \<Longrightarrow> f x = f' x) \<Longrightarrow> rbind m f = rbind m' f'"
  by (cases m') auto

lemma assert_that_True [simp]: "assert_that True = Inr ()"
  by (simp add: assert_that_def)

lemma assert_that_False [simp]: "assert_that False = Inl AssertFailed"
  by (simp add: assert_that_def)

lemma assert_that_Inr_iff [rbind_simps]: "assert_that c = Inr u \<longleftrightarrow> c"
  by (simp add: assert_that_def)

lemma rbind_assert [rbind_simps]: "c \<Longrightarrow> rbind (assert_that c) f = f ()"
  by simp

lemma is_ok_simps [simp]: "is_ok (Inr x)" "\<not> is_ok (Inl e)"
  by (simp_all add: is_ok_def)

lemma is_ok_iff: "is_ok r \<longleftrightarrow> (\<exists>x. r = Inr x)"
  by (cases r) auto

section \<open>The type size\_t\<close>

text \<open>
  \<open>size_t\<close> has 64 bits on the platform of the sources; a value of it is a natural number below
  \<open>size_mod\<close>, and addition and subtraction wrap around.
\<close>

definition size_mod :: nat where
  "size_mod = 18446744073709551616"

text \<open>Blocks larger than half the address space cannot be obtained; \<open>size_limit\<close> is an eighth.\<close>

definition size_limit :: nat where
  "size_limit = 2305843009213693952"

lemma size_mod_limit: "size_mod = 8 * size_limit"
  by (simp add: size_mod_def size_limit_def)

lemma size_limit_pos: "0 < size_limit"
  by (simp add: size_limit_def)

definition sz_add :: "nat \<Rightarrow> nat \<Rightarrow> nat" where
  "sz_add a b = (a + b) mod size_mod"

definition sz_sub :: "nat \<Rightarrow> nat \<Rightarrow> nat" where
  "sz_sub a b = (a + size_mod - b) mod size_mod"

lemma sz_add_exact: "a + b < size_mod \<Longrightarrow> sz_add a b = a + b"
  by (simp add: sz_add_def)

lemma sz_sub_exact: "b \<le> a \<Longrightarrow> a < size_mod \<Longrightarrow> sz_sub a b = a - b"
proof -
  assume "b \<le> a" "a < size_mod"
  then have "a + size_mod - b = (a - b) + size_mod" "a - b < size_mod" by auto
  then show ?thesis unfolding sz_sub_def by (simp only: mod_add_self2 mod_less)
qed

lemma sz_add_limit [size_simps]: "a + b \<le> 7 * size_limit \<Longrightarrow> sz_add a b = a + b"
  by (rule sz_add_exact) (simp add: size_mod_def size_limit_def)

lemma sz_sub_limit [size_simps]: "b \<le> a \<Longrightarrow> a \<le> 7 * size_limit \<Longrightarrow> sz_sub a b = a - b"
  by (rule sz_sub_exact) (simp_all add: size_mod_def size_limit_def)

lemma sz_sub_wrap: "a < b \<Longrightarrow> b \<le> size_mod \<Longrightarrow> sz_sub a b = size_mod + a - b"
proof -
  assume "a < b" "b \<le> size_mod"
  then have "a + size_mod - b < size_mod" by auto
  then show ?thesis by (simp add: sz_sub_def add.commute)
qed

lemma sz_add_less [simp]: "sz_add a b < size_mod"
  by (simp add: sz_add_def size_mod_def)

lemma sz_sub_less [simp]: "sz_sub a b < size_mod"
  by (simp add: sz_sub_def size_mod_def)

lemma sz_sub_self [simp]: "a < size_mod \<Longrightarrow> sz_sub a a = 0"
  by (simp add: sz_sub_exact)

section \<open>Memory blocks\<close>

text \<open>
  A block obtained from \<open>malloc\<close> is the list of its bytes; the null pointer is \<open>None\<close>.
  \<open>mem_read\<close> and \<open>mem_write\<close> are the two directions of \<open>memcpy\<close> between a block and an object
  outside it, and \<open>mem_set\<close> is \<open>memset\<close>; an access that leaves the block is \<open>MemFault\<close>.
\<close>

type_synonym block = "u8 list option"

definition block_size :: "block \<Rightarrow> nat" where
  "block_size m = (case m of None \<Rightarrow> 0 | Some d \<Rightarrow> length d)"

definition blk :: "block \<Rightarrow> u8 list" where
  "blk m = (case m of None \<Rightarrow> [] | Some d \<Rightarrow> d)"

definition mem_read :: "block \<Rightarrow> nat \<Rightarrow> nat \<Rightarrow> u8 list result" where
  "mem_read m pos n =
     (case m of
        None \<Rightarrow> (if n = 0 then Inr [] else Inl MemFault)
      | Some d \<Rightarrow> (if pos + n \<le> length d then Inr (take n (drop pos d)) else Inl MemFault))"

definition mem_write :: "block \<Rightarrow> nat \<Rightarrow> u8 list \<Rightarrow> block result" where
  "mem_write m pos bs =
     (case m of
        None \<Rightarrow> (if bs = [] then Inr None else Inl MemFault)
      | Some d \<Rightarrow> (if pos + length bs \<le> length d
                   then Inr (Some (take pos d @ bs @ drop (pos + length bs) d)) else Inl MemFault))"

definition mem_set :: "block \<Rightarrow> nat \<Rightarrow> u8 \<Rightarrow> nat \<Rightarrow> block result" where
  "mem_set m pos v n = mem_write m pos (replicate n v)"

lemma mem_read_fault [mem_simps]: "block_size m < pos + n \<Longrightarrow> 0 < n \<Longrightarrow> mem_read m pos n = Inl MemFault"
  by (cases m) (auto simp: mem_read_def block_size_def)

lemma mem_write_fault [mem_simps]:
  "block_size m < pos + length bs \<Longrightarrow> bs \<noteq> [] \<Longrightarrow> mem_write m pos bs = Inl MemFault"
  by (cases m) (auto simp: mem_write_def block_size_def)

lemma mem_read_Inr_length: "mem_read m pos n = Inr bs \<Longrightarrow> length bs = n"
  by (cases m) (auto simp: mem_read_def split: if_splits)

lemma mem_write_block_size: "mem_write m pos bs = Inr m' \<Longrightarrow> block_size m' = block_size m"
  by (cases m) (auto simp: mem_write_def block_size_def split: if_splits)

section \<open>Lists\<close>

text \<open>A window \<open>[a, b)\<close> of a list, the shape every contiguous data range of a buffer has.\<close>

definition window :: "'a list \<Rightarrow> nat \<Rightarrow> nat \<Rightarrow> 'a list" where
  "window xs a b = take (b - a) (drop a xs)"

lemma length_window [simp]: "b \<le> length xs \<Longrightarrow> length (window xs a b) = b - a"
  by (simp add: window_def)

lemma window_self [simp]: "window xs a a = []"
  by (simp add: window_def)

lemma window_split: "a \<le> b \<Longrightarrow> b \<le> c \<Longrightarrow> window xs a c = window xs a b @ window xs b c"
proof -
  assume "a \<le> b" "b \<le> c"
  then have "take (c - a) (drop a xs) = take ((b - a) + (c - b)) (drop a xs)" by simp
  also have "\<dots> = take (b - a) (drop a xs) @ take (c - b) (drop (b - a) (drop a xs))"
    by (rule take_add)
  finally show ?thesis using \<open>a \<le> b\<close> by (simp add: window_def)
qed

lemma drop_window [simp]: "drop n (window xs a b) = window xs (a + n) b"
  by (simp add: window_def drop_take add.commute)

lemma take_window: "take n (window xs a b) = window xs a (min b (a + n))"
proof -
  have "min n (b - a) = min b (a + n) - a" by (auto simp: min_def)
  then show ?thesis by (simp add: window_def)
qed

lemma window_empty: "b \<le> a \<Longrightarrow> window xs a b = []"
  by (simp add: window_def)

lemma window_full_drop: "window xs a (length xs) = drop a xs"
  by (simp add: window_def)

lemma window_0: "window xs 0 b = take b xs"
  by (simp add: window_def)

lemma window_eq_nth:
  "length xs = length ys \<Longrightarrow> (\<And>i. a \<le> i \<Longrightarrow> i < b \<Longrightarrow> i < length xs \<Longrightarrow> xs ! i = ys ! i)
     \<Longrightarrow> window xs a b = window ys a b"
  by (rule nth_equalityI) (auto simp: window_def)

text \<open>The ring of \<open>N\<close> cells read from position \<open>r\<close> up to position \<open>w\<close>.\<close>

definition ring :: "'a list \<Rightarrow> nat \<Rightarrow> nat \<Rightarrow> nat \<Rightarrow> 'a list" where
  "ring d N r w = (if w < r then window d r N @ window d 0 w else window d r w)"

definition wrap :: "nat \<Rightarrow> nat \<Rightarrow> nat" where
  "wrap N p = (if p \<ge> N then p - N else p)"

lemma length_ring:
  "N \<le> length d \<Longrightarrow> w \<le> N \<Longrightarrow>
     length (ring d N r w) = (if w < r then N - r + w else w - r)"
  by (simp add: ring_def)

lemma ring_drop:
  assumes N: "N \<le> length d" "r < N" "w < N" and n: "n \<le> length (ring d N r w)"
  shows "ring d N (wrap N (r + n)) w = drop n (ring d N r w)"
proof -
  consider "w < r" "r + n < N" | "w < r" "N \<le> r + n" | "r \<le> w" by linarith
  then show ?thesis
  proof cases
    case 1
    with N show ?thesis by (simp add: ring_def wrap_def)
  next
    case 2
    with N n have "r + n - N \<le> w" "n - (N - r) = r + n - N" by (simp_all add: length_ring)
    with 2 N show ?thesis by (simp add: ring_def wrap_def window_empty)
  next
    case 3
    with N n have "r + n \<le> w" by (simp add: length_ring)
    with 3 N show ?thesis by (simp add: ring_def wrap_def)
  qed
qed

text \<open>Overwriting a range of a block leaves the windows beside it alone and shows through inside.\<close>

definition patch :: "'a list \<Rightarrow> nat \<Rightarrow> 'a list \<Rightarrow> 'a list" where
  "patch d pos bs = take pos d @ bs @ drop (pos + length bs) d"

lemma length_patch [simp]: "pos + length bs \<le> length d \<Longrightarrow> length (patch d pos bs) = length d"
  by (simp add: patch_def)

lemma nth_patch:
  "pos + length bs \<le> length d \<Longrightarrow> i < length d \<Longrightarrow>
     patch d pos bs ! i = (if pos \<le> i \<and> i < pos + length bs then bs ! (i - pos) else d ! i)"
  by (auto simp: patch_def nth_append min_def)

lemma window_patch_before:
  "pos + length bs \<le> length d \<Longrightarrow> b \<le> pos \<Longrightarrow> window (patch d pos bs) a b = window d a b"
  by (rule window_eq_nth) (auto simp: nth_patch)

lemma window_patch_after:
  "pos + length bs \<le> length d \<Longrightarrow> pos + length bs \<le> a \<Longrightarrow> window (patch d pos bs) a b = window d a b"
  by (rule window_eq_nth) (auto simp: nth_patch)

lemma window_patch_inside:
  "pos + length bs \<le> length d \<Longrightarrow> window (patch d pos bs) pos (pos + length bs) = bs"
  by (simp add: patch_def window_def)

lemma length_blk [simp]: "length (blk m) = block_size m"
  by (cases m) (simp_all add: blk_def block_size_def)

lemma blk_simps [simp]: "blk None = []" "blk (Some d) = d"
  by (simp_all add: blk_def)

lemma block_size_simps [simp]: "block_size None = 0" "block_size (Some d) = length d"
  by (simp_all add: block_size_def)

lemma mem_read_window [mem_simps]:
  "pos + n \<le> block_size m \<Longrightarrow> mem_read m pos n = Inr (window (blk m) pos (pos + n))"
  by (cases m) (simp_all add: window_def mem_read_def)

definition block_patch :: "block \<Rightarrow> nat \<Rightarrow> u8 list \<Rightarrow> block" where
  "block_patch m pos bs = map_option (\<lambda>d. patch d pos bs) m"

lemma mem_write_patch [mem_simps]:
  "pos + length bs \<le> block_size m \<Longrightarrow> mem_write m pos bs = Inr (block_patch m pos bs)"
  by (cases m) (simp_all add: patch_def mem_write_def block_patch_def)

lemma blk_patch [simp]:
  "pos + length bs \<le> block_size m \<Longrightarrow> blk (block_patch m pos bs) = patch (blk m) pos bs"
  by (cases m) (simp_all add: block_patch_def patch_def)

lemma block_size_patch [simp]:
  "pos + length bs \<le> block_size m \<Longrightarrow> block_size (block_patch m pos bs) = block_size m"
  by (cases m) (simp_all add: block_patch_def)

section \<open>Object representation of integers\<close>

text \<open>
  \<open>writeDirect\<close> stores the object representation of a value and \<open>readDirect\<close> loads it: on the
  little-endian platform of the sources the bytes of an integer from the least significant on.
\<close>

fun le_bytes :: "nat \<Rightarrow> nat \<Rightarrow> u8 list" where
  "le_bytes 0 v = []"
| "le_bytes (Suc n) v = word_of_nat (v mod 256) # le_bytes n (v div 256)"

fun le_value :: "u8 list \<Rightarrow> nat" where
  "le_value [] = 0"
| "le_value (b # bs) = unat b + 256 * le_value bs"

lemma length_le_bytes [simp]: "length (le_bytes n v) = n"
  by (induction n arbitrary: v) auto

lemma unat_byte_less: "unat (b :: u8) < 256"
  using unsigned_less [of b, where 'a = nat] by simp

lemma unat_byte_of_nat: "v < 256 \<Longrightarrow> unat (word_of_nat v :: u8) = v"
  by (simp add: unat_of_nat take_bit_eq_mod)

lemma le_value_bytes: "v < 256 ^ n \<Longrightarrow> le_value (le_bytes n v) = v"
proof (induction n arbitrary: v)
  case 0
  then show ?case by simp
next
  case (Suc n)
  then have "v div 256 < 256 ^ n" by (simp add: less_mult_imp_div_less mult.commute)
  then show ?case by (simp add: Suc.IH unat_byte_of_nat)
qed

lemma le_value_less: "le_value bs < 256 ^ length bs"
proof (induction bs)
  case Nil
  then show ?case by simp
next
  case (Cons b bs)
  have "unat b < 256" by (rule unat_byte_less)
  with Cons show ?case by simp
qed

lemma le_bytes_value: "le_bytes (length bs) (le_value bs) = bs"
proof (induction bs)
  case Nil
  then show ?case by simp
next
  case (Cons b bs)
  have "unat b < 256" by (rule unat_byte_less)
  with Cons show ?case by (simp add: unat_byte_of_nat)
qed

end
