(* ===== verification/Atomic_Pipe.thy ===== *)
theory Atomic_Pipe
  imports Prelude
begin

text \<open>
  The single-producer single-consumer pipe of \<open>include/core/AtomicQueue.h\<close>: \<open>AtomicQueue\<close>, a queue of
  slots in a list of chunks, and \<open>AtomicPipe\<close> on top of it. The pipe relies on the queue only through
  the contract of the locale \<open>slot_queue\<close>: a list of slots with distinct addresses that grows at the back
  and shrinks at both ends. The producer's \<open>flush\<close> takes two steps (the compare-and-swap and the store
  after it failed), the other operations make one access to the shared pointer \<open>c\<close> and are one step
  each; the queue operations of the two sides touch different members.
\<close>

section \<open>The queue of slots\<close>

record 'a chunk_t =
  cvalues :: "nat \<Rightarrow> 'a"
  cprev :: "nat option"
  cnext :: "nat option"

text \<open>\<open>brk\<close> is the next address \<open>malloc\<close> returns and \<open>raw\<close> what a chunk holds there at first.\<close>

record 'a aqueue =
  begin_chunk :: nat
  begin_pos :: nat
  back_chunk :: "nat option"
  back_pos :: nat
  end_chunk :: nat
  end_pos :: nat
  spare_chunk :: "nat option"
  chunks :: "nat \<rightharpoonup> 'a chunk_t"
  brk :: nat
  raw :: "nat \<Rightarrow> 'a chunk_t"

definition get_chunk :: "nat option \<Rightarrow> 'a aqueue \<Rightarrow> 'a chunk_t result" where
  "get_chunk p q = (case p of None \<Rightarrow> Inl MemFault | Some a \<Rightarrow>
     (case chunks q a of None \<Rightarrow> Inl MemFault | Some c \<Rightarrow> Inr c))"

definition mod_chunk :: "nat option \<Rightarrow> ('a chunk_t \<Rightarrow> 'a chunk_t) \<Rightarrow> 'a aqueue \<Rightarrow> 'a aqueue result" where
  "mod_chunk p g q = rbind (get_chunk p q) (\<lambda>c. Inr (q\<lparr>chunks := (chunks q)(the p \<mapsto> g c)\<rparr>))"

definition free_chunk :: "nat option \<Rightarrow> 'a aqueue \<Rightarrow> 'a aqueue result" where
  "free_chunk p q = (case p of None \<Rightarrow> Inr q | Some a \<Rightarrow>
     rbind (get_chunk p q) (\<lambda>_. Inr (q\<lparr>chunks := (chunks q)(a := None)\<rparr>)))"

definition AtomicQueue_new :: "(nat \<Rightarrow> 'a chunk_t) \<Rightarrow> 'a aqueue" where
  "AtomicQueue_new rw =
     \<lparr>begin_chunk = 0, begin_pos = 0, back_chunk = None, back_pos = 0, end_chunk = 0, end_pos = 0,
      spare_chunk = None, chunks = [0 \<mapsto> rw 0], brk = 1, raw = rw\<rparr>"

definition front :: "'a aqueue \<Rightarrow> 'a result" where
  "front q = rbind (get_chunk (Some (begin_chunk q)) q) (\<lambda>c. Inr (cvalues c (begin_pos q)))"

definition back_value :: "'a aqueue \<Rightarrow> 'a result" where
  "back_value q = rbind (get_chunk (back_chunk q) q) (\<lambda>c. Inr (cvalues c (back_pos q)))"

definition set_back :: "'a \<Rightarrow> 'a aqueue \<Rightarrow> 'a aqueue result" where
  "set_back v q = mod_chunk (back_chunk q) (\<lambda>c. c\<lparr>cvalues := (cvalues c)(back_pos q := v)\<rparr>) q"

text \<open>\<open>&queue.front()\<close> and \<open>&queue.back()\<close>: a chunk and a position in it.\<close>

definition front_ptr :: "'a aqueue \<Rightarrow> (nat \<times> nat) result" where
  "front_ptr q = rbind (get_chunk (Some (begin_chunk q)) q) (\<lambda>_. Inr (begin_chunk q, begin_pos q))"

definition back_ptr :: "'a aqueue \<Rightarrow> (nat \<times> nat) result" where
  "back_ptr q = rbind (get_chunk (back_chunk q) q) (\<lambda>_. Inr (the (back_chunk q), back_pos q))"

text \<open>The chunk \<open>push\<close> appends: the spare one, or one from \<open>malloc\<close>.\<close>

definition fresh_chunk :: "'a aqueue \<Rightarrow> nat \<times> 'a aqueue" where
  "fresh_chunk q = (case spare_chunk q of
     Some sc \<Rightarrow> (sc, q\<lparr>spare_chunk := None\<rparr>)
   | None \<Rightarrow> (brk q, q\<lparr>chunks := (chunks q)(brk q \<mapsto> raw q (brk q)), brk := brk q + 1\<rparr>))"

definition push :: "nat \<Rightarrow> 'a aqueue \<Rightarrow> 'a aqueue result" where
  "push N q =
     (let q = q\<lparr>back_chunk := Some (end_chunk q), back_pos := end_pos q, end_pos := end_pos q + 1\<rparr> in
      if end_pos q \<noteq> N then Inr q
      else
        let (a, q) = fresh_chunk q in
        rbind (mod_chunk (Some (end_chunk q)) (\<lambda>c. c\<lparr>cnext := Some a\<rparr>) q) (\<lambda>q.
        rbind (mod_chunk (Some a) (\<lambda>c. c\<lparr>cprev := Some (end_chunk q)\<rparr>) q) (\<lambda>q.
          Inr (q\<lparr>end_chunk := a, end_pos := 0\<rparr>))))"

definition unpush :: "nat \<Rightarrow> 'a aqueue \<Rightarrow> 'a aqueue result" where
  "unpush N q =
     rbind (if back_pos q \<noteq> 0 then Inr (q\<lparr>back_pos := back_pos q - 1\<rparr>)
            else rbind (get_chunk (back_chunk q) q) (\<lambda>c. Inr (q\<lparr>back_pos := N - 1, back_chunk := cprev c\<rparr>))) (\<lambda>q.
     if end_pos q \<noteq> 0 then Inr (q\<lparr>end_pos := end_pos q - 1\<rparr>)
     else rbind (get_chunk (Some (end_chunk q)) q) (\<lambda>c.
          rbind (get_chunk (cprev c) q) (\<lambda>p.
          let q = q\<lparr>end_pos := N - 1, end_chunk := the (cprev c)\<rparr> in
          rbind (free_chunk (cnext p) q) (\<lambda>q.
            mod_chunk (Some (end_chunk q)) (\<lambda>c. c\<lparr>cnext := None\<rparr>) q))))"

definition pop :: "nat \<Rightarrow> 'a aqueue \<Rightarrow> 'a aqueue result" where
  "pop N q =
     (let q = q\<lparr>begin_pos := begin_pos q + 1\<rparr> in
      if begin_pos q \<noteq> N then Inr q
      else rbind (get_chunk (Some (begin_chunk q)) q) (\<lambda>c.
           rbind (get_chunk (cnext c) q) (\<lambda>_.
           let o1 = begin_chunk q; q = q\<lparr>begin_chunk := the (cnext c)\<rparr> in
           rbind (mod_chunk (Some (begin_chunk q)) (\<lambda>c. c\<lparr>cprev := None\<rparr>) q) (\<lambda>q.
           let cs = spare_chunk q; q = q\<lparr>begin_pos := 0, spare_chunk := Some o1\<rparr> in
             free_chunk cs q))))"

fun free_chain :: "nat \<Rightarrow> 'a aqueue \<Rightarrow> 'a aqueue result" where
  "free_chain 0 q = Inl NoReturn"
| "free_chain (Suc k) q =
     (if begin_chunk q = end_chunk q then free_chunk (Some (begin_chunk q)) q
      else rbind (get_chunk (Some (begin_chunk q)) q) (\<lambda>c.
           rbind (get_chunk (cnext c) q) (\<lambda>_.
           rbind (free_chunk (Some (begin_chunk q)) (q\<lparr>begin_chunk := the (cnext c)\<rparr>)) (free_chain k))))"

definition AtomicQueue_destroy :: "'a aqueue \<Rightarrow> 'a aqueue result" where
  "AtomicQueue_destroy q =
     rbind (free_chain (brk q) q) (\<lambda>q. rbind (free_chunk (spare_chunk q) q) (\<lambda>q. Inr (q\<lparr>spare_chunk := None\<rparr>)))"

section \<open>The pipe\<close>

text \<open>The operations of the queue that the pipe calls.\<close>

record ('q, 'p, 'a) queue_ops =
  q_push :: "'q \<Rightarrow> 'q result"
  q_unpush :: "'q \<Rightarrow> 'q result"
  q_pop :: "'q \<Rightarrow> 'q result"
  q_front_ptr :: "'q \<Rightarrow> 'p result"
  q_back_ptr :: "'q \<Rightarrow> 'p result"
  q_front :: "'q \<Rightarrow> 'a result"
  q_back :: "'q \<Rightarrow> 'a result"
  q_set_back :: "'a \<Rightarrow> 'q \<Rightarrow> 'q result"

definition AtomicQueue_ops :: "nat \<Rightarrow> ('a aqueue, nat \<times> nat, 'a) queue_ops" where
  "AtomicQueue_ops N = \<lparr>q_push = push N, q_unpush = unpush N, q_pop = pop N, q_front_ptr = front_ptr,
     q_back_ptr = back_ptr, q_front = front, q_back = back_value, q_set_back = set_back\<rparr>"

record ('q, 'p) pipe =
  pqueue :: 'q
  w_ptr :: 'p
  r_ptr :: "'p option"
  f_ptr :: 'p
  c_ptr :: "'p option"

definition AtomicPipe_new :: "('q, 'p, 'a) queue_ops \<Rightarrow> 'q \<Rightarrow> ('q, 'p) pipe result" where
  "AtomicPipe_new Q q =
     rbind (q_push Q q) (\<lambda>q. rbind (q_back_ptr Q q) (\<lambda>p.
       Inr \<lparr>pqueue = q, w_ptr = p, r_ptr = Some p, f_ptr = p, c_ptr = Some p\<rparr>))"

definition pipe_write :: "('q, 'p, 'a) queue_ops \<Rightarrow> 'a \<Rightarrow> bool \<Rightarrow> ('q, 'p) pipe \<Rightarrow> ('q, 'p) pipe result" where
  "pipe_write Q value incomplete p =
     rbind (q_set_back Q value (pqueue p)) (\<lambda>q.
     rbind (q_push Q q) (\<lambda>q.
     rbind (q_back_ptr Q q) (\<lambda>b.
       Inr (if incomplete then p\<lparr>pqueue := q\<rparr> else p\<lparr>pqueue := q, f_ptr := b\<rparr>))))"

definition pipe_unwrite :: "('q, 'p, 'a) queue_ops \<Rightarrow> ('q, 'p) pipe \<Rightarrow> ('a option \<times> ('q, 'p) pipe) result" where
  "pipe_unwrite Q p =
     rbind (q_back_ptr Q (pqueue p)) (\<lambda>b.
       if f_ptr p = b then Inr (None, p)
       else rbind (q_unpush Q (pqueue p)) (\<lambda>q. rbind (q_back Q q) (\<lambda>v. Inr (Some v, p\<lparr>pqueue := q\<rparr>))))"

text \<open>\<open>flush\<close> up to its compare-and-swap (\<open>None\<close>: it failed), and the two stores after a failure.\<close>

definition flush_cas :: "('q, 'p) pipe \<Rightarrow> bool option \<times> ('q, 'p) pipe" where
  "flush_cas p =
     (if w_ptr p = f_ptr p then (Some True, p)
      else if c_ptr p = Some (w_ptr p) then (Some True, p\<lparr>c_ptr := Some (f_ptr p), w_ptr := f_ptr p\<rparr>)
      else (None, p))"

definition flush_store :: "('q, 'p) pipe \<Rightarrow> bool \<times> ('q, 'p) pipe" where
  "flush_store p = (False, p\<lparr>c_ptr := Some (f_ptr p), w_ptr := f_ptr p\<rparr>)"

definition check_read :: "('q, 'p, 'a) queue_ops \<Rightarrow> ('q, 'p) pipe \<Rightarrow> (bool \<times> ('q, 'p) pipe) result" where
  "check_read Q p =
     rbind (q_front_ptr Q (pqueue p)) (\<lambda>a.
       if r_ptr p \<noteq> Some a \<and> r_ptr p \<noteq> None then Inr (True, p)
       else
         let p' = p\<lparr>r_ptr := c_ptr p, c_ptr := (if c_ptr p = Some a then None else c_ptr p)\<rparr> in
         Inr (\<not> (r_ptr p' = Some a \<or> r_ptr p' = None), p'))"

definition pipe_read :: "('q, 'p, 'a) queue_ops \<Rightarrow> ('q, 'p) pipe \<Rightarrow> ('a option \<times> ('q, 'p) pipe) result" where
  "pipe_read Q p =
     rbind (check_read Q p) (\<lambda>(ok, p).
       if \<not> ok then Inr (None, p)
       else rbind (q_front Q (pqueue p)) (\<lambda>v. rbind (q_pop Q (pqueue p)) (\<lambda>q. Inr (Some v, p\<lparr>pqueue := q\<rparr>))))"

section \<open>Producer and consumer\<close>

text \<open>
  \<open>flushing\<close> says that the producer is between the two halves of \<open>flush\<close>. History variables: the values written
  and not taken back, the values read, and how many of the former were complete and flushed.
\<close>

record ('q, 'p, 'a) pipe_sys =
  spipe :: "('q, 'p) pipe"
  flushing :: bool
  sent :: "'a list"
  received :: "'a list"
  complete :: nat
  flushed :: nat

datatype 'a pipe_act = Write 'a bool | Unwrite | Flush | FlushStore | Read

primrec pipe_exec :: "('q, 'p, 'a) queue_ops \<Rightarrow> 'a pipe_act \<Rightarrow> ('q, 'p, 'a) pipe_sys \<Rightarrow> ('q, 'p, 'a) pipe_sys result" where
  "pipe_exec Q (Write v incomplete) s =
     (if flushing s then Inr s
      else rbind (pipe_write Q v incomplete (spipe s)) (\<lambda>p.
        Inr (s\<lparr>spipe := p, sent := sent s @ [v], complete := (if incomplete then complete s else length (sent s) + 1)\<rparr>)))"
| "pipe_exec Q Unwrite s =
     (if flushing s then Inr s
      else rbind (pipe_unwrite Q (spipe s)) (\<lambda>(r, p).
        Inr (s\<lparr>spipe := p, sent := (if r = None then sent s else butlast (sent s))\<rparr>)))"
| "pipe_exec Q Flush s =
     (if flushing s then Inr s
      else let (r, p) = flush_cas (spipe s) in
        Inr (s\<lparr>spipe := p, flushing := (r = None), flushed := (if r = None then flushed s else complete s)\<rparr>))"
| "pipe_exec Q FlushStore s =
     (if flushing s
      then Inr (s\<lparr>spipe := snd (flush_store (spipe s)), flushing := False, flushed := complete s\<rparr>)
      else Inr s)"
| "pipe_exec Q Read s =
     rbind (pipe_read Q (spipe s)) (\<lambda>(r, p).
       Inr (s\<lparr>spipe := p, received := received s @ (case r of None \<Rightarrow> [] | Some v \<Rightarrow> [v])\<rparr>))"

fun pipe_run :: "('q, 'p, 'a) queue_ops \<Rightarrow> 'a pipe_act list \<Rightarrow> ('q, 'p, 'a) pipe_sys \<Rightarrow> ('q, 'p, 'a) pipe_sys result" where
  "pipe_run Q [] s = Inr s"
| "pipe_run Q (a # as) s = rbind (pipe_exec Q a s) (pipe_run Q as)"

definition pipe_start :: "('q, 'p, 'a) queue_ops \<Rightarrow> 'q \<Rightarrow> ('q, 'p, 'a) pipe_sys result" where
  "pipe_start Q q = rbind (AtomicPipe_new Q q) (\<lambda>p.
     Inr \<lparr>spipe = p, flushing = False, sent = [], received = [], complete = 0, flushed = 0\<rparr>)"

text \<open>The positions behind the four pointers: \<open>i\<close> for \<open>w\<close>, \<open>j\<close> for \<open>f\<close>; \<open>r\<close> lies before \<open>w\<close>, \<open>c\<close> is \<open>w\<close> or null.\<close>

definition pipe_pos :: "('p \<times> 'a) list \<Rightarrow> nat \<Rightarrow> nat \<Rightarrow> ('q, 'p) pipe \<Rightarrow> bool" where
  "pipe_pos S i j p \<longleftrightarrow>
     i \<le> j \<and> j < length S \<and> w_ptr p = fst (S ! i) \<and> f_ptr p = fst (S ! j) \<and>
     (r_ptr p = None \<or> (\<exists>k\<le>i. r_ptr p = Some (fst (S ! k)))) \<and>
     (c_ptr p = Some (w_ptr p) \<or> c_ptr p = None \<and> i = 0)"

definition pipe_inv :: "('q \<Rightarrow> ('p \<times> 'a) list \<Rightarrow> bool) \<Rightarrow> ('q, 'p, 'a) pipe_sys \<Rightarrow> bool" where
  "pipe_inv rep s \<longleftrightarrow>
     (\<exists>S i j. rep (pqueue (spipe s)) S \<and> pipe_pos S i j (spipe s) \<and>
        (flushing s \<longrightarrow> c_ptr (spipe s) = None \<and> i < j) \<and> sent s = received s @ map snd (butlast S) \<and>
        flushed s = length (received s) + i \<and> complete s = length (received s) + j)"

lemma pipe_invI:
  "rep (pqueue (spipe s)) S \<Longrightarrow> pipe_pos S i j (spipe s) \<Longrightarrow> (flushing s \<Longrightarrow> c_ptr (spipe s) = None \<and> i < j) \<Longrightarrow>
   sent s = received s @ map snd (butlast S) \<Longrightarrow> flushed s = length (received s) + i \<Longrightarrow>
   complete s = length (received s) + j \<Longrightarrow> pipe_inv rep s"
  by (auto simp: pipe_inv_def)

lemma pipe_pos_cong:
  assumes "pipe_pos S i j p" "j < length S'" "\<And>k. k \<le> j \<Longrightarrow> fst (S' ! k) = fst (S ! k)"
  shows "pipe_pos S' i j (p\<lparr>pqueue := q\<rparr>)"
proof -
  have "\<exists>k\<le>i. r = Some (fst (S' ! k))" if "\<exists>k\<le>i. r = Some (fst (S ! k))" for r
    using that assms by (metis pipe_pos_def le_trans)
  with assms show ?thesis by (auto simp: pipe_pos_def)
qed

lemma pipe_pos_flush: "pipe_pos S i j p \<Longrightarrow> pipe_pos S j j (p\<lparr>c_ptr := Some (f_ptr p), w_ptr := f_ptr p\<rparr>)"
  unfolding pipe_pos_def by (auto intro: le_trans)

section \<open>The contract of the queue\<close>

locale slot_queue =
  fixes Q :: "('q, 'p, 'a) queue_ops" and rep :: "'q \<Rightarrow> ('p \<times> 'a) list \<Rightarrow> bool"
  assumes rep_distinct: "rep q S \<Longrightarrow> distinct (map fst S)"
    and push_rep: "rep q S \<Longrightarrow> \<exists>q' p x. q_push Q q = Inr q' \<and> rep q' (S @ [(p, x)])"
    and unpush_rep: "rep q (S @ [a, b]) \<Longrightarrow> \<exists>q'. q_unpush Q q = Inr q' \<and> rep q' (S @ [a])"
    and pop_rep: "rep q (a # b # S) \<Longrightarrow> \<exists>q'. q_pop Q q = Inr q' \<and> rep q' (b # S)"
    and front_rep: "rep q ((p, x) # S) \<Longrightarrow> q_front_ptr Q q = Inr p \<and> q_front Q q = Inr x"
    and back_rep: "rep q (S @ [(p, x)]) \<Longrightarrow> q_back_ptr Q q = Inr p \<and> q_back Q q = Inr x"
    and set_back_rep: "rep q (S @ [(p, x)]) \<Longrightarrow> \<exists>q'. q_set_back Q v q = Inr q' \<and> rep q' (S @ [(p, v)])"
begin

lemma same_slot: "rep q S \<Longrightarrow> i < length S \<Longrightarrow> j < length S \<Longrightarrow> fst (S ! i) = fst (S ! j) \<longleftrightarrow> i = j"
  using rep_distinct [of q S] nth_eq_iff_index_eq [of "map fst S" i j] by simp

lemma write_inv:
  assumes "pipe_inv rep s"
  shows "\<exists>s'. pipe_exec Q (Write v incomplete) s = Inr s' \<and> pipe_inv rep s'"
proof (cases "flushing s")
  case True
  with assms show ?thesis by auto
next
  case False
  let ?p = "spipe s"
  obtain S i j where S: "rep (pqueue ?p) S" "pipe_pos S i j ?p" "sent s = received s @ map snd (butlast S)"
    "flushed s = length (received s) + i" "complete s = length (received s) + j"
    using assms by (auto simp: pipe_inv_def)
  then have "S \<noteq> []" by (auto simp: pipe_pos_def)
  then obtain S0 b x where S0: "S = S0 @ [(b, x)]" by (metis rev_exhaust surj_pair)
  with S(1) have "rep (pqueue ?p) (S0 @ [(b, x)])" by simp
  then obtain q1 where q1: "q_set_back Q v (pqueue ?p) = Inr q1" "rep q1 (S0 @ [(b, v)])" using set_back_rep by blast
  from push_rep [OF q1(2)] obtain q2 c y where q2: "q_push Q q1 = Inr q2" "rep q2 ((S0 @ [(b, v)]) @ [(c, y)])" by blast
  let ?S = "(S0 @ [(b, v)]) @ [(c, y)]"
  have bp: "q_back_ptr Q q2 = Inr c" using back_rep [OF q2(2)] by simp
  have nth: "fst (?S ! k) = fst (S ! k)" if "k < length S" for k using that by (auto simp: S0 nth_append)
  have len: "length ?S = length S + 1" "?S ! length S = (c, y)" by (simp_all add: S0 nth_append)
  have w: "pipe_write Q v incomplete ?p = Inr (if incomplete then ?p\<lparr>pqueue := q2\<rparr> else ?p\<lparr>pqueue := q2, f_ptr := c\<rparr>)"
    using q1(1) q2(1) bp by (simp add: pipe_write_def)
  let ?j = "if incomplete then j else length S"
  have pos: "pipe_pos ?S i ?j (if incomplete then ?p\<lparr>pqueue := q2\<rparr> else ?p\<lparr>pqueue := q2, f_ptr := c\<rparr>)"
    using S(2) nth len unfolding pipe_pos_def by (auto simp: S0 nth_append)
  have "sent s @ [v] = received s @ map snd (butlast ?S)" using S(3) by (simp add: S0 butlast_append)
  moreover have "length (sent s) + 1 = length (received s) + length S" using S(3) by (simp add: S0)
  ultimately show ?thesis
    using False w q2(2) pos S(4,5) by (auto simp: pipe_inv_def intro!: exI [of _ ?S] exI [of _ i] exI [of _ ?j])
qed

lemma unwrite_inv:
  assumes "pipe_inv rep s"
  shows "\<exists>s'. pipe_exec Q Unwrite s = Inr s' \<and> pipe_inv rep s'"
proof (cases "flushing s")
  case True
  with assms show ?thesis by auto
next
  case False
  let ?p = "spipe s"
  obtain S i j where S: "rep (pqueue ?p) S" "pipe_pos S i j ?p" "sent s = received s @ map snd (butlast S)"
    "flushed s = length (received s) + i" "complete s = length (received s) + j"
    using assms by (auto simp: pipe_inv_def)
  then have ij: "i \<le> j" "j < length S" "f_ptr ?p = fst (S ! j)" "S \<noteq> []" by (auto simp: pipe_pos_def)
  then obtain S0 b x where S0: "S = S0 @ [(b, x)]" by (metis rev_exhaust surj_pair)
  have bp: "q_back_ptr Q (pqueue ?p) = Inr b" using back_rep S(1) S0 by blast
  have last: "f_ptr ?p = b \<longleftrightarrow> j = length S0"
    using same_slot [OF S(1), of j "length S0"] ij by (auto simp: S0)
  show ?thesis
  proof (cases "j = length S0")
    case True
    with assms False bp last show ?thesis by (simp add: pipe_unwrite_def)
  next
    case neq: False
    with ij S0 have "S0 \<noteq> []" by auto
    then obtain S1 a y where S1: "S0 = S1 @ [(a, y)]" by (metis rev_exhaust surj_pair)
    with S(1) S0 have "rep (pqueue ?p) (S1 @ [(a, y), (b, x)])" by simp
    then obtain q1 where q1: "q_unpush Q (pqueue ?p) = Inr q1" "rep q1 (S1 @ [(a, y)])" using unpush_rep by blast
    have bv: "q_back Q q1 = Inr y" using back_rep [OF q1(2)] by simp
    have "pipe_pos S0 i j (?p\<lparr>pqueue := q1\<rparr>)"
      by (rule pipe_pos_cong [OF S(2)]) (use neq ij in \<open>auto simp: S0 nth_append\<close>)
    moreover have "butlast (sent s) = received s @ map snd (butlast S0)" using S(3) by (simp add: S0 S1 butlast_append)
    ultimately show ?thesis using False neq last bp q1 bv S(4,5) S1
      by (auto simp: pipe_unwrite_def pipe_inv_def intro!: exI [of _ S0] exI [of _ i] exI [of _ j])
  qed
qed

lemma flush_inv:
  assumes "pipe_inv rep s"
  shows "\<exists>s'. pipe_exec Q Flush s = Inr s' \<and> pipe_inv rep s'" "\<exists>s'. pipe_exec Q FlushStore s = Inr s' \<and> pipe_inv rep s'"
proof -
  let ?p = "spipe s"
  obtain S i j where S: "rep (pqueue ?p) S" "pipe_pos S i j ?p" "sent s = received s @ map snd (butlast S)"
    "flushed s = length (received s) + i" "complete s = length (received s) + j" "flushing s \<longrightarrow> c_ptr ?p = None \<and> i < j"
    using assms by (auto simp: pipe_inv_def)
  have ij: "i \<le> j" "j < length S" "w_ptr ?p = fst (S ! i)" "f_ptr ?p = fst (S ! j)" using S(2) by (auto simp: pipe_pos_def)
  have same: "w_ptr ?p = f_ptr ?p \<longleftrightarrow> i = j" using same_slot [OF S(1), of i j] ij by auto
  have moved: "pipe_pos S j j (?p\<lparr>c_ptr := Some (f_ptr ?p), w_ptr := f_ptr ?p\<rparr>)"
    by (rule pipe_pos_flush [OF S(2)])
  show "\<exists>s'. pipe_exec Q Flush s = Inr s' \<and> pipe_inv rep s'"
  proof (cases "flushing s \<or> i = j \<or> c_ptr ?p = Some (w_ptr ?p)")
    case True
    with S same moved assms show ?thesis
      by (auto simp: flush_cas_def pipe_inv_def intro!: exI [of _ S] exI [of _ i] exI [of _ j])
  next
    case False
    with S(2) have "c_ptr ?p = None" by (auto simp: pipe_pos_def)
    with False S same ij show ?thesis
      by (auto simp: flush_cas_def pipe_inv_def intro!: exI [of _ S] exI [of _ i] exI [of _ j])
  qed
  show "\<exists>s'. pipe_exec Q FlushStore s = Inr s' \<and> pipe_inv rep s'"
    using S moved assms by (auto simp: flush_store_def pipe_inv_def intro!: exI [of _ S] exI [of _ j])
qed

lemma check_read_pos:
  assumes "rep (pqueue p) S" "pipe_pos S i j p"
  obtains ok p' where "check_read Q p = Inr (ok, p')" "pqueue p' = pqueue p" "pipe_pos S i j p'"
    "ok \<longrightarrow> 0 < i \<and> (\<exists>k>0. k \<le> i \<and> r_ptr p' = Some (fst (S ! k)))"
    "\<not> ok \<longrightarrow> i = 0 \<and> c_ptr p' = None" "c_ptr p = None \<longrightarrow> c_ptr p' = None"
proof -
  have ij: "i \<le> j" "j < length S" and w: "w_ptr p = fst (S ! i)" using assms(2) by (auto simp: pipe_pos_def)
  have fp: "q_front_ptr Q (pqueue p) = Inr (fst (S ! 0))"
    using assms(1) ij front_rep [of "pqueue p" "fst (hd S)" "snd (hd S)" "tl S"] by (cases S) auto
  have zero: "fst (S ! k) = fst (S ! 0) \<longleftrightarrow> k = 0" if "k \<le> i" for k
    using same_slot [OF assms(1), of k 0] that ij by (cases S) auto
  show thesis
  proof (cases "r_ptr p \<noteq> Some (fst (S ! 0)) \<and> r_ptr p \<noteq> None")
    case True
    then obtain k where k: "k \<le> i" "r_ptr p = Some (fst (S ! k))" using assms(2) by (auto simp: pipe_pos_def)
    with True zero have "0 < k" by auto
    with k True fp assms(2) that [of True p] show ?thesis by (auto simp: check_read_def)
  next
    case False
    let ?p = "p\<lparr>r_ptr := c_ptr p, c_ptr := (if c_ptr p = Some (fst (S ! 0)) then None else c_ptr p)\<rparr>"
    let ?ok = "\<not> (c_ptr p = Some (fst (S ! 0)) \<or> c_ptr p = None)"
    have cr: "check_read Q p = Inr (?ok, ?p)" using False fp by (auto simp: check_read_def Let_def)
    have c: "c_ptr p = Some (fst (S ! i)) \<or> c_ptr p = None \<and> i = 0" using assms(2) w by (auto simp: pipe_pos_def)
    then have c0: "c_ptr p = Some (fst (S ! 0)) \<longrightarrow> i = 0" using zero [of i] by auto
    have "pipe_pos S i j ?p" using assms(2) w c c0 by (auto simp: pipe_pos_def)
    moreover have "?ok \<longrightarrow> 0 < i \<and> (\<exists>k>0. k \<le> i \<and> r_ptr ?p = Some (fst (S ! k)))" using c by (cases "i = 0") auto
    moreover have "\<not> ?ok \<longrightarrow> i = 0 \<and> c_ptr ?p = None" using c c0 by auto
    ultimately show ?thesis using cr that [of ?ok ?p] by simp
  qed
qed

lemma read_inv:
  assumes "pipe_inv rep s"
  shows "\<exists>s'. pipe_exec Q Read s = Inr s' \<and> pipe_inv rep s' \<and>
    (received s' = received s \<longrightarrow> flushed s = length (received s) \<and> c_ptr (spipe s') = None)"
proof -
  let ?p = "spipe s"
  obtain S i j where S: "rep (pqueue ?p) S" "pipe_pos S i j ?p" "sent s = received s @ map snd (butlast S)"
    "flushed s = length (received s) + i" "complete s = length (received s) + j" "flushing s \<longrightarrow> c_ptr ?p = None \<and> i < j"
    using assms by (auto simp: pipe_inv_def)
  obtain ok p' where cr: "check_read Q ?p = Inr (ok, p')" "pqueue p' = pqueue ?p" "pipe_pos S i j p'"
    "ok \<longrightarrow> 0 < i \<and> (\<exists>k>0. k \<le> i \<and> r_ptr p' = Some (fst (S ! k)))" "\<not> ok \<longrightarrow> i = 0 \<and> c_ptr p' = None"
    "c_ptr ?p = None \<longrightarrow> c_ptr p' = None"
    by (rule check_read_pos [OF S(1,2)])
  show ?thesis
  proof (cases ok)
    case False
    with cr S show ?thesis
      by (auto simp: pipe_read_def pipe_inv_def intro!: exI [of _ S] exI [of _ i] exI [of _ j])
  next
    case True
    then obtain k where k: "0 < k" "k \<le> i" "r_ptr p' = Some (fst (S ! k))" using cr(4) by blast
    have ij: "i \<le> j" "j < length S" using S(2) by (auto simp: pipe_pos_def)
    with k obtain a x b S1 where S1: "S = (a, x) # b # S1" by (cases S; cases "tl S") auto
    obtain q where q: "q_pop Q (pqueue ?p) = Inr q" "rep q (b # S1)" using pop_rep S(1) S1 by blast
    have fv: "q_front Q (pqueue ?p) = Inr x" using front_rep S(1) S1 by blast
    have "c_ptr p' = Some (w_ptr p')" using cr(3) k by (auto simp: pipe_pos_def)
    then have pos: "pipe_pos (b # S1) (i - 1) (j - 1) (p'\<lparr>pqueue := q\<rparr>)"
      using cr(3) k ij by (auto simp: pipe_pos_def S1 nth_Cons' intro!: exI [of _ "k - 1"])
    have fl: "\<not> flushing s" using S(6) S(2) k by (auto simp: pipe_pos_def)
    have e: "pipe_exec Q Read s = Inr (s\<lparr>spipe := p'\<lparr>pqueue := q\<rparr>, received := received s @ [x]\<rparr>)"
      using cr(1,2) True q(1) fv by (simp add: pipe_read_def)
    have "sent s = (received s @ [x]) @ map snd (butlast (b # S1))" using S(3) by (simp add: S1)
    then have "pipe_inv rep (s\<lparr>spipe := p'\<lparr>pqueue := q\<rparr>, received := received s @ [x]\<rparr>)"
      using q(2) pos fl S(4,5) k ij by (intro pipe_invI [of rep _ "b # S1" "i - 1" "j - 1"]) auto
    with e show ?thesis by simp
  qed
qed

lemma exec_inv: "pipe_inv rep s \<Longrightarrow> \<exists>s'. pipe_exec Q a s = Inr s' \<and> pipe_inv rep s'"
  using write_inv unwrite_inv flush_inv read_inv by (cases a) blast+

lemma run_inv: "pipe_inv rep s \<Longrightarrow> \<exists>s'. pipe_run Q as s = Inr s' \<and> pipe_inv rep s'"
proof (induction as arbitrary: s)
  case (Cons a as)
  then obtain s1 where "pipe_exec Q a s = Inr s1" "pipe_inv rep s1" using exec_inv by blast
  with Cons.IH show ?case by simp
qed simp

lemma start_inv:
  assumes "rep q []"
  shows "\<exists>s. pipe_start Q q = Inr s \<and> pipe_inv rep s"
proof -
  from push_rep [OF assms] obtain q' p x where q: "q_push Q q = Inr q'" "rep q' [(p, x)]" by auto
  have b: "q_back_ptr Q q' = Inr p" using back_rep [of q' "[]" p x] q(2) by simp
  let ?s = "\<lparr>spipe = \<lparr>pqueue = q', w_ptr = p, r_ptr = Some p, f_ptr = p, c_ptr = Some p\<rparr>, flushing = False, sent = [],
    received = [], complete = 0, flushed = 0\<rparr>"
  have "pipe_start Q q = Inr ?s" using q b by (simp add: pipe_start_def AtomicPipe_new_def)
  moreover have "pipe_inv rep ?s"
    using q(2) by (auto simp: pipe_inv_def pipe_pos_def intro!: exI [of _ "[(p, x)]"] exI [of _ 0])
  ultimately show ?thesis by blast
qed

lemma inv_prefix:
  assumes "pipe_inv rep s"
  shows "received s = take (length (received s)) (sent s)" "length (received s) \<le> flushed s" "flushed s \<le> complete s"
    "complete s \<le> length (sent s)"
  using assms by (auto simp: pipe_inv_def pipe_pos_def)

lemma inv_sleep:
  assumes "pipe_inv rep s" "c_ptr (spipe s) = None"
  shows "flushed s = length (received s)" "flushed s < complete s \<Longrightarrow> \<not> flushing s \<Longrightarrow> fst (flush_cas (spipe s)) = None"
proof -
  obtain S i j where S: "rep (pqueue (spipe s)) S" "pipe_pos S i j (spipe s)" "flushed s = length (received s) + i"
    "complete s = length (received s) + j" using assms(1) by (auto simp: pipe_inv_def)
  show "flushed s = length (received s)" using S assms(2) by (auto simp: pipe_pos_def)
  assume "flushed s < complete s" "\<not> flushing s"
  with S have "w_ptr (spipe s) \<noteq> f_ptr (spipe s)" using same_slot [OF S(1), of i j] by (auto simp: pipe_pos_def)
  with assms(2) show "fst (flush_cas (spipe s)) = None" by (simp add: flush_cas_def)
qed

text \<open>After a failed read the next complete write makes \<open>flush\<close> take its second branch.\<close>

lemma write_wakes:
  assumes "pipe_inv rep s" "c_ptr (spipe s) = None" "\<not> flushing s"
  shows "\<exists>s1. pipe_exec Q (Write v False) s = Inr s1 \<and> fst (flush_cas (spipe s1)) = None"
proof -
  obtain s1 where s1: "pipe_exec Q (Write v False) s = Inr s1" "pipe_inv rep s1" using write_inv [OF assms(1)] by blast
  have keep: "flushing s1 = flushing s" "c_ptr (spipe s1) = c_ptr (spipe s)" "flushed s1 = flushed s"
    "complete s1 = length (sent s) + 1"
    using s1(1) assms(3) by (auto simp: rbind_simps pipe_write_def split: if_splits)
  then have "flushed s1 < complete s1" using inv_prefix(3,4) [OF assms(1)] by simp
  with s1 keep assms show ?thesis using inv_sleep(2) [OF s1(2)] by auto
qed

text \<open>What is complete and not yet read is delivered by a flush and a read.\<close>

lemma delivers:
  assumes "pipe_inv rep s" "length (received s) < complete s"
  shows "\<exists>s'. pipe_run Q [Flush, FlushStore, Read] s = Inr s' \<and> received s' = received s @ [sent s ! length (received s)]"
proof -
  obtain s1 where s1: "pipe_exec Q Flush s = Inr s1" "pipe_inv rep s1" using flush_inv(1) [OF assms(1)] by blast
  obtain s2 where s2: "pipe_exec Q FlushStore s1 = Inr s2" "pipe_inv rep s2" using flush_inv(2) [OF s1(2)] by blast
  have same: "received s2 = received s" "sent s2 = sent s" "complete s2 = complete s"
    using s1(1) s2(1) by (auto split: if_splits prod.splits)
  have "flushed s2 = complete s" using s1(1) s2(1) by (auto split: if_splits prod.splits)
  obtain s3 where s3: "pipe_exec Q Read s2 = Inr s3" "pipe_inv rep s3" "received s3 \<noteq> received s2"
    using read_inv [OF s2(2)] assms(2) same \<open>flushed s2 = complete s\<close> by fastforce
  then obtain x where x: "received s3 = received s @ [x]" "sent s3 = sent s"
    using same by (auto simp: rbind_simps split: option.splits)
  have "received s3 = take (Suc (length (received s))) (sent s)" using inv_prefix(1) [OF s3(2)] x by simp
  moreover have "length (received s) < length (sent s)" using inv_prefix(4) [OF assms(1)] assms(2) by simp
  ultimately have "x = sent s ! length (received s)" using x(1) by (metis last_snoc last_conv_nth length_0_conv take_Suc_conv_app_nth)
  with x s1(1) s2(1) s3(1) show ?thesis by simp
qed

end

end
