(* ===== verification/Dispatcher.thy ===== *)
theory Dispatcher
  imports Atomic_Pipe "HOL-Library.Word"
begin

unbundle bit_operations_syntax

text \<open>
  The message network between threads of \<open>include/threading\<close>: \<open>DispatcherThreadSignaler.h\<close> (a bitmap of the sources that have
  written, with a bit that says that the reader sleeps on the semaphore), \<open>Dispatcher.h\<close> (a pipe for every pair of
  threads), \<open>DispatcherThreadContext.h\<close> and \<open>DispatcherDestination.h\<close>. Every access to a bitmap, to a semaphore or to the
  shared pointer of a pipe is one step of the thread that makes it; what a thread does between two of them touches only its own data.
\<close>

section \<open>The signaler\<close>

text \<open>The bitmap operations of \<open>include/core/Atomic.h\<close>: the value returned and the new bitmap.\<close>

definition bitmap_btsr :: "nat \<Rightarrow> nat \<Rightarrow> 64 word \<Rightarrow> bool \<times> 64 word" where
  "bitmap_btsr index_to_set index_to_reset b = (bit b index_to_reset, unset_bit index_to_reset (set_bit index_to_set b))"

definition bitmap_xchg :: "64 word \<Rightarrow> 64 word \<Rightarrow> 64 word \<times> 64 word" where
  "bitmap_xchg bitmap_new b = (b, bitmap_new)"

definition bitmap_izte :: "64 word \<Rightarrow> 64 word \<Rightarrow> 64 word \<Rightarrow> 64 word \<times> 64 word" where
  "bitmap_izte bitmap_then bitmap_else b = (b, if b = 0 then bitmap_then else bitmap_else)"

definition bitmap_or :: "64 word \<Rightarrow> 64 word \<Rightarrow> bool \<times> 64 word" where
  "bitmap_or v b = (b \<noteq> 0, b OR v)"

definition mWaitSignal :: nat where
  "mWaitSignal = 63"

record signaler =
  mBitmap :: "64 word"
  mSemaphore :: nat

definition signaler_new :: signaler where
  "signaler_new = \<lparr>mBitmap = 0, mSemaphore = 0\<rparr>"

text \<open>\<open>signal\<close> up to its bitmap operation (it posts when the result is true) and \<open>post\<close>.\<close>

definition signal_btsr :: "nat \<Rightarrow> signaler \<Rightarrow> bool \<times> signaler" where
  "signal_btsr signal g = (let (r, b) = bitmap_btsr signal mWaitSignal (mBitmap g) in (r, g\<lparr>mBitmap := b\<rparr>))"

definition sem_post :: "signaler \<Rightarrow> signaler" where
  "sem_post g = g\<lparr>mSemaphore := mSemaphore g + 1\<rparr>"

text \<open>\<open>wait\<close> blocks while the semaphore is zero.\<close>

definition sem_wait :: "signaler \<Rightarrow> signaler option" where
  "sem_wait g = (if mSemaphore g = 0 then None else Some (g\<lparr>mSemaphore := mSemaphore g - 1\<rparr>))"

text \<open>\<open>poll\<close> up to the first bitmap operation; a result of zero means that it goes on to \<open>wait\<close> and \<open>check\<close>.\<close>

definition poll_izte :: "signaler \<Rightarrow> 64 word \<times> signaler" where
  "poll_izte g = (let (r, b) = bitmap_izte (push_bit mWaitSignal 1) 0 (mBitmap g) in (r, g\<lparr>mBitmap := b\<rparr>))"

definition check :: "signaler \<Rightarrow> 64 word \<times> signaler" where
  "check g = (let (r, b) = bitmap_xchg 0 (mBitmap g) in (r, g\<lparr>mBitmap := b\<rparr>))"

definition bitOr :: "64 word \<Rightarrow> signaler \<Rightarrow> 64 word \<times> signaler" where
  "bitOr bitmap g = (let (r, b) = bitmap_or bitmap (mBitmap g) in (of_bool r, g\<lparr>mBitmap := b\<rparr>))"

definition bitReset :: "nat \<Rightarrow> signaler \<Rightarrow> signaler" where
  "bitReset i g = g\<lparr>mBitmap := snd (bitmap_btsr i i (mBitmap g))\<rparr>"

section \<open>The dispatcher\<close>

record ('q, 'p, 'a) dispatcher =
  mMaxThreadContextCount :: nat
  mPipes :: "('q, 'p, 'a) pipe_sys list"
  mSignalers :: "signaler option list"
  mAttachedFlags :: "bool list"

definition MAX_THREADS :: nat where
  "MAX_THREADS = 63"

definition Dispatcher_new :: "('q, 'p, 'a) queue_ops \<Rightarrow> 'q \<Rightarrow> nat \<Rightarrow> ('q, 'p, 'a) dispatcher result" where
  "Dispatcher_new Q q n =
     rbind (assert_that (n \<le> MAX_THREADS)) (\<lambda>_. rbind (pipe_start Q q) (\<lambda>P.
       Inr \<lparr>mMaxThreadContextCount = n, mPipes = replicate (n * n) P, mSignalers = replicate n None,
            mAttachedFlags = replicate n False\<rparr>))"

fun delete_pipes :: "('q \<Rightarrow> 'q result) \<Rightarrow> ('q, 'p, 'a) pipe_sys list \<Rightarrow> 'q list result" where
  "delete_pipes del [] = Inr []"
| "delete_pipes del (P # Ps) = rbind (del (pqueue (spipe P))) (\<lambda>q. rbind (delete_pipes del Ps) (\<lambda>qs. Inr (q # qs)))"

text \<open>The destructor; \<open>del\<close> is the destructor of the queue and the result what is left of every queue.\<close>

definition Dispatcher_delete :: "('q \<Rightarrow> 'q result) \<Rightarrow> ('q, 'p, 'a) dispatcher \<Rightarrow> 'q list result" where
  "Dispatcher_delete del D = rbind (assert_that (True \<notin> set (mAttachedFlags D))) (\<lambda>_. delete_pipes del (mPipes D))"

definition nth_or_fault :: "'a list \<Rightarrow> nat \<Rightarrow> 'a result" where
  "nth_or_fault xs i = (if i < length xs then Inr (xs ! i) else Inl MemFault)"

definition choose_context :: "int \<Rightarrow> bool list \<Rightarrow> int" where
  "choose_context contextId flags =
     (if contextId = - 1 then (case find (\<lambda>i. \<not> flags ! i) [0..<length flags] of None \<Rightarrow> - 1 | Some i \<Rightarrow> int i) else contextId)"

definition createThreadContext :: "int \<Rightarrow> ('q, 'p, 'a) dispatcher \<Rightarrow> (nat \<times> ('q, 'p, 'a) dispatcher) result" where
  "createThreadContext contextId D =
     (let c = choose_context contextId (mAttachedFlags D) in
      rbind (assert_that (0 \<le> c)) (\<lambda>_.
      rbind (nth_or_fault (mAttachedFlags D) (nat c)) (\<lambda>b.
      rbind (assert_that (\<not> b)) (\<lambda>_.
        Inr (nat c, D\<lparr>mAttachedFlags := (mAttachedFlags D)[nat c := True],
                      mSignalers := (mSignalers D)[nat c := Some signaler_new]\<rparr>)))))"

definition distroyThreadContext :: "nat \<Rightarrow> ('q, 'p, 'a) dispatcher \<Rightarrow> ('q, 'p, 'a) dispatcher result" where
  "distroyThreadContext contextId D =
     rbind (nth_or_fault (mAttachedFlags D) contextId) (\<lambda>b. rbind (assert_that b) (\<lambda>_.
       Inr (D\<lparr>mAttachedFlags := (mAttachedFlags D)[contextId := False], mSignalers := (mSignalers D)[contextId := None]\<rparr>)))"

text \<open>What \<open>write\<close> and \<open>read\<close> do to the pipe of a pair, and to the signaler of the destination.\<close>

definition pipe_index :: "nat \<Rightarrow> nat \<Rightarrow> ('q, 'p, 'a) dispatcher \<Rightarrow> nat" where
  "pipe_index source destination D = source * mMaxThreadContextCount D + destination"

definition on_pipe :: "nat \<Rightarrow> nat \<Rightarrow> (('q, 'p, 'a) pipe_sys \<Rightarrow> ('b \<times> ('q, 'p, 'a) pipe_sys) result) \<Rightarrow>
    ('q, 'p, 'a) dispatcher \<Rightarrow> ('b \<times> ('q, 'p, 'a) dispatcher) result" where
  "on_pipe source destination f D =
     rbind (nth_or_fault (mPipes D) (pipe_index source destination D)) (\<lambda>P. rbind (f P) (\<lambda>(r, P).
       Inr (r, D\<lparr>mPipes := (mPipes D)[pipe_index source destination D := P]\<rparr>)))"

definition on_signaler :: "nat \<Rightarrow> (signaler \<Rightarrow> 'b \<times> signaler) \<Rightarrow> ('q, 'p, 'a) dispatcher \<Rightarrow> ('b \<times> ('q, 'p, 'a) dispatcher) result" where
  "on_signaler i f D = rbind (nth_or_fault (mSignalers D) i) (\<lambda>p. case p of None \<Rightarrow> Inl MemFault
     | Some g \<Rightarrow> (let (r, g) = f g in Inr (r, D\<lparr>mSignalers := (mSignalers D)[i := Some g]\<rparr>)))"

definition Dispatcher_put :: "('q, 'p, 'a) queue_ops \<Rightarrow> nat \<Rightarrow> nat \<Rightarrow> 'a \<Rightarrow> bool \<Rightarrow> ('q, 'p, 'a) dispatcher \<Rightarrow>
    (unit \<times> ('q, 'p, 'a) dispatcher) result" where
  "Dispatcher_put Q source destination message incomplete =
     on_pipe source destination (\<lambda>P. rbind (pipe_exec Q (Write message incomplete) P) (\<lambda>P. Inr ((), P)))"

text \<open>The result says whether the compare-and-swap of \<open>flush\<close> failed and its second half is to follow.\<close>

definition Dispatcher_flush :: "('q, 'p, 'a) queue_ops \<Rightarrow> nat \<Rightarrow> nat \<Rightarrow> ('q, 'p, 'a) dispatcher \<Rightarrow>
    (bool \<times> ('q, 'p, 'a) dispatcher) result" where
  "Dispatcher_flush Q source destination =
     on_pipe source destination (\<lambda>P. rbind (pipe_exec Q Flush P) (\<lambda>P. Inr (flushing P, P)))"

definition Dispatcher_store :: "('q, 'p, 'a) queue_ops \<Rightarrow> nat \<Rightarrow> nat \<Rightarrow> ('q, 'p, 'a) dispatcher \<Rightarrow>
    (unit \<times> ('q, 'p, 'a) dispatcher) result" where
  "Dispatcher_store Q source destination =
     on_pipe source destination (\<lambda>P. rbind (pipe_exec Q FlushStore P) (\<lambda>P. Inr ((), P)))"

text \<open>The pipe's \<open>read\<close> with its history.\<close>

definition pipe_get :: "('q, 'p, 'a) queue_ops \<Rightarrow> ('q, 'p, 'a) pipe_sys \<Rightarrow> ('a option \<times> ('q, 'p, 'a) pipe_sys) result" where
  "pipe_get Q P = rbind (pipe_read Q (spipe P)) (\<lambda>(r, p).
     Inr (r, P\<lparr>spipe := p, received := received P @ (case r of None \<Rightarrow> [] | Some v \<Rightarrow> [v])\<rparr>))"

definition Dispatcher_read :: "('q, 'p, 'a) queue_ops \<Rightarrow> nat \<Rightarrow> nat \<Rightarrow> ('q, 'p, 'a) dispatcher \<Rightarrow>
    ('a option \<times> ('q, 'p, 'a) dispatcher) result" where
  "Dispatcher_read Q source destination = on_pipe source destination (pipe_get Q)"

section \<open>Threads\<close>

text \<open>
  Where a thread is. \<open>Sending d ms\<close>: in \<open>DispatcherDestination::write\<close> with the messages left; \<open>Flushing\<close>, \<open>Storing\<close>: in the two
  halves of \<open>flush\<close>; \<open>Signalling\<close>, \<open>Posting\<close>: in \<open>signal\<close>. The others are in \<open>DispatcherThreadContext::read\<close> for \<open>count\<close>
  messages: before \<open>check\<close> or \<open>poll\<close>, in \<open>wait\<close>, between \<open>wait\<close> and the exchange, and in the loop with its \<open>signals\<close>, \<open>i\<close> and
  the messages taken (there are \<open>n\<close> of them).
\<close>

datatype 'a thread_pc = Ready | Sending nat "'a list" | Flushing nat | Storing nat | Signalling nat | Posting nat
  | Checking nat | Polling nat | Asleep nat | Awake nat | Draining nat "64 word" nat "(nat \<times> 'a) list"

text \<open>\<open>returns\<close>: for every call of \<open>read\<close> that returned, the result, \<open>count\<close>, and the sources and messages stored.\<close>

record ('q, 'p, 'a) network =
  disp :: "('q, 'p, 'a) dispatcher"
  tpc :: "nat \<Rightarrow> 'a thread_pc"
  returns :: "nat \<Rightarrow> (bool \<times> nat \<times> (nat \<times> 'a) list) list"

definition at_pc :: "nat \<Rightarrow> 'a thread_pc \<Rightarrow> ('q, 'p, 'a) network \<Rightarrow> ('q, 'p, 'a) dispatcher \<Rightarrow> ('q, 'p, 'a) network" where
  "at_pc t p s D = s\<lparr>disp := D, tpc := (tpc s)(t := p)\<rparr>"

definition return_read :: "nat \<Rightarrow> nat \<Rightarrow> (nat \<times> 'a) list \<Rightarrow> ('q, 'p, 'a) network \<Rightarrow> ('q, 'p, 'a) dispatcher \<Rightarrow> ('q, 'p, 'a) network" where
  "return_read t count xs s D =
     (at_pc t Ready s D)\<lparr>returns := (returns s)(t := returns s t @ [(xs \<noteq> [], count, xs)])\<rparr>"

text \<open>The test of \<open>signals\<close> after \<open>check\<close> or \<open>poll\<close>: \<open>count\<close> is not assigned when there are none.\<close>

definition got_signals :: "nat \<Rightarrow> nat \<Rightarrow> 64 word \<Rightarrow> ('q, 'p, 'a) network \<Rightarrow> ('q, 'p, 'a) dispatcher \<Rightarrow> ('q, 'p, 'a) network" where
  "got_signals t count signals s D =
     (if signals \<noteq> 0 then at_pc t (Draining count signals 0 []) s D else return_read t count [] s D)"

text \<open>One pass of the loop of \<open>read\<close>, and \<open>bitOr\<close> when it is over.\<close>

definition drain_step :: "('q, 'p, 'a) queue_ops \<Rightarrow> nat \<Rightarrow> nat \<Rightarrow> 64 word \<Rightarrow> nat \<Rightarrow> (nat \<times> 'a) list \<Rightarrow>
    ('q, 'p, 'a) network \<Rightarrow> ('q, 'p, 'a) network result" where
  "drain_step Q t count signals i xs s =
     (if i < mMaxThreadContextCount (disp s) \<and> length xs < count then
        if bit signals i then
          rbind (Dispatcher_read Q i t (disp s)) (\<lambda>(r, D). case r of
            None \<Rightarrow> Inr (at_pc t (Draining count (unset_bit i signals) (i + 1) xs) s D)
          | Some m \<Rightarrow> Inr (at_pc t (Draining count signals i (xs @ [(i, m)])) s D))
        else Inr (at_pc t (Draining count signals (i + 1) xs) s (disp s))
      else rbind (on_signaler t (bitOr signals) (disp s)) (\<lambda>(_, D). Inr (return_read t (length xs) xs s D)))"

text \<open>A thread in \<open>wait\<close> stays where it is while the semaphore is zero.\<close>

definition wait_step :: "nat \<Rightarrow> nat \<Rightarrow> ('q, 'p, 'a) network \<Rightarrow> ('q, 'p, 'a) network result" where
  "wait_step t count s =
     rbind (on_signaler t (\<lambda>g. case sem_wait g of None \<Rightarrow> (False, g) | Some g \<Rightarrow> (True, g)) (disp s)) (\<lambda>(ok, D).
       Inr (if ok then at_pc t (Awake count) s D else s))"

fun net_step :: "('q, 'p, 'a) queue_ops \<Rightarrow> nat \<Rightarrow> 'a thread_pc \<Rightarrow> ('q, 'p, 'a) network \<Rightarrow> ('q, 'p, 'a) network result" where
  "net_step Q t Ready s = Inr s"
| "net_step Q t (Sending d []) s = Inl MemFault"
| "net_step Q t (Sending d [m]) s = rbind (Dispatcher_put Q t d m False (disp s)) (\<lambda>(_, D). Inr (at_pc t (Flushing d) s D))"
| "net_step Q t (Sending d (m # m' # ms)) s =
     rbind (Dispatcher_put Q t d m True (disp s)) (\<lambda>(_, D). Inr (at_pc t (Sending d (m' # ms)) s D))"
| "net_step Q t (Flushing d) s =
     rbind (Dispatcher_flush Q t d (disp s)) (\<lambda>(failed, D). Inr (at_pc t (if failed then Storing d else Signalling d) s D))"
| "net_step Q t (Storing d) s = rbind (Dispatcher_store Q t d (disp s)) (\<lambda>(_, D). Inr (at_pc t (Signalling d) s D))"
| "net_step Q t (Signalling d) s =
     rbind (on_signaler d (signal_btsr t) (disp s)) (\<lambda>(waits, D). Inr (at_pc t (if waits then Posting d else Ready) s D))"
| "net_step Q t (Posting d) s =
     rbind (on_signaler d (\<lambda>g. ((), sem_post g)) (disp s)) (\<lambda>(_, D). Inr (at_pc t Ready s D))"
| "net_step Q t (Checking count) s =
     rbind (on_signaler t check (disp s)) (\<lambda>(signals, D). Inr (got_signals t count signals s D))"
| "net_step Q t (Polling count) s =
     rbind (on_signaler t poll_izte (disp s)) (\<lambda>(signals, D).
       Inr (if signals = 0 then at_pc t (Asleep count) s D else got_signals t count signals s D))"
| "net_step Q t (Asleep count) s = wait_step t count s"
| "net_step Q t (Awake count) s =
     rbind (on_signaler t check (disp s)) (\<lambda>(signals, D). Inr (got_signals t count signals s D))"
| "net_step Q t (Draining count signals i xs) s = drain_step Q t count signals i xs s"

text \<open>
  What happens next: a thread context is created or destroyed, a thread calls \<open>DispatcherDestination::write\<close> for some messages or
  \<open>DispatcherThreadContext::read\<close>, or a thread that is in a call makes a step. Only a thread with a context, outside of every
  call, can begin one.
\<close>

datatype 'a net_act = Create int | Destroy nat | Send nat nat "'a list" | Recv nat nat bool | Step nat

definition can_call :: "nat \<Rightarrow> ('q, 'p, 'a) network \<Rightarrow> bool" where
  "can_call t s \<longleftrightarrow> t < length (mAttachedFlags (disp s)) \<and> mAttachedFlags (disp s) ! t \<and> tpc s t = Ready"

primrec net_exec :: "('q, 'p, 'a) queue_ops \<Rightarrow> 'a net_act \<Rightarrow> ('q, 'p, 'a) network \<Rightarrow> ('q, 'p, 'a) network result" where
  "net_exec Q (Create contextId) s = rbind (createThreadContext contextId (disp s)) (\<lambda>(t, D). Inr (at_pc t Ready s D))"
| "net_exec Q (Destroy t) s =
     (if can_call t s then rbind (distroyThreadContext t (disp s)) (\<lambda>D. Inr (at_pc t Ready s D)) else Inr s)"
| "net_exec Q (Send t d messages) s = Inr (if can_call t s then at_pc t (Sending d messages) s (disp s) else s)"
| "net_exec Q (Recv t count blocking) s =
     Inr (if can_call t s then at_pc t (if blocking then Polling count else Checking count) s (disp s) else s)"
| "net_exec Q (Step t) s = net_step Q t (tpc s t) s"

fun net_run :: "('q, 'p, 'a) queue_ops \<Rightarrow> 'a net_act list \<Rightarrow> ('q, 'p, 'a) network \<Rightarrow> ('q, 'p, 'a) network result" where
  "net_run Q [] s = Inr s"
| "net_run Q (a # as) s = rbind (net_exec Q a s) (net_run Q as)"

definition net_start :: "('q, 'p, 'a) queue_ops \<Rightarrow> 'q \<Rightarrow> nat \<Rightarrow> ('q, 'p, 'a) network result" where
  "net_start Q q n = rbind (Dispatcher_new Q q n) (\<lambda>D. Inr \<lparr>disp = D, tpc = (\<lambda>_. Ready), returns = (\<lambda>_. [])\<rparr>)"

section \<open>Reading through a destination\<close>

text \<open>
  \<open>DispatcherDestination::read\<close> by a thread that runs alone. Every message is stored in the first element of the caller's
  array, which is the first component of the result.
\<close>

partial_function (option) spin_read :: "('q, 'p, 'a) queue_ops \<Rightarrow> nat \<Rightarrow> nat \<Rightarrow> ('q, 'p, 'a) dispatcher \<Rightarrow>
    ('a \<times> ('q, 'p, 'a) dispatcher) result option" where
  "spin_read Q source destination D =
     (case Dispatcher_read Q source destination D of
        Inl e \<Rightarrow> Some (Inl e)
      | Inr (Some m, D) \<Rightarrow> Some (Inr (m, D))
      | Inr (None, D) \<Rightarrow> spin_read Q source destination D)"

fun Destination_read_loop :: "('q, 'p, 'a) queue_ops \<Rightarrow> nat \<Rightarrow> nat \<Rightarrow> nat \<Rightarrow> 'a option \<Rightarrow> nat \<Rightarrow> ('q, 'p, 'a) dispatcher \<Rightarrow>
    ('a option \<times> bool \<times> ('q, 'p, 'a) dispatcher) result" where
  "Destination_read_loop Q source destination 0 m n D = Inr (m, 0 < n, D)"
| "Destination_read_loop Q source destination (Suc k) m n D =
     rbind (Dispatcher_read Q source destination D) (\<lambda>(r, D). case r of
       None \<Rightarrow> Inr (m, 0 < n, D)
     | Some v \<Rightarrow> Destination_read_loop Q source destination k (Some v) (n + 1) D)"

definition Destination_read :: "('q, 'p, 'a) queue_ops \<Rightarrow> nat \<Rightarrow> nat \<Rightarrow> nat \<Rightarrow> bool \<Rightarrow> ('q, 'p, 'a) dispatcher \<Rightarrow>
    ('a option \<times> bool \<times> ('q, 'p, 'a) dispatcher) result option" where
  "Destination_read Q source destination count blocking D =
     (if blocking then
        case spin_read Q source destination D of None \<Rightarrow> None
        | Some r \<Rightarrow> Some (rbind r (\<lambda>(m, D). Destination_read_loop Q source destination (count - 1) (Some m) 1 D))
      else Some (Destination_read_loop Q source destination count None 0 D))"

end
