(* ===== verification/Dispatcher_Spec.thy ===== *)
theory Dispatcher_Spec
  imports Dispatcher
begin

unbundle bit_operations_syntax

text \<open>
  Correctness of the dispatcher. It relies on its pipes only through the contract \<open>message_pipe\<close>, which the contract of
  the slot queue gives. The invariant \<open>net_inv\<close> has a part for every pair of threads (\<open>link_ok\<close>: no flushed message is left
  without a signal) and a part for every reader (\<open>reader_ok\<close>: the reader sleeps exactly when one token, the wait bit, a post under way
  or the semaphore, is there to wake it).
\<close>

section \<open>The contract of a pipe\<close>

text \<open>A read that returns \<open>r\<close>: the next flushed message, or nothing when every flushed message has been read.\<close>

definition read_effect :: "'a option \<Rightarrow> ('q, 'p, 'a) pipe_sys \<Rightarrow> ('q, 'p, 'a) pipe_sys \<Rightarrow> bool" where
  "read_effect r P P' \<longleftrightarrow> flushing P' = flushing P \<and> sent P' = sent P \<and> complete P' = complete P \<and> flushed P' = flushed P \<and>
      (case r of None \<Rightarrow> received P' = received P \<and> flushed P = length (received P)
       | Some v \<Rightarrow> length (received P) < flushed P \<and> v = sent P ! length (received P) \<and> received P' = received P @ [v])"

lemma read_effect_received: "read_effect r P P' \<Longrightarrow> received P' = received P @ (case r of None \<Rightarrow> [] | Some v \<Rightarrow> [v])"
  by (auto simp: read_effect_def split: option.splits)

locale message_pipe =
  fixes Q :: "('q, 'p, 'a) queue_ops" and pinv :: "('q, 'p, 'a) pipe_sys \<Rightarrow> bool"
  assumes put_law: "pinv P \<Longrightarrow> \<not> flushing P \<Longrightarrow> \<exists>P'. pipe_exec Q (Write v incomplete) P = Inr P' \<and> pinv P' \<and> \<not> flushing P' \<and>
      sent P' = sent P @ [v] \<and> received P' = received P \<and> flushed P' = flushed P \<and>
      complete P' = (if incomplete then complete P else length (sent P'))"
    and flush_law: "pinv P \<Longrightarrow> \<not> flushing P \<Longrightarrow> \<exists>P'. pipe_exec Q Flush P = Inr P' \<and> pinv P' \<and> sent P' = sent P \<and>
      received P' = received P \<and> complete P' = complete P \<and> flushed P' = (if flushing P' then flushed P else complete P)"
    and store_law: "pinv P \<Longrightarrow> flushing P \<Longrightarrow> \<exists>P'. pipe_exec Q FlushStore P = Inr P' \<and> pinv P' \<and> \<not> flushing P' \<and>
      sent P' = sent P \<and> received P' = received P \<and> complete P' = complete P \<and> flushed P' = complete P"
    and get_law: "pinv P \<Longrightarrow> \<exists>r P'. pipe_get Q P = Inr (r, P') \<and> pinv P' \<and> read_effect r P P'"
    and counts: "pinv P \<Longrightarrow> length (received P) \<le> flushed P \<and> flushed P \<le> complete P \<and> complete P \<le> length (sent P) \<and>
      received P = take (length (received P)) (sent P)"

lemma pipe_exec_Read: "pipe_exec Q Read P = rbind (pipe_get Q P) (\<lambda>(r, P). Inr P)"
  by (cases "pipe_read Q (spipe P)") (auto simp: pipe_get_def)

context slot_queue
begin

lemma pipe_contract: "message_pipe Q (pipe_inv rep)"
proof
  fix P v incomplete
  assume inv: "pipe_inv rep P"
  show "length (received P) \<le> flushed P \<and> flushed P \<le> complete P \<and> complete P \<le> length (sent P) \<and>
      received P = take (length (received P)) (sent P)"
    using inv_prefix [OF inv] by blast
  show "\<exists>r P'. pipe_get Q P = Inr (r, P') \<and> pipe_inv rep P' \<and> read_effect r P P'"
  proof -
    obtain P' where P': "pipe_exec Q Read P = Inr P'" "pipe_inv rep P'"
      "received P' = received P \<longrightarrow> flushed P = length (received P)" using read_inv [OF inv] by blast
    from P'(1) obtain r where r: "pipe_get Q P = Inr (r, P')"
      by (auto simp: pipe_exec_Read rbind_simps simp del: pipe_exec.simps)
    then have same: "flushing P' = flushing P" "sent P' = sent P" "complete P' = complete P" "flushed P' = flushed P"
      "received P' = received P @ (case r of None \<Rightarrow> [] | Some v \<Rightarrow> [v])"
      by (auto simp: pipe_get_def rbind_simps)
    have "length (received P) < flushed P \<and> v = sent P ! length (received P)" if "r = Some v" for v
      using inv_prefix [OF P'(2)] same that
      by (metis append_eq_conv_conj length_append_singleton less_eq_Suc_le nth_append_length nth_take lessI option.simps(5))
    then show ?thesis using r P' same by (auto simp: read_effect_def split: option.split)
  qed
  show "\<exists>P'. pipe_exec Q FlushStore P = Inr P' \<and> pipe_inv rep P' \<and> \<not> flushing P' \<and>
      sent P' = sent P \<and> received P' = received P \<and> complete P' = complete P \<and> flushed P' = complete P" if "flushing P"
  proof -
    obtain P' where "pipe_exec Q FlushStore P = Inr P'" "pipe_inv rep P'" using flush_inv(2) [OF inv] by blast
    with that show ?thesis by auto
  qed
  assume nf: "\<not> flushing P"
  show "\<exists>P'. pipe_exec Q Flush P = Inr P' \<and> pipe_inv rep P' \<and> sent P' = sent P \<and> received P' = received P \<and>
      complete P' = complete P \<and> flushed P' = (if flushing P' then flushed P else complete P)"
  proof -
    obtain P' where "pipe_exec Q Flush P = Inr P'" "pipe_inv rep P'" using flush_inv(1) [OF inv] by blast
    with nf show ?thesis by (auto split: prod.splits)
  qed
  obtain P' where P': "pipe_exec Q (Write v incomplete) P = Inr P'" "pipe_inv rep P'" using write_inv [OF inv] by blast
  then show "\<exists>P'. pipe_exec Q (Write v incomplete) P = Inr P' \<and> pipe_inv rep P' \<and> \<not> flushing P' \<and>
      sent P' = sent P @ [v] \<and> received P' = received P \<and> flushed P' = flushed P \<and>
      complete P' = (if incomplete then complete P else length (sent P'))"
    using nf by (auto simp: rbind_simps)
qed

end

sublocale slot_queue \<subseteq> msg: message_pipe Q "pipe_inv rep"
  by (rule pipe_contract)

section \<open>The parts of the state\<close>

definition pipe_of :: "('q, 'p, 'a) dispatcher \<Rightarrow> nat \<Rightarrow> nat \<Rightarrow> ('q, 'p, 'a) pipe_sys" where
  "pipe_of D t d = mPipes D ! pipe_index t d D"

definition bits :: "('q, 'p, 'a) dispatcher \<Rightarrow> nat \<Rightarrow> 64 word" where
  "bits D d = (case mSignalers D ! d of None \<Rightarrow> 0 | Some g \<Rightarrow> mBitmap g)"

fun local_signals :: "'a thread_pc \<Rightarrow> 64 word" where
  "local_signals (Draining count signals i xs) = signals"
| "local_signals _ = 0"

fun taken_now :: "'a thread_pc \<Rightarrow> (nat \<times> 'a) list" where
  "taken_now (Draining count signals i xs) = xs"
| "taken_now _ = []"

text \<open>What thread \<open>d\<close> has taken out of its pipes: the messages of the calls that returned and of the one under way.\<close>

definition delivered :: "('q, 'p, 'a) network \<Rightarrow> nat \<Rightarrow> (nat \<times> 'a) list" where
  "delivered s d = concat (map (snd \<circ> snd) (returns s d)) @ taken_now (tpc s d)"

definition from_source :: "nat \<Rightarrow> (nat \<times> 'a) list \<Rightarrow> 'a list" where
  "from_source t xs = map snd (filter (\<lambda>x. fst x = t) xs)"

lemma from_source_simps: "from_source t [] = []" "from_source t [(i, v)] = (if t = i then [v] else [])"
  "from_source t (xs @ ys) = from_source t xs @ from_source t ys"
  by (simp_all add: from_source_def)

definition posters :: "('q, 'p, 'a) network \<Rightarrow> nat \<Rightarrow> nat set" where
  "posters s d = {t. tpc s t = Posting d}"

fun pc_target :: "'a thread_pc \<Rightarrow> nat option" where
  "pc_target (Sending d ms) = Some d"
| "pc_target (Flushing d) = Some d"
| "pc_target (Storing d) = Some d"
| "pc_target (Signalling d) = Some d"
| "pc_target (Posting d) = Some d"
| "pc_target _ = None"

definition asleep :: "'a thread_pc \<Rightarrow> bool" where
  "asleep p \<longleftrightarrow> (\<exists>count. p = Asleep count)"

section \<open>The invariant\<close>

definition link_ok :: "(('q, 'p, 'a) pipe_sys \<Rightarrow> bool) \<Rightarrow> nat \<Rightarrow> nat \<Rightarrow> ('q, 'p, 'a) pipe_sys \<Rightarrow> 'a thread_pc \<Rightarrow> 64 word \<Rightarrow>
    (nat \<times> 'a) list \<Rightarrow> bool" where
  "link_ok pinv t d P p signals xs \<longleftrightarrow>
     pinv P \<and> (flushing P \<longleftrightarrow> p = Storing d) \<and> from_source t xs = received P \<and>
     (length (received P) < flushed P \<longrightarrow> p = Signalling d \<or> bit signals t)"

definition reader_ok :: "signaler option \<Rightarrow> 'a thread_pc \<Rightarrow> nat set \<Rightarrow> bool" where
  "reader_ok h p posting \<longleftrightarrow> finite posting \<and> (case h of
       None \<Rightarrow> p = Ready \<and> posting = {}
     | Some g \<Rightarrow> of_bool (bit (mBitmap g) mWaitSignal) + mSemaphore g + card posting = of_bool (asleep p) \<and>
         (bit (mBitmap g) mWaitSignal \<longrightarrow> mBitmap g = push_bit mWaitSignal 1) \<and> \<not> bit (local_signals p) mWaitSignal)"

definition net_inv :: "(('q, 'p, 'a) pipe_sys \<Rightarrow> bool) \<Rightarrow> nat \<Rightarrow> ('q, 'p, 'a) network \<Rightarrow> bool" where
  "net_inv pinv n s \<longleftrightarrow>
     n \<le> MAX_THREADS \<and> mMaxThreadContextCount (disp s) = n \<and> length (mPipes (disp s)) = n * n \<and>
     length (mSignalers (disp s)) = n \<and> length (mAttachedFlags (disp s)) = n \<and>
     (\<forall>d<n. mAttachedFlags (disp s) ! d = (mSignalers (disp s) ! d \<noteq> None)) \<and>
     (\<forall>t. tpc s t \<noteq> Ready \<longrightarrow> t < n) \<and> (\<forall>t d. pc_target (tpc s t) = Some d \<longrightarrow> d < n) \<and>
     (\<forall>d<n. reader_ok (mSignalers (disp s) ! d) (tpc s d) (posters s d)) \<and>
     (\<forall>t<n. \<forall>d<n. link_ok pinv t d (pipe_of (disp s) t d) (tpc s t) (bits (disp s) d OR local_signals (tpc s d)) (delivered s d))"

lemma bit_btsr:
  "fst (bitmap_btsr i mWaitSignal b) = bit b mWaitSignal"
  "i < mWaitSignal \<Longrightarrow> bit (snd (bitmap_btsr i mWaitSignal b)) j \<longleftrightarrow> j \<noteq> mWaitSignal \<and> (bit b j \<or> j = i)"
  by (auto simp: bitmap_btsr_def mWaitSignal_def bit_simps)

lemma bit_wait: "bit (push_bit mWaitSignal (1 :: 64 word)) j \<longleftrightarrow> j = mWaitSignal"
  unfolding bit_push_bit_iff by (auto simp: mWaitSignal_def bit_1_iff)

lemma pipe_index_less: "t < n \<Longrightarrow> d < n \<Longrightarrow> t * n + d < n * (n :: nat)"
  by (metis add_less_cancel_left less_le_trans mult_Suc mult_le_mono1 Suc_leI add.commute)

lemma pipe_index_inj: "d < n \<Longrightarrow> d' < n \<Longrightarrow> t * n + d = t' * n + d' \<longleftrightarrow> t = t' \<and> d = (d' :: nat)"
  by (metis add.commute mod_mult_self1 mod_less nonzero_mult_div_cancel_right div_mult_self1 div_less add_0 less_zeroE mult.commute)


section \<open>Updates of the parts\<close>

definition set_pipe :: "nat \<Rightarrow> nat \<Rightarrow> ('q, 'p, 'a) pipe_sys \<Rightarrow> ('q, 'p, 'a) dispatcher \<Rightarrow> ('q, 'p, 'a) dispatcher" where
  "set_pipe t d P D = D\<lparr>mPipes := (mPipes D)[pipe_index t d D := P]\<rparr>"

definition set_signaler :: "nat \<Rightarrow> signaler \<Rightarrow> ('q, 'p, 'a) dispatcher \<Rightarrow> ('q, 'p, 'a) dispatcher" where
  "set_signaler d g D = D\<lparr>mSignalers := (mSignalers D)[d := Some g]\<rparr>"

lemma set_pipe_simps [simp]:
  "mMaxThreadContextCount (set_pipe t d P D) = mMaxThreadContextCount D" "length (mPipes (set_pipe t d P D)) = length (mPipes D)"
  "mSignalers (set_pipe t d P D) = mSignalers D" "mAttachedFlags (set_pipe t d P D) = mAttachedFlags D"
  "bits (set_pipe t d P D) = bits D"
  by (simp_all add: set_pipe_def bits_def fun_eq_iff)

lemma set_signaler_simps [simp]:
  "mMaxThreadContextCount (set_signaler d g D) = mMaxThreadContextCount D" "mPipes (set_signaler d g D) = mPipes D"
  "length (mSignalers (set_signaler d g D)) = length (mSignalers D)" "mAttachedFlags (set_signaler d g D) = mAttachedFlags D"
  "pipe_of (set_signaler d g D) = pipe_of D"
  by (simp_all add: set_signaler_def pipe_of_def pipe_index_def fun_eq_iff)

lemma nth_set_signaler [simp]:
  "d < length (mSignalers D) \<Longrightarrow> mSignalers (set_signaler d g D) ! d' = (if d' = d then Some g else mSignalers D ! d')"
  "d < length (mSignalers D) \<Longrightarrow> bits (set_signaler d g D) d' = (if d' = d then mBitmap g else bits D d')"
  by (auto simp: set_signaler_def bits_def nth_list_update)

lemma pipe_of_set_pipe:
  assumes "mMaxThreadContextCount D = n" "length (mPipes D) = n * n" "t < n" "d < n" "d' < n"
  shows "pipe_of (set_pipe t d P D) t' d' = (if t' = t \<and> d' = d then P else pipe_of D t' d')"
  using assms pipe_index_less [of t n d] pipe_index_inj [of d n d' t t']
  by (auto simp: pipe_of_def set_pipe_def pipe_index_def nth_list_update)

lemma on_pipe_eq:
  assumes "mMaxThreadContextCount D = n" "length (mPipes D) = n * n" "t < n" "d < n"
  shows "on_pipe t d f D = rbind (f (pipe_of D t d)) (\<lambda>(r, P). Inr (r, set_pipe t d P D))"
  using assms pipe_index_less [of t n d] by (simp add: on_pipe_def nth_or_fault_def pipe_of_def pipe_index_def set_pipe_def)

lemma on_signaler_eq:
  "d < length (mSignalers D) \<Longrightarrow> mSignalers D ! d = Some g \<Longrightarrow> on_signaler d f D = Inr (fst (f g), set_signaler d (snd (f g)) D)"
  by (simp add: on_signaler_def nth_or_fault_def set_signaler_def split_beta Let_def)

lemma on_signaler_Inr_iff:
  "on_signaler d f D = Inr (r, D') \<longleftrightarrow> d < length (mSignalers D) \<and>
     (\<exists>g. mSignalers D ! d = Some g \<and> r = fst (f g) \<and> D' = set_signaler d (snd (f g)) D)"
  by (auto simp: on_signaler_def nth_or_fault_def set_signaler_def split_beta Let_def split: option.splits)

lemma at_pc_simps [simp]: "disp (at_pc t p s D) = D" "tpc (at_pc t p s D) = (tpc s)(t := p)" "returns (at_pc t p s D) = returns s"
  by (simp_all add: at_pc_def)

lemma return_read_simps [simp]: "disp (return_read t c xs s D) = D" "tpc (return_read t c xs s D) = (tpc s)(t := Ready)"
  "returns (return_read t c xs s D) = (returns s)(t := returns s t @ [(xs \<noteq> [], c, xs)])"
  by (simp_all add: return_read_def)

lemma posters_upd: "tpc s' = (tpc s)(t := p) \<Longrightarrow>
    posters s' d = (if p = Posting d then insert t (posters s d) else posters s d - {t})"
  by (auto simp: posters_def)

lemma not_poster: "tpc s t \<noteq> Posting d \<Longrightarrow> posters s d - {t} = posters s d"
  by (auto simp: posters_def)

lemma net_invD:
  assumes "net_inv pinv n s"
  shows "n \<le> MAX_THREADS" "mMaxThreadContextCount (disp s) = n" "length (mPipes (disp s)) = n * n"
    "length (mSignalers (disp s)) = n" "length (mAttachedFlags (disp s)) = n"
    "\<And>d. d < n \<Longrightarrow> mAttachedFlags (disp s) ! d = (mSignalers (disp s) ! d \<noteq> None)" "\<And>t. tpc s t \<noteq> Ready \<Longrightarrow> t < n"
    "\<And>t d. pc_target (tpc s t) = Some d \<Longrightarrow> d < n"
    "\<And>d. d < n \<Longrightarrow> reader_ok (mSignalers (disp s) ! d) (tpc s d) (posters s d)"
    "\<And>t d. t < n \<Longrightarrow> d < n \<Longrightarrow>
      link_ok pinv t d (pipe_of (disp s) t d) (tpc s t) (bits (disp s) d OR local_signals (tpc s d)) (delivered s d)"
  using assms unfolding net_inv_def by blast+

text \<open>What a step of thread \<open>t\<close> has to keep.\<close>

lemma net_inv_stepI:
  assumes "net_inv pinv n s" "t < n" "tpc s' = (tpc s)(t := p)" "\<And>d. pc_target p = Some d \<Longrightarrow> d < n"
    and "mMaxThreadContextCount (disp s') = n" "length (mPipes (disp s')) = n * n" "length (mSignalers (disp s')) = n"
    and "mAttachedFlags (disp s') = mAttachedFlags (disp s)"
    and "\<And>d. d < n \<Longrightarrow> (mSignalers (disp s') ! d = None) = (mSignalers (disp s) ! d = None)"
    and "\<And>d. d < n \<Longrightarrow> reader_ok (mSignalers (disp s') ! d) (tpc s' d) (posters s' d)"
    and "\<And>t d. t < n \<Longrightarrow> d < n \<Longrightarrow>
      link_ok pinv t d (pipe_of (disp s') t d) (tpc s' t) (bits (disp s') d OR local_signals (tpc s' d)) (delivered s' d)"
  shows "net_inv pinv n s'"
  using assms net_invD(1-8) [OF assms(1)] unfolding net_inv_def by (auto split: if_splits)

text \<open>A step that changes neither the signalers nor what the thread knows as a reader.\<close>

definition same_role :: "'a thread_pc \<Rightarrow> 'a thread_pc \<Rightarrow> bool" where
  "same_role p p' \<longleftrightarrow> local_signals p' = local_signals p \<and> asleep p' = asleep p \<and> p' \<noteq> Ready \<and>
     (\<forall>d. p \<noteq> Posting d \<and> p' \<noteq> Posting d)"

lemma reader_ok_same_role:
  "reader_ok h p A \<Longrightarrow> h \<noteq> None \<Longrightarrow> same_role p p' \<Longrightarrow> reader_ok h p' A"
  by (auto simp: reader_ok_def same_role_def split: option.splits)


lemma reader_attached:
  assumes "net_inv pinv n s" "tpc s t \<noteq> Ready"
  obtains g where "t < n" "mSignalers (disp s) ! t = Some g"
  using net_invD(7,9) [OF assms(1)] assms(2) by (fastforce simp: reader_ok_def split: option.splits)

lemma target_Some_not_reader: "pc_target p = Some d \<Longrightarrow> taken_now p = [] \<and> local_signals p = 0 \<and> \<not> asleep p \<and> p \<noteq> Ready"
  by (cases p) (auto simp: asleep_def)

lemma target_flags: "pc_target p = Some d \<Longrightarrow> d' \<noteq> d \<Longrightarrow> p \<noteq> Storing d' \<and> p \<noteq> Signalling d' \<and> p \<noteq> Posting d'"
  by auto

lemma delivered_upd: "returns s' = returns s \<Longrightarrow> taken_now (tpc s' d) = taken_now (tpc s d) \<Longrightarrow> delivered s' d = delivered s d"
  by (simp add: delivered_def)

lemma inv_write_pipe:
  assumes inv: "net_inv pinv n s" and p: "tpc s t = p" "pc_target p = Some d" "pc_target p' = Some d" "p \<noteq> Posting d" "p' \<noteq> Posting d"
    and P': "pinv P'" "flushing P' \<longleftrightarrow> p' = Storing d" "received P' = received (pipe_of (disp s) t d)"
      "length (received P') < flushed P' \<Longrightarrow> p' = Signalling d \<or> p \<noteq> Signalling d \<and> flushed P' = flushed (pipe_of (disp s) t d)"
  shows "net_inv pinv n (at_pc t p' s (set_pipe t d P' (disp s)))" (is "net_inv _ _ ?s")
proof -
  note I = net_invD [OF inv] and q = target_Some_not_reader [OF p(2)] and q' = target_Some_not_reader [OF p(3)]
  obtain g where g: "t < n" "mSignalers (disp s) ! t = Some g" using inv by (rule reader_attached) (use p(1) q in auto)
  have dn: "d < n" using I(8) p(1,2) by blast
  have np: "posters ?s d' = posters s d'" for d'
    using p target_flags [OF p(2), of d'] target_flags [OF p(3), of d'] by (cases "d' = d") (auto simp: posters_def)
  have dl: "delivered ?s d' = delivered s d'" for d' using p(1) q q' by (simp add: delivered_def)
  have ls: "local_signals (tpc ?s d') = local_signals (tpc s d')" for d' using p(1) q q' by simp
  show ?thesis
  proof (rule net_inv_stepI [OF inv g(1), of _ p'])
    show "reader_ok (mSignalers (disp ?s) ! d') (tpc ?s d') (posters ?s d')" if "d' < n" for d'
      using I(9) [OF that] p(1) q q' g(2) unfolding np by (auto simp: reader_ok_def)
    show "link_ok pinv t' d' (pipe_of (disp ?s) t' d') (tpc ?s t') (bits (disp ?s) d' OR local_signals (tpc ?s d')) (delivered ?s d')"
      if "t' < n" "d' < n" for t' d'
      using I(10) [OF that] p(1) P' target_flags [OF p(2)] target_flags [OF p(3)] pipe_of_set_pipe [OF I(2,3) g(1) dn that(2)]
      unfolding dl ls by (auto simp: link_ok_def)
  qed (use I dn p(3) in auto)
qed

text \<open>A step in which only the position of the thread changes, to one at which it knows the same.\<close>

lemma inv_move:
  assumes inv: "net_inv pinv n s" and t: "t < n" "mSignalers (disp s) ! t \<noteq> None"
    and p: "local_signals p' = local_signals (tpc s t)" "taken_now p' = taken_now (tpc s t)" "\<not> asleep (tpc s t)" "\<not> asleep p'"
      "\<And>d. pc_target (tpc s t) = Some d \<Longrightarrow> False" "\<And>d. pc_target p' = Some d \<Longrightarrow> d < n"
      "\<And>d. p' \<noteq> Posting d \<and> p' \<noteq> Storing d"
  shows "net_inv pinv n (at_pc t p' s (disp s))" (is "net_inv _ _ ?s")
proof -
  note I = net_invD [OF inv]
  have tf: "tpc s t \<noteq> Posting d \<and> tpc s t \<noteq> Storing d \<and> tpc s t \<noteq> Signalling d" for d using p(5) by (cases "tpc s t") auto
  have np: "posters ?s d' = posters s d'" for d' using p(7) tf by (auto simp: posters_def)
  have dl: "delivered ?s d' = delivered s d'" for d' using p(2) by (simp add: delivered_def)
  have ls: "local_signals (tpc ?s d') = local_signals (tpc s d')" for d' using p(1) by simp
  show ?thesis
  proof (rule net_inv_stepI [OF inv t(1), of _ p'])
    show "reader_ok (mSignalers (disp ?s) ! d') (tpc ?s d') (posters ?s d')" if "d' < n" for d'
      using I(9) [OF that] p(1,3,4) t unfolding np by (auto simp: reader_ok_def)
    show "link_ok pinv t' d' (pipe_of (disp ?s) t' d') (tpc ?s t') (bits (disp ?s) d' OR local_signals (tpc ?s d')) (delivered ?s d')"
      if "t' < n" "d' < n" for t' d'
      using I(10) [OF that] p(7) tf unfolding dl ls by (auto simp: link_ok_def)
  qed (use I p in auto)
qed

text \<open>\<open>signal\<close> and \<open>post\<close>.\<close>

lemma inv_signal:
  assumes inv: "net_inv pinv n s" and p: "tpc s t = Signalling d" and g: "mSignalers (disp s) ! d = Some g"
  shows "net_inv pinv n (at_pc t (if fst (signal_btsr t g) then Posting d else Ready) s (set_signaler d (snd (signal_btsr t g)) (disp s)))"
    (is "net_inv _ _ ?s")
proof -
  note I = net_invD [OF inv]
  have tn: "t < n" "d < n" "t < mWaitSignal" using I(1) I(7) [of t] I(8) [of t d] p by (simp_all add: MAX_THREADS_def mWaitSignal_def)
  let ?p = "if fst (signal_btsr t g) then Posting d else Ready"
  have b: "fst (signal_btsr t g) = bit (mBitmap g) mWaitSignal" "mSemaphore (snd (signal_btsr t g)) = mSemaphore g"
    "\<And>j. bit (mBitmap (snd (signal_btsr t g))) j \<longleftrightarrow> j \<noteq> mWaitSignal \<and> (bit (mBitmap g) j \<or> j = t)"
    using bit_btsr(2) [OF tn(3)] by (auto simp: signal_btsr_def split_beta Let_def bitmap_btsr_def)
  have np: "posters ?s d' = (if d' = d \<and> bit (mBitmap g) mWaitSignal then insert t (posters s d) else posters s d')" for d'
    using p b(1) by (auto simp: posters_def)
  have nt: "t \<notin> posters s d'" for d' using p by (simp add: posters_def)
  have dl: "delivered ?s d' = delivered s d'" for d' using p by (simp add: delivered_def)
  have ls: "local_signals (tpc ?s d') = local_signals (tpc s d')" for d' using p by simp
  have "asleep (tpc s d) \<Longrightarrow> d \<noteq> t" using p by (auto simp: asleep_def)
  then have pd: "asleep (tpc ?s d) = asleep (tpc s d)" "local_signals (tpc ?s d) = local_signals (tpc s d)"
    using p by (auto simp: asleep_def)
  have R: "of_bool (bit (mBitmap g) mWaitSignal) + mSemaphore g + card (posters s d) = of_bool (asleep (tpc s d))"
    "finite (posters s d)" "\<not> bit (local_signals (tpc s d)) mWaitSignal"
    using I(9) [OF tn(2)] g by (simp_all add: reader_ok_def)
  have card: "card (posters ?s d) = of_bool (bit (mBitmap g) mWaitSignal) + card (posters s d)" using R(2) nt [of d] by (simp add: np)
  have own: "reader_ok (Some (snd (signal_btsr t g))) (tpc ?s d) (posters ?s d)"
    unfolding reader_ok_def option.case pd card b(2) using R b(3) [of mWaitSignal] by (simp add: np)
  have other: "reader_ok h (tpc ?s d') A \<longleftrightarrow> reader_ok h (tpc s d') A" if "h \<noteq> None" for h d' A
    using that p by (auto simp: reader_ok_def asleep_def)
  have att: "d' \<noteq> t \<or> mSignalers (disp s) ! d' \<noteq> None" for d' using reader_attached [OF inv, of t] p by auto
  show ?thesis
  proof (rule net_inv_stepI [OF inv tn(1), of _ ?p])
    show "reader_ok (mSignalers (disp ?s) ! d') (tpc ?s d') (posters ?s d')" if "d' < n" for d'
    proof (cases "d' = d")
      case True
      with own tn I(4) show ?thesis by simp
    next
      case False
      with I(9) [OF that] np [of d'] other [of _ d'] att [of d'] tn I(4) show ?thesis by (cases "d' = t") auto
    qed
    show "link_ok pinv t' d' (pipe_of (disp ?s) t' d') (tpc ?s t') (bits (disp ?s) d' OR local_signals (tpc ?s d')) (delivered ?s d')"
      if "t' < n" "d' < n" for t' d'
    proof -
      have "t' \<noteq> mWaitSignal" using that I(1) by (simp add: MAX_THREADS_def mWaitSignal_def)
      then have "bit (bits (disp ?s) d') t' \<longleftrightarrow> bit (bits (disp s) d') t' \<or> d' = d \<and> t' = t"
        using tn I(4) b(3) [of t'] g by (cases "d' = d") (simp_all add: bits_def)
      moreover have "tpc ?s t' = Storing d' \<longleftrightarrow> tpc s t' = Storing d'"
        "tpc s t' = Signalling d' \<longrightarrow> tpc ?s t' = Signalling d' \<or> t' = t \<and> d' = d" using p by auto
      ultimately show ?thesis using I(10) [OF that] p unfolding dl ls link_ok_def bit_or_iff by (auto split: if_splits)
    qed
  qed (use I tn g in \<open>auto split: if_splits\<close>)
qed

lemma inv_post:
  assumes inv: "net_inv pinv n s" and p: "tpc s t = Posting d" and g: "mSignalers (disp s) ! d = Some g"
  shows "net_inv pinv n (at_pc t Ready s (set_signaler d (sem_post g) (disp s)))" (is "net_inv _ _ ?s")
proof -
  note I = net_invD [OF inv]
  have tn: "t < n" "d < n" using I(7) [of t] I(8) [of t d] p by simp_all
  have np: "posters ?s d' = posters s d' - {t}" for d' by (auto simp: posters_def)
  have fin: "finite (posters s d)" "t \<in> posters s d" using I(9) [OF tn(2)] p by (auto simp: reader_ok_def posters_def)
  then have cd: "card (posters s d) = Suc (card (posters s d - {t}))" by (metis card.remove)
  have nt: "posters s d' - {t} = posters s d'" if "d' \<noteq> d" for d' using p that by (auto simp: posters_def)
  have dl: "delivered ?s d' = delivered s d'" for d' using p by (simp add: delivered_def)
  have ls: "local_signals (tpc ?s d') = local_signals (tpc s d')" for d' using p by simp
  show ?thesis
  proof (rule net_inv_stepI [OF inv tn(1), of _ Ready])
    show "reader_ok (mSignalers (disp ?s) ! d') (tpc ?s d') (posters ?s d')" if "d' < n" for d'
      using I(9) [OF that] p cd nt tn g I(4) unfolding np
      by (cases "d' = d") (auto simp: reader_ok_def asleep_def sem_post_def split: option.splits)
    show "link_ok pinv t' d' (pipe_of (disp ?s) t' d') (tpc ?s t') (bits (disp ?s) d' OR local_signals (tpc ?s d')) (delivered ?s d')"
      if "t' < n" "d' < n" for t' d'
      using I(10) [OF that] I(4) p tn g unfolding dl ls by (auto simp: link_ok_def bits_def sem_post_def)
  qed (use I tn g in auto)
qed


text \<open>A step of a reader on its own signaler: it may lose no signal and no token.\<close>

lemma inv_own_signaler:
  assumes inv: "net_inv pinv n s" and t: "tpc s t = p" "p \<noteq> Ready" "mSignalers (disp s) ! t = Some g"
    and s': "disp s' = set_signaler t g' (disp s)" "tpc s' = (tpc s)(t := p')" "delivered s' t = delivered s t"
      "\<And>d. d \<noteq> t \<Longrightarrow> returns s' d = returns s d"
    and p: "pc_target p = None" "pc_target p' = None" "\<not> bit (local_signals p') mWaitSignal"
      "\<And>j. j < mWaitSignal \<Longrightarrow> bit (mBitmap g) j \<or> bit (local_signals p) j \<Longrightarrow> bit (mBitmap g') j \<or> bit (local_signals p') j"
      "bit (mBitmap g') mWaitSignal \<Longrightarrow> mBitmap g' = push_bit mWaitSignal 1"
      "of_bool (bit (mBitmap g') mWaitSignal) + mSemaphore g' + of_bool (asleep p) =
       of_bool (bit (mBitmap g) mWaitSignal) + mSemaphore g + of_bool (asleep p')"
  shows "net_inv pinv n s'"
proof -
  note I = net_invD [OF inv]
  have tn: "t < n" "n \<le> mWaitSignal" using I(1) I(7) [of t] t by (simp_all add: MAX_THREADS_def mWaitSignal_def)
  have tf: "p \<noteq> Posting d \<and> p \<noteq> Storing d \<and> p \<noteq> Signalling d" "p' \<noteq> Posting d \<and> p' \<noteq> Storing d \<and> p' \<noteq> Signalling d" for d
    using p(1,2) by auto
  have np: "posters s' d' = posters s d'" for d' using tf s'(2) t(1) by (auto simp: posters_def)
  have dl: "delivered s' d' = delivered s d'" for d' using s' by (cases "d' = t") (auto simp: delivered_def)
  have "of_bool (bit (mBitmap g) mWaitSignal) + mSemaphore g + card (posters s t) = of_bool (asleep p)" "finite (posters s t)"
    using I(9) [OF tn(1)] t by (simp_all add: reader_ok_def)
  then have "of_bool (bit (mBitmap g') mWaitSignal) + mSemaphore g' + card (posters s t) = of_bool (asleep p') \<and> finite (posters s t)"
    using p(6) by linarith
  then have own: "reader_ok (Some g') p' (posters s t)" using p(3,5) by (simp add: reader_ok_def)
  show ?thesis
  proof (rule net_inv_stepI [OF inv tn(1) s'(2)])
    show "reader_ok (mSignalers (disp s') ! d') (tpc s' d') (posters s' d')" if "d' < n" for d'
      using I(9) [OF that] I(4) own s'(1,2) tn unfolding np by auto
    show "link_ok pinv t' d' (pipe_of (disp s') t' d') (tpc s' t') (bits (disp s') d' OR local_signals (tpc s' d')) (delivered s' d')"
      if "t' < n" "d' < n" for t' d'
      using I(10) [OF that] I(4) tn t s'(1,2) tf that p(4) [of t'] unfolding dl
      by (auto simp: link_ok_def bits_def bit_or_iff split: option.splits)
  qed (use I tn t s'(1) p(2) in auto)
qed

lemma reader_tokens:
  assumes "net_inv pinv n s" "tpc s t = p" "p \<noteq> Ready" "mSignalers (disp s) ! t = Some g"
  shows "\<not> asleep p \<Longrightarrow> \<not> bit (mBitmap g) mWaitSignal \<and> mSemaphore g = 0" "mSemaphore g \<noteq> 0 \<Longrightarrow> mSemaphore g = 1 \<and> asleep p \<and> \<not> bit (mBitmap g) mWaitSignal"
    "bit (mBitmap g) mWaitSignal \<Longrightarrow> mBitmap g = push_bit mWaitSignal 1" "\<not> bit (local_signals p) mWaitSignal"
  using net_invD(7,9) [OF assms(1), of t] assms(2-) by (auto simp: reader_ok_def of_bool_def split: if_splits)

lemma got_signals_inv:
  assumes inv: "net_inv pinv n s" and t: "tpc s t = p" "p = Checking count \<or> p = Polling count \<and> mBitmap g \<noteq> 0 \<or> p = Awake count"
    "mSignalers (disp s) ! t = Some g"
  shows "net_inv pinv n (got_signals t count (mBitmap g) s (set_signaler t (g\<lparr>mBitmap := 0\<rparr>) (disp s)))" (is "net_inv _ _ ?s")
proof -
  have q: "p \<noteq> Ready" "pc_target p = None" "local_signals p = 0" "\<not> asleep p" "taken_now p = []" using t(2) by (auto simp: asleep_def)
  note T = reader_tokens [OF inv t(1) q(1) t(3)]
  show ?thesis
    by (rule inv_own_signaler [OF inv t(1) q(1) t(3), of _ "g\<lparr>mBitmap := 0\<rparr>"
          "if mBitmap g \<noteq> 0 then Draining count (mBitmap g) 0 [] else Ready"])
      (use q T t(1) in \<open>auto simp: got_signals_def delivered_def asleep_def\<close>)
qed


lemma drain_end_inv:
  assumes inv: "net_inv pinv n s" and t: "tpc s t = Draining count signals i xs" "mSignalers (disp s) ! t = Some g"
  shows "net_inv pinv n (return_read t (length xs) xs s (set_signaler t (g\<lparr>mBitmap := mBitmap g OR signals\<rparr>) (disp s)))"
proof -
  have q: "Draining count signals i xs \<noteq> Ready" by simp
  note T = reader_tokens [OF inv t(1) q t(2)]
  show ?thesis
    by (rule inv_own_signaler [OF inv t(1) q t(2), of _ "g\<lparr>mBitmap := mBitmap g OR signals\<rparr>" Ready])
      (use T t(1) in \<open>auto simp: delivered_def asleep_def bit_or_iff\<close>)
qed

lemma poll_sleep_inv:
  assumes inv: "net_inv pinv n s" and t: "tpc s t = Polling count" "mSignalers (disp s) ! t = Some g" "mBitmap g = 0"
  shows "net_inv pinv n (at_pc t (Asleep count) s (set_signaler t (g\<lparr>mBitmap := push_bit mWaitSignal 1\<rparr>) (disp s)))"
  by (rule inv_own_signaler [OF inv t(1) _ t(2), of _ "g\<lparr>mBitmap := push_bit mWaitSignal 1\<rparr>" "Asleep count"])
    (use t in \<open>auto simp: delivered_def asleep_def bit_wait simp del: push_bit_of_1\<close>)

lemma wait_inv:
  assumes inv: "net_inv pinv n s" and t: "tpc s t = Asleep count" "mSignalers (disp s) ! t = Some g" "mSemaphore g \<noteq> 0"
  shows "net_inv pinv n (at_pc t (Awake count) s (set_signaler t (g\<lparr>mSemaphore := mSemaphore g - 1\<rparr>) (disp s)))"
proof -
  have q: "Asleep count \<noteq> Ready" by simp
  note T = reader_tokens [OF inv t(1) q t(2)]
  show ?thesis
    by (rule inv_own_signaler [OF inv t(1) q t(2), of _ "g\<lparr>mSemaphore := mSemaphore g - 1\<rparr>" "Awake count"])
      (use T(2) t in \<open>auto simp: delivered_def asleep_def\<close>)
qed

text \<open>A pass of the loop that reads a pipe.\<close>

lemma drain_read_inv:
  assumes inv: "net_inv pinv n s" and t: "tpc s t = Draining count signals i xs" "i < n"
    and P': "pinv P'" "read_effect r (pipe_of (disp s) i t) P'"
    and p': "p' = (case r of None \<Rightarrow> Draining count (unset_bit i signals) i' xs | Some v \<Rightarrow> Draining count signals i' (xs @ [(i, v)]))"
  shows "net_inv pinv n (at_pc t p' s (set_pipe i t P' (disp s)))" (is "net_inv _ _ ?s")
proof -
  note I = net_invD [OF inv]
  obtain g where g: "t < n" "mSignalers (disp s) ! t = Some g" using reader_attached [OF inv, of t] t(1) by auto
  have T: "\<not> bit signals mWaitSignal" using reader_tokens(4) [OF inv t(1) _ g(2)] by simp
  have p: "pc_target p' = None" "\<not> asleep p'" "\<not> bit (local_signals p') mWaitSignal" "p' \<noteq> Ready"
    "\<And>d. p' \<noteq> Posting d \<and> p' \<noteq> Storing d \<and> p' \<noteq> Signalling d" "\<And>j. j \<noteq> i \<Longrightarrow> bit signals j \<Longrightarrow> bit (local_signals p') j"
    "r \<noteq> None \<Longrightarrow> local_signals p' = signals"
    using T by (auto simp: p' asleep_def bit_unset_bit_iff split: option.splits)
  have np: "posters ?s d' = posters s d'" for d' using p(5) t by (auto simp: posters_def)
  have dl: "delivered ?s d' = delivered s d' @ (if d' = t then (case r of None \<Rightarrow> [] | Some v \<Rightarrow> [(i, v)]) else [])" for d'
    using t by (auto simp: p' delivered_def split: option.splits)
  show ?thesis
  proof (rule net_inv_stepI [OF inv g(1), of _ p'])
    show "reader_ok (mSignalers (disp ?s) ! d') (tpc ?s d') (posters ?s d')" if "d' < n" for d'
      using I(9) [OF that] p t g unfolding np by (auto simp: reader_ok_def asleep_def)
    show "link_ok pinv t' d' (pipe_of (disp ?s) t' d') (tpc ?s t') (bits (disp ?s) d' OR local_signals (tpc ?s d')) (delivered ?s d')"
      if "t' < n" "d' < n" for t' d'
    proof -
      have st: "tpc ?s t' = Storing d' \<longleftrightarrow> tpc s t' = Storing d'" "tpc ?s t' = Signalling d' \<longleftrightarrow> tpc s t' = Signalling d'"
        using t p(5) by auto
      have fs: "from_source t' (delivered ?s d') = received (pipe_of (disp ?s) t' d')"
      proof -
        let ?v = "if t' = i \<and> d' = t then (case r of None \<Rightarrow> [] | Some v \<Rightarrow> [v]) else []"
        have "from_source t' (if d' = t then (case r of None \<Rightarrow> [] | Some v \<Rightarrow> [(i, v)]) else []) = ?v"
          by (cases r) (simp_all add: from_source_simps)
        then have "from_source t' (delivered ?s d') = from_source t' (delivered s d') @ ?v" unfolding dl from_source_simps(3) by (rule arg_cong)
        moreover have "received (pipe_of (disp ?s) t' d') = received (pipe_of (disp s) t' d') @ ?v"
          using read_effect_received [OF P'(2)] pipe_of_set_pipe [OF I(2,3) t(2) g(1) that(2), of P' t'] by auto
        ultimately show ?thesis using I(10) [OF that] by (simp add: link_ok_def)
      qed
      show ?thesis
        using I(10) [OF that] P' t p(6) [of t'] p(7) pipe_of_set_pipe [OF I(2,3) t(2) g(1) that(2), of P' t'] fs
        unfolding link_ok_def st bit_or_iff read_effect_def by (cases r) (auto split: if_splits)
    qed
  qed (use I p in auto)
qed


section \<open>Every step keeps the invariant\<close>

context message_pipe
begin

lemma link_of: "net_inv pinv n s \<Longrightarrow> t < n \<Longrightarrow> d < n \<Longrightarrow> pinv (pipe_of (disp s) t d) \<and> (flushing (pipe_of (disp s) t d) \<longleftrightarrow> tpc s t = Storing d)"
  using net_invD(10) [of pinv n s t d] by (simp add: link_ok_def)

lemma sending_step:
  assumes inv: "net_inv pinv n s" and p: "tpc s t = Sending d (m # ms)"
  shows "\<exists>s'. net_step Q t (Sending d (m # ms)) s = Inr s' \<and> net_inv pinv n s'"
proof -
  note I = net_invD [OF inv]
  have tn: "t < n" "d < n" using I(7) [of t] I(8) [of t d] p by simp_all
  obtain P' where P': "pipe_exec Q (Write m (ms \<noteq> [])) (pipe_of (disp s) t d) = Inr P'" "pinv P'" "\<not> flushing P'"
    "received P' = received (pipe_of (disp s) t d)" "flushed P' = flushed (pipe_of (disp s) t d)"
    using put_law link_of [OF inv tn] p by fastforce
  let ?p = "if ms = [] then Flushing d else Sending d ms"
  have "net_step Q t (Sending d (m # ms)) s = Inr (at_pc t ?p s (set_pipe t d P' (disp s)))"
    using P'(1) by (cases ms) (simp_all add: Dispatcher_put_def on_pipe_eq [OF I(2,3) tn] del: pipe_exec.simps)
  moreover have "net_inv pinv n (at_pc t ?p s (set_pipe t d P' (disp s)))"
    by (rule inv_write_pipe [OF inv p]) (use P' in auto)
  ultimately show ?thesis by blast
qed

lemma flushing_step:
  assumes inv: "net_inv pinv n s" and p: "tpc s t = Flushing d"
  shows "\<exists>s'. net_step Q t (Flushing d) s = Inr s' \<and> net_inv pinv n s'"
proof -
  note I = net_invD [OF inv]
  have tn: "t < n" "d < n" using I(7) [of t] I(8) [of t d] p by simp_all
  obtain P' where P': "pipe_exec Q Flush (pipe_of (disp s) t d) = Inr P'" "pinv P'" "received P' = received (pipe_of (disp s) t d)"
    "flushed P' = (if flushing P' then flushed (pipe_of (disp s) t d) else complete (pipe_of (disp s) t d))"
    using flush_law link_of [OF inv tn] p by fastforce
  let ?p = "if flushing P' then Storing d else Signalling d"
  have "net_step Q t (Flushing d) s = Inr (at_pc t ?p s (set_pipe t d P' (disp s)))"
    using P'(1) by (simp add: Dispatcher_flush_def on_pipe_eq [OF I(2,3) tn] del: pipe_exec.simps)
  moreover have "net_inv pinv n (at_pc t ?p s (set_pipe t d P' (disp s)))"
    by (rule inv_write_pipe [OF inv p]) (use P' in \<open>auto split: if_splits\<close>)
  ultimately show ?thesis by blast
qed

lemma storing_step:
  assumes inv: "net_inv pinv n s" and p: "tpc s t = Storing d"
  shows "\<exists>s'. net_step Q t (Storing d) s = Inr s' \<and> net_inv pinv n s'"
proof -
  note I = net_invD [OF inv]
  have tn: "t < n" "d < n" using I(7) [of t] I(8) [of t d] p by simp_all
  obtain P' where P': "pipe_exec Q FlushStore (pipe_of (disp s) t d) = Inr P'" "pinv P'" "\<not> flushing P'"
    "received P' = received (pipe_of (disp s) t d)" using store_law link_of [OF inv tn] p by fastforce
  have "net_step Q t (Storing d) s = Inr (at_pc t (Signalling d) s (set_pipe t d P' (disp s)))"
    using P'(1) by (simp add: Dispatcher_store_def on_pipe_eq [OF I(2,3) tn] del: pipe_exec.simps)
  moreover have "net_inv pinv n (at_pc t (Signalling d) s (set_pipe t d P' (disp s)))"
    by (rule inv_write_pipe [OF inv p]) (use P' in auto)
  ultimately show ?thesis by blast
qed

lemma notify_step:
  assumes inv: "net_inv pinv n s" and p: "tpc s t = Signalling d \<or> tpc s t = Posting d" and g: "mSignalers (disp s) ! d = Some g"
  shows "\<exists>s'. net_step Q t (tpc s t) s = Inr s' \<and> net_inv pinv n s'"
proof -
  note I = net_invD [OF inv]
  have "d < length (mSignalers (disp s))" using I(4) I(8) [of t d] p by auto
  note os = on_signaler_eq [OF this g]
  show ?thesis using p inv_signal [OF inv _ g, of t] inv_post [OF inv _ g, of t] by (auto simp: os)
qed

lemma drain_get:
  assumes inv: "net_inv pinv n s" and p: "tpc s t = Draining count signals i xs" "i < n"
  obtains r P' where "Dispatcher_read Q i t (disp s) = Inr (r, set_pipe i t P' (disp s))"
    "pinv P'" "read_effect r (pipe_of (disp s) i t) P'"
proof -
  note I = net_invD [OF inv]
  have tn: "t < n" using I(7) [of t] p by simp
  obtain r P' where "pipe_get Q (pipe_of (disp s) i t) = Inr (r, P')" "pinv P'" "read_effect r (pipe_of (disp s) i t) P'"
    using get_law link_of [OF inv p(2) tn] by blast
  then show thesis by (intro that [of r P']) (simp_all add: Dispatcher_read_def on_pipe_eq [OF I(2,3) p(2) tn])
qed

lemma reading_step:
  assumes inv: "net_inv pinv n s" and p: "tpc s t \<noteq> Ready" "pc_target (tpc s t) = None"
  shows "\<exists>s'. net_step Q t (tpc s t) s = Inr s' \<and> net_inv pinv n s'"
proof -
  note I = net_invD [OF inv]
  obtain g where g: "t < n" "mSignalers (disp s) ! t = Some g" using reader_attached [OF inv p(1)] by blast
  note os = on_signaler_eq [of t "disp s" g, unfolded I(4), OF g]
  note got = got_signals_inv [OF inv refl _ g(2)]
  show ?thesis
  proof (cases "tpc s t")
    case (Checking count)
    with got [of count] show ?thesis by (simp add: os check_def bitmap_xchg_def)
  next
    case (Awake count)
    with got [of count] show ?thesis by (simp add: os check_def bitmap_xchg_def)
  next
    case (Polling count)
    with got [of count] poll_sleep_inv [OF inv Polling g(2)] show ?thesis
      by (cases "mBitmap g = 0") (simp_all add: os poll_izte_def bitmap_izte_def)
  next
    case (Asleep count)
    with wait_inv [OF inv Asleep g(2)] inv show ?thesis
      by (cases "mSemaphore g = 0") (simp_all add: wait_step_def os sem_wait_def)
  next
    case (Draining count signals i xs)
    show ?thesis
    proof (cases "i < n \<and> length xs < count")
      case True
      show ?thesis
      proof (cases "bit signals i")
        case bit: True
        obtain r P' where R: "Dispatcher_read Q i t (disp s) = Inr (r, set_pipe i t P' (disp s))"
          "pinv P'" "read_effect r (pipe_of (disp s) i t) P'" using drain_get [OF inv Draining] True by blast
        show ?thesis
          using drain_read_inv [OF inv Draining _ R(2,3) refl] R(1) True bit I(2)
          by (cases r) (auto simp: Draining drain_step_def)
      next
        case False
        have "net_inv pinv n (at_pc t (Draining count signals (i + 1) xs) s (disp s))"
          by (rule inv_move [OF inv g(1)]) (simp_all add: Draining g(2) asleep_def)
        with True False I(2) show ?thesis by (auto simp: Draining drain_step_def)
      qed
    next
      case False
      with drain_end_inv [OF inv Draining g(2)] I(2) show ?thesis
        by (auto simp: Draining drain_step_def os bitOr_def bitmap_or_def)
    qed
  qed (use p in auto)
qed


text \<open>A step of a thread can only fail in two ways: it reads a message that is not there, or signals a thread without a context.\<close>

definition step_defined :: "('q, 'p, 'a) network \<Rightarrow> nat \<Rightarrow> bool" where
  "step_defined s t \<longleftrightarrow> (case tpc s t of Sending d ms \<Rightarrow> ms \<noteq> [] | Signalling d \<Rightarrow> mAttachedFlags (disp s) ! d
     | Posting d \<Rightarrow> mAttachedFlags (disp s) ! d | _ \<Rightarrow> True)"

lemma step_ok:
  assumes inv: "net_inv pinv n s" and ok: "step_defined s t"
  shows "\<exists>s'. net_step Q t (tpc s t) s = Inr s' \<and> net_inv pinv n s'"
proof (cases "pc_target (tpc s t) = None")
  case True
  with reading_step [OF inv, of t] inv show ?thesis by (cases "tpc s t = Ready") auto
next
  case False
  then obtain d where d: "pc_target (tpc s t) = Some d" by auto
  have dn: "d < n" using net_invD(8) [OF inv d] .
  have g: "mAttachedFlags (disp s) ! d \<Longrightarrow> \<exists>g. mSignalers (disp s) ! d = Some g" using net_invD(6) [OF inv dn] by auto
  show ?thesis
  proof (cases "tpc s t")
    case (Sending d' ms)
    with ok sending_step [OF inv, of t d' "hd ms" "tl ms"] show ?thesis by (simp add: step_defined_def)
  next
    case (Signalling d')
    with ok g d show ?thesis using notify_step [OF inv, of t d'] by (auto simp: step_defined_def)
  next
    case (Posting d')
    with ok g d show ?thesis using notify_step [OF inv, of t d'] by (auto simp: step_defined_def)
  qed (use d flushing_step [OF inv, of t] storing_step [OF inv, of t] in auto)
qed

lemma step_undefined:
  assumes inv: "net_inv pinv n s" and "\<not> step_defined s t"
  shows "net_step Q t (tpc s t) s = Inl MemFault"
proof (cases "tpc s t")
  case (Signalling d)
  with assms net_invD(4,6,8) [OF inv] show ?thesis
    by (fastforce simp: step_defined_def on_signaler_def nth_or_fault_def)
next
  case (Posting d)
  with assms net_invD(4,6,8) [OF inv] show ?thesis
    by (fastforce simp: step_defined_def on_signaler_def nth_or_fault_def)
qed (use assms in \<open>auto simp: step_defined_def\<close>)

end

text \<open>The calls and the creation of a context.\<close>

definition act_ok :: "nat \<Rightarrow> 'a net_act \<Rightarrow> bool" where
  "act_ok n a \<longleftrightarrow> (case a of Send t d ms \<Rightarrow> d < n | Destroy t \<Rightarrow> False | _ \<Rightarrow> True)"

lemma call_inv:
  assumes inv: "net_inv pinv n s" and "can_call t s" "p = Checking c \<or> p = Polling c \<or> (p = Sending d ms \<and> d < n)"
  shows "net_inv pinv n (at_pc t p s (disp s))"
  by (rule inv_move [OF inv])
    (use assms net_invD(5,6) [OF inv] in \<open>auto simp: can_call_def asleep_def\<close>)

lemma create_inv:
  assumes inv: "net_inv pinv n s" and c: "createThreadContext contextId (disp s) = Inr (t, D)"
  shows "net_inv pinv n (at_pc t Ready s D)" (is "net_inv _ _ ?s")
proof -
  note I = net_invD [OF inv]
  have t: "t < n" "\<not> mAttachedFlags (disp s) ! t"
    and D: "D = (disp s)\<lparr>mAttachedFlags := (mAttachedFlags (disp s))[t := True], mSignalers := (mSignalers (disp s))[t := Some signaler_new]\<rparr>"
    using c I(5) by (auto simp: createThreadContext_def rbind_simps Let_def nth_or_fault_def split: if_splits)
  have none: "mSignalers (disp s) ! t = None" using I(6) t by auto
  have ready: "tpc s t = Ready" "posters s t = {}" using I(9) [OF t(1)] none by (auto simp: reader_ok_def)
  then have pc: "tpc ?s = tpc s" "\<And>d. posters ?s d = posters s d" "\<And>d. delivered ?s d = delivered s d"
    by (auto simp: posters_def delivered_def)
  have same: "pipe_of D = pipe_of (disp s)" "\<And>d. d < n \<Longrightarrow> bits D d = bits (disp s) d"
    using none t I(4) by (auto simp: D pipe_of_def pipe_index_def bits_def nth_list_update signaler_new_def fun_eq_iff)
  have "reader_ok (mSignalers D ! d) (tpc s d) (posters s d)" if "d < n" for d
    using I(9) [OF that] ready t I(4) by (auto simp: D nth_list_update reader_ok_def signaler_new_def asleep_def)
  moreover have "mAttachedFlags D ! d = (mSignalers D ! d \<noteq> None)" if "d < n" for d
    using I(4-6) t that by (cases "d = t") (auto simp: D)
  moreover have "mMaxThreadContextCount D = n" "length (mPipes D) = n * n" "length (mSignalers D) = n" "length (mAttachedFlags D) = n"
    using I(2-5) by (simp_all add: D)
  ultimately show ?thesis using I(1,7,8,10) unfolding net_inv_def pc by (simp add: same)
qed

context message_pipe
begin

lemma exec_inv:
  assumes inv: "net_inv pinv n s" and "act_ok n a" "net_exec Q a s = Inr s'"
  shows "net_inv pinv n s'"
proof (cases a)
  case (Step t)
  with assms step_ok [OF inv, of t] step_undefined [OF inv, of t] show ?thesis by (cases "step_defined s t") auto
next
  case (Create c)
  with assms create_inv [OF inv] show ?thesis by (auto simp: rbind_simps)
next
  case (Recv t c b)
  with assms call_inv [OF inv] show ?thesis by (auto split: if_splits)
next
  case (Send t d ms)
  with assms call_inv [OF inv] show ?thesis by (auto simp: act_ok_def split: if_splits)
qed (use assms in \<open>auto simp: act_ok_def\<close>)

lemma run_inv: "net_inv pinv n s \<Longrightarrow> list_all (act_ok n) as \<Longrightarrow> net_run Q as s = Inr s' \<Longrightarrow> net_inv pinv n s'"
proof (induction as arbitrary: s)
  case (Cons a as)
  then show ?case using exec_inv by (fastforce simp: rbind_simps)
qed simp

lemma start_inv:
  assumes "pipe_start Q q = Inr P" "pinv P" "net_start Q q n = Inr s"
  shows "net_inv pinv n s"
proof -
  have P: "sent P = []" "received P = []" "flushed P = 0" "\<not> flushing P" using assms(1) by (auto simp: pipe_start_def rbind_simps)
  have s: "n \<le> MAX_THREADS" "s = \<lparr>disp = \<lparr>mMaxThreadContextCount = n, mPipes = replicate (n * n) P,
      mSignalers = replicate n None, mAttachedFlags = replicate n False\<rparr>, tpc = (\<lambda>_. Ready), returns = (\<lambda>_. [])\<rparr>"
    using assms by (auto simp: net_start_def Dispatcher_new_def rbind_simps)
  have "pipe_of (disp s) t d = P" if "t < n" "d < n" for t d
    using pipe_index_less [OF that] by (simp add: s pipe_of_def pipe_index_def)
  then show ?thesis unfolding net_inv_def using assms(2) P s(1)
    by (auto simp: s link_ok_def reader_ok_def posters_def delivered_def from_source_def asleep_def)
qed

end

end
