(* ===== verification/Atomic_Queue_Rep.thy ===== *)
theory Atomic_Queue_Rep
  imports Atomic_Pipe
begin

text \<open>
  The chunked queue implements the contract of slots: \<open>aq_rep\<close> relates the members and the heap of
  chunks to the list of live slots, and every operation acts on it as the contract says, without
  touching freed chunks. The interpretation carries the lemmas on the pipe over to the code's own
  queue; the properties of the pipe follow.
\<close>

section \<open>Representation\<close>

definition slot_ptr :: "nat \<Rightarrow> nat list \<Rightarrow> nat \<Rightarrow> nat \<times> nat" where
  "slot_ptr N Cs i = (Cs ! (i div N), i mod N)"

definition slot_val :: "'a aqueue \<Rightarrow> nat \<times> nat \<Rightarrow> 'a" where
  "slot_val q p = cvalues (the (chunks q (fst p))) (snd p)"

definition slots :: "nat \<Rightarrow> nat list \<Rightarrow> 'a aqueue \<Rightarrow> nat \<Rightarrow> nat \<Rightarrow> ((nat \<times> nat) \<times> 'a) list" where
  "slots N Cs q b e = map (\<lambda>i. (slot_ptr N Cs i, slot_val q (slot_ptr N Cs i))) [b..<e]"

text \<open>The position after the last slot, counted from the start of the first chunk.\<close>

definition aq_end :: "nat \<Rightarrow> nat list \<Rightarrow> 'a aqueue \<Rightarrow> nat" where
  "aq_end N Cs q = (length Cs - 1) * N + end_pos q"

definition chain :: "nat list \<Rightarrow> (nat \<rightharpoonup> 'a chunk_t) \<Rightarrow> bool" where
  "chain Cs h \<longleftrightarrow> (\<forall>a\<in>set Cs. h a \<noteq> None) \<and>
     (\<forall>i. Suc i < length Cs \<longrightarrow> cnext (the (h (Cs ! i))) = Some (Cs ! Suc i) \<and>
        cprev (the (h (Cs ! Suc i))) = Some (Cs ! i))"

definition aq_ok :: "nat \<Rightarrow> nat list \<Rightarrow> 'a aqueue \<Rightarrow> bool" where
  "aq_ok N Cs q \<longleftrightarrow>
     0 < N \<and> Cs \<noteq> [] \<and> distinct Cs \<and> chain Cs (chunks q) \<and> begin_chunk q = hd Cs \<and> end_chunk q = last Cs \<and>
     begin_pos q < N \<and> end_pos q < N \<and> begin_pos q \<le> aq_end N Cs q \<and>
     (\<forall>a\<in>set Cs. a < brk q) \<and> dom (chunks q) = set Cs \<union> set_option (spare_chunk q) \<and>
     (\<forall>a. spare_chunk q = Some a \<longrightarrow> a \<notin> set Cs \<and> chunks q a \<noteq> None \<and> a < brk q) \<and>
     (begin_pos q < aq_end N Cs q \<longrightarrow>
        back_chunk q = Some (fst (slot_ptr N Cs (aq_end N Cs q - 1))) \<and> back_pos q = snd (slot_ptr N Cs (aq_end N Cs q - 1)))"

definition aq_rep :: "nat \<Rightarrow> 'a aqueue \<Rightarrow> ((nat \<times> nat) \<times> 'a) list \<Rightarrow> bool" where
  "aq_rep N q S \<longleftrightarrow> (\<exists>Cs. aq_ok N Cs q \<and> S = slots N Cs q (begin_pos q) (aq_end N Cs q))"

lemma aq_repI: "aq_ok N Cs q \<Longrightarrow> aq_end N Cs q = e \<Longrightarrow> slots N Cs q b e = S \<Longrightarrow> begin_pos q = b \<Longrightarrow> aq_rep N q S"
  by (auto simp: aq_rep_def)

lemma slot_index: "0 < N \<Longrightarrow> i < length Cs * N \<Longrightarrow> i div N < length Cs \<and> i mod N < N"
  by (simp add: less_mult_imp_div_less)

lemma aq_end_less: "aq_ok N Cs q \<Longrightarrow> aq_end N Cs q < length Cs * N"
  by (cases Cs) (auto simp: aq_ok_def aq_end_def)

lemma slot_ptr_inj:
  assumes "distinct Cs" "0 < N" "i < length Cs * N" "j < length Cs * N" "slot_ptr N Cs i = slot_ptr N Cs j"
  shows "i = j"
proof -
  have "i div N = j div N" using assms slot_index by (metis fst_conv nth_eq_iff_index_eq slot_ptr_def)
  moreover have "i mod N = j mod N" using assms(5) by (simp add: slot_ptr_def)
  ultimately show ?thesis by (metis div_mult_mod_eq)
qed

lemma slots_distinct: "aq_ok N Cs q \<Longrightarrow> distinct (map fst (slots N Cs q b (aq_end N Cs q)))"
proof -
  assume ok: "aq_ok N Cs q"
  then have "inj_on (slot_ptr N Cs) (set [b..<aq_end N Cs q])"
    using slot_ptr_inj [of Cs N] aq_end_less [OF ok] by (intro inj_onI) (auto simp: aq_ok_def)
  then show ?thesis by (simp add: slots_def distinct_map comp_def)
qed

lemma slots_append: "b \<le> m \<Longrightarrow> m \<le> e \<Longrightarrow> slots N Cs q b e = slots N Cs q b m @ slots N Cs q m e"
  by (simp add: slots_def flip: map_append) (metis le_Suc_ex upt_add_eq_append)

lemma slots_Suc: "b \<le> e \<Longrightarrow> slots N Cs q b (Suc e) = slots N Cs q b e @ [(slot_ptr N Cs e, slot_val q (slot_ptr N Cs e))]"
  by (simp add: slots_def)

lemma slots_Cons: "b < e \<Longrightarrow> slots N Cs q b e = (slot_ptr N Cs b, slot_val q (slot_ptr N Cs b)) # slots N Cs q (Suc b) e"
  by (simp add: slots_def upt_conv_Cons)

lemma slots_Nil [simp]: "slots N Cs q e e = []"
  by (simp add: slots_def)

lemma length_slots [simp]: "length (slots N Cs q b e) = e - b"
  by (simp add: slots_def)

text \<open>Slots depend on the chunks' values only.\<close>

lemma slots_cong:
  assumes "\<And>i. b \<le> i \<Longrightarrow> i < e \<Longrightarrow> slot_ptr N Cs' (i - k) = slot_ptr N Cs i \<and>
      slot_val q' (slot_ptr N Cs i) = slot_val q (slot_ptr N Cs i)" "k \<le> b" "b \<le> e"
  shows "slots N Cs' q' (b - k) (e - k) = slots N Cs q b e"
  using assms by (intro nth_equalityI) (auto simp: slots_def)

lemma chunk_of_slot:
  assumes "aq_ok N Cs q" "i < length Cs * N"
  shows "\<exists>c. chunks q (fst (slot_ptr N Cs i)) = Some c \<and> fst (slot_ptr N Cs i) \<in> set Cs"
  using assms slot_index [of N i Cs] by (auto simp: aq_ok_def chain_def slot_ptr_def)

section \<open>The operations\<close>

lemma front_law:
  assumes "aq_rep N q ((p, x) # S)"
  shows "front_ptr q = Inr p \<and> front q = Inr x"
proof -
  obtain Cs where ok: "aq_ok N Cs q" and S: "(p, x) # S = slots N Cs q (begin_pos q) (aq_end N Cs q)"
    using assms by (auto simp: aq_rep_def)
  then have lt: "begin_pos q < aq_end N Cs q" by (metis length_slots zero_less_diff length_greater_0_conv list.distinct(1))
  have hd: "slot_ptr N Cs (begin_pos q) = (begin_chunk q, begin_pos q)"
    using ok by (auto simp: slot_ptr_def aq_ok_def hd_conv_nth)
  have "hd Cs \<in> set Cs" using ok by (auto simp: aq_ok_def)
  then have "chunks q (begin_chunk q) \<noteq> None" using ok by (simp add: aq_ok_def chain_def)
  then obtain c where "chunks q (begin_chunk q) = Some c" by blast
  with S lt hd show ?thesis by (simp add: slots_Cons front_ptr_def front_def get_chunk_def slot_val_def)
qed

lemma back_slot:
  assumes "aq_ok N Cs q" "S @ [(p, x)] = slots N Cs q (begin_pos q) (aq_end N Cs q)"
  obtains e c where "aq_end N Cs q = Suc e" "begin_pos q \<le> e" "p = slot_ptr N Cs e" "x = slot_val q p"
    "S = slots N Cs q (begin_pos q) e" "back_chunk q = Some (fst p)" "back_pos q = snd p" "chunks q (fst p) = Some c"
    "fst p \<in> set Cs"
proof -
  have "0 < aq_end N Cs q - begin_pos q" using assms(2) length_slots [of N Cs q "begin_pos q" "aq_end N Cs q"]
    by (metis length_append_singleton zero_less_Suc)
  then obtain e where e: "aq_end N Cs q = Suc e" "begin_pos q \<le> e" by (cases "aq_end N Cs q") auto
  with assms(2) have S: "S = slots N Cs q (begin_pos q) e" "p = slot_ptr N Cs e" "x = slot_val q p"
    by (auto simp: slots_Suc)
  have "e < length Cs * N" using aq_end_less [OF assms(1)] e by simp
  then obtain c where c: "chunks q (fst p) = Some c" "fst p \<in> set Cs" using chunk_of_slot [OF assms(1)] S(2) by blast
  have b: "back_chunk q = Some (fst p)" "back_pos q = snd p" using assms(1) e S(2) by (auto simp: aq_ok_def)
  show thesis by (rule that [OF e S(2,3,1) b c])
qed

lemma back_law:
  assumes "aq_rep N q (S @ [(p, x)])"
  shows "back_ptr q = Inr p \<and> back_value q = Inr x"
proof -
  obtain Cs where ok: "aq_ok N Cs q" and S: "S @ [(p, x)] = slots N Cs q (begin_pos q) (aq_end N Cs q)"
    using assms by (auto simp: aq_rep_def)
  obtain e c where "p = slot_ptr N Cs e" "x = slot_val q p" "back_chunk q = Some (fst p)" "back_pos q = snd p"
    "chunks q (fst p) = Some c"
    using ok S by (rule back_slot)
  then show ?thesis by (simp add: back_ptr_def back_value_def get_chunk_def slot_val_def)
qed

lemma set_back_law:
  assumes "aq_rep N q (S @ [(p, x)])"
  shows "\<exists>q'. set_back v q = Inr q' \<and> aq_rep N q' (S @ [(p, v)])"
proof -
  obtain Cs where ok: "aq_ok N Cs q" and S: "S @ [(p, x)] = slots N Cs q (begin_pos q) (aq_end N Cs q)"
    using assms by (auto simp: aq_rep_def)
  obtain e c where e: "aq_end N Cs q = Suc e" "begin_pos q \<le> e" "p = slot_ptr N Cs e" "x = slot_val q p"
    "S = slots N Cs q (begin_pos q) e" "back_chunk q = Some (fst p)" "back_pos q = snd p" "chunks q (fst p) = Some c"
    "fst p \<in> set Cs"
    using ok S by (rule back_slot)
  let ?c = "c\<lparr>cvalues := (cvalues c)(snd p := v)\<rparr>"
  let ?q = "q\<lparr>chunks := (chunks q)(fst p \<mapsto> ?c)\<rparr>"
  have chain: "chain Cs (chunks ?q)" using ok e(8) by (auto simp: aq_ok_def chain_def)
  have ok': "aq_ok N Cs ?q" using ok chain e(9) by (auto simp: aq_ok_def aq_end_def)
  have "slot_val ?q (slot_ptr N Cs i) = slot_val q (slot_ptr N Cs i)" if "i < e" for i
  proof -
    have "slot_ptr N Cs i \<noteq> p"
      using slot_ptr_inj [of Cs N i e] ok that e aq_end_less [OF ok] by (auto simp: aq_ok_def)
    then show ?thesis using e(8) by (cases "slot_ptr N Cs i"; cases p) (auto simp: slot_val_def)
  qed
  then have "slots N Cs ?q (begin_pos q) e = S" using slots_cong [of "begin_pos q" e N Cs 0 Cs ?q q] e(2,5) by simp
  moreover have "slot_val ?q p = v" by (simp add: slot_val_def)
  ultimately have "aq_rep N ?q (S @ [(p, v)])"
    unfolding aq_rep_def using ok' e(1,2,3) by (intro exI [of _ Cs]) (simp add: aq_end_def slots_Suc)
  moreover have "set_back v q = Inr ?q" using e by (simp add: set_back_def mod_chunk_def get_chunk_def)
  ultimately show ?thesis by blast
qed


text \<open>The slot after the last one is where the end of the queue points.\<close>

lemma end_slot: "aq_ok N Cs q \<Longrightarrow> slot_ptr N Cs (aq_end N Cs q) = (end_chunk q, end_pos q)"
  by (auto simp: aq_ok_def slot_ptr_def aq_end_def last_conv_nth)

lemma slot_ptr_append: "i < length Cs * N \<Longrightarrow> slot_ptr N (Cs @ Ds) i = slot_ptr N Cs i"
  using less_mult_imp_div_less [of i "length Cs" N] by (simp add: slot_ptr_def nth_append)

lemma slot_ptr_Cons: "0 < N \<Longrightarrow> slot_ptr N (c # Cs) (i + N) = slot_ptr N Cs i"
  by (simp add: slot_ptr_def div_add_self2)

lemma chainI:
  "(\<And>a. a \<in> set Cs \<Longrightarrow> h a \<noteq> None) \<Longrightarrow> (\<And>i. Suc i < length Cs \<Longrightarrow> cnext (the (h (Cs ! i))) = Some (Cs ! Suc i)) \<Longrightarrow>
   (\<And>i. Suc i < length Cs \<Longrightarrow> cprev (the (h (Cs ! Suc i))) = Some (Cs ! i)) \<Longrightarrow> chain Cs h"
  by (simp add: chain_def)

lemma chainD:
  assumes "chain Cs h"
  shows "a \<in> set Cs \<Longrightarrow> h a \<noteq> None" "Suc i < length Cs \<Longrightarrow> cnext (the (h (Cs ! i))) = Some (Cs ! Suc i)"
    "Suc i < length Cs \<Longrightarrow> cprev (the (h (Cs ! Suc i))) = Some (Cs ! i)"
  using assms by (simp_all add: chain_def)

lemma chain_snoc:
  assumes "chain Cs h" "Cs \<noteq> []" "distinct Cs" "a \<notin> set Cs" "h (last Cs) = Some c"
  shows "chain (Cs @ [a]) (h(last Cs \<mapsto> c\<lparr>cnext := Some a\<rparr>, a \<mapsto> d\<lparr>cprev := Some (last Cs)\<rparr>))"
    (is "chain ?Cs ?h")
proof (rule chainI)
  have lst: "last Cs = Cs ! (length Cs - 1)" using assms(2) by (simp add: last_conv_nth)
  have na: "Cs ! i \<noteq> a" if "i < length Cs" for i using that assms(4) by auto
  show "?h x \<noteq> None" if "x \<in> set ?Cs" for x using that chainD(1) [OF assms(1)] by auto
  fix i assume i: "Suc i < length ?Cs"
  show "cnext (the (?h (?Cs ! i))) = Some (?Cs ! Suc i)"
  proof (cases "Suc i < length Cs")
    case True
    then have "Cs ! i \<noteq> last Cs" using assms(3) by (simp add: lst nth_eq_iff_index_eq)
    with True show ?thesis using na [of i] chainD(2) [OF assms(1) True] by (simp add: nth_append)
  next
    case False
    with i have "Suc i = length Cs" by simp
    then have "i = length Cs - 1" "Cs ! i = last Cs" using lst by (metis diff_Suc_1)+
    then show ?thesis using na [of i] assms(2) by (simp add: nth_append)
  qed
  show "cprev (the (?h (?Cs ! Suc i))) = Some (?Cs ! i)"
  proof (cases "Suc i < length Cs")
    case True
    then show ?thesis
      using na [of "Suc i"] chainD(3) [OF assms(1) True] assms(5) by (cases "Cs ! Suc i = last Cs") (auto simp: nth_append)
  next
    case False
    with i have "Suc i = length Cs" by simp
    then have "i = length Cs - 1" "Cs ! i = last Cs" using lst by (metis diff_Suc_1)+
    then show ?thesis using assms(2) by (simp add: nth_append)
  qed
qed

lemma chain_butlast:
  assumes "chain (Cs @ [a]) h" "distinct (Cs @ [a])" "Cs \<noteq> []" "h (last Cs) = Some c"
  shows "chain Cs (h(a := None, last Cs \<mapsto> c\<lparr>cnext := None\<rparr>))" (is "chain Cs ?h")
proof (rule chainI)
  have na: "Cs ! i \<noteq> a" if "i < length Cs" for i using that assms(2) by auto
  show "?h x \<noteq> None" if "x \<in> set Cs" for x using that chainD(1) [OF assms(1), of x] assms(2) by auto
  fix i assume i: "Suc i < length Cs"
  then have "Cs ! i \<noteq> last Cs" using assms(2,3) by (simp add: last_conv_nth nth_eq_iff_index_eq)
  with i show "cnext (the (?h (Cs ! i))) = Some (Cs ! Suc i)"
    using na [of i] chainD(2) [OF assms(1), of i] by (simp add: nth_append)
  show "cprev (the (?h (Cs ! Suc i))) = Some (Cs ! i)"
    using i na [of "Suc i"] chainD(3) [OF assms(1), of i] assms(4)
    by (cases "Cs ! Suc i = last Cs") (auto simp: nth_append)
qed

lemma chain_tl:
  assumes "chain (a # Cs) h" "distinct (a # Cs)" "Cs \<noteq> []" "h (hd Cs) = Some c" "\<And>x. x \<in> set Cs \<Longrightarrow> x \<noteq> hd Cs \<Longrightarrow> h' x = h x"
    "h' (hd Cs) = Some (c\<lparr>cprev := None\<rparr>)"
  shows "chain Cs h'"
proof (rule chainI)
  have same: "cnext (the (h' x)) = cnext (the (h x))" "h' x \<noteq> None" if "x \<in> set Cs" for x
    using that assms(4,5,6) chainD(1) [OF assms(1), of x] by (cases "x = hd Cs"; auto)+
  then show "h' x \<noteq> None" if "x \<in> set Cs" for x using that by blast
  fix i assume i: "Suc i < length Cs"
  then have "Cs ! Suc i \<noteq> hd Cs" using assms(2,3) by (simp add: hd_conv_nth nth_eq_iff_index_eq)
  with i show "cprev (the (h' (Cs ! Suc i))) = Some (Cs ! i)"
    using assms(5) [of "Cs ! Suc i"] chainD(3) [OF assms(1), of "Suc i"] by simp
  show "cnext (the (h' (Cs ! i))) = Some (Cs ! Suc i)"
    using i same(1) [of "Cs ! i"] chainD(2) [OF assms(1), of "Suc i"] by simp
qed

text \<open>A change of the heap that keeps the values of the listed chunks keeps their slots.\<close>

lemma slots_same_values:
  assumes "e \<le> length Cs * N" "0 < N" "\<And>x. x \<in> set Cs \<Longrightarrow> cvalues (the (chunks q' x)) = cvalues (the (chunks q x))"
  shows "slots N Cs q' b e = slots N Cs q b e"
proof -
  have "fst (slot_ptr N Cs i) \<in> set Cs" if "i < e" for i
    using that assms(1,2) slot_index [of N i Cs] by (auto simp: slot_ptr_def)
  with assms(3) show ?thesis by (auto simp: slots_def slot_val_def)
qed

lemma slots_prefix: "e \<le> length Cs * N \<Longrightarrow> slots N (Cs @ Ds) q b e = slots N Cs q b e"
  by (auto simp: slots_def slot_ptr_append)

lemma slots_shift: "0 < N \<Longrightarrow> N \<le> b \<Longrightarrow> b \<le> e \<Longrightarrow> slots N Cs q (b - N) (e - N) = slots N (c # Cs) q b e"
proof (rule slots_cong)
  fix i assume "0 < N" "N \<le> b" "b \<le> i"
  then show "slot_ptr N Cs (i - N) = slot_ptr N (c # Cs) i \<and>
      slot_val q (slot_ptr N (c # Cs) i) = slot_val q (slot_ptr N (c # Cs) i)"
    using slot_ptr_Cons [of N c Cs "i - N"] by simp
qed

lemma fresh_chunk_law:
  assumes "aq_ok N Cs q" "spare_chunk q' = spare_chunk q" "chunks q' = chunks q" "brk q' = brk q"
  obtains a d h n where "a \<notin> set Cs" "a < n" "brk q \<le> n" "h a = Some d" "\<And>x. x \<in> set Cs \<Longrightarrow> h x = chunks q x"
    "dom h = insert a (set Cs)" "fresh_chunk q' = (a, q'\<lparr>spare_chunk := None, chunks := h, brk := n\<rparr>)"
proof (cases "spare_chunk q")
  case None
  show ?thesis
    by (rule that [of "brk q" "brk q + 1" "(chunks q)(brk q \<mapsto> raw q' (brk q))" "raw q' (brk q)"])
      (use assms None in \<open>auto simp: aq_ok_def fresh_chunk_def\<close>)
next
  case (Some sc)
  then obtain d where d: "chunks q sc = Some d" using assms(1) by (auto simp: aq_ok_def)
  show ?thesis by (rule that [of sc "brk q" "chunks q" d]) (use assms Some d in \<open>auto simp: aq_ok_def fresh_chunk_def\<close>)
qed

lemma push_law:
  assumes "aq_rep N q S"
  shows "\<exists>q' p x. push N q = Inr q' \<and> aq_rep N q' (S @ [(p, x)])"
proof -
  obtain Cs where ok: "aq_ok N Cs q" and S: "S = slots N Cs q (begin_pos q) (aq_end N Cs q)"
    using assms by (auto simp: aq_rep_def)
  let ?e = "aq_end N Cs q"
  let ?q = "q\<lparr>back_chunk := Some (end_chunk q), back_pos := end_pos q, end_pos := end_pos q + 1\<rparr>"
  have es: "slot_ptr N Cs ?e = (end_chunk q, end_pos q)" by (rule end_slot [OF ok])
  have el: "?e < length Cs * N" by (rule aq_end_less [OF ok])
  have b: "begin_pos q \<le> ?e" "0 < N" "Cs \<noteq> []" "distinct Cs" "last Cs \<in> set Cs" "end_chunk q = last Cs"
    "chain Cs (chunks q)" using ok by (auto simp: aq_ok_def)
  have Ssuc: "slots N Cs q (begin_pos q) (Suc ?e) = S @ [(slot_ptr N Cs ?e, slot_val q (slot_ptr N Cs ?e))]"
    using b S by (simp add: slots_Suc)
  show ?thesis
  proof (cases "end_pos q + 1 = N")
    case False
    have e': "aq_end N Cs ?q = Suc ?e" by (simp add: aq_end_def)
    have "aq_ok N Cs ?q" unfolding aq_ok_def e' using ok False es by (auto simp: aq_ok_def)
    moreover have "slots N Cs ?q (begin_pos q) (Suc ?e) = slots N Cs q (begin_pos q) (Suc ?e)"
      by (rule slots_same_values) (use el b in auto)
    ultimately have "aq_rep N ?q (S @ [(slot_ptr N Cs ?e, slot_val q (slot_ptr N Cs ?e))])"
      unfolding aq_rep_def e' [symmetric] Ssuc [symmetric] by (intro exI [of _ Cs]) (simp add: e')
    moreover have "push N q = Inr ?q" using False by (simp add: push_def)
    ultimately show ?thesis by blast
  next
    case True
    obtain c where c: "chunks q (last Cs) = Some c" using chainD(1) [OF b(7,5)] by blast
    obtain a d h n where a: "a \<notin> set Cs" "a < n" "brk q \<le> n" "h a = Some d" "\<And>x. x \<in> set Cs \<Longrightarrow> h x = chunks q x"
      "dom h = insert a (set Cs)" and m: "fresh_chunk ?q = (a, ?q\<lparr>spare_chunk := None, chunks := h, brk := n\<rparr>)"
      by (rule fresh_chunk_law [OF ok, of ?q, simplified]) (rule that, simp_all)
    let ?h = "h(last Cs \<mapsto> c\<lparr>cnext := Some a\<rparr>, a \<mapsto> d\<lparr>cprev := Some (last Cs)\<rparr>)"
    let ?r = "q\<lparr>back_chunk := Some (end_chunk q), back_pos := end_pos q, spare_chunk := None, brk := n, chunks := ?h,
      end_chunk := a, end_pos := 0\<rparr>"
    have hl: "h (last Cs) = Some c" "a \<noteq> last Cs" using a(1,5) b(5) c by auto
    have p: "push N q = Inr ?r"
      using True hl a(4) b(6) m by (simp add: push_def Let_def mod_chunk_def get_chunk_def)
    have "chain Cs h" using b(7) a(5) unfolding chain_def by simp
    then have ch: "chain (Cs @ [a]) ?h" by (intro chain_snoc) (use b a(1) hl in auto)
    have e': "aq_end N (Cs @ [a]) ?r = Suc ?e"
      using True b(3) by (cases Cs) (simp_all add: aq_end_def)
    have es': "slot_ptr N (Cs @ [a]) ?e = (end_chunk q, end_pos q)" using es slot_ptr_append [OF el] by simp
    have "dom ?h = set (Cs @ [a])" using a(6) b(5) by auto
    then have "aq_ok N (Cs @ [a]) ?r" unfolding aq_ok_def e' using ok ch a(1,2,3) es' b(2) by (auto simp: aq_ok_def simp del: dom_fun_upd)
    moreover have "slots N (Cs @ [a]) ?r (begin_pos q) (Suc ?e) = slots N Cs q (begin_pos q) (Suc ?e)"
    proof -
      have "slots N (Cs @ [a]) ?r (begin_pos q) (Suc ?e) = slots N Cs ?r (begin_pos q) (Suc ?e)"
        by (rule slots_prefix) (use el in simp)
      also have "\<dots> = slots N Cs q (begin_pos q) (Suc ?e)"
        by (rule slots_same_values) (use el b a c in auto)
      finally show ?thesis .
    qed
    ultimately have "aq_rep N ?r (S @ [(slot_ptr N Cs ?e, slot_val q (slot_ptr N Cs ?e))])"
      unfolding aq_rep_def Ssuc [symmetric] by (intro exI [of _ "Cs @ [a]"]) (simp add: e')
    with p show ?thesis by blast
  qed
qed

lemma chain_last:
  assumes "chain (Cs @ [a]) h" "Cs \<noteq> []"
  shows "cprev (the (h a)) = Some (last Cs)" "cnext (the (h (last Cs))) = Some a"
  using chainD(2,3) [OF assms(1), of "length Cs - 1"] assms(2) by (auto simp: nth_append last_conv_nth)

text \<open>One slot back: to the previous position, or to the end of the previous chunk.\<close>

lemma back_moves:
  assumes "chain Cs h" "0 < N" "Suc e < length Cs * N"
  shows "snd (slot_ptr N Cs (Suc e)) \<noteq> 0 \<Longrightarrow> slot_ptr N Cs e = (fst (slot_ptr N Cs (Suc e)), snd (slot_ptr N Cs (Suc e)) - 1)"
    "snd (slot_ptr N Cs (Suc e)) = 0 \<Longrightarrow> slot_ptr N Cs e = (the (cprev (the (h (fst (slot_ptr N Cs (Suc e)))))), N - 1) \<and>
       cprev (the (h (fst (slot_ptr N Cs (Suc e))))) \<noteq> None"
proof -
  have dm: "e = e div N * N + e mod N" "e mod N < N" using assms(2) by simp_all
  { assume "snd (slot_ptr N Cs (Suc e)) \<noteq> 0"
    then have ne: "Suc (e mod N) \<noteq> N" by (auto simp: slot_ptr_def mod_Suc)
    then have "Suc e mod N = Suc (e mod N)" "Suc e div N = e div N" by (simp_all add: mod_Suc div_Suc)
    then show "slot_ptr N Cs e = (fst (slot_ptr N Cs (Suc e)), snd (slot_ptr N Cs (Suc e)) - 1)" by (simp add: slot_ptr_def) }
  { assume "snd (slot_ptr N Cs (Suc e)) = 0"
    then have eq: "Suc (e mod N) = N" by (auto simp: slot_ptr_def mod_Suc split: if_splits)
    then have d: "Suc e div N = Suc (e div N)" by (simp add: div_Suc mod_Suc)
    have "Suc (e div N) < length Cs" using assms less_mult_imp_div_less [of "Suc e" "length Cs" N] d by simp
    with chainD(3) [OF assms(1)] show "slot_ptr N Cs e = (the (cprev (the (h (fst (slot_ptr N Cs (Suc e)))))), N - 1) \<and>
       cprev (the (h (fst (slot_ptr N Cs (Suc e))))) \<noteq> None"
      using d eq by (auto simp: slot_ptr_def) }
qed

lemma unpush_law:
  assumes "aq_rep N q (S @ [a, b])"
  shows "\<exists>q'. unpush N q = Inr q' \<and> aq_rep N q' (S @ [a])"
proof -
  obtain Cs where ok: "aq_ok N Cs q" and S: "(S @ [a]) @ [(fst b, snd b)] = slots N Cs q (begin_pos q) (aq_end N Cs q)"
    using assms by (auto simp: aq_rep_def)
  obtain e c where e: "aq_end N Cs q = Suc e" "begin_pos q \<le> e" "fst b = slot_ptr N Cs e"
    "S @ [a] = slots N Cs q (begin_pos q) e" "back_chunk q = Some (fst (fst b))" "back_pos q = snd (fst b)"
    "chunks q (fst (fst b)) = Some c"
    using ok S by (rule back_slot)
  have "length (S @ [a]) = e - begin_pos q" by (simp add: e(4) del: length_append)
  then obtain e1 where e1: "e = Suc e1" "begin_pos q \<le> e1" by (cases e) auto
  have B: "0 < N" "Cs \<noteq> []" "distinct Cs" "end_chunk q = last Cs" "chain Cs (chunks q)" using ok by (auto simp: aq_ok_def)
  have el: "e < length Cs * N" using aq_end_less [OF ok] e(1) by simp
  define q1 where "q1 = q\<lparr>back_chunk := Some (fst (slot_ptr N Cs e1)), back_pos := snd (slot_ptr N Cs e1)\<rparr>"
  have bk: "(if back_pos q \<noteq> 0 then Inr (q\<lparr>back_pos := back_pos q - 1\<rparr>)
      else rbind (get_chunk (back_chunk q) q) (\<lambda>c. Inr (q\<lparr>back_pos := N - 1, back_chunk := cprev c\<rparr>))) = Inr q1"
  proof (cases "snd (fst b) = 0")
    case True
    with back_moves(2) [OF B(5,1) el [unfolded e1(1)]] e e1(1) show ?thesis by (auto simp: q1_def get_chunk_def)
  next
    case False
    with back_moves(1) [OF B(5,1) el [unfolded e1(1)]] e e1(1) show ?thesis by (auto simp: q1_def get_chunk_def)
  qed
  show ?thesis
  proof (cases "end_pos q = 0")
    case False
    let ?q = "q1\<lparr>end_pos := end_pos q - 1\<rparr>"
    have e': "aq_end N Cs ?q = e" using False e(1) by (simp add: aq_end_def)
    have "aq_ok N Cs ?q" unfolding aq_ok_def e' using ok e1 by (auto simp: aq_ok_def q1_def)
    moreover have "slots N Cs ?q (begin_pos q) e = slots N Cs q (begin_pos q) e"
      by (rule slots_same_values) (use el B in \<open>auto simp: q1_def\<close>)
    ultimately have "aq_rep N ?q (S @ [a])" using e(4) e' by (intro aq_repI [of N Cs ?q e]) (auto simp: q1_def)
    moreover have "unpush N q = Inr ?q" using False bk by (simp add: unpush_def q1_def)
    ultimately show ?thesis by blast
  next
    case True
    obtain Ds x where Ds: "Cs = Ds @ [x]" using B(2) by (metis rev_exhaust)
    have "Ds \<noteq> []" using True e(1) Ds by (auto simp: aq_end_def)
    have last: "last Ds \<in> set Ds" "last Ds \<noteq> x" "x \<notin> set Ds" using \<open>Ds \<noteq> []\<close> B(3) Ds by auto
    obtain y where y: "chunks q x = Some y" using chainD(1) [OF B(5)] Ds by auto
    obtain d where d: "chunks q (last Ds) = Some d" using chainD(1) [OF B(5), of "last Ds"] Ds last by auto
    have links: "cprev y = Some (last Ds)" "cnext d = Some x"
      using chain_last [OF B(5) [unfolded Ds] \<open>Ds \<noteq> []\<close>] y d by auto
    let ?h = "(chunks q)(x := None, last Ds \<mapsto> d\<lparr>cnext := None\<rparr>)"
    let ?q = "q1\<lparr>end_pos := N - 1, end_chunk := last Ds, chunks := ?h\<rparr>"
    have p: "unpush N q = Inr ?q"
      using True bk links y d last B(4) Ds by (simp add: unpush_def q1_def get_chunk_def free_chunk_def mod_chunk_def Let_def)
    have ch: "chain Ds ?h" by (rule chain_butlast) (use B Ds d \<open>Ds \<noteq> []\<close> in auto)
    have eN: "length Ds * N = Suc e" using True e(1) by (simp add: aq_end_def Ds)
    then have e': "aq_end N Ds ?q = e" using B(1) \<open>Ds \<noteq> []\<close> by (cases Ds) (auto simp: aq_end_def)
    have sp: "slot_ptr N Ds i = slot_ptr N Cs i" if "i \<le> e" for i using slot_ptr_append [of i Ds N "[x]"] that eN Ds by simp
    have "aq_ok N Ds ?q" unfolding aq_ok_def e' using ok ch e1 sp [of e1] Ds \<open>Ds \<noteq> []\<close> B(1,3) last
      by (auto simp: aq_ok_def q1_def)
    moreover have "slots N Ds ?q (begin_pos q) e = slots N Cs q (begin_pos q) e"
      unfolding Ds using slots_prefix [of e Ds N "[x]" q] eN
      by (simp add: slots_same_values) (rule slots_same_values, use eN B(1) last d in \<open>auto simp: q1_def\<close>)
    ultimately have "aq_rep N ?q (S @ [a])" using e(4) e' by (intro aq_repI [of N Ds ?q e]) (auto simp: q1_def)
    with p show ?thesis by blast
  qed
qed

lemma pop_law:
  assumes "aq_rep N q (a # b # S)"
  shows "\<exists>q'. pop N q = Inr q' \<and> aq_rep N q' (b # S)"
proof -
  let ?b = "begin_pos q"
  obtain Cs where ok: "aq_ok N Cs q" and S: "a # b # S = slots N Cs q ?b (aq_end N Cs q)"
    using assms by (auto simp: aq_rep_def)
  let ?e = "aq_end N Cs q"
  have "?e - ?b = length (a # b # S)" by (simp only: S length_slots)
  then have lt: "Suc ?b < ?e" by simp
  then have S': "b # S = slots N Cs q (Suc ?b) ?e" using S by (simp add: slots_Cons [of ?b])
  have B: "0 < N" "Cs \<noteq> []" "distinct Cs" "begin_chunk q = hd Cs" "chain Cs (chunks q)" "?b < N" using ok by (auto simp: aq_ok_def)
  show ?thesis
  proof (cases "Suc ?b = N")
    case False
    let ?q = "q\<lparr>begin_pos := Suc ?b\<rparr>"
    have e': "aq_end N Cs ?q = ?e" by (simp add: aq_end_def)
    have "aq_ok N Cs ?q" unfolding aq_ok_def e' using ok lt False by (auto simp: aq_ok_def)
    moreover have "slots N Cs ?q (Suc ?b) ?e = slots N Cs q (Suc ?b) ?e"
      by (rule slots_same_values) (use aq_end_less [OF ok] B in auto)
    ultimately have "aq_rep N ?q (b # S)" unfolding aq_rep_def by (intro exI [of _ Cs]) (simp add: e' S')
    then show ?thesis using False by (auto simp: pop_def)
  next
    case True
    obtain x Ds where Ds: "Cs = x # Ds" using B(2) by (cases Cs) auto
    have "Ds \<noteq> []" using True lt ok Ds by (auto simp: aq_ok_def aq_end_def)
    then have h: "hd Ds \<in> set Ds" "hd Ds \<noteq> x" "x \<notin> set Ds" using B(3) Ds by auto
    obtain y where y: "chunks q x = Some y" using chainD(1) [OF B(5)] Ds by auto
    obtain d where d: "chunks q (hd Ds) = Some d" using chainD(1) [OF B(5), of "hd Ds"] Ds h by auto
    have nx: "cnext y = Some (hd Ds)" using chainD(2) [OF B(5), of 0] Ds y \<open>Ds \<noteq> []\<close> by (simp add: hd_conv_nth)
    define h' where "h' = (case spare_chunk q of None \<Rightarrow> (chunks q)(hd Ds \<mapsto> d\<lparr>cprev := None\<rparr>)
      | Some s \<Rightarrow> (chunks q)(hd Ds \<mapsto> d\<lparr>cprev := None\<rparr>, s := None))"
    have sp: "s \<notin> set Cs \<and> chunks q s \<noteq> None" if "spare_chunk q = Some s" for s using ok that by (auto simp: aq_ok_def)
    let ?q = "q\<lparr>begin_chunk := hd Ds, begin_pos := 0, spare_chunk := Some x, chunks := h'\<rparr>"
    have p: "pop N q = Inr ?q"
      using True B(4) Ds y nx d sp h by (auto simp: pop_def get_chunk_def mod_chunk_def free_chunk_def Let_def h'_def split: option.split)
    have h'1: "h' z = chunks q z" if "z \<in> set Cs" "z \<noteq> hd Ds" for z using that sp by (auto simp: h'_def split: option.split)
    have h'2: "h' (hd Ds) = Some (d\<lparr>cprev := None\<rparr>)" using sp h Ds by (auto simp: h'_def split: option.split)
    have ch: "chain Ds h'" by (rule chain_tl [OF B(5) [unfolded Ds]]) (use B(3) Ds d h'1 h'2 \<open>Ds \<noteq> []\<close> in auto)
    have e': "aq_end N Ds ?q = ?e - N" using \<open>Ds \<noteq> []\<close> by (cases Ds) (auto simp: aq_end_def Ds)
    have bs: "slot_ptr N Ds (?e - N - 1) = slot_ptr N Cs (?e - 1)"
      using slot_ptr_Cons [OF B(1), of x Ds "?e - N - 1"] lt True Ds by simp
    have "dom (chunks q) = set Cs \<union> set_option (spare_chunk q)" using ok by (simp add: aq_ok_def)
    then have dm: "dom h' = set Ds \<union> {x}" using sp h Ds by (auto simp: h'_def split: option.split)
    have "aq_ok N Ds ?q" unfolding aq_ok_def e'
      using ok ch lt True Ds \<open>Ds \<noteq> []\<close> B(1) bs h'1 [of x] y h dm by (simp add: aq_ok_def)
    moreover have "slots N Ds ?q 0 (?e - N) = slots N Cs q N ?e"
    proof -
      have "slots N Ds ?q 0 (?e - N) = slots N Ds q 0 (?e - N)"
      proof (rule slots_same_values)
        show "?e - N \<le> length Ds * N" using aq_end_less [OF ok] Ds by simp
        show "cvalues (the (chunks ?q z)) = cvalues (the (chunks q z))" if "z \<in> set Ds" for z
          using that h'1 [of z] h'2 d Ds by (cases "z = hd Ds") auto
      qed (rule B(1))
      with slots_shift [OF B(1), of N ?e Ds q x] lt True Ds show ?thesis by simp
    qed
    ultimately have "aq_rep N ?q (b # S)"
      unfolding aq_rep_def by (intro exI [of _ Ds]) (simp add: e' S' True)
    with p show ?thesis by blast
  qed
qed

lemma new_law: "0 < N \<Longrightarrow> aq_rep N (AtomicQueue_new rw) []"
  by (rule aq_repI [of _ "[0]" _ 0 0]) (auto simp: AtomicQueue_new_def aq_ok_def aq_end_def chain_def)

interpretation aq: slot_queue "AtomicQueue_ops N" "aq_rep N"
proof
  fix q :: "'a aqueue" and S
  show "distinct (map fst S)" if "aq_rep N q S" using that slots_distinct by (auto simp: aq_rep_def)
  show "\<exists>q' p x. q_push (AtomicQueue_ops N) q = Inr q' \<and> aq_rep N q' (S @ [(p, x)])" if "aq_rep N q S"
    using push_law [OF that] by (simp add: AtomicQueue_ops_def)
qed (auto simp: AtomicQueue_ops_def push_law unpush_law pop_law front_law back_law set_back_law)

section \<open>Destruction\<close>

lemma free_chain_law:
  "chain Cs (chunks q) \<Longrightarrow> distinct Cs \<Longrightarrow> Cs \<noteq> [] \<Longrightarrow> begin_chunk q = hd Cs \<Longrightarrow> end_chunk q = last Cs \<Longrightarrow> length Cs \<le> k \<Longrightarrow>
   \<exists>q'. free_chain k q = Inr q' \<and> chunks q' = chunks q |` (- set Cs) \<and> spare_chunk q' = spare_chunk q"
proof (induction Cs arbitrary: k q)
  case (Cons x Cs)
  then obtain j where k: "k = Suc j" by (cases k) auto
  obtain c where c: "chunks q x = Some c" using chainD(1) [OF Cons.prems(1)] by auto
  show ?case
  proof (cases "Cs = []")
    case True
    with Cons.prems c k show ?thesis
      by (auto simp: free_chunk_def get_chunk_def restrict_map_def)
  next
    case False
    let ?q = "q\<lparr>begin_chunk := hd Cs, chunks := (chunks q)(x := None)\<rparr>"
    have in1: "hd Cs \<in> set Cs" "last Cs \<in> set Cs" "x \<notin> set Cs" "hd Cs \<noteq> x" "last Cs \<noteq> x" using False Cons.prems(2) by auto
    obtain d where d: "chunks q (hd Cs) = Some d" using chainD(1) [OF Cons.prems(1), of "hd Cs"] in1 by auto
    have nx: "cnext c = Some (hd Cs)" using chainD(2) [OF Cons.prems(1), of 0] False c by (simp add: hd_conv_nth)
    have "chain Cs (chunks ?q)"
    proof (rule chainI)
      show "chunks ?q a \<noteq> None" if "a \<in> set Cs" for a using that in1 chainD(1) [OF Cons.prems(1), of a] by auto
      fix i assume i: "Suc i < length Cs"
      then have "Cs ! i \<noteq> x" "Cs ! Suc i \<noteq> x" using in1(3) by (auto dest: nth_mem)
      then show "cnext (the (chunks ?q (Cs ! i))) = Some (Cs ! Suc i)" "cprev (the (chunks ?q (Cs ! Suc i))) = Some (Cs ! i)"
        using i chainD(2,3) [OF Cons.prems(1), of "Suc i"] by auto
    qed
    then have "\<exists>q'. free_chain j ?q = Inr q' \<and> chunks q' = chunks ?q |` (- set Cs) \<and> spare_chunk q' = spare_chunk ?q"
      by (rule Cons.IH) (use Cons.prems False k in auto)
    then obtain q' where
      q': "free_chain j ?q = Inr q'" "chunks q' = chunks ?q |` (- set Cs)" "spare_chunk q' = spare_chunk q" by auto
    have "free_chain k q = free_chain j ?q"
      using Cons.prems(4,5) False c d nx in1 k by (simp add: free_chunk_def get_chunk_def)
    with q' show ?thesis by (auto simp: restrict_map_def fun_eq_iff)
  qed
qed simp

lemma destroy_law:
  assumes "aq_rep N q S"
  shows "\<exists>q'. AtomicQueue_destroy q = Inr q' \<and> chunks q' = Map.empty"
proof -
  obtain Cs where ok: "aq_ok N Cs q" using assms by (auto simp: aq_rep_def)
  have "set Cs \<subseteq> {..<brk q}" "distinct Cs" using ok by (auto simp: aq_ok_def)
  then have "length Cs \<le> brk q" by (metis card_lessThan card_mono distinct_card finite_lessThan)
  with ok obtain q1 where q1: "free_chain (brk q) q = Inr q1" "chunks q1 = chunks q |` (- set Cs)" "spare_chunk q1 = spare_chunk q"
    using free_chain_law [of Cs q "brk q"] by (auto simp: aq_ok_def)
  have dm: "dom (chunks q) = set Cs \<union> set_option (spare_chunk q)" using ok by (simp add: aq_ok_def)
  have outside: "chunks q a = None" if "a \<notin> set Cs" "spare_chunk q \<noteq> Some a" for a
    using that dm by (metis Un_iff domIff elem_set)
  show ?thesis
  proof (cases "spare_chunk q")
    case None
    with q1 outside show ?thesis
      by (auto simp: AtomicQueue_destroy_def free_chunk_def restrict_map_def fun_eq_iff)
  next
    case (Some a)
    then obtain c where "chunks q a = Some c" "a \<notin> set Cs" using ok by (auto simp: aq_ok_def)
    with q1 outside Some show ?thesis
      by (auto simp: AtomicQueue_destroy_def free_chunk_def get_chunk_def restrict_map_def fun_eq_iff)
  qed
qed

section \<open>Properties of the pipe\<close>

lemma pipe_states:
  assumes "0 < N"
  shows "\<exists>s. rbind (pipe_start (AtomicQueue_ops N) (AtomicQueue_new rw)) (pipe_run (AtomicQueue_ops N) as) = Inr s \<and>
    pipe_inv (aq_rep N) s"
proof -
  obtain s0 where "pipe_start (AtomicQueue_ops N) (AtomicQueue_new rw) = Inr s0" "pipe_inv (aq_rep N) s0"
    using aq.start_inv [OF new_law [OF assms]] by blast
  then show ?thesis using aq.run_inv by auto
qed

lemma pipe_reached_inv:
  assumes "0 < N" "rbind (pipe_start (AtomicQueue_ops N) (AtomicQueue_new rw)) (pipe_run (AtomicQueue_ops N) as) = Inr s"
  shows "pipe_inv (aq_rep N) s"
proof -
  obtain s' where "rbind (pipe_start (AtomicQueue_ops N) (AtomicQueue_new rw)) (pipe_run (AtomicQueue_ops N) as) = Inr s'"
    "pipe_inv (aq_rep N) s'" using pipe_states [OF assms(1)] by blast
  with assms(2) show ?thesis by simp
qed



text \<open>
  C8. No lost wake-up, and delivery: a \<open>read\<close> that returns false has read all that was flushed and leaves the shared
  pointer null, so that the next \<open>flush\<close> of a complete message returns false and the writer knows that it has to
  wake the reader; and in every reachable state in which a complete message is unread, a \<open>flush\<close> followed by one
  \<open>read\<close> delivers the next message.
\<close>

theorem pipe_wakeup:
  assumes "0 < N"
    and "rbind (pipe_start (AtomicQueue_ops N) (AtomicQueue_new rw)) (pipe_run (AtomicQueue_ops N) as) = Inr s"
  shows "(\<exists>s'. pipe_exec (AtomicQueue_ops N) Read s = Inr s' \<and>
      (received s' = received s \<longrightarrow> flushed s' = length (received s') \<and> c_ptr (spipe s') = None \<and>
        (\<not> flushing s' \<longrightarrow> (\<exists>s1. pipe_exec (AtomicQueue_ops N) (Write v False) s' = Inr s1 \<and>
           fst (flush_cas (spipe s1)) = None \<and> fst (flush_store (spipe s1)) = False)))) \<and>
    (length (received s) < complete s \<longrightarrow>
      (\<exists>s'. pipe_run (AtomicQueue_ops N) [Flush, FlushStore, Read] s = Inr s' \<and>
        received s' = received s @ [sent s ! length (received s)]))"
proof -
  have inv: "pipe_inv (aq_rep N) s" by (rule pipe_reached_inv [OF assms])
  obtain s' where s': "pipe_exec (AtomicQueue_ops N) Read s = Inr s'" "pipe_inv (aq_rep N) s'"
    "received s' = received s \<longrightarrow> flushed s = length (received s) \<and> c_ptr (spipe s') = None"
    using aq.read_inv [OF inv] by blast
  have "\<exists>s1. pipe_exec (AtomicQueue_ops N) (Write v False) s' = Inr s1 \<and>
      fst (flush_cas (spipe s1)) = None \<and> fst (flush_store (spipe s1)) = False"
    if "c_ptr (spipe s') = None" "\<not> flushing s'"
    using aq.write_wakes [OF s'(2) that] by (auto simp: flush_store_def)
  with s' aq.inv_sleep(1) [OF s'(2)] aq.delivers [OF inv] show ?thesis by blast
qed

text \<open>An empty queue of integers, for the witnesses: chunks come zeroed from \<open>malloc\<close>.\<close>

definition zero_chunks :: "nat \<Rightarrow> nat chunk_t" where
  "zero_chunks a = \<lparr>cvalues = \<lambda>_. 0, cprev = None, cnext = None\<rparr>"

lemmas pipe_eval = pipe_start_def AtomicPipe_new_def AtomicQueue_ops_def AtomicQueue_new_def push_def unpush_def pop_def
  fresh_chunk_def mod_chunk_def get_chunk_def free_chunk_def front_def back_value_def set_back_def front_ptr_def back_ptr_def
  pipe_write_def pipe_unwrite_def pipe_read_def check_read_def flush_cas_def flush_store_def zero_chunks_def Let_def

theorem pipe_wakeup_witness:
  "\<exists>s. rbind (pipe_start (AtomicQueue_ops 2) (AtomicQueue_new zero_chunks)) (pipe_run (AtomicQueue_ops 2) [Write 7 False, Read]) = Inr s \<and>
    length (received s) < complete s \<and> sent s ! length (received s) = 7 \<and>
    (\<exists>s'. pipe_exec (AtomicQueue_ops 2) Read s = Inr s' \<and> received s' = received s \<and> c_ptr (spipe s') = None) \<and>
    (\<exists>s'. pipe_run (AtomicQueue_ops 2) [Flush, FlushStore, Read] s = Inr s' \<and> received s' = received s @ [7])"
proof -
  obtain s where s: "rbind (pipe_start (AtomicQueue_ops 2) (AtomicQueue_new zero_chunks))
      (pipe_run (AtomicQueue_ops 2) [Write 7 False, Read]) = Inr s"
    "received s = []" "sent s = [7]" "complete s = 1" "flushed s = 0"
    by (simp add: pipe_eval)
  from pipe_wakeup [OF _ s(1), of 0] s(2-) obtain s1 s2 where
    "pipe_exec (AtomicQueue_ops 2) Read s = Inr s1" "received s1 = [] \<longrightarrow> c_ptr (spipe s1) = None"
    "pipe_run (AtomicQueue_ops 2) [Flush, FlushStore, Read] s = Inr s2" "received s2 = [7]" by auto
  moreover have "\<exists>s'. pipe_exec (AtomicQueue_ops 2) Read s = Inr s' \<and> received s' = []"
    using s(1) by (auto simp: pipe_eval)
  ultimately show ?thesis using s by auto
qed

text \<open>
  The destructor frees every chunk exactly once: in every reachable state of the pipe it succeeds and leaves the heap
  of chunks empty, so the queue neither leaks a chunk nor frees one twice.
\<close>

theorem queue_destroy_frees_all:
  assumes "0 < N"
    and "rbind (pipe_start (AtomicQueue_ops N) (AtomicQueue_new rw)) (pipe_run (AtomicQueue_ops N) as) = Inr s"
  shows "\<exists>q. AtomicQueue_destroy (pqueue (spipe s)) = Inr q \<and> chunks q = Map.empty"
  using pipe_reached_inv [OF assms] destroy_law by (auto simp: pipe_inv_def)

theorem queue_destroy_frees_all_witness:
  "\<exists>s q. rbind (pipe_start (AtomicQueue_ops 1) (AtomicQueue_new zero_chunks))
      (pipe_run (AtomicQueue_ops 1) [Write 7 False, Flush, Read, Write 8 True, Unwrite]) = Inr s \<and>
    received s = [7] \<and> AtomicQueue_destroy (pqueue (spipe s)) = Inr q \<and> chunks q = Map.empty"
proof -
  obtain s where s: "rbind (pipe_start (AtomicQueue_ops 1) (AtomicQueue_new zero_chunks))
      (pipe_run (AtomicQueue_ops 1) [Write 7 False, Flush, Read, Write 8 True, Unwrite]) = Inr s" "received s = [7]"
    by (simp add: pipe_eval)
  from queue_destroy_frees_all [OF _ s(1)] s show ?thesis by auto
qed

end
