(* ===== verification/Dispatcher_Net.thy ===== *)
theory Dispatcher_Net
  imports Dispatcher_Spec Atomic_Queue_Rep
begin

unbundle bit_operations_syntax

text \<open>
  The properties of the dispatcher: no flushed message is lost, a sleeping reader is woken, what a call of \<open>read\<close> returns, and
  where the calls do something else than they promise.
\<close>

section \<open>What a read returns\<close>

definition good_pipe :: "(('q, 'p, 'a) pipe_sys \<Rightarrow> bool) \<Rightarrow> nat \<Rightarrow> nat \<Rightarrow> ('q, 'p, 'a) dispatcher \<Rightarrow> bool" where
  "good_pipe pinv t d D \<longleftrightarrow> t < mMaxThreadContextCount D \<and> d < mMaxThreadContextCount D \<and>
     length (mPipes D) = mMaxThreadContextCount D * mMaxThreadContextCount D \<and> pinv (pipe_of D t d)"

definition pending :: "('q, 'p, 'a) network \<Rightarrow> nat \<Rightarrow> nat \<Rightarrow> 'a list" where
  "pending s d t = (let P = pipe_of (disp s) t d in drop (length (received P)) (take (flushed P) (sent P)))"

text \<open>The messages that wait for thread \<open>d\<close>, with their sources, by increasing source.\<close>

definition all_pending :: "('q, 'p, 'a) network \<Rightarrow> nat \<Rightarrow> nat \<Rightarrow> nat \<Rightarrow> (nat \<times> 'a) list" where
  "all_pending s d i n = concat (map (\<lambda>t. map (Pair t) (pending s d t)) [i..<n])"

lemma all_pending_unfold: "i < n \<Longrightarrow> all_pending s d i n = map (Pair i) (pending s d i) @ all_pending s d (Suc i) n"
  by (simp add: all_pending_def upt_conv_Cons)

lemma all_pending_cong: "(\<And>t. i \<le> t \<Longrightarrow> t < n \<Longrightarrow> pending s' d t = pending s d t) \<Longrightarrow> all_pending s' d i n = all_pending s d i n"
  unfolding all_pending_def by (intro arg_cong [of _ _ concat] map_cong) auto

definition runs_to :: "('q, 'p, 'a) queue_ops \<Rightarrow> nat \<Rightarrow> ('q, 'p, 'a) network \<Rightarrow> ('q, 'p, 'a) network \<Rightarrow> bool" where
  "runs_to Q t s s' \<longleftrightarrow> (\<exists>k. net_run Q (replicate k (Step t)) s = Inr s')"

lemma runs_to_refl: "runs_to Q t s s"
  unfolding runs_to_def by (rule exI [of _ 0]) simp

lemma runs_to_step: "net_step Q t (tpc s t) s = Inr s1 \<Longrightarrow> runs_to Q t s1 s' \<Longrightarrow> runs_to Q t s s'"
  unfolding runs_to_def by (metis net_exec.simps(5) net_run.simps(2) rbind.simps(2) replicate_Suc)

context message_pipe
begin

lemma pending_read:
  assumes "pinv P" "read_effect r P P'"
  shows "drop (length (received P)) (take (flushed P) (sent P)) =
    (case r of None \<Rightarrow> [] | Some v \<Rightarrow> v # drop (length (received P')) (take (flushed P') (sent P')))"
proof (cases r)
  case (Some v)
  have "length (received P) < length (take (flushed P) (sent P))" using assms counts [OF assms(1)] Some by (auto simp: read_effect_def)
  with assms(2) Some show ?thesis by (auto simp: read_effect_def Cons_nth_drop_Suc [symmetric])
qed (use assms in \<open>auto simp: read_effect_def\<close>)

lemma pending_Nil_iff: "pinv P \<Longrightarrow> drop (length (received P)) (take (flushed P) (sent P)) = [] \<longleftrightarrow> \<not> length (received P) < flushed P"
  using counts [of P] by auto

lemma drain_run:
  assumes "net_inv pinv n s" "tpc s d = Draining count signals i xs" "i \<le> n"
    and "\<And>t. i \<le> t \<Longrightarrow> t < n \<Longrightarrow> pending s d t \<noteq> [] \<Longrightarrow> bit signals t"
  shows "\<exists>s'. runs_to Q d s s' \<and> tpc s' d = Ready \<and>
    (let ys = xs @ take (count - length xs) (all_pending s d i n) in returns s' d = returns s d @ [(ys \<noteq> [], length ys, ys)])"
  using assms
proof (induction "(n - i) + (count - length xs)" arbitrary: s signals i xs rule: less_induct)
  case less
  note inv = less.prems(1) and p = less.prems(2)
  note I = net_invD [OF inv]
  obtain g where g: "d < n" "mSignalers (disp s) ! d = Some g" using reader_attached [OF inv, of d] p by auto
  show ?case
  proof (cases "i < n \<and> length xs < count")
    case False
    let ?s = "return_read d (length xs) xs s (set_signaler d (snd (bitOr signals g)) (disp s))"
    from False have e: "net_step Q d (tpc s d) s = Inr ?s"
      using p I(2) by (auto simp: drain_step_def on_signaler_eq [of d "disp s" g, unfolded I(4), OF g])
    have tk: "take (count - length xs) (all_pending s d i n) = []" using False less.prems(3) by (auto simp: all_pending_def)
    show ?thesis unfolding tk by (rule exI [of _ ?s]) (simp add: Let_def runs_to_step [OF e runs_to_refl])
  next
    case True
    show ?thesis
    proof (cases "bit signals i")
      case False
      let ?s = "at_pc d (Draining count signals (i + 1) xs) s (disp s)"
      have e: "net_step Q d (tpc s d) s = Inr ?s" using p I(2) True False by (simp add: drain_step_def)
      have inv': "net_inv pinv n ?s" using step_ok [OF inv, of d] e p by (auto simp: step_defined_def)
      have pe: "pending ?s d t = pending s d t" for t by (simp add: pending_def)
      have ex: "\<exists>s'. runs_to Q d ?s s' \<and> tpc s' d = Ready \<and> (let ys = xs @ take (count - length xs) (all_pending ?s d (i + 1) n)
          in returns s' d = returns ?s d @ [(ys \<noteq> [], length ys, ys)])"
        by (rule less.hyps [OF _ inv']) (use True less.prems(4) pe in auto)
      have ap: "all_pending ?s d (i + 1) n = all_pending s d i n"
        using less.prems(4) [of i] False True all_pending_unfold [of i n s d] all_pending_cong [of "Suc i" n ?s d s] pe by auto
      show ?thesis using ex runs_to_step [OF e] unfolding ap at_pc_simps by blast
    next
      case bit: True
      obtain r P' where R: "Dispatcher_read Q i d (disp s) = Inr (r, set_pipe i d P' (disp s))" "pinv P'"
        "read_effect r (pipe_of (disp s) i d) P'" using drain_get [OF inv p] True by blast
      let ?p = "case r of None \<Rightarrow> Draining count (unset_bit i signals) (i + 1) xs | Some v \<Rightarrow> Draining count signals i (xs @ [(i, v)])"
      let ?s = "at_pc d ?p s (set_pipe i d P' (disp s))"
      have e: "net_step Q d (tpc s d) s = Inr ?s" using p I(2) True bit R(1) by (cases r) (simp_all add: drain_step_def)
      have inv': "net_inv pinv n ?s" using step_ok [OF inv, of d] e p by (auto simp: step_defined_def)
      have pe: "pending ?s d t = (if t = i then drop (length (received P')) (take (flushed P') (sent P')) else pending s d t)" for t
        using pipe_of_set_pipe [OF I(2,3) _ g(1) g(1), of i P' t] True by (simp add: pending_def Let_def)
      have pi: "pending s d i = (case r of None \<Rightarrow> [] | Some v \<Rightarrow> v # pending ?s d i)"
        unfolding pe using pending_read [OF _ R(3)] link_of [OF inv _ g(1), of i] True by (simp add: pending_def [of s] Let_def)
      have tl: "all_pending ?s d (Suc i) n = all_pending s d (Suc i) n" by (rule all_pending_cong) (simp add: pe)
      show ?thesis
      proof (cases r)
        case None
        have ex: "\<exists>s'. runs_to Q d ?s s' \<and> tpc s' d = Ready \<and> (let ys = xs @ take (count - length xs) (all_pending ?s d (i + 1) n)
            in returns s' d = returns ?s d @ [(ys \<noteq> [], length ys, ys)])"
          by (rule less.hyps [OF _ inv']) (use None True less.prems(4) pe in \<open>auto simp: bit_unset_bit_iff\<close>)
        have ap: "all_pending ?s d (i + 1) n = all_pending s d i n"
          using None pi tl all_pending_unfold [of i n s d] True by simp
        show ?thesis using ex runs_to_step [OF e] unfolding ap at_pc_simps by blast
      next
        case (Some v)
        have "\<exists>s'. runs_to Q d ?s s' \<and> tpc s' d = Ready \<and> (let ys = (xs @ [(i, v)]) @ take (count - length (xs @ [(i, v)])) (all_pending ?s d i n)
            in returns s' d = returns ?s d @ [(ys \<noteq> [], length ys, ys)])"
          by (rule less.hyps [OF _ inv']) (use Some True bit less.prems(4) pe in \<open>auto split: if_splits\<close>)
        moreover have "all_pending s d i n = (i, v) # all_pending ?s d i n"
          using Some pi tl all_pending_unfold [of i n s d] all_pending_unfold [of i n ?s d] True by simp
        moreover have "count - length xs = Suc (count - length (xs @ [(i, v)]))" using True by auto
        ultimately show ?thesis using runs_to_step [OF e] by (metis append.assoc append_Cons append_Nil at_pc_simps(3) take_Suc_Cons)
      qed
    qed
  qed
qed


lemma idle_signals:
  assumes inv: "net_inv pinv n s" and d: "d < n" "mSignalers (disp s) ! d = Some g"
    and idle: "\<And>u. tpc s u = Ready" and "t < n" "pending s d t \<noteq> []"
  shows "bit (mBitmap g) t"
proof -
  have "length (received (pipe_of (disp s) t d)) < flushed (pipe_of (disp s) t d)"
    using assms(5,6) pending_Nil_iff link_of [OF inv assms(5) d(1)] by (auto simp: pending_def Let_def)
  with net_invD(10) [OF inv assms(5) d(1)] idle d(2) show ?thesis by (simp add: link_ok_def bits_def)
qed

text \<open>A call of \<open>read\<close> while all other threads are outside of the network's calls.\<close>

lemma idle_read:
  assumes inv: "net_inv pinv n s" and d: "d < n" "mAttachedFlags (disp s) ! d" and idle: "\<And>u. tpc s u = Ready"
    and some: "all_pending s d 0 n \<noteq> [] \<or> \<not> blocking"
  shows "\<exists>s0 s'. net_exec Q (Recv d count blocking) s = Inr s0 \<and> runs_to Q d s0 s' \<and> tpc s' d = Ready \<and>
    (let ys = take count (all_pending s d 0 n) in
      \<exists>c. returns s' d = returns s d @ [(ys \<noteq> [], c, ys)] \<and> (ys \<noteq> [] \<longrightarrow> c = length ys))"
proof -
  note I = net_invD [OF inv]
  obtain g where g: "mSignalers (disp s) ! d = Some g" using I(6) [OF d(1)] d(2) by auto
  let ?p = "if blocking then Polling count else Checking count"
  let ?s0 = "at_pc d ?p s (disp s)"
  have c: "can_call d s" using d I(5) idle by (simp add: can_call_def)
  then have e0: "net_exec Q (Recv d count blocking) s = Inr ?s0" by simp
  have inv0: "net_inv pinv n ?s0" by (rule call_inv [OF inv c, of _ count]) auto
  have bits: "bit (mBitmap g) t" if "t < n" "pending s d t \<noteq> []" for t using idle_signals [OF inv d(1) g idle that] .
  have nz: "mBitmap g = 0 \<Longrightarrow> all_pending s d 0 n = []" using bits by (fastforce simp: all_pending_def)
  note os = on_signaler_eq [of d "disp s" g, unfolded I(4), OF d(1) g]
  let ?s1 = "got_signals d count (mBitmap g) ?s0 (set_signaler d (g\<lparr>mBitmap := 0\<rparr>) (disp s))"
  have e1: "net_step Q d (tpc ?s0 d) ?s0 = Inr ?s1"
    using some nz by (auto simp: os check_def poll_izte_def bitmap_izte_def bitmap_xchg_def)
  have inv1: "net_inv pinv n ?s1" using step_ok [OF inv0, of d] e1 by (auto simp: step_defined_def)
  show ?thesis
  proof (cases "mBitmap g = 0")
    case True
    have "runs_to Q d ?s0 ?s1" by (rule runs_to_step [OF e1 runs_to_refl])
    with True nz e0 show ?thesis by (intro exI [of _ ?s0] exI [of _ ?s1]) (auto simp: got_signals_def)
  next
    case False
    have pe: "pending ?s1 d t = pending s d t" for t using False by (simp add: pending_def got_signals_def)
    have ap: "all_pending ?s1 d 0 n = all_pending s d 0 n" by (rule all_pending_cong) (rule pe)
    have p1: "tpc ?s1 d = Draining count (mBitmap g) 0 []" "returns ?s1 d = returns s d" using False by (simp_all add: got_signals_def)
    have "bit (mBitmap g) t" if "0 \<le> t" "t < n" "pending ?s1 d t \<noteq> []" for t using bits that pe by simp
    from drain_run [OF inv1 p1(1) le0 this] obtain s' where "runs_to Q d ?s1 s'" "tpc s' d = Ready"
      "let ys = take count (all_pending s d 0 n) in returns s' d = returns s d @ [(ys \<noteq> [], length ys, ys)]"
      unfolding ap p1(2) by auto
    with e0 runs_to_step [OF e1] show ?thesis by (intro exI [of _ ?s0] exI [of _ s']) (simp add: Let_def)
  qed
qed

text \<open>A sleeping reader with a message: the threads that are about to signal or to post it wake it up.\<close>

lemma sleeper_woken:
  assumes inv: "net_inv pinv n s" and d: "asleep (tpc s d)" and t: "t < n"
    "length (received (pipe_of (disp s) t d)) < flushed (pipe_of (disp s) t d)"
  shows "\<exists>us s' g. length us \<le> 2 \<and> list_all (\<lambda>u. tpc s u = Signalling d \<or> tpc s u = Posting d) us \<and> net_run Q (map Step us) s = Inr s' \<and>
    mSignalers (disp s') ! d = Some g \<and> mSemaphore g = 1 \<and> tpc s' d = tpc s d"
proof -
  note I = net_invD [OF inv]
  obtain c where c: "tpc s d = Asleep c" using d by (auto simp: asleep_def)
  obtain g where g: "d < n" "mSignalers (disp s) ! d = Some g" using reader_attached [OF inv, of d] c by auto
  have tok: "of_bool (bit (mBitmap g) mWaitSignal) + mSemaphore g + card (posters s d) = 1" "finite (posters s d)"
    "bit (mBitmap g) mWaitSignal \<Longrightarrow> mBitmap g = push_bit mWaitSignal 1"
    using I(9) [OF g(1)] g(2) d by (auto simp: reader_ok_def)
  note os = on_signaler_eq [of d "disp s" g, unfolded I(4), OF g]
  consider "mSemaphore g = 1" | u where "tpc s u = Posting d" "mSemaphore g = 0" | "bit (mBitmap g) mWaitSignal" "mSemaphore g = 0"
    using tok by (cases "mSemaphore g = 0"; cases "posters s d = {}") (auto simp: posters_def of_bool_def split: if_splits)
  then show ?thesis
  proof cases
    case 1
    with g show ?thesis by (intro exI [of _ "[]"]) auto
  next
    case (2 u)
    then have "u \<noteq> d" using c by auto
    with 2 g I(4) show ?thesis by (intro exI [of _ "[u]"]) (auto simp: os sem_post_def)
  next
    case 3
    then have "mBitmap g = push_bit mWaitSignal 1" "t \<noteq> mWaitSignal" using tok(3) I(1) t(1) by (auto simp: MAX_THREADS_def mWaitSignal_def)
    then have "\<not> bit (bits (disp s) d) t" using g(2) by (simp add: bits_def bit_wait del: push_bit_of_1)
    then have p: "tpc s t = Signalling d" using I(10) [OF t(1) g(1)] t(2) c by (auto simp: link_ok_def bit_or_iff)
    then have "t \<noteq> d" using c by auto
    let ?D = "set_signaler d (snd (signal_btsr t g)) (disp s)"
    have "fst (signal_btsr t g)" "mSemaphore (snd (signal_btsr t g)) = 0"
      using 3 by (simp_all add: signal_btsr_def bitmap_btsr_def split_beta Let_def)
    then have "net_exec Q (Step t) s = Inr (at_pc t (Posting d) s ?D)" using p by (simp add: os)
    moreover have "net_exec Q (Step t) (at_pc t (Posting d) s ?D) =
        Inr (at_pc t Ready (at_pc t (Posting d) s ?D) (set_signaler d (sem_post (snd (signal_btsr t g))) ?D))"
      using g I(4) by (simp add: on_signaler_eq [of d ?D "snd (signal_btsr t g)"])
    ultimately show ?thesis using p g I(4) \<open>t \<noteq> d\<close> \<open>mSemaphore (snd (signal_btsr t g)) = 0\<close>
      by (intro exI [of _ "[t, t]"]) (simp add: sem_post_def del: net_exec.simps)
  qed
qed


text \<open>\<open>DispatcherDestination::read\<close> takes messages out of the pipe and keeps the last one.\<close>

lemma destination_get:
  assumes "mMaxThreadContextCount D = n" "length (mPipes D) = n * n" "t < n" "d < n" "pinv (pipe_of D t d)"
  obtains r P' where "Dispatcher_read Q t d D = Inr (r, set_pipe t d P' D)" "pinv P'" "read_effect r (pipe_of D t d) P'"
proof -
  obtain r P' where "pipe_get Q (pipe_of D t d) = Inr (r, P')" "pinv P'" "read_effect r (pipe_of D t d) P'"
    using get_law [OF assms(5)] by blast
  then show thesis by (intro that [of r P']) (simp_all add: Dispatcher_read_def on_pipe_eq [OF assms(1-4)])
qed

lemma destination_loop:
  assumes "mMaxThreadContextCount D = n" "length (mPipes D) = n * n" "t < n" "d < n" "pinv (pipe_of D t d)"
  shows "\<exists>D'. (let P = pipe_of D t d; ys = take k (drop (length (received P)) (take (flushed P) (sent P))) in
    Destination_read_loop Q t d k m c D = Inr (if ys = [] then m else Some (last ys), 0 < c + length ys, D') \<and>
    received (pipe_of D' t d) = received P @ ys)"
  using assms
proof (induction k arbitrary: m c D)
  case (Suc k)
  let ?P = "pipe_of D t d"
  obtain r P' where R: "Dispatcher_read Q t d D = Inr (r, set_pipe t d P' D)" "pinv P'" "read_effect r ?P P'"
    using destination_get [OF Suc.prems] by blast
  have P': "pipe_of (set_pipe t d P' D) t d = P'" using pipe_of_set_pipe [OF Suc.prems(1-4,4), of P' t] by simp
  note pe = pending_read [OF Suc.prems(5) R(3)]
  show ?case
  proof (cases r)
    case None
    with R P' pe show ?thesis by (intro exI [of _ "set_pipe t d P' D"]) (simp add: Let_def read_effect_def)
  next
    case (Some v)
    define ys where "ys = take k (drop (length (received P')) (take (flushed P') (sent P')))"
    from Suc.IH [of "set_pipe t d P' D" "Some v" "c + 1"] Suc.prems R(2) P' obtain D' where
      D': "Destination_read_loop Q t d k (Some v) (c + 1) (set_pipe t d P' D) =
          Inr (if ys = [] then Some v else Some (last ys), 0 < c + 1 + length ys, D')"
        "received (pipe_of D' t d) = received P' @ ys"
      by (auto simp: Let_def ys_def)
    have "take (Suc k) (drop (length (received ?P)) (take (flushed ?P) (sent ?P))) = v # ys" using pe Some by (simp add: ys_def)
    moreover have "received P' = received ?P @ [v]" using R(3) Some by (simp add: read_effect_def)
    ultimately show ?thesis using D' R(1) Some unfolding Let_def by (intro exI [of _ D']) auto
  qed
qed (auto simp: Let_def)

lemma spin_read_some:
  assumes "spin_read Q' t d D = Some y"
  shows "Q' = Q \<longrightarrow> good_pipe pinv t d D \<longrightarrow> length (received (pipe_of D t d)) < flushed (pipe_of D t d)"
  using assms
proof (rule spin_read.raw_induct [where P = "\<lambda>Q' t d D y. Q' = Q \<longrightarrow> good_pipe pinv t d D \<longrightarrow>
    length (received (pipe_of D t d)) < flushed (pipe_of D t d)", rotated], intro impI)
  fix f Q' t d D y
  assume ih: "\<And>Q' t d D y. f Q' t d D = Some y \<Longrightarrow> Q' = Q \<longrightarrow> good_pipe pinv t d D \<longrightarrow> length (received (pipe_of D t d)) < flushed (pipe_of D t d)"
    and st: "(case Dispatcher_read Q' t d D of Inl e \<Rightarrow> Some (Inl e) | Inr (None, D) \<Rightarrow> f Q' t d D | Inr (Some m, D) \<Rightarrow> Some (Inr (m, D))) = Some y"
    and q: "Q' = Q" and good: "good_pipe pinv t d D"
  let ?n = "mMaxThreadContextCount D"
  have D: "t < ?n" "d < ?n" "length (mPipes D) = ?n * ?n" "pinv (pipe_of D t d)" using good by (simp_all add: good_pipe_def)
  obtain r P' where R: "Dispatcher_read Q t d D = Inr (r, set_pipe t d P' D)" "pinv P'" "read_effect r (pipe_of D t d) P'"
    using destination_get [OF refl D(3,1,2,4)] by blast
  have P': "pipe_of (set_pipe t d P' D) t d = P'" using pipe_of_set_pipe [OF refl D(3,1,2,2), of P' t] by simp
  show "length (received (pipe_of D t d)) < flushed (pipe_of D t d)"
  proof (cases r)
    case None
    with st R(1) q have "f Q t d (set_pipe t d P' D) = Some y" by simp
    moreover have "good_pipe pinv t d (set_pipe t d P' D)" using D R(2) P' by (simp add: good_pipe_def)
    ultimately have "length (received P') < flushed P'" using ih P' by fastforce
    with R(3) None show ?thesis by (simp add: read_effect_def)
  qed (use R(3) in \<open>simp add: read_effect_def\<close>)
qed

lemma spin_read_empty: "good_pipe pinv t d D \<Longrightarrow> flushed (pipe_of D t d) = length (received (pipe_of D t d)) \<Longrightarrow> spin_read Q t d D = None"
  using spin_read_some [of Q t d D] by (cases "spin_read Q t d D") auto

end

section \<open>Properties\<close>

interpretation net: message_pipe "AtomicQueue_ops N" "pipe_inv (aq_rep N)"
  by (rule slot_queue.pipe_contract [OF aq.slot_queue_axioms])

lemma net_reached_inv:
  assumes "0 < N" "list_all (act_ok n) as"
    and "rbind (net_start (AtomicQueue_ops N) (AtomicQueue_new rw) n) (net_run (AtomicQueue_ops N) as) = Inr s"
  shows "net_inv (pipe_inv (aq_rep N)) n s"
proof -
  obtain s0 where s0: "net_start (AtomicQueue_ops N) (AtomicQueue_new rw) n = Inr s0" "net_run (AtomicQueue_ops N) as s0 = Inr s"
    using assms(3) by (auto simp: rbind_simps)
  obtain P where "pipe_start (AtomicQueue_ops N) (AtomicQueue_new rw) = Inr P" "pipe_inv (aq_rep N) P"
    using aq.start_inv [OF new_law [OF assms(1)]] by blast
  from net.start_inv [OF this s0(1)] show ?thesis using net.run_inv assms(2) s0(2) by blast
qed


lemmas net_eval = net_start_def Dispatcher_new_def createThreadContext_def distroyThreadContext_def choose_context_def nth_or_fault_def
  at_pc_def return_read_def got_signals_def drain_step_def wait_step_def can_call_def on_pipe_def on_signaler_def pipe_index_def
  Dispatcher_put_def Dispatcher_flush_def Dispatcher_store_def Dispatcher_read_def pipe_get_def signal_btsr_def sem_post_def sem_wait_def
  poll_izte_def check_def bitOr_def bitmap_btsr_def bitmap_xchg_def bitmap_izte_def bitmap_or_def mWaitSignal_def signaler_new_def
  MAX_THREADS_def set_bit_eq_or unset_bit_eq_and_not numeral_2_eq_2

abbreviation two_threads :: "nat net_act list \<Rightarrow> (nat aqueue, nat \<times> nat, nat) network result" where
  "two_threads as \<equiv> rbind (net_start (AtomicQueue_ops 2) (AtomicQueue_new zero_chunks) 2)
     (net_run (AtomicQueue_ops 2) (Create (- 1) # Create (- 1) # as))"







text \<open>
  A blocking \<open>read\<close> may return without a message: when the reader takes a message between the writer's flush and its signal,
  the signal that follows finds nothing behind it, and the next blocking call returns false at once instead of sleeping.
\<close>

theorem blocking_read_returns_nothing:
  "\<exists>s. two_threads [Send 0 1 [7], Step 0, Step 0, Step 0, Send 0 1 [8], Step 0, Step 0,
      Recv 1 9 False, Step 1, Step 1, Step 1, Step 1, Step 1, Step 1, Step 0, Recv 1 9 True, Step 1, Step 1, Step 1, Step 1] = Inr s \<and>
    tpc s 0 = Ready \<and> tpc s 1 = Ready \<and> returns s 1 = [(True, 2, [(0, 7), (0, 8)]), (False, 0, [])]"
  by (simp add: pipe_eval net_eval)

text \<open>
  A context that is created again under the number of a destroyed one starts with an empty bitmap: messages that the old context left
  in the pipes are not seen until their source signals again. The call also leaves \<open>count\<close> as it was.
\<close>

lemma context_reuse_hides_messages:
  "\<exists>s. two_threads [Send 0 1 [7], Step 0, Step 0, Step 0, Destroy 1, Create 1, Recv 1 9 False, Step 1] = Inr s \<and>
    pending s 1 0 = [7] \<and> returns s 1 = [(False, 9, [])]"
  by (simp add: pipe_eval net_eval pipe_of_def pending_def)

text \<open>A message to a thread without a context is written and flushed, and then the missing signaler is dereferenced.\<close>

lemma write_without_context_faults:
  "two_threads [Destroy 1, Send 0 1 [7], Step 0, Step 0, Step 0] = Inl MemFault"
  by (simp add: pipe_eval net_eval)

text \<open>
  C20. \<open>DispatcherDestination::read\<close> for \<open>count\<close> messages takes up to \<open>count\<close> of those that wait out of the pipe, but stores every one
  in the first element of the caller's array: all but the last are lost. It reads the pipe on which the destination writes, so
  that a blocking call that finds nothing, which no other thread can change, never returns.
\<close>

theorem destination_read_keeps_last:
  assumes "0 < N" "list_all (act_ok n) as" "t < n" "d < n"
    and "rbind (net_start (AtomicQueue_ops N) (AtomicQueue_new rw) n) (net_run (AtomicQueue_ops N) as) = Inr s"
  shows "let P = pipe_of (disp s) t d; ys = take count (pending s d t) in
    (\<exists>D. Destination_read (AtomicQueue_ops N) t d count False (disp s) =
        Some (Inr (if ys = [] then None else Some (last ys), ys \<noteq> [], D)) \<and> received (pipe_of D t d) = received P @ ys) \<and>
    (pending s d t = [] \<longrightarrow> Destination_read (AtomicQueue_ops N) t d count True (disp s) = None)"
proof -
  have inv: "net_inv (pipe_inv (aq_rep N)) n s" by (rule net_reached_inv [OF assms(1,2,5)])
  note I = net_invD [OF inv]
  let ?P = "pipe_of (disp s) t d"
  have P: "pipe_inv (aq_rep N) ?P" using net.link_of [OF inv assms(3,4)] by blast
  have "good_pipe (pipe_inv (aq_rep N)) t d (disp s)" using I(2,3) assms(3,4) P by (simp add: good_pipe_def)
  then have "spin_read (AtomicQueue_ops N) t d (disp s) = None" if "pending s d t = []"
    using that net.counts [OF P] net.pending_Nil_iff [OF P] by (intro net.spin_read_empty) (auto simp: pending_def Let_def)
  moreover obtain D where "Destination_read_loop (AtomicQueue_ops N) t d count None 0 (disp s) =
      Inr (if take count (pending s d t) = [] then None else Some (last (take count (pending s d t))), 0 < 0 + length (take count (pending s d t)), D)"
    "received (pipe_of D t d) = received ?P @ take count (pending s d t)"
    using net.destination_loop [OF I(2,3) assms(3,4) P, of count None 0] unfolding pending_def Let_def by blast
  ultimately show ?thesis by (auto simp: Destination_read_def Let_def)
qed

theorem destination_read_keeps_last_witness:
  "\<exists>s D. two_threads [Send 0 1 [7, 8], Step 0, Step 0, Step 0, Step 0] = Inr s \<and>
    Destination_read (AtomicQueue_ops 2) 0 1 2 False (disp s) = Some (Inr (Some 8, True, D)) \<and>
    Destination_read (AtomicQueue_ops 2) 1 0 2 True (disp s) = None"
proof -
  obtain s where s: "two_threads [Send 0 1 [7, 8], Step 0, Step 0, Step 0, Step 0] = Inr s" "pending s 1 0 = [7, 8]" "pending s 0 1 = []"
    by (simp add: pipe_eval net_eval pipe_of_def pending_def)
  from destination_read_keeps_last [OF _ _ _ _ s(1), of 0 1 2] destination_read_keeps_last [OF _ _ _ _ s(1), of 1 0 2] s show ?thesis
    by (auto simp: act_ok_def Let_def)
qed

section \<open>Destruction\<close>

lemma delete_pipes_frees_all:
  "list_all (\<lambda>P. pipe_inv (aq_rep N) P) Ps \<Longrightarrow>
   \<exists>qs. delete_pipes AtomicQueue_destroy Ps = Inr qs \<and> list_all (\<lambda>q. chunks q = Map.empty) qs"
proof (induction Ps)
  case (Cons P Ps)
  from Cons.prems obtain S where "aq_rep N (pqueue (spipe P)) S" by (auto simp: pipe_inv_def)
  from destroy_law [OF this] Cons show ?case by auto
qed simp

end
