(* ===== verification/Context_Hub.thy ===== *)
theory Context_Hub
  imports Prelude "HOL-Library.Multiset"
begin

text \<open>
  The stores of user objects of \<open>include/core/ContextHub.h\<close>: \<open>ContextHub\<close> with one slot for every type, found through an index that is
  given to the type on its first use, \<open>NamedContextHub\<close> and \<open>HashedContextHub\<close> with a slot for every key. A slot is a
  \<open>shared_ptr<void>\<close> that nobody else shares, because the stores give out plain pointers only; it deletes its object when it is overwritten,
  reset or destroyed, unless the ownership stayed with the caller.
\<close>

section \<open>Slots\<close>

text \<open>\<open>Shared p ty owned\<close>: made from a pointer \<open>p\<close> (\<open>None\<close> is null) to an object of type \<open>ty\<close>; not \<open>owned\<close> is the \<open>NullDeleter\<close>.\<close>

datatype 'ty shared = Empty | Shared "nat option" 'ty bool

fun sp_get :: "'ty shared \<Rightarrow> nat option" where
  "sp_get Empty = None"
| "sp_get (Shared p ty owned) = p"

text \<open>The objects that the end of a shared pointer deletes: as objects of the type the pointer was made from.\<close>

fun deletes :: "'ty shared \<Rightarrow> ('ty \<times> nat) list" where
  "deletes (Shared (Some a) ty True) = [(ty, a)]"
| "deletes _ = []"

section \<open>ContextHub\<close>

text \<open>
  \<open>static_index\<close> is the function-local static of \<open>refSharedContext<T>\<close>, for every \<open>T\<close> that has been used; \<open>vectors\<close> holds the
  member \<open>mSharedContextObjects\<close> of every hub. \<open>deleted\<close> is history.
\<close>

record 'ty hub_world =
  msContextIndexer :: "32 word"
  static_index :: "'ty \<rightharpoonup> 32 word"
  vectors :: "nat \<rightharpoonup> 'ty shared list"
  deleted :: "('ty \<times> nat) list"

definition hub_start :: "'ty hub_world" where
  "hub_start = \<lparr>msContextIndexer = 0, static_index = Map.empty, vectors = Map.empty, deleted = []\<rparr>"

definition type_slot :: "'ty \<Rightarrow> 'ty hub_world \<Rightarrow> 32 word \<times> 'ty hub_world" where
  "type_slot T w = (case static_index w T of Some i \<Rightarrow> (i, w)
     | None \<Rightarrow> (msContextIndexer w, w\<lparr>msContextIndexer := msContextIndexer w + 1, static_index := (static_index w)(T \<mapsto> msContextIndexer w)\<rparr>))"

function grow_slots :: "nat \<Rightarrow> 'ty shared list \<Rightarrow> 'ty shared list" where
  "grow_slots i xs = (if i \<ge> length xs then grow_slots i (xs @ [Empty]) else xs)"
  by pat_completeness auto
termination by (relation "measure (\<lambda>(i, xs). Suc i - length xs)") auto

declare grow_slots.simps [simp del]

definition refSharedContext :: "nat \<Rightarrow> 'ty \<Rightarrow> 'ty hub_world \<Rightarrow> nat \<times> 'ty hub_world" where
  "refSharedContext h T w =
     (let (i, w) = type_slot T w;
          xs = (case vectors w h of None \<Rightarrow> [] | Some xs \<Rightarrow> xs) in
      (unat i, w\<lparr>vectors := (vectors w)(h \<mapsto> grow_slots (unat i) xs)\<rparr>))"

definition hub_assign :: "nat \<Rightarrow> 'ty \<Rightarrow> 'ty shared \<Rightarrow> 'ty hub_world \<Rightarrow> 'ty hub_world" where
  "hub_assign h T sp w =
     (let (i, w) = refSharedContext h T w; xs = the (vectors w h) in
      w\<lparr>vectors := (vectors w)(h \<mapsto> xs[i := sp]), deleted := deleted w @ deletes (xs ! i)\<rparr>)"

text \<open>\<open>set\<close>: the ownership is a template parameter with a default of the class.\<close>

definition hub_set :: "bool \<Rightarrow> nat \<Rightarrow> 'ty \<Rightarrow> nat option \<Rightarrow> 'ty hub_world \<Rightarrow> 'ty hub_world" where
  "hub_set transfer h T ctx w = (if transfer then hub_assign h T (Shared ctx T True) w else hub_assign h T (Shared ctx T False) w)"

definition hub_get :: "nat \<Rightarrow> 'ty \<Rightarrow> 'ty hub_world \<Rightarrow> nat option \<times> 'ty hub_world" where
  "hub_get h T w = (let (i, w) = refSharedContext h T w in (sp_get (the (vectors w h) ! i), w))"

definition hub_reset :: "nat \<Rightarrow> 'ty \<Rightarrow> 'ty hub_world \<Rightarrow> 'ty hub_world" where
  "hub_reset h T w = hub_assign h T Empty w"

text \<open>\<open>resetAll\<close> and the destructor delete the vector with its elements.\<close>

definition hub_resetAll :: "nat \<Rightarrow> 'ty hub_world \<Rightarrow> 'ty hub_world" where
  "hub_resetAll h w = (case vectors w h of None \<Rightarrow> w
     | Some xs \<Rightarrow> w\<lparr>vectors := (vectors w)(h := None), deleted := deleted w @ concat (map deletes xs)\<rparr>)"

section \<open>NamedContextHub and HashedContextHub\<close>

text \<open>The \<open>std::map\<close> and the hash table as lists of pairs with distinct keys.\<close>

record ('k, 'ty) keyed_hub =
  mSharedContextObjects :: "('k \<times> 'ty shared) list"
  kdeleted :: "('ty \<times> nat) list"

definition keyed_start :: "('k, 'ty) keyed_hub" where
  "keyed_start = \<lparr>mSharedContextObjects = [], kdeleted = []\<rparr>"

fun put_key :: "'k \<Rightarrow> 'v \<Rightarrow> ('k \<times> 'v) list \<Rightarrow> ('k \<times> 'v) list" where
  "put_key k v [] = [(k, v)]"
| "put_key k v ((k', v') # xs) = (if k' = k then (k, v) # xs else (k', v') # put_key k v xs)"

text \<open>\<open>insert\<close> does nothing when the key is there; \<open>operator[]\<close> gives an entry for every key.\<close>

definition named_ref :: "string \<Rightarrow> (string, 'ty) keyed_hub \<Rightarrow> 'ty shared \<times> (string, 'ty) keyed_hub" where
  "named_ref name s = (case map_of (mSharedContextObjects s) name of
     None \<Rightarrow> (Empty, s\<lparr>mSharedContextObjects := put_key name Empty (mSharedContextObjects s)\<rparr>)
   | Some sp \<Rightarrow> (sp, s))"

definition named_assign :: "string \<Rightarrow> 'ty shared \<Rightarrow> (string, 'ty) keyed_hub \<Rightarrow> (string, 'ty) keyed_hub" where
  "named_assign name sp s = (let (old, s) = named_ref name s in
     s\<lparr>mSharedContextObjects := put_key name sp (mSharedContextObjects s), kdeleted := kdeleted s @ deletes old\<rparr>)"

definition named_set :: "bool \<Rightarrow> string \<Rightarrow> 'ty \<Rightarrow> nat option \<Rightarrow> (string, 'ty) keyed_hub \<Rightarrow> (string, 'ty) keyed_hub" where
  "named_set transfer name T ctx s =
     (if transfer then named_assign name (Shared ctx T True) s else named_assign name (Shared ctx T False) s)"

definition named_get :: "string \<Rightarrow> (string, 'ty) keyed_hub \<Rightarrow> nat option \<times> (string, 'ty) keyed_hub" where
  "named_get name s = (let (sp, s) = named_ref name s in (sp_get sp, s))"

definition named_reset :: "string \<Rightarrow> (string, 'ty) keyed_hub \<Rightarrow> (string, 'ty) keyed_hub" where
  "named_reset name s = named_assign name Empty s"

definition named_delete :: "(string, 'ty) keyed_hub \<Rightarrow> (string, 'ty) keyed_hub" where
  "named_delete s = s\<lparr>mSharedContextObjects := [], kdeleted := kdeleted s @ concat (map (deletes \<circ> snd) (mSharedContextObjects s))\<rparr>"

definition named_size :: "(string, 'ty) keyed_hub \<Rightarrow> nat" where
  "named_size s = length (mSharedContextObjects s)"

definition hashed_ref :: "'k \<Rightarrow> ('k, 'ty) keyed_hub \<Rightarrow> 'ty shared \<times> ('k, 'ty) keyed_hub" where
  "hashed_ref key s = (case map_of (mSharedContextObjects s) key of
     None \<Rightarrow> (Empty, s\<lparr>mSharedContextObjects := put_key key Empty (mSharedContextObjects s)\<rparr>)
   | Some sp \<Rightarrow> (sp, s))"

definition hashed_assign :: "'k \<Rightarrow> 'ty shared \<Rightarrow> ('k, 'ty) keyed_hub \<Rightarrow> ('k, 'ty) keyed_hub" where
  "hashed_assign key sp s = (let (old, s) = hashed_ref key s in
     s\<lparr>mSharedContextObjects := put_key key sp (mSharedContextObjects s), kdeleted := kdeleted s @ deletes old\<rparr>)"

definition hashed_set :: "bool \<Rightarrow> 'k \<Rightarrow> 'ty \<Rightarrow> nat option \<Rightarrow> ('k, 'ty) keyed_hub \<Rightarrow> ('k, 'ty) keyed_hub" where
  "hashed_set transfer key T ctx s =
     (if transfer then hashed_assign key (Shared ctx T True) s else hashed_assign key (Shared ctx T False) s)"

definition hashed_get :: "'k \<Rightarrow> ('k, 'ty) keyed_hub \<Rightarrow> nat option \<times> ('k, 'ty) keyed_hub" where
  "hashed_get key s = (let (sp, s) = hashed_ref key s in (sp_get sp, s))"

definition hashed_reset :: "'k \<Rightarrow> ('k, 'ty) keyed_hub \<Rightarrow> ('k, 'ty) keyed_hub" where
  "hashed_reset key s = hashed_assign key Empty s"

definition hashed_delete :: "('k, 'ty) keyed_hub \<Rightarrow> ('k, 'ty) keyed_hub" where
  "hashed_delete s = s\<lparr>mSharedContextObjects := [], kdeleted := kdeleted s @ concat (map (deletes \<circ> snd) (mSharedContextObjects s))\<rparr>"

definition hashed_size :: "('k, 'ty) keyed_hub \<Rightarrow> nat" where
  "hashed_size s = length (mSharedContextObjects s)"

end
