(* ===== verification/Context_Hub_Spec.thy ===== *)
theory Context_Hub_Spec
  imports Context_Hub
begin

text \<open>
  The three stores behave as a map from keys to slots. The contract is the locale \<open>context_store\<close>; its lemmas say that every sequence of
  calls returns what the map returns, that a slot holds only objects of a type that fits its key, and that an object whose
  ownership was transferred is deleted exactly once or still held. Each store is an interpretation of it.
\<close>

section \<open>Calls on a store\<close>

record ('s, 'h, 'k, 'ty) store_ops =
  st_set :: "bool \<Rightarrow> 'k \<Rightarrow> 'ty \<Rightarrow> nat option \<Rightarrow> 's \<Rightarrow> 's"
  st_get :: "'k \<Rightarrow> 's \<Rightarrow> nat option \<times> 's"
  st_reset :: "'k \<Rightarrow> 's \<Rightarrow> 's"
  st_clear :: "'h \<Rightarrow> 's \<Rightarrow> 's"

datatype ('h, 'k, 'ty) store_call = Set bool 'k 'ty "nat option" | Get 'k | Reset 'k | Clear 'h

text \<open>The pointers that the calls of \<open>get\<close> return, and the final state.\<close>

fun store_run :: "('s, 'h, 'k, 'ty) store_ops \<Rightarrow> ('h, 'k, 'ty) store_call list \<Rightarrow> 's \<Rightarrow> nat option list \<times> 's" where
  "store_run S [] s = ([], s)"
| "store_run S (Set tr k ty p # cs) s = store_run S cs (st_set S tr k ty p s)"
| "store_run S (Get k # cs) s = (let (p, s) = st_get S k s; (ps, s) = store_run S cs s in (p # ps, s))"
| "store_run S (Reset k # cs) s = store_run S cs (st_reset S k s)"
| "store_run S (Clear h # cs) s = store_run S cs (st_clear S h s)"

text \<open>The abstract store: a slot for every key; \<open>owner\<close> says which keys \<open>Clear\<close> empties.\<close>

definition map_ops :: "('k \<Rightarrow> 'h) \<Rightarrow> ('k \<Rightarrow> 'ty shared, 'h, 'k, 'ty) store_ops" where
  "map_ops owner = \<lparr>st_set = (\<lambda>tr k ty p m. m(k := Shared p ty tr)), st_get = (\<lambda>k m. (sp_get (m k), m)),
     st_reset = (\<lambda>k m. m(k := Empty)), st_clear = (\<lambda>h m k. if owner k = h then Empty else m k)\<rparr>"

lemma map_ops_simps [simp]:
  "st_set (map_ops owner) tr k ty p m = m(k := Shared p ty tr)" "st_get (map_ops owner) k m = (sp_get (m k), m)"
  "st_reset (map_ops owner) k m = m(k := Empty)" "st_clear (map_ops owner) h m = (\<lambda>k. if owner k = h then Empty else m k)"
  by (simp_all add: map_ops_def)

definition call_fits :: "('k \<Rightarrow> 'ty \<Rightarrow> bool) \<Rightarrow> ('h, 'k, 'ty) store_call \<Rightarrow> bool" where
  "call_fits fits c \<longleftrightarrow> (case c of Set tr k ty p \<Rightarrow> fits k ty | _ \<Rightarrow> True)"

text \<open>The objects given to the store for good.\<close>

fun transferred :: "('h, 'k, 'ty) store_call list \<Rightarrow> ('ty \<times> nat) list" where
  "transferred [] = []"
| "transferred (Set tr k ty p # cs) = deletes (Shared p ty tr) @ transferred cs"
| "transferred (_ # cs) = transferred cs"

definition owned :: "('k \<Rightarrow> 'ty shared) \<Rightarrow> ('ty \<times> nat) multiset" where
  "owned m = (\<Sum>k\<in>{k. deletes (m k) \<noteq> []}. mset (deletes (m k)))"

lemma owned_superset: "finite K \<Longrightarrow> {k. deletes (m k) \<noteq> []} \<subseteq> K \<Longrightarrow> owned m = (\<Sum>k\<in>K. mset (deletes (m k)))"
  unfolding owned_def by (rule sum.mono_neutral_left) auto

lemma owned_upd:
  assumes "finite {k. deletes (m k) \<noteq> []}"
  shows "owned (m(k := sp)) + mset (deletes (m k)) = owned m + mset (deletes sp)" "finite {j. deletes ((m(k := sp)) j) \<noteq> []}"
proof -
  let ?K = "insert k {k. deletes (m k) \<noteq> []}"
  show fin: "finite {j. deletes ((m(k := sp)) j) \<noteq> []}" by (rule finite_subset [of _ ?K]) (use assms in auto)
  have "owned m = mset (deletes (m k)) + (\<Sum>j\<in>?K - {k}. mset (deletes (m j)))"
    using assms by (subst owned_superset [of ?K]) (auto simp: sum.remove [of ?K k])
  moreover have "owned (m(k := sp)) = mset (deletes sp) + (\<Sum>j\<in>?K - {k}. mset (deletes ((m(k := sp)) j)))"
    using assms by (subst owned_superset [of ?K]) (auto simp: sum.remove [of ?K k])
  moreover have "(\<Sum>j\<in>?K - {k}. mset (deletes ((m(k := sp)) j))) = (\<Sum>j\<in>?K - {k}. mset (deletes (m j)))"
    by (rule sum.cong) auto
  ultimately show "owned (m(k := sp)) + mset (deletes (m k)) = owned m + mset (deletes sp)" by (simp add: ac_simps)
qed

section \<open>The contract\<close>

text \<open>\<open>live n s\<close>: the store can take \<open>n\<close> more calls.\<close>

locale context_store =
  fixes S :: "('s, 'h, 'k, 'ty) store_ops" and owner :: "'k \<Rightarrow> 'h" and fits :: "'k \<Rightarrow> 'ty \<Rightarrow> bool"
    and live :: "nat \<Rightarrow> 's \<Rightarrow> bool" and slot :: "'s \<Rightarrow> 'k \<Rightarrow> 'ty shared" and gone :: "'s \<Rightarrow> ('ty \<times> nat) list"
  assumes live_finite: "live n s \<Longrightarrow> finite {k. deletes (slot s k) \<noteq> []}"
    and set_law: "live (Suc n) s \<Longrightarrow> fits k ty \<Longrightarrow> live n (st_set S tr k ty p s) \<and>
      slot (st_set S tr k ty p s) = (slot s)(k := Shared p ty tr) \<and> gone (st_set S tr k ty p s) = gone s @ deletes (slot s k)"
    and get_law: "live (Suc n) s \<Longrightarrow> \<exists>s'. st_get S k s = (sp_get (slot s k), s') \<and> live n s' \<and> slot s' = slot s \<and> gone s' = gone s"
    and reset_law: "live (Suc n) s \<Longrightarrow> live n (st_reset S k s) \<and>
      slot (st_reset S k s) = (slot s)(k := Empty) \<and> gone (st_reset S k s) = gone s @ deletes (slot s k)"
    and clear_law: "live (Suc n) s \<Longrightarrow> live n (st_clear S h s) \<and>
      slot (st_clear S h s) = (\<lambda>k. if owner k = h then Empty else slot s k) \<and>
      mset (gone (st_clear S h s)) = mset (gone s) + owned (\<lambda>k. if owner k = h then slot s k else Empty)"
begin

lemma owned_split:
  assumes "live n s"
  shows "owned (\<lambda>k. if owner k = h then slot s k else Empty) + owned (\<lambda>k. if owner k = h then Empty else slot s k) = owned (slot s)"
proof -
  let ?K = "{k. deletes (slot s k) \<noteq> []}"
  have "owned (\<lambda>k. if owner k = h then slot s k else Empty) = (\<Sum>k\<in>?K. mset (deletes (if owner k = h then slot s k else Empty)))"
    "owned (\<lambda>k. if owner k = h then Empty else slot s k) = (\<Sum>k\<in>?K. mset (deletes (if owner k = h then Empty else slot s k)))"
    by (rule owned_superset; use live_finite [OF assms] in auto)+
  then show ?thesis unfolding owned_def [of "slot s"] by (auto simp: sum.distrib [symmetric] intro!: sum.cong)
qed

lemma run_map:
  "live (length cs) s \<Longrightarrow> list_all (call_fits fits) cs \<Longrightarrow>
   fst (store_run S cs s) = fst (store_run (map_ops owner) cs (slot s)) \<and>
   slot (snd (store_run S cs s)) = snd (store_run (map_ops owner) cs (slot s))"
proof (induction cs arbitrary: s)
  case (Cons c cs)
  show ?case
  proof (cases c)
    case (Get k)
    with Cons get_law [of "length cs" s k] show ?thesis by (auto simp: Let_def split_beta)
  qed (use Cons set_law reset_law clear_law in \<open>auto simp: call_fits_def\<close>)
qed simp

lemma run_owned:
  "live (length cs) s \<Longrightarrow> list_all (call_fits fits) cs \<Longrightarrow>
   mset (gone (snd (store_run S cs s))) + owned (slot (snd (store_run S cs s))) = mset (gone s) + owned (slot s) + mset (transferred cs)"
proof (induction cs arbitrary: s)
  case (Cons c cs)
  then have live: "live (Suc (length cs)) s" by simp
  note fin = live_finite [OF live]
  show ?case
  proof (cases c)
    case (Get k)
    with Cons get_law [of "length cs" s k] show ?thesis by (auto simp: Let_def split_beta)
  next
    case (Set tr k ty p)
    let ?s = "st_set S tr k ty p s"
    have s: "live (length cs) ?s" "slot ?s = (slot s)(k := Shared p ty tr)" "gone ?s = gone s @ deletes (slot s k)"
      using set_law [OF live, of k ty tr p] Cons.prems(2) Set by (auto simp: call_fits_def)
    have "mset (gone ?s) + owned (slot ?s) = mset (gone s) + (owned (slot s) + mset (deletes (Shared p ty tr)))"
      using owned_upd(1) [OF fin, of k "Shared p ty tr"] by (simp add: s ac_simps)
    with Cons.IH [OF s(1)] Cons.prems(2) Set show ?thesis by (simp add: ac_simps)
  next
    case (Reset k)
    let ?s = "st_reset S k s"
    have s: "live (length cs) ?s" "slot ?s = (slot s)(k := Empty)" "gone ?s = gone s @ deletes (slot s k)"
      using reset_law [OF live] by auto
    have "mset (gone ?s) + owned (slot ?s) = mset (gone s) + owned (slot s)"
      using owned_upd(1) [OF fin, of k Empty] by (simp add: s ac_simps)
    with Cons.IH [OF s(1)] Cons.prems(2) Reset show ?thesis by simp
  next
    case (Clear h)
    let ?s = "st_clear S h s"
    have s: "live (length cs) ?s" "slot ?s = (\<lambda>k. if owner k = h then Empty else slot s k)"
      "mset (gone ?s) = mset (gone s) + owned (\<lambda>k. if owner k = h then slot s k else Empty)" using clear_law [OF live] by auto
    have "mset (gone ?s) + owned (slot ?s) = mset (gone s) + owned (slot s)"
      unfolding s(2,3) owned_split [OF live, of h, symmetric] by (simp add: ac_simps)
    with Cons.IH [OF s(1)] Cons.prems(2) Clear show ?thesis by simp
  qed
qed simp

end


section \<open>ContextHub\<close>

definition hub_ops :: "('ty hub_world, nat, nat \<times> 'ty, 'ty) store_ops" where
  "hub_ops = \<lparr>st_set = (\<lambda>tr (h, T) ty p. hub_set tr h T p), st_get = (\<lambda>(h, T). hub_get h T),
     st_reset = (\<lambda>(h, T). hub_reset h T), st_clear = hub_resetAll\<rparr>"

definition hub_slot :: "'ty hub_world \<Rightarrow> nat \<times> 'ty \<Rightarrow> 'ty shared" where
  "hub_slot w k = (case static_index w (snd k) of None \<Rightarrow> Empty
     | Some i \<Rightarrow> (case vectors w (fst k) of None \<Rightarrow> Empty | Some xs \<Rightarrow> if unat i < length xs then xs ! unat i else Empty))"

text \<open>The indices given out are those below the counter, each to one type, and no vector is longer than the counter.\<close>

definition hub_live :: "nat \<Rightarrow> 'ty hub_world \<Rightarrow> bool" where
  "hub_live n w \<longleftrightarrow> unat (msContextIndexer w) + n < 2 ^ 32 \<and> (\<forall>T T' i. static_index w T = Some i \<longrightarrow> static_index w T' = Some i \<longrightarrow> T = T') \<and>
     (\<forall>i. i < msContextIndexer w \<longleftrightarrow> Some i \<in> range (static_index w)) \<and> finite (dom (vectors w)) \<and>
     (\<forall>h xs. vectors w h = Some xs \<longrightarrow> length xs \<le> unat (msContextIndexer w))"

lemma grow_slots_eq: "grow_slots i xs = xs @ replicate (Suc i - length xs) Empty"
proof (induction i xs rule: grow_slots.induct)
  case (1 i xs)
  show ?case
  proof (cases "i \<ge> length xs")
    case True
    then have "Suc i - length xs = Suc (Suc i - length (xs @ [Empty]))" by simp
    with 1 True show ?thesis by (subst grow_slots.simps) simp
  qed (simp add: grow_slots.simps)
qed

lemma nth_grow_slots: "j < length (grow_slots i xs) \<Longrightarrow> grow_slots i xs ! j = (if j < length xs then xs ! j else Empty)"
  "length (grow_slots i xs) = max (Suc i) (length xs)"
  by (auto simp: grow_slots_eq nth_append)


lemma hub_liveD:
  assumes "hub_live n w"
  shows "unat (msContextIndexer w) + n < 2 ^ 32" "\<And>i. i < msContextIndexer w \<longleftrightarrow> Some i \<in> range (static_index w)"
    "\<And>T i T'. static_index w T = Some i \<Longrightarrow> static_index w T' = Some i \<Longrightarrow> T = T'" "finite (dom (vectors w))"
    "\<And>h xs. vectors w h = Some xs \<Longrightarrow> length xs \<le> unat (msContextIndexer w)"
  using assms unfolding hub_live_def by blast+

lemma hub_liveI:
  assumes "unat (msContextIndexer w) + n < 2 ^ 32" "\<And>i. i < msContextIndexer w \<longleftrightarrow> Some i \<in> range (static_index w)"
    "\<And>T i T'. static_index w T = Some i \<Longrightarrow> static_index w T' = Some i \<Longrightarrow> T = T'" "finite (dom (vectors w))"
    "\<And>h xs. vectors w h = Some xs \<Longrightarrow> length xs \<le> unat (msContextIndexer w)"
  shows "hub_live n w"
  using assms unfolding hub_live_def by blast

lemma hub_live_less: "hub_live (Suc n) w \<Longrightarrow> hub_live n w"
  by (simp add: hub_live_def)

lemma type_slot_law:
  assumes live: "hub_live (Suc n) w" and e: "type_slot T w = (i, w')"
  shows "hub_live n w' \<and> static_index w' T = Some i \<and> i < msContextIndexer w' \<and> hub_slot w' = hub_slot w \<and>
    vectors w' = vectors w \<and> deleted w' = deleted w"
proof (cases "static_index w T")
  case (Some j)
  then have "Some j \<in> range (static_index w)" by (metis rangeI)
  with e Some hub_live_less [OF live] hub_liveD(2) [OF live] show ?thesis by (simp add: type_slot_def)
next
  case None
  note L = hub_liveD [OF live]
  let ?c = "msContextIndexer w"
  have w': "i = ?c" "w' = w\<lparr>msContextIndexer := ?c + 1, static_index := (static_index w)(T \<mapsto> ?c)\<rparr>"
    using e None by (auto simp: type_slot_def)
  have "unat (?c + 1) = unat ?c + 1" using L(1) by (subst unat_add_lem [THEN iffD1]) simp_all
  then have c1: "unat (?c + 1) = unat ?c + 1" "\<And>j. j < ?c + 1 \<longleftrightarrow> j < ?c \<or> j = ?c"
    by (auto simp: word_less_nat_alt word_unat_eq_iff)
  have new: "static_index w T' \<noteq> Some ?c" for T' using L(2) [of ?c] by (metis less_irrefl rangeI)
  have rng: "Some j \<in> range ((static_index w)(T \<mapsto> ?c)) \<longleftrightarrow> Some j \<in> range (static_index w) \<or> j = ?c" for j
    using None by (auto simp: image_iff fun_upd_apply) (metis option.distinct(1))
  have "hub_live n w'"
  proof (rule hub_liveI)
    show "unat (msContextIndexer w') + n < 2 ^ 32" using L(1) c1 by (simp add: w')
    show "j < msContextIndexer w' \<longleftrightarrow> Some j \<in> range (static_index w')" for j using c1(2) L(2) [of j] rng by (simp add: w')
    show "T1 = T2" if "static_index w' T1 = Some j" "static_index w' T2 = Some j" for T1 T2 j
      using that new L(3) by (auto simp: w' split: if_splits)
    show "length xs \<le> unat (msContextIndexer w')" if "vectors w' h = Some xs" for h xs using that L(5) [of h xs] c1 by (simp add: w')
  qed (use L(4) in \<open>simp add: w'\<close>)
  moreover have "hub_slot w' k = hub_slot w k" for k
    using None L(5) [of "fst k"] by (auto simp: hub_slot_def w' split: option.splits)
  moreover have "?c < ?c + 1" using c1(2) by simp
  ultimately show ?thesis by (auto simp: w' c1)
qed

lemma ref_law:
  assumes live: "hub_live (Suc n) w" and e: "refSharedContext h T w = (i, w')"
  obtains j xs where "hub_live n w'" "static_index w' T = Some j" "unat j = i" "vectors w' h = Some xs" "i < length xs"
    "xs ! i = hub_slot w (h, T)" "hub_slot w' = hub_slot w" "deleted w' = deleted w"
proof -
  obtain j w1 where j: "type_slot T w = (j, w1)" by (cases "type_slot T w")
  note t = type_slot_law [OF live j]
  let ?xs = "case vectors w h of None \<Rightarrow> [] | Some xs \<Rightarrow> xs"
  have w': "i = unat j" "w' = w1\<lparr>vectors := (vectors w1)(h \<mapsto> grow_slots (unat j) ?xs)\<rparr>"
    using e j t by (auto simp: refSharedContext_def Let_def)
  have ij: "unat j < unat (msContextIndexer w1)" using t by (simp add: word_less_nat_alt)
  have len: "length ?xs \<le> unat (msContextIndexer w1)" using t hub_liveD(5) [of n w1 h] by (auto split: option.splits)
  have live': "hub_live n w'"
    using t len ij hub_liveD [of n w1] by (intro hub_liveI) (auto simp: w' nth_grow_slots split: if_splits)
  have vw: "vectors w1 = vectors w" using t by blast
  have slots: "hub_slot w' k = hub_slot w1 k" for k
  proof (cases "static_index w1 (snd k)")
    case (Some l)
    then show ?thesis by (cases "fst k = h"; cases "vectors w h") (auto simp: hub_slot_def w' nth_grow_slots vw)
  qed (simp add: hub_slot_def w')
  have s1: "hub_slot w1 = hub_slot w" and s2: "static_index w1 T = Some j" and s3: "deleted w1 = deleted w" using t by blast+
  have sl: "hub_slot w' = hub_slot w" unfolding s1 [symmetric] by (rule ext) (rule slots)
  have "grow_slots (unat j) ?xs ! i = hub_slot w' (h, T)" using s2 by (simp add: hub_slot_def w' nth_grow_slots)
  with sl have nth: "grow_slots (unat j) ?xs ! i = hub_slot w (h, T)" by simp
  show thesis
    by (rule that [OF live' _ _ _ _ nth sl, of j]) (use s2 s3 w' in \<open>simp_all add: nth_grow_slots\<close>)
qed

lemma hub_assign_law:
  assumes live: "hub_live (Suc n) w"
  shows "hub_live n (hub_assign h T sp w) \<and> hub_slot (hub_assign h T sp w) = (hub_slot w)((h, T) := sp) \<and>
    deleted (hub_assign h T sp w) = deleted w @ deletes (hub_slot w (h, T))"
proof -
  obtain i w' where e: "refSharedContext h T w = (i, w')" by (cases "refSharedContext h T w")
  obtain j xs where R: "hub_live n w'" "static_index w' T = Some j" "unat j = i" "vectors w' h = Some xs" "i < length xs"
    "xs ! i = hub_slot w (h, T)" "hub_slot w' = hub_slot w" "deleted w' = deleted w" using ref_law [OF live e] by metis
  have w2: "hub_assign h T sp w = w'\<lparr>vectors := (vectors w')(h \<mapsto> xs[i := sp]), deleted := deleted w' @ deletes (xs ! i)\<rparr>"
    using e R(4) by (simp add: hub_assign_def)
  note L = hub_liveD [OF R(1)]
  have "hub_live n (hub_assign h T sp w)"
    using L R(4) by (intro hub_liveI) (auto simp: w2 split: if_splits)
  moreover have "hub_slot (hub_assign h T sp w) k = (if k = (h, T) then sp else hub_slot w' k)" for k
  proof (cases "static_index w' (snd k)")
    case (Some l)
    have "unat l = i \<longleftrightarrow> snd k = T" using Some R(2,3) L(3) by (auto simp: word_unat_eq_iff)
    with Some R(4,5) show ?thesis by (cases k) (auto simp: hub_slot_def w2 nth_list_update)
  qed (use R(2) in \<open>auto simp: hub_slot_def w2\<close>)
  ultimately show ?thesis using R(6-8) by (auto simp: w2 fun_eq_iff)
qed


lemma mset_concat_nth: "mset (concat (map f xs)) = (\<Sum>i<length xs. mset (f (xs ! i)))"
  by (induction xs rule: rev_induct) (simp_all add: nth_append)

lemma hub_vector_owned:
  assumes live: "hub_live n w" and xs: "vectors w h = Some xs"
  shows "owned (\<lambda>k. if fst k = h then hub_slot w k else Empty) = mset (concat (map deletes xs))"
proof -
  note L = hub_liveD [OF live]
  have un: "unat (word_of_nat i :: 32 word) = i" if "i < length xs" for i
    using that L(1) L(5) [OF xs] by (simp add: unat_of_nat)
  have "\<exists>T. static_index w T = Some (word_of_nat i)" if "i < length xs" for i
  proof -
    have "word_of_nat i < msContextIndexer w" using that L(5) [OF xs] un [OF that] by (simp add: word_less_nat_alt)
    then show ?thesis using L(2) by (metis imageE)
  qed
  then obtain ty where ty: "\<And>i. i < length xs \<Longrightarrow> static_index w (ty i) = Some (word_of_nat i)" by metis
  have inj: "inj_on (\<lambda>i. (h, ty i)) {..<length xs}"
    by (rule inj_onI) (metis lessThan_iff option.inject prod.inject ty un)
  have at: "hub_slot w (h, ty i) = xs ! i" if "i < length xs" for i using ty [OF that] un [OF that] xs that by (simp add: hub_slot_def)
  have "owned (\<lambda>k. if fst k = h then hub_slot w k else Empty) =
      (\<Sum>k\<in>(\<lambda>i. (h, ty i)) ` {..<length xs}. mset (deletes (if fst k = h then hub_slot w k else Empty)))"
  proof (rule owned_superset)
    show "{k. deletes (if fst k = h then hub_slot w k else Empty) \<noteq> []} \<subseteq> (\<lambda>i. (h, ty i)) ` {..<length xs}"
    proof
      fix k assume "k \<in> {k. deletes (if fst k = h then hub_slot w k else Empty) \<noteq> []}"
      then have k: "fst k = h" "deletes (hub_slot w k) \<noteq> []" by (auto split: if_splits)
      then obtain l where l: "static_index w (snd k) = Some l" "unat l < length xs"
        using xs by (auto simp: hub_slot_def split: option.splits if_splits)
      then have "snd k = ty (unat l)" using ty [OF l(2)] L(3) [OF l(1)] by simp
      with k(1) l(2) show "k \<in> (\<lambda>i. (h, ty i)) ` {..<length xs}" by (cases k) auto
    qed
  qed simp
  also have "\<dots> = (\<Sum>i<length xs. mset (deletes (xs ! i)))" unfolding sum.reindex [OF inj] by (rule sum.cong) (simp_all add: at)
  finally show ?thesis by (simp add: mset_concat_nth)
qed

lemma hub_clear_law:
  assumes live: "hub_live (Suc n) w"
  shows "hub_live n (hub_resetAll h w) \<and> hub_slot (hub_resetAll h w) = (\<lambda>k. if fst k = h then Empty else hub_slot w k) \<and>
    mset (deleted (hub_resetAll h w)) = mset (deleted w) + owned (\<lambda>k. if fst k = h then hub_slot w k else Empty)"
proof (cases "vectors w h")
  case None
  then have "hub_slot w k = Empty" if "fst k = h" for k using that by (auto simp: hub_slot_def split: option.splits)
  then have e: "(\<lambda>k. if fst k = h then hub_slot w k else Empty) = (\<lambda>_. Empty)" "(\<lambda>k. if fst k = h then Empty else hub_slot w k) = hub_slot w"
    by auto
  show ?thesis unfolding e using None hub_live_less [OF live] by (simp add: hub_resetAll_def owned_def)
next
  case (Some xs)
  note L = hub_liveD [OF hub_live_less [OF live]]
  have "hub_live n (hub_resetAll h w)" using L Some by (intro hub_liveI) (auto simp: hub_resetAll_def split: if_splits)
  moreover have "hub_slot (hub_resetAll h w) k = (if fst k = h then Empty else hub_slot w k)" for k
    using Some by (simp add: hub_slot_def hub_resetAll_def split: option.split)
  ultimately show ?thesis using hub_vector_owned [OF live Some] Some by (auto simp: hub_resetAll_def)
qed

lemma hub_finite: "hub_live n w \<Longrightarrow> finite {k. deletes (hub_slot w k) \<noteq> []}"
proof -
  assume live: "hub_live n w"
  note L = hub_liveD [OF live]
  have "inj_on (static_index w) (dom (static_index w))" using L(3) by (metis domD inj_onI)
  then have "finite (dom (static_index w))" using finite_imageD [OF finite] by blast
  then have "finite (dom (vectors w) \<times> dom (static_index w))" using L(4) by simp
  moreover have "{k. deletes (hub_slot w k) \<noteq> []} \<subseteq> dom (vectors w) \<times> dom (static_index w)"
    by (auto simp: hub_slot_def split: option.splits)
  ultimately show ?thesis by (rule finite_subset [rotated])
qed

lemma hub_get_law:
  assumes live: "hub_live (Suc n) w"
  shows "\<exists>w'. hub_get h T w = (sp_get (hub_slot w (h, T)), w') \<and> hub_live n w' \<and> hub_slot w' = hub_slot w \<and> deleted w' = deleted w"
proof -
  obtain i w' where e: "refSharedContext h T w = (i, w')" by (cases "refSharedContext h T w")
  obtain j xs where "hub_live n w'" "vectors w' h = Some xs" "xs ! i = hub_slot w (h, T)" "hub_slot w' = hub_slot w"
    "deleted w' = deleted w" using ref_law [OF live e] by metis
  with e show ?thesis by (simp add: hub_get_def)
qed

interpretation hub: context_store hub_ops fst "\<lambda>k ty. ty = snd k" hub_live hub_slot deleted
proof
  fix n and w :: "'a hub_world" and k ty tr p h
  show "hub_live n w \<Longrightarrow> finite {k. deletes (hub_slot w k) \<noteq> []}" by (rule hub_finite)
  assume live: "hub_live (Suc n) w"
  show "ty = snd k \<Longrightarrow> hub_live n (st_set hub_ops tr k ty p w) \<and> hub_slot (st_set hub_ops tr k ty p w) = (hub_slot w)(k := Shared p ty tr) \<and>
      deleted (st_set hub_ops tr k ty p w) = deleted w @ deletes (hub_slot w k)"
    using hub_assign_law [OF live, of "fst k" "snd k"] by (cases k) (simp add: hub_ops_def hub_set_def)
  show "\<exists>w'. st_get hub_ops k w = (sp_get (hub_slot w k), w') \<and> hub_live n w' \<and> hub_slot w' = hub_slot w \<and> deleted w' = deleted w"
    using hub_get_law [OF live, of "fst k" "snd k"] by (cases k) (simp add: hub_ops_def)
  show "hub_live n (st_reset hub_ops k w) \<and> hub_slot (st_reset hub_ops k w) = (hub_slot w)(k := Empty) \<and>
      deleted (st_reset hub_ops k w) = deleted w @ deletes (hub_slot w k)"
    using hub_assign_law [OF live, of "fst k" "snd k"] by (cases k) (simp add: hub_ops_def hub_reset_def)
  show "hub_live n (st_clear hub_ops h w) \<and> hub_slot (st_clear hub_ops h w) = (\<lambda>k. if fst k = h then Empty else hub_slot w k) \<and>
      mset (deleted (st_clear hub_ops h w)) = mset (deleted w) + owned (\<lambda>k. if fst k = h then hub_slot w k else Empty)"
    using hub_clear_law [OF live] by (simp add: hub_ops_def)
qed


section \<open>NamedContextHub and HashedContextHub\<close>

definition keyed_slot :: "('k, 'ty) keyed_hub \<Rightarrow> 'k \<Rightarrow> 'ty shared" where
  "keyed_slot s k = (case map_of (mSharedContextObjects s) k of None \<Rightarrow> Empty | Some sp \<Rightarrow> sp)"

definition keyed_live :: "nat \<Rightarrow> ('k, 'ty) keyed_hub \<Rightarrow> bool" where
  "keyed_live n s \<longleftrightarrow> distinct (map fst (mSharedContextObjects s))"

definition hashed_ops :: "(('k, 'ty) keyed_hub, unit, 'k, 'ty) store_ops" where
  "hashed_ops = \<lparr>st_set = hashed_set, st_get = hashed_get, st_reset = hashed_reset, st_clear = (\<lambda>_. hashed_delete)\<rparr>"

definition named_ops :: "((string, 'ty) keyed_hub, unit, string, 'ty) store_ops" where
  "named_ops = \<lparr>st_set = named_set, st_get = named_get, st_reset = named_reset, st_clear = (\<lambda>_. named_delete)\<rparr>"

lemma put_key_props: "map_of (put_key k v xs) = (map_of xs)(k \<mapsto> v)" "set (map fst (put_key k v xs)) = insert k (set (map fst xs))"
  "distinct (map fst xs) \<Longrightarrow> distinct (map fst (put_key k v xs))"
proof -
  show s: "set (map fst (put_key k v xs)) = insert k (set (map fst xs))" for xs by (induction k v xs rule: put_key.induct) auto
  show "map_of (put_key k v xs) = (map_of xs)(k \<mapsto> v)" by (induction k v xs rule: put_key.induct) (auto simp: fun_eq_iff)
  show "distinct (map fst xs) \<Longrightarrow> distinct (map fst (put_key k v xs))"
  proof (induction xs)
    case (Cons x xs)
    then show ?case using s [of xs] by (cases x) auto
  qed simp
qed

lemma hashed_assign_law:
  assumes "keyed_live n s"
  shows "keyed_live m (hashed_assign k sp s) \<and> keyed_slot (hashed_assign k sp s) = (keyed_slot s)(k := sp) \<and>
    kdeleted (hashed_assign k sp s) = kdeleted s @ deletes (keyed_slot s k)"
  using assms by (cases "map_of (mSharedContextObjects s) k")
    (simp_all add: hashed_assign_def hashed_ref_def keyed_live_def keyed_slot_def put_key_props fun_eq_iff)

lemma hashed_get_law:
  assumes "keyed_live n s"
  shows "\<exists>s'. hashed_get k s = (sp_get (keyed_slot s k), s') \<and> keyed_live m s' \<and> keyed_slot s' = keyed_slot s \<and> kdeleted s' = kdeleted s"
  using assms by (cases "map_of (mSharedContextObjects s) k")
    (auto simp: hashed_get_def hashed_ref_def keyed_live_def keyed_slot_def put_key_props fun_eq_iff)

lemma keyed_owned:
  assumes "distinct (map fst (mSharedContextObjects s))"
  shows "owned (keyed_slot s) = mset (concat (map (deletes \<circ> snd) (mSharedContextObjects s)))"
proof -
  let ?xs = "mSharedContextObjects s"
  have inj: "inj_on fst (set ?xs)" "distinct ?xs" using assms by (simp_all add: distinct_map)
  have "owned (keyed_slot s) = (\<Sum>k\<in>fst ` set ?xs. mset (deletes (keyed_slot s k)))"
    by (rule owned_superset) (auto simp: keyed_slot_def split: option.splits dest!: map_of_SomeD intro: rev_image_eqI)
  also have "\<dots> = (\<Sum>x\<in>set ?xs. mset (deletes (snd x)))"
    unfolding sum.reindex [OF inj(1)] using assms by (intro sum.cong) (auto simp: keyed_slot_def)
  also have "\<dots> = sum_list (map (\<lambda>x. mset (deletes (snd x))) ?xs)" using inj(2) by (simp add: sum_list_distinct_conv_sum_set)
  also have "\<dots> = mset (concat (map (deletes \<circ> snd) ?xs))" by (induction ?xs) (simp_all add: mset_concat o_def)
  finally show ?thesis .
qed

lemma hashed_delete_law:
  assumes "keyed_live n s"
  shows "keyed_live m (hashed_delete s) \<and> keyed_slot (hashed_delete s) = (\<lambda>_. Empty) \<and>
    mset (kdeleted (hashed_delete s)) = mset (kdeleted s) + owned (keyed_slot s)"
  using assms keyed_owned [of s] by (simp add: hashed_delete_def keyed_live_def keyed_slot_def fun_eq_iff)

lemma keyed_finite: "finite {k. deletes (keyed_slot s k) \<noteq> []}"
  by (rule finite_subset [of _ "fst ` set (mSharedContextObjects s)"])
    (auto simp: keyed_slot_def split: option.splits dest!: map_of_SomeD intro: rev_image_eqI)

interpretation hashed: context_store hashed_ops "\<lambda>_. ()" "\<lambda>_ _. True" keyed_live keyed_slot kdeleted
proof
  fix n and s :: "('a, 'b) keyed_hub" and k ty tr p h
  assume live: "keyed_live (Suc n) s"
  note A = hashed_assign_law [OF live, of n]
  show "keyed_live n (st_set hashed_ops tr k ty p s) \<and> keyed_slot (st_set hashed_ops tr k ty p s) = (keyed_slot s)(k := Shared p ty tr) \<and>
      kdeleted (st_set hashed_ops tr k ty p s) = kdeleted s @ deletes (keyed_slot s k)"
    using A by (simp add: hashed_ops_def hashed_set_def)
  show "keyed_live n (st_reset hashed_ops k s) \<and> keyed_slot (st_reset hashed_ops k s) = (keyed_slot s)(k := Empty) \<and>
      kdeleted (st_reset hashed_ops k s) = kdeleted s @ deletes (keyed_slot s k)"
    using A by (simp add: hashed_ops_def hashed_reset_def)
  show "\<exists>s'. st_get hashed_ops k s = (sp_get (keyed_slot s k), s') \<and> keyed_live n s' \<and> keyed_slot s' = keyed_slot s \<and> kdeleted s' = kdeleted s"
    using hashed_get_law [OF live] by (simp add: hashed_ops_def)
  show "keyed_live n (st_clear hashed_ops h s) \<and> keyed_slot (st_clear hashed_ops h s) = (\<lambda>k. if () = h then Empty else keyed_slot s k) \<and>
      mset (kdeleted (st_clear hashed_ops h s)) = mset (kdeleted s) + owned (\<lambda>k. if () = h then keyed_slot s k else Empty)"
    using hashed_delete_law [OF live, of n] by (simp add: hashed_ops_def)
qed (rule keyed_finite)

lemma named_ops_eq: "named_ops = hashed_ops"
  by (simp add: named_ops_def hashed_ops_def fun_eq_iff named_set_def hashed_set_def named_assign_def hashed_assign_def named_ref_def
      hashed_ref_def named_get_def hashed_get_def named_reset_def hashed_reset_def named_delete_def hashed_delete_def)

interpretation named: context_store named_ops "\<lambda>_. ()" "\<lambda>_ _. True" keyed_live keyed_slot kdeleted
  unfolding named_ops_eq by (rule hashed.context_store_axioms)


section \<open>Properties\<close>

lemma map_run_from_set:
  "snd (store_run (map_ops owner) cs m) k = Shared p ty tr \<Longrightarrow> m k = Shared p ty tr \<or> Set tr k ty p \<in> set cs"
proof (induction cs arbitrary: m)
  case (Cons c cs)
  show ?case
  proof (cases c)
    case (Get j)
    with Cons show ?thesis by (auto simp: Let_def split_beta)
  next
    case (Set tr' j ty' p')
    with Cons.prems have "snd (store_run (map_ops owner) cs (m(j := Shared p' ty' tr'))) k = Shared p ty tr" by simp
    from Cons.IH [OF this] show ?thesis using Set by (auto split: if_splits)
  next
    case (Reset j)
    with Cons.prems have "snd (store_run (map_ops owner) cs (m(j := Empty))) k = Shared p ty tr" by simp
    from Cons.IH [OF this] show ?thesis using Reset by (auto split: if_splits)
  next
    case (Clear h)
    with Cons.prems have "snd (store_run (map_ops owner) cs (\<lambda>k. if owner k = h then Empty else m k)) k = Shared p ty tr" by simp
    from Cons.IH [OF this] show ?thesis using Clear by (auto split: if_splits)
  qed
qed simp

lemma hub_start_live: "n < 2 ^ 32 \<Longrightarrow> hub_live n hub_start"
  by (simp add: hub_live_def hub_start_def)

lemma hub_start_slot: "hub_slot hub_start = (\<lambda>_. Empty)"
  by (simp add: hub_slot_def hub_start_def fun_eq_iff)

lemma store_run_append: "store_run S (cs @ ds) s = (let (ps, s) = store_run S cs s; (qs, s) = store_run S ds s in (ps @ qs, s))"
proof (induction cs arbitrary: s)
  case (Cons c cs)
  then show ?case by (cases c) (simp_all add: Let_def split_beta)
qed simp

lemma store_live:
  assumes "context_store S owner fits live slot gone" "live (length cs + n) s" "list_all (call_fits fits) cs"
  shows "live n (snd (store_run S cs s))"
  using assms(2,3)
proof (induction cs arbitrary: s)
  case (Cons c cs)
  then have l: "live (Suc (length cs + n)) s" by simp
  show ?case
  proof (cases c)
    case (Get k)
    with Cons context_store.get_law [OF assms(1) l, of k] show ?thesis by (auto simp: Let_def split_beta)
  qed (use Cons l context_store.set_law [OF assms(1) l] context_store.reset_law [OF assms(1) l] context_store.clear_law [OF assms(1) l]
       in \<open>auto simp: call_fits_def\<close>)
qed simp

abbreviation hub_call :: "(nat, nat \<times> 'ty, 'ty) store_call \<Rightarrow> bool" where
  "hub_call \<equiv> call_fits (\<lambda>k ty. ty = snd k)"

text \<open>
  C24. Any sequence of fewer than \<open>2 ^ 32\<close> calls of \<open>set\<close>, \<open>get\<close>, \<open>reset\<close> and \<open>resetAll\<close> on any number of hubs, which share the counter and
  the static indices of the types, returns what a map from hubs and types to pointers returns. The unchecked cast in \<open>get<T>\<close> is
  safe: a pointer it returns was given to \<open>set<T>\<close> on the same hub.
\<close>

theorem context_hub_typed:
  assumes "list_all hub_call cs" "length cs + 1 < 2 ^ 32" "store_run hub_ops cs hub_start = (ps, w)"
  shows "ps = fst (store_run (map_ops fst) cs (\<lambda>_. Empty)) \<and>
    (\<forall>h T a. fst (hub_get h T w) = Some a \<longrightarrow> (\<exists>tr. Set tr (h, T) T (Some a) \<in> set cs))"
proof -
  have l0: "hub_live (length cs + 1) (hub_start :: 'a hub_world)" by (rule hub_start_live [OF assms(2)])
  then have "hub_live (length cs) (hub_start :: 'a hub_world)" by (simp add: hub_live_less)
  then have R: "ps = fst (store_run (map_ops fst) cs (\<lambda>_. Empty))" "hub_slot w = snd (store_run (map_ops fst) cs (\<lambda>_. Empty))"
    using hub.run_map [of cs hub_start] assms by (simp_all add: hub_start_slot)
  have live: "hub_live 1 w" using store_live [OF hub.context_store_axioms l0] assms(1,3) by simp
  have "\<exists>tr. Set tr (h, T) T (Some a) \<in> set cs" if "fst (hub_get h T w) = Some a" for h T a
  proof -
    have "sp_get (hub_slot w (h, T)) = Some a" using hub_get_law [of 0 w h T] live that by auto
    then obtain ty tr where "hub_slot w (h, T) = Shared (Some a) ty tr" by (cases "hub_slot w (h, T)") auto
    then have in1: "Set tr (h, T) ty (Some a) \<in> set cs" using map_run_from_set [of fst cs] R(2) by fastforce
    then have "hub_call (Set tr (h, T) ty (Some a) :: (nat, nat \<times> 'a, 'a) store_call)" using assms(1) by (simp add: list_all_iff)
    with in1 show ?thesis by (auto simp: call_fits_def)
  qed
  with R(1) show ?thesis by blast
qed

theorem context_hub_typed_witness:
  "\<exists>ps w. store_run hub_ops [Set True (0, 5) 5 (Some 7), Set False (1, 5) 5 (Some 9), Get (0, 5), Get (1, 6 :: nat)] hub_start = (ps, w) \<and>
    ps = [Some 7, None] \<and> fst (hub_get 1 5 w) = Some 9 \<and>
    (\<exists>tr. Set tr (1, 5) 5 (Some 9) \<in>
       set [Set True (0 :: nat, 5 :: nat) (5 :: nat) (Some 7), Set False (1, 5) 5 (Some 9), Get (0, 5), Get (1, 6) :: (nat, nat \<times> nat, nat) store_call])"
proof -
  let ?cs = "[Set True (0 :: nat, 5 :: nat) 5 (Some 7), Set False (1, 5) 5 (Some 9), Get (0, 5), Get (1, 6)]"
  obtain ps w where r: "store_run hub_ops ?cs hub_start = (ps, w)" by (cases "store_run hub_ops ?cs hub_start")
  have g: "fst (hub_get 1 5 w) = Some 9"
    using r by (auto simp: hub_ops_def hub_set_def hub_get_def hub_assign_def refSharedContext_def type_slot_def hub_start_def
        grow_slots_eq Let_def)
  have "list_all hub_call ?cs" "length ?cs + 1 < 2 ^ 32" by (simp_all add: call_fits_def)
  note T = context_hub_typed [OF this r]
  then have "ps = [Some 7, None]" by (simp add: Let_def)
  with r g T show ?thesis by blast
qed

text \<open>
  C25. Ownership: after any sequence of fewer than \<open>2 ^ 32\<close> calls, every object whose ownership was transferred is either deleted or
  held by exactly one slot, as often as it was transferred, and objects that the caller kept are never deleted. Once all hubs that were used are
  cleared or destroyed, the objects transferred are exactly those deleted.
\<close>

theorem context_hub_deletes_once:
  assumes "list_all hub_call cs" "length cs + length hs < 2 ^ 32"
    and "\<And>tr h T ty p. Set tr (h, T) ty p \<in> set cs \<Longrightarrow> h \<in> set hs"
  shows "mset (deleted (snd (store_run hub_ops cs hub_start))) + owned (hub_slot (snd (store_run hub_ops cs hub_start))) =
      mset (transferred cs) \<and>
    mset (deleted (snd (store_run hub_ops (cs @ map Clear hs) hub_start))) = mset (transferred cs)"
proof -
  let ?ds = "cs @ map Clear hs"
  have fits: "list_all hub_call ?ds" using assms(1) by (auto simp: call_fits_def list_all_iff)
  have live: "hub_live (length cs) (hub_start :: 'a hub_world)" "hub_live (length ?ds) (hub_start :: 'a hub_world)"
    by (rule hub_start_live; use assms(2) in simp)+
  have z: "mset (deleted (hub_start :: 'a hub_world)) = {#}" "owned (\<lambda>_ :: nat \<times> 'a. Empty :: 'a shared) = {#}"
    by (simp_all add: hub_start_def owned_def)
  have tr: "transferred ?ds = transferred cs"
  proof -
    have "transferred (map Clear hs) = []" by (induction hs) auto
    then show ?thesis by (induction cs rule: transferred.induct) auto
  qed
  let ?w = "snd (store_run hub_ops ?ds (hub_start :: 'a hub_world))"
  have "hub_slot ?w k = Empty" for k
  proof (cases "hub_slot ?w k")
    case (Shared p ty o1)
    have "snd (store_run (map_ops fst) ?ds (\<lambda>_. Empty)) k = Shared p ty o1"
      using hub.run_map [OF live(2) fits] Shared by (simp add: hub_start_slot)
    then have sh: "snd (store_run (map_ops fst) (map Clear hs) (snd (store_run (map_ops fst) cs (\<lambda>_. Empty)))) k = Shared p ty o1"
      by (simp add: store_run_append Let_def split_beta)
    have clr: "snd (store_run (map_ops fst) (map Clear hs) m) k = (if fst k \<in> set hs then Empty else m k)" for m :: "nat \<times> 'a \<Rightarrow> 'a shared"
      by (induction hs arbitrary: m) auto
    from sh have "fst k \<notin> set hs" "snd (store_run (map_ops fst) cs (\<lambda>_. Empty)) k = Shared p ty o1" by (auto simp: clr split: if_splits)
    then have "Set o1 k ty p \<in> set cs" using map_run_from_set [of fst cs "\<lambda>_. Empty"] by fastforce
    with assms(3) [of o1 "fst k" "snd k" ty p] \<open>fst k \<notin> set hs\<close> show ?thesis by simp
  qed
  then have "owned (hub_slot ?w) = {#}" by (simp add: owned_def)
  with hub.run_owned [OF live(1) assms(1)] hub.run_owned [OF live(2) fits] z tr show ?thesis by (simp add: hub_start_slot)
qed

theorem context_hub_deletes_once_witness:
  "mset (deleted (snd (store_run hub_ops ([Set True (0, 5) 5 (Some 7), Set True (0, 5) 5 (Some 8), Set False (1, 5 :: nat) 5 (Some 9)] @
      map Clear [0, 1]) hub_start))) = {#(5, 7), (5, 8)#}"
  using context_hub_deletes_once [of "[Set True (0, 5) 5 (Some 7), Set True (0, 5) 5 (Some 8), Set False (1, 5 :: nat) 5 (Some 9)]" "[0, 1]"]
  by (auto simp: call_fits_def)

text \<open>
  A \<open>NamedContextHub\<close> looks only at the name: an object stored under a name is returned as whatever type the caller of \<open>get\<close> names.
  Asking for a name that was never set leaves an entry behind.
\<close>

lemma named_get_any_type: "fst (named_get name (named_set tr name T (Some a) s)) = Some a"
  by (cases "map_of (mSharedContextObjects s) name")
    (simp_all add: named_get_def named_set_def named_assign_def named_ref_def put_key_props)

lemma length_put_key: "map_of xs k = None \<Longrightarrow> length (put_key k v xs) = length xs + 1"
  by (induction k v xs rule: put_key.induct) (auto split: if_splits)

lemma named_get_grows: "map_of (mSharedContextObjects s) name = None \<Longrightarrow> named_size (snd (named_get name s)) = named_size s + 1"
  by (simp add: named_get_def named_ref_def named_size_def length_put_key)

end
