(* ===== verification/Hub_Serial.thy ===== *)
theory Hub_Serial
  imports Context_Hub_Spec
begin

text \<open>
  Saving and loading a context hub (\<open>include/core/ContextHubSerialization.h\<close>): for a list of types, the object of each type goes through an archive of
  Boost.Serialization as a pointer. The archive is a parameter with its documented behaviour as laws.
\<close>

section \<open>Archives\<close>

text \<open>The live objects of every type with their values; what an archive holds, as pairs of a type and a value or null.\<close>

type_synonym ('ty, 'v) objects = "'ty \<times> nat \<rightharpoonup> 'v"

record ('a, 'ty, 'v) archive =
  ar_save :: "'ty \<Rightarrow> nat option \<Rightarrow> ('ty, 'v) objects \<Rightarrow> 'a \<Rightarrow> 'a"
  ar_load :: "'ty \<Rightarrow> ('ty, 'v) objects \<Rightarrow> 'a \<Rightarrow> (nat option \<times> ('ty, 'v) objects \<times> 'a) result"
  ar_items :: "'a \<Rightarrow> ('ty \<times> 'v option) list"

text \<open>A pointer is saved with the object it leads to; loading it makes a new object with the saved value.\<close>

definition archive_laws :: "('a, 'ty, 'v) archive \<Rightarrow> bool" where
  "archive_laws A \<longleftrightarrow>
     (\<forall>T ob a. ar_items A (ar_save A T None ob a) = ar_items A a @ [(T, None)]) \<and>
     (\<forall>T x v ob a. ob (T, x) = Some v \<longrightarrow> ar_items A (ar_save A T (Some x) ob a) = ar_items A a @ [(T, Some v)]) \<and>
     (\<forall>T ob a its. ar_items A a = (T, None) # its \<longrightarrow> (\<exists>a'. ar_load A T ob a = Inr (None, ob, a') \<and> ar_items A a' = its)) \<and>
     (\<forall>T v ob a its. finite (dom ob) \<longrightarrow> ar_items A a = (T, Some v) # its \<longrightarrow>
        (\<exists>x a'. ar_load A T ob a = Inr (Some x, ob((T, x) \<mapsto> v), a') \<and> ob (T, x) = None \<and> ar_items A a' = its))"

section \<open>Saving and loading\<close>

text \<open>The recursion over the number of types saves the base class, with the types before, first.\<close>

fun hub_save :: "('a, 'ty, 'v) archive \<Rightarrow> nat \<Rightarrow> 'ty list \<Rightarrow> 'ty hub_world \<Rightarrow> ('ty, 'v) objects \<Rightarrow> 'a \<Rightarrow> 'ty hub_world \<times> 'a" where
  "hub_save A h [] w ob a = (w, a)"
| "hub_save A h (T # Ts) w ob a = (let (t, w) = hub_get h T w in hub_save A h Ts w ob (ar_save A T t ob a))"

text \<open>\<open>set\<close> deletes the object that was there; deleted objects are not live any more.\<close>

definition gone_since :: "'ty hub_world \<Rightarrow> 'ty hub_world \<Rightarrow> ('ty, 'v) objects \<Rightarrow> ('ty, 'v) objects" where
  "gone_since w w' ob = ob |` (- set (drop (length (deleted w)) (deleted w')))"

fun hub_load :: "('a, 'ty, 'v) archive \<Rightarrow> nat \<Rightarrow> 'ty list \<Rightarrow> 'ty hub_world \<Rightarrow> ('ty, 'v) objects \<Rightarrow> 'a \<Rightarrow>
    ('ty hub_world \<times> ('ty, 'v) objects \<times> 'a) result" where
  "hub_load A h [] w ob a = Inr (w, ob, a)"
| "hub_load A h (T # Ts) w ob a = rbind (ar_load A T ob a) (\<lambda>(t, ob, a).
     let w' = hub_set True h T t w in hub_load A h Ts w' (gone_since w w' ob) a)"

section \<open>Properties\<close>

definition saved_item :: "'ty hub_world \<Rightarrow> nat \<Rightarrow> ('ty, 'v) objects \<Rightarrow> 'ty \<Rightarrow> 'ty \<times> 'v option" where
  "saved_item w h ob T = (T, case sp_get (hub_slot w (h, T)) of None \<Rightarrow> None | Some x \<Rightarrow> ob (T, x))"

text \<open>The pointers of a hub lead to live objects; they were made from the type of their slot.\<close>

definition hub_points :: "'ty hub_world \<Rightarrow> nat \<Rightarrow> ('ty, 'v) objects \<Rightarrow> bool" where
  "hub_points w h ob \<longleftrightarrow> (\<forall>T x. sp_get (hub_slot w (h, T)) = Some x \<longrightarrow> ob (T, x) \<noteq> None)"

definition hub_typed :: "'ty hub_world \<Rightarrow> nat \<Rightarrow> bool" where
  "hub_typed w h \<longleftrightarrow> (\<forall>T p ty own. hub_slot w (h, T) = Shared p ty own \<longrightarrow> ty = T)"

lemma save_items:
  assumes A: "archive_laws A"
  shows "hub_live (length Ts) w \<Longrightarrow> hub_points w h ob \<Longrightarrow>
    ar_items A (snd (hub_save A h Ts w ob a)) = ar_items A a @ map (saved_item w h ob) Ts"
proof (induction Ts arbitrary: w a)
  case (Cons T Ts)
  obtain w' where w': "hub_get h T w = (sp_get (hub_slot w (h, T)), w')" "hub_live (length Ts) w'" "hub_slot w' = hub_slot w"
    using hub_get_law [of "length Ts" w h T] Cons.prems(1) by auto
  have p: "hub_points w' h ob" using Cons.prems(2) w'(3) by (simp add: hub_points_def)
  have "ar_items A (ar_save A T (sp_get (hub_slot w (h, T))) ob a) = ar_items A a @ [saved_item w h ob T]"
  proof (cases "sp_get (hub_slot w (h, T))")
    case (Some x)
    then obtain v where "ob (T, x) = Some v" using Cons.prems(2) unfolding hub_points_def by blast
    with Some A show ?thesis by (simp add: archive_laws_def saved_item_def)
  qed (use A in \<open>simp add: archive_laws_def saved_item_def\<close>)
  with Cons.IH [OF w'(2) p] w'(1,3) show ?case by (simp add: saved_item_def [abs_def])
qed simp

text \<open>The objects of a hub hold given values.\<close>

definition hub_holds :: "'ty hub_world \<Rightarrow> nat \<Rightarrow> ('ty, 'v) objects \<Rightarrow> 'ty \<times> 'v option \<Rightarrow> bool" where
  "hub_holds w h ob it = (case snd it of None \<Rightarrow> sp_get (hub_slot w (h, fst it)) = None
     | Some v \<Rightarrow> \<exists>x. hub_slot w (h, fst it) = Shared (Some x) (fst it) True \<and> ob (fst it, x) = Some v)"

lemma set_transfer_law:
  assumes "hub_live (Suc n) w"
  shows "hub_live n (hub_set True h T t w)" "hub_slot (hub_set True h T t w) = (hub_slot w)((h, T) := Shared t T True)"
    "gone_since w (hub_set True h T t w) ob = ob |` (- set (deletes (hub_slot w (h, T))))"
  using hub_assign_law [OF assms, of h T "Shared t T True"] by (simp_all add: hub_set_def gone_since_def)

lemma deletes_typed: "hub_typed w h \<Longrightarrow> (ty, x) \<in> set (deletes (hub_slot w (h, T))) \<Longrightarrow> ty = T \<and> sp_get (hub_slot w (h, T)) = Some x"
  by (cases "hub_slot w (h, T)" rule: deletes.cases) (auto simp: hub_typed_def)

text \<open>Loading one pointer, and setting it.\<close>

lemma load_law:
  assumes "archive_laws A" "finite (dom ob)" "ar_items A a = (T, m) # its"
  obtains t ob1 a1 where "ar_load A T ob a = Inr (t, ob1, a1)" "ar_items A a1 = its"
    "case m of None \<Rightarrow> t = None \<and> ob1 = ob | Some v \<Rightarrow> \<exists>x. t = Some x \<and> ob (T, x) = None \<and> ob1 = ob((T, x) \<mapsto> v)"
proof (cases m)
  case None
  then have "\<exists>a'. ar_load A T ob a = Inr (None, ob, a') \<and> ar_items A a' = its" using assms unfolding archive_laws_def by auto
  with None that show ?thesis by auto
next
  case (Some v)
  then have "\<exists>x a'. ar_load A T ob a = Inr (Some x, ob((T, x) \<mapsto> v), a') \<and> ob (T, x) = None \<and> ar_items A a' = its"
    using assms unfolding archive_laws_def by auto
  with Some that show ?thesis by auto
qed

lemma set_loaded:
  assumes live: "hub_live (Suc n) w" and ok: "hub_typed w h" "hub_points w h ob"
    and t: "case m of None \<Rightarrow> t = None \<and> ob1 = ob | Some v \<Rightarrow> \<exists>x. t = Some x \<and> ob (T, x) = None \<and> ob1 = ob((T, x) \<mapsto> v)"
    and eq: "w' = hub_set True h T t w" "ob' = gone_since w w' ob1"
  shows "hub_live n w'" "hub_holds w' h ob' (T, m)" "hub_typed w' h" "hub_points w' h ob'"
    "U \<noteq> T \<Longrightarrow> hub_slot w' (h, U) = hub_slot w (h, U) \<and> (\<forall>x. ob' (U, x) = ob (U, x))"
proof -
  note S = set_transfer_law [OF live, of h T t, folded eq(1)]
  have ob': "ob' = ob1 |` (- set (deletes (hub_slot w (h, T))))" unfolding eq(2) by (rule S(3))
  have other: "ob' (U, x) = ob (U, x)" if "U \<noteq> T" for U x
    using that t deletes_typed [OF ok(1)] by (auto simp: ob' restrict_map_def split: option.splits)
  then show "U \<noteq> T \<Longrightarrow> hub_slot w' (h, U) = hub_slot w (h, U) \<and> (\<forall>x. ob' (U, x) = ob (U, x))" using S(2) by simp
  show new: "hub_holds w' h ob' (T, m)"
  proof (cases m)
    case (Some v)
    with t obtain x where x: "t = Some x" "ob (T, x) = None" "ob1 (T, x) = Some v" by auto
    then have "(T, x) \<notin> set (deletes (hub_slot w (h, T)))"
      using deletes_typed [OF ok(1), of T x T] ok(2) unfolding hub_points_def by metis
    with x Some S(2) show ?thesis by (simp add: hub_holds_def ob')
  qed (use t S(2) in \<open>simp add: hub_holds_def\<close>)
  show "hub_live n w'" "hub_typed w' h" using S ok(1) by (simp_all add: hub_typed_def)
  have "ob' (U, x) \<noteq> None" if u: "sp_get (hub_slot w' (h, U)) = Some x" for U x
  proof (cases "U = T")
    case True
    with u S(2) have "t = Some x" by simp
    with new t S(2) True show ?thesis by (auto simp: hub_holds_def split: option.splits)
  next
    case False
    with u S(2) ok(2) other [OF False, of x] show ?thesis by (simp add: hub_points_def)
  qed
  then show "hub_points w' h ob'" by (simp add: hub_points_def)
qed

lemma load_holds:
  assumes A: "archive_laws A"
  shows "finite (dom ob) \<Longrightarrow> hub_live (length its) w \<Longrightarrow> hub_typed w h \<Longrightarrow> hub_points w h ob \<Longrightarrow> distinct (map fst its) \<Longrightarrow>
    ar_items A a = its @ rest \<Longrightarrow>
    \<exists>w' ob' a'. hub_load A h (map fst its) w ob a = Inr (w', ob', a') \<and> ar_items A a' = rest \<and> (\<forall>it\<in>set its. hub_holds w' h ob' it) \<and>
      (\<forall>T. T \<notin> fst ` set its \<longrightarrow> hub_slot w' (h, T) = hub_slot w (h, T) \<and> (\<forall>x. ob' (T, x) = ob (T, x)))"
proof (induction its arbitrary: w ob a)
  case (Cons it its)
  obtain T m where it: "it = (T, m)" by (cases it)
  have "ar_items A a = (T, m) # its @ rest" using Cons.prems(6) it by simp
  from load_law [OF A Cons.prems(1) this] obtain t ob1 a1 where l: "ar_load A T ob a = Inr (t, ob1, a1)" "ar_items A a1 = its @ rest"
    and t: "case m of None \<Rightarrow> t = None \<and> ob1 = ob | Some v \<Rightarrow> \<exists>x. t = Some x \<and> ob (T, x) = None \<and> ob1 = ob((T, x) \<mapsto> v)" .
  define w1 where "w1 = hub_set True h T t w"
  define ob2 where "ob2 = gone_since w w1 ob1"
  have live: "hub_live (Suc (length its)) w" using Cons.prems(2) by simp
  note S = set_loaded [OF live Cons.prems(3,4) t w1_def ob2_def]
  have fin: "finite (dom ob2)" using Cons.prems(1) t by (auto simp: ob2_def gone_since_def split: option.splits)
  have d: "distinct (map fst its)" "T \<notin> fst ` set its" using Cons.prems(5) it by auto
  obtain w' ob' a' where R: "hub_load A h (map fst its) w1 ob2 a1 = Inr (w', ob', a')" "ar_items A a' = rest" "\<forall>it\<in>set its. hub_holds w' h ob' it"
    "\<And>U. U \<notin> fst ` set its \<Longrightarrow> hub_slot w' (h, U) = hub_slot w1 (h, U) \<and> (\<forall>x. ob' (U, x) = ob2 (U, x))"
    using Cons.IH [OF fin S(1,3,4) d(1) l(2)] by blast
  have "hub_holds w' h ob' it" using S(2) R(4) [OF d(2)] it by (simp add: hub_holds_def split: option.splits)
  moreover have "hub_slot w' (h, U) = hub_slot w (h, U) \<and> (\<forall>x. ob' (U, x) = ob (U, x))" if "U \<notin> fst ` set (it # its)" for U
    using that R(4) [of U] S(5) [of U] it by simp
  ultimately show ?case using R l(1) it by (simp add: Let_def w1_def ob2_def)
qed simp

text \<open>
  Round trip: a hub that is saved for distinct types and loaded into the same or another hub gives that hub, for every one of the types, a
  null pointer where there was none and else an object of its own with the value that was saved; objects of other types stay as they
  are.
\<close>

theorem hub_serialization_roundtrip:
  assumes A: "archive_laws A" "ar_items A a = []" and T: "distinct Ts"
    and save: "hub_live (length Ts) w" "hub_points w h ob" "hub_save A h Ts w ob a = (w1, a1)"
    and load: "hub_live (length Ts) w2" "hub_typed w2 h2" "hub_points w2 h2 ob2" "finite (dom ob2)"
  shows "\<exists>w3 ob3 a3. hub_load A h2 Ts w2 ob2 a1 = Inr (w3, ob3, a3) \<and> ar_items A a3 = [] \<and>
    (\<forall>T\<in>set Ts. hub_holds w3 h2 ob3 (saved_item w h ob T)) \<and>
    (\<forall>T. T \<notin> set Ts \<longrightarrow> hub_slot w3 (h2, T) = hub_slot w2 (h2, T) \<and> (\<forall>x. ob3 (T, x) = ob2 (T, x)))"
proof -
  have f: "map fst (map (saved_item w h ob) Ts) = Ts" by (simp add: saved_item_def comp_def)
  have "ar_items A a1 = map (saved_item w h ob) Ts @ []" using save_items [OF A(1) save(1,2), of a] save(3) A(2) by simp
  from load_holds [OF A(1) load(4) _ load(2,3) _ this] load(1) T show ?thesis unfolding f by (force simp: saved_item_def image_image)
qed

text \<open>The laws hold for an archive that is a list of its items and takes the least free address.\<close>

definition list_archive :: "(('ty \<times> 'v option) list, 'ty, 'v) archive" where
  "list_archive = \<lparr>ar_save = (\<lambda>T p ob a. a @ [(T, case p of None \<Rightarrow> None | Some x \<Rightarrow> ob (T, x))]),
     ar_load = (\<lambda>T ob a. case a of [] \<Rightarrow> Inl InvalidArgument
       | (U, None) # its \<Rightarrow> Inr (None, ob, its)
       | (U, Some v) # its \<Rightarrow> (let x = LEAST x. ob (T, x) = None in Inr (Some x, ob((T, x) \<mapsto> v), its))),
     ar_items = (\<lambda>a. a)\<rparr>"

lemma list_archive_laws: "archive_laws list_archive"
proof -
  have free: "ob (T, LEAST x. ob (T, x) = None) = None" if "finite (dom ob)" for ob :: "('a, 'b) objects" and T
  proof -
    have "finite ((\<lambda>x. (T, x)) -` dom ob)" by (rule finite_vimageI [OF that]) (simp add: inj_on_def)
    then obtain x where "x \<notin> (\<lambda>x. (T, x)) -` dom ob" using ex_new_if_finite [OF infinite_UNIV_nat] by blast
    then have "ob (T, x) = None" by (simp add: domIff)
    then show ?thesis by (rule LeastI [of "\<lambda>x. ob (T, x) = None"])
  qed
  then show ?thesis unfolding archive_laws_def list_archive_def by (auto simp: Let_def)
qed

end
