(* ===== verification/Visitors.thy ===== *)
theory Visitors
  imports Prelude
begin

text \<open>
  The visitors of \<open>include/core/Visitor.h\<close>: run-time tags of the visitable types below a base class, the table from tags to functions, and
  the three orders of visiting (recursive, iterative breadth first, iterative depth first). The functions of a visitor are
  client code and a parameter: a body is what such a function does as far as the visitor sees it.
\<close>

section \<open>Tags and tables\<close>

text \<open>The static members of \<open>tag_counter\<close> and \<open>tag_holder\<close> for one base class; tag 0 is not assigned yet.\<close>

record 't tags =
  s_counter :: nat
  s_tag :: "'t \<Rightarrow> nat"

definition tags_start :: "'t tags" where
  "tags_start = \<lparr>s_counter = 0, s_tag = (\<lambda>_. 0)\<rparr>"

definition get_tag :: "'t \<Rightarrow> 't tags \<Rightarrow> nat \<times> 't tags" where
  "get_tag T g =
     (if s_tag g T = 0 then let c = s_counter g + 1 in (c, g\<lparr>s_counter := c, s_tag := (s_tag g)(T := c)\<rparr>) else (s_tag g T, g))"

text \<open>A function of the table is named by the type it is for; \<open>None\<close> is the null pointer.\<close>

type_synonym 't vtable = "'t option list"

definition vtable_add :: "'t \<Rightarrow> 't \<Rightarrow> 't option \<Rightarrow> 't vtable \<times> 't tags \<Rightarrow> 't vtable \<times> 't tags" where
  "vtable_add Base Visitable f = (\<lambda>(mTable, g).
     let (index, g) = get_tag Visitable g in
     if index \<ge> length mTable then
       let (base_tag, g) = get_tag Base g;
           default_function = (if base_tag \<ge> length mTable then None else mTable ! base_tag)
       in ((mTable @ replicate (index + 1 - length mTable) default_function)[index := f], g)
     else (mTable[index := f], g))"

fun vtable_append :: "'t \<Rightarrow> 't list \<Rightarrow> 't vtable \<times> 't tags \<Rightarrow> 't vtable \<times> 't tags" where
  "vtable_append Base [] s = s"
| "vtable_append Base (Visitable # VisitedList) s = vtable_append Base VisitedList (vtable_add Base Visitable (Some Visitable) s)"

definition create_vtable :: "'t \<Rightarrow> 't list \<Rightarrow> 't tags \<Rightarrow> 't vtable \<times> 't tags" where
  "create_vtable Base VisitedList g = vtable_append Base VisitedList ([], g)"

definition vtable_at :: "'t \<Rightarrow> nat \<Rightarrow> 't vtable \<Rightarrow> 't tags \<Rightarrow> 't option result \<times> 't tags" where
  "vtable_at Base index mTable g =
     (let (index, g) = (if index > length mTable then get_tag Base g else (index, g)) in
      (if index < length mTable then Inr (mTable ! index) else Inl MemFault, g))"

section \<open>Visitors\<close>

text \<open>What a function of a visitor does: it visits objects and uses what the visits return, sets the flag, and returns.\<close>

datatype ('o, 'r) body = Return 'r | Visit 'o "'r \<Rightarrow> ('o, 'r) body" | Terminate "('o, 'r) body" | Reset "('o, 'r) body"

text \<open>
  A visitor: the entry of its table for the tag of an object, its functions, and the value of a function that ends without a return
  statement, which only the return type \<open>void\<close> has.
\<close>

record ('t, 'o, 'r) visitor_impl =
  entry :: "'o \<Rightarrow> 't option result"
  method_of :: "'t \<Rightarrow> 'o \<Rightarrow> ('o, 'r) body"
  no_value :: "'r option"

text \<open>\<open>handled\<close> is the sequence of the functions called with their objects. The top of a stack and the front of the queue is the first element.\<close>

record ('t, 'o) visitor =
  mTerminated :: bool
  handled :: "('t \<times> 'o) list"
  next_objs :: "'o list"
  temp_objs :: "'o list"

definition Visitor_new :: "('t, 'o) visitor" where
  "Visitor_new = \<lparr>mTerminated = False, handled = [], next_objs = [], temp_objs = []\<rparr>"

definition terminate :: "('t, 'o) visitor \<Rightarrow> ('t, 'o) visitor" where
  "terminate s = s\<lparr>mTerminated := True\<rparr>"

definition visitor_reset :: "('t, 'o) visitor \<Rightarrow> ('t, 'o) visitor" where
  "visitor_reset s = s\<lparr>mTerminated := False\<rparr>"

text \<open>The function for an object, with the call recorded; a null function pointer faults.\<close>

definition invoke :: "('t, 'o, 'r) visitor_impl \<Rightarrow> 'o \<Rightarrow> ('t, 'o) visitor \<Rightarrow> (('o, 'r) body \<times> ('t, 'o) visitor) result" where
  "invoke V b s = rbind (entry V b) (\<lambda>f. case f of None \<Rightarrow> Inl MemFault
     | Some t \<Rightarrow> Inr (method_of V t b, s\<lparr>handled := handled s @ [(t, b)]\<rparr>))"

text \<open>Running a body with the operation \<open>visit\<close> of the visitor.\<close>

primrec run_body :: "('o \<Rightarrow> ('t, 'o) visitor \<Rightarrow> ('r \<times> ('t, 'o) visitor) result) \<Rightarrow> ('o, 'r) body \<Rightarrow> ('t, 'o) visitor \<Rightarrow>
    ('r \<times> ('t, 'o) visitor) result" where
  "run_body visit (Return r) = (\<lambda>s. Inr (r, s))"
| "run_body visit (Visit b c) = (\<lambda>s. rbind (visit b s) (\<lambda>(r, s). run_body visit (c r) s))"
| "run_body visit (Terminate c) = (\<lambda>s. run_body visit c (terminate s))"
| "run_body visit (Reset c) = (\<lambda>s. run_body visit c (visitor_reset s))"

text \<open>\<open>visit\<close> of the recursive visitor; the number bounds the depth of the recursion.\<close>

primrec visit_rec :: "nat \<Rightarrow> ('t, 'o, 'r) visitor_impl \<Rightarrow> 'o \<Rightarrow> ('t, 'o) visitor \<Rightarrow> ('r \<times> ('t, 'o) visitor) result" where
  "visit_rec 0 V b s = Inl NoReturn"
| "visit_rec (Suc k) V b s =
     (if \<not> mTerminated s then rbind (invoke V b s) (\<lambda>(body, s). run_body (visit_rec k V) body s)
      else case no_value V of None \<Rightarrow> Inl MemFault | Some r \<Rightarrow> Inr (r, s))"

text \<open>The breadth-first visitor; the number bounds the rounds of \<open>_run\<close>.\<close>

primrec bfs_run :: "nat \<Rightarrow> ('o \<Rightarrow> ('t, 'o) visitor \<Rightarrow> (unit \<times> ('t, 'o) visitor) result) \<Rightarrow> ('t, 'o, unit) visitor_impl \<Rightarrow>
    ('t, 'o) visitor \<Rightarrow> (unit \<times> ('t, 'o) visitor) result" where
  "bfs_run 0 visit V s = Inl NoReturn"
| "bfs_run (Suc k) visit V s = (case next_objs s of [] \<Rightarrow> Inr ((), s)
     | b # _ \<Rightarrow> rbind (invoke V b s) (\<lambda>(body, s). rbind (run_body visit body s) (\<lambda>(_, s).
         case next_objs s of [] \<Rightarrow> Inl MemFault | _ # rest \<Rightarrow> bfs_run k visit V (s\<lparr>next_objs := rest\<rparr>))))"

primrec visit_bfs :: "nat \<Rightarrow> ('t, 'o, unit) visitor_impl \<Rightarrow> 'o \<Rightarrow> ('t, 'o) visitor \<Rightarrow> (unit \<times> ('t, 'o) visitor) result" where
  "visit_bfs 0 V b s = Inl NoReturn"
| "visit_bfs (Suc k) V b s =
     (if \<not> mTerminated s then
        let s = s\<lparr>next_objs := next_objs s @ [b]\<rparr> in
        if length (next_objs s) = 1 then bfs_run k (visit_bfs k V) V s else Inr ((), s)
      else Inr ((), s))"

text \<open>The depth-first visitor. \<open>move_temp\<close> is the inner loop, which moves one stack onto the other.\<close>

fun move_temp :: "'o list \<Rightarrow> 'o list \<Rightarrow> 'o list" where
  "move_temp [] nx = nx"
| "move_temp (b # tmp) nx = move_temp tmp (b # nx)"

primrec dfs_run :: "nat \<Rightarrow> ('o \<Rightarrow> ('t, 'o) visitor \<Rightarrow> (unit \<times> ('t, 'o) visitor) result) \<Rightarrow> ('t, 'o, unit) visitor_impl \<Rightarrow>
    ('t, 'o) visitor \<Rightarrow> (unit \<times> ('t, 'o) visitor) result" where
  "dfs_run 0 visit V s = Inl NoReturn"
| "dfs_run (Suc k) visit V s = (case next_objs s of [] \<Rightarrow> Inr ((), s)
     | b # _ \<Rightarrow> rbind (invoke V b s) (\<lambda>(body, s). rbind (run_body visit body s) (\<lambda>(_, s).
         case next_objs s of [] \<Rightarrow> Inl MemFault
         | _ # rest \<Rightarrow> dfs_run k visit V (s\<lparr>next_objs := move_temp (temp_objs s) rest, temp_objs := []\<rparr>))))"

primrec visit_dfs :: "nat \<Rightarrow> ('t, 'o, unit) visitor_impl \<Rightarrow> 'o \<Rightarrow> ('t, 'o) visitor \<Rightarrow> (unit \<times> ('t, 'o) visitor) result" where
  "visit_dfs 0 V b s = Inl NoReturn"
| "visit_dfs (Suc k) V b s =
     (if \<not> mTerminated s then
        if next_objs s = [] then dfs_run k (visit_dfs k V) V (s\<lparr>next_objs := b # next_objs s\<rparr>)
        else Inr ((), s\<lparr>temp_objs := b # temp_objs s\<rparr>)
      else Inr ((), s))"

section \<open>Dispatch\<close>

text \<open>Tags that other code asks for before and after the table is built.\<close>

fun tag_all :: "'t list \<Rightarrow> 't tags \<Rightarrow> 't tags" where
  "tag_all [] g = g"
| "tag_all (T # Ts) g = tag_all Ts (snd (get_tag T g))"

definition tags_ok :: "'t tags \<Rightarrow> bool" where
  "tags_ok g \<longleftrightarrow> (\<forall>T. s_tag g T \<le> s_counter g) \<and> (\<forall>T U. s_tag g T = s_tag g U \<longrightarrow> s_tag g T \<noteq> 0 \<longrightarrow> T = U)"

text \<open>\<open>h\<close> has the tags of \<open>g\<close> and more.\<close>

definition tags_ext :: "'t tags \<Rightarrow> 't tags \<Rightarrow> bool" where
  "tags_ext g h \<longleftrightarrow> tags_ok h \<and> (\<forall>T. s_tag g T \<noteq> 0 \<longrightarrow> s_tag h T = s_tag g T)"

lemma get_tag_ok:
  assumes "tags_ok g"
  shows "tags_ext g (snd (get_tag T g))" "s_tag (snd (get_tag T g)) T = fst (get_tag T g)" "fst (get_tag T g) \<noteq> 0"
  using assms unfolding tags_ext_def tags_ok_def get_tag_def Let_def
  by (auto simp: le_Suc_eq) (metis Suc_n_not_le_n)+

lemma tags_ext_trans: "tags_ext f g \<Longrightarrow> tags_ext g h \<Longrightarrow> tags_ext f h"
  unfolding tags_ext_def by metis

lemma tags_ext_refl: "tags_ok g \<Longrightarrow> tags_ext g g"
  by (simp add: tags_ext_def)

lemma tag_all_ext: "tags_ok g \<Longrightarrow> tags_ext g (tag_all Ts g)"
proof (induction Ts arbitrary: g)
  case (Cons T Ts)
  from get_tag_ok(1) [OF this(2)] have e: "tags_ext g (snd (get_tag T g))" .
  then have "tags_ok (snd (get_tag T g))" by (simp add: tags_ext_def)
  from tags_ext_trans [OF e Cons.IH [OF this]] show ?case by simp
qed (simp add: tags_ext_refl)

text \<open>
  The table after registering \<open>Base\<close> first: the registered types have their own function, the other entries are null below the tag of
  \<open>Base\<close> and the function of \<open>Base\<close> above it.
\<close>

definition table_ok :: "'t \<Rightarrow> 't set \<Rightarrow> 't vtable \<times> 't tags \<Rightarrow> bool" where
  "table_ok Base R = (\<lambda>(mTable, g). tags_ok g \<and> Base \<in> R \<and>
     (\<forall>V\<in>R. s_tag g V \<noteq> 0 \<and> s_tag g V < length mTable \<and> mTable ! s_tag g V = Some V) \<and>
     (\<forall>i<length mTable. i \<notin> s_tag g ` R \<longrightarrow> mTable ! i = (if i < s_tag g Base then None else Some Base)))"

lemma table_first:
  assumes "tags_ok g"
  shows "table_ok Base {Base} (vtable_add Base Base (Some Base) ([], g))"
proof -
  obtain i h where t: "get_tag Base g = (i, h)" by (cases "get_tag Base g")
  from get_tag_ok [OF assms, of Base] t have h: "tags_ok h" "s_tag h Base = i" "i \<noteq> 0" by (auto simp: tags_ext_def)
  then have "get_tag Base h = (i, h)" by (simp add: get_tag_def)
  with t have "vtable_add Base Base (Some Base) ([], g) = ((replicate (Suc i) None)[i := Some Base], h)"
    by (simp add: vtable_add_def Let_def del: replicate_Suc)
  with h show ?thesis by (auto simp: table_ok_def nth_list_update less_Suc_eq simp del: replicate_Suc)
qed

lemma table_add:
  assumes "table_ok Base R (T, g)"
  shows "table_ok Base (insert V R) (vtable_add Base V (Some V) (T, g))"
proof -
  have ok: "tags_ok g" and B: "Base \<in> R"
    and R: "\<And>U. U \<in> R \<Longrightarrow> s_tag g U \<noteq> 0 \<and> s_tag g U < length T \<and> T ! s_tag g U = Some U"
    and gaps: "\<And>i. i < length T \<Longrightarrow> i \<notin> s_tag g ` R \<Longrightarrow> T ! i = (if i < s_tag g Base then None else Some Base)"
    using assms by (auto simp: table_ok_def)
  obtain i h where t: "get_tag V g = (i, h)" by (cases "get_tag V g")
  from get_tag_ok [OF ok, of V] t have h: "tags_ok h" "s_tag h V = i" "i \<noteq> 0" "\<And>U. s_tag g U \<noteq> 0 \<Longrightarrow> s_tag h U = s_tag g U"
    by (auto simp: tags_ext_def)
  have same: "s_tag h U = s_tag g U" if "U \<in> R" for U using h(4) R [OF that] by simp
  have img: "s_tag h ` insert V R = insert i (s_tag g ` R)" using same h(2) by auto
  have inj: "s_tag g U \<noteq> i" if "U \<in> R" "U \<noteq> V" for U
    using that same [OF that(1)] h(1-3) unfolding tags_ok_def by metis
  have bt: "get_tag Base h = (s_tag g Base, h)" using same [OF B] R [OF B] by (simp add: get_tag_def)
  let ?T = "if i \<ge> length T then (T @ replicate (i + 1 - length T) (Some Base))[i := Some V] else T[i := Some V]"
  have e: "vtable_add Base V (Some V) (T, g) = (?T, h)" using t bt R [OF B] by (simp add: vtable_add_def Let_def)
  have "s_tag h U \<noteq> 0 \<and> s_tag h U < length ?T \<and> ?T ! s_tag h U = Some U" if "U \<in> insert V R" for U
    using that h(2,3) same [of U] R [of U] inj [of U] by (cases "U = V") (auto simp: nth_list_update nth_append)
  moreover have "?T ! j = (if j < s_tag h Base then None else Some Base)" if "j < length ?T" "j \<notin> s_tag h ` insert V R" for j
    using that gaps [of j] R [OF B] same [OF B] unfolding img by (auto simp: nth_list_update nth_append split: if_splits)
  ultimately show ?thesis using h(1) B unfolding e table_ok_def by simp
qed

lemma table_append: "table_ok Base R s \<Longrightarrow> table_ok Base (R \<union> set Vs) (vtable_append Base Vs s)"
proof (induction Vs arbitrary: R s)
  case (Cons V Vs)
  obtain T g where s: "s = (T, g)" by (cases s)
  from Cons.IH [OF table_add [OF Cons.prems [unfolded s]], of V] s show ?case by simp
qed simp

text \<open>
  C27. Dispatch: for a visitor that registers its base class first, whatever tags were given out before and after its table was built, an
  object is handled by the function for its own type when that is registered and otherwise by the one for the base class - except that
  the entry is null for a type whose tag is below the one of the base class, and that the look-up reads behind the end of the table for
  the one tag that equals its size.
\<close>

theorem visitor_dispatch:
  "let (T, g1) = create_vtable Base (Base # Vs) (tag_all before tags_start); (i, g2) = get_tag V (tag_all after g1) in
   fst (vtable_at Base i T g2) =
     (if V \<in> set (Base # Vs) then Inr (Some V) else if i < s_tag g2 Base then Inr None
      else if i = length T then Inl MemFault else Inr (Some Base))"
proof -
  have "tags_ok (tag_all before tags_start)"
    using tag_all_ext [of tags_start before] by (simp add: tags_ext_def tags_ok_def tags_start_def)
  note t1 = table_append [OF table_first [OF this], where Vs = Vs and Base = Base]
  obtain T g1 where c: "create_vtable Base (Base # Vs) (tag_all before tags_start) = (T, g1)" by fastforce
  then have t: "table_ok Base (set (Base # Vs)) (T, g1)" using t1 by (simp add: create_vtable_def)
  then have ok1: "tags_ok g1" by (simp add: table_ok_def)
  obtain i g2 where i: "get_tag V (tag_all after g1) = (i, g2)" by fastforce
  have "tags_ok (tag_all after g1)" using tag_all_ext [OF ok1] by (simp add: tags_ext_def)
  note G = get_tag_ok [OF this, of V]
  have x: "tags_ext g1 g2" using tags_ext_trans [OF tag_all_ext [OF ok1] G(1)] i by simp
  have iV: "s_tag g2 V = i" "i \<noteq> 0" using G i by simp_all
  have reg: "s_tag g2 U = s_tag g1 U" "s_tag g1 U \<noteq> 0" "s_tag g1 U < length T" "T ! s_tag g1 U = Some U" if "U \<in> set (Base # Vs)" for U
    using t x that by (auto simp: table_ok_def tags_ext_def)
  have new: "i \<notin> s_tag g1 ` set (Base # Vs)" if "V \<notin> set (Base # Vs)"
  proof
    assume "i \<in> s_tag g1 ` set (Base # Vs)"
    then obtain U where U: "U \<in> set (Base # Vs)" "s_tag g2 U = s_tag g2 V" using reg(1) iV by force
    moreover have "tags_ok g2" using x by (simp add: tags_ext_def)
    ultimately have "U = V" using iV unfolding tags_ok_def by metis
    with U(1) that show False by simp
  qed
  have gap: "i < length T \<Longrightarrow> V \<notin> set (Base # Vs) \<Longrightarrow> T ! i = (if i < s_tag g2 Base then None else Some Base)"
    using t new reg(1) [of Base] by (simp add: table_ok_def)
  have b: "get_tag Base g2 = (s_tag g1 Base, g2)" using reg [of Base] by (simp add: get_tag_def)
  show ?thesis
  proof (cases "V \<in> set (Base # Vs)")
    case True
    with reg [OF True] iV c i show ?thesis by (simp add: vtable_at_def)
  next
    case False
    with gap b reg [of Base] c i show ?thesis by (auto simp: vtable_at_def)
  qed
qed

text \<open>When the base class is registered last, a gap of the table holds a null pointer.\<close>

lemma base_last_leaves_null:
  "let (T, g) = create_vtable (0::nat) [2, 0] (tag_all [1] tags_start) in fst (vtable_at 0 1 T g) = Inr None"
  by (simp add: create_vtable_def vtable_add_def get_tag_def tags_start_def vtable_at_def Let_def numeral_2_eq_2)

end
