(* ===== verification/Visitor_Order.thy ===== *)
theory Visitor_Order
  imports Visitors
begin

text \<open>
  The order in which the visitors of \<open>include/core/Visitor.h\<close> handle the objects: the iterative depth-first visitor the same as the recursive
  one, the breadth-first visitor level by level.
\<close>

section \<open>Specification\<close>

text \<open>The objects a body visits, and bodies that leave the flag alone.\<close>

primrec visits :: "('o, unit) body \<Rightarrow> 'o list" where
  "visits (Return r) = []"
| "visits (Visit b c) = b # visits (c ())"
| "visits (Terminate c) = visits c"
| "visits (Reset c) = visits c"

primrec quiet :: "('o, unit) body \<Rightarrow> bool" where
  "quiet (Return r) \<longleftrightarrow> True"
| "quiet (Visit b c) \<longleftrightarrow> quiet (c ())"
| "quiet (Terminate c) \<longleftrightarrow> False"
| "quiet (Reset c) \<longleftrightarrow> False"

text \<open>The type whose function handles an object, and the objects that function visits.\<close>

definition label :: "('t, 'o, unit) visitor_impl \<Rightarrow> 'o \<Rightarrow> 't \<times> 'o" where
  "label V b = (case entry V b of Inr (Some t) \<Rightarrow> (t, b))"

definition kids :: "('t, 'o, unit) visitor_impl \<Rightarrow> 'o \<Rightarrow> 'o list" where
  "kids V b = visits (method_of V (fst (label V b)) b)"

text \<open>The objects below an object to a given depth, in preorder; the objects \<open>n\<close> levels below the ones of a list.\<close>

fun preorder :: "('t, 'o, unit) visitor_impl \<Rightarrow> nat \<Rightarrow> 'o \<Rightarrow> ('t \<times> 'o) list" where
  "preorder V 0 b = []"
| "preorder V (Suc n) b = label V b # concat (map (preorder V n) (kids V b))"

fun level :: "('t, 'o, unit) visitor_impl \<Rightarrow> nat \<Rightarrow> 'o list \<Rightarrow> 'o list" where
  "level V 0 bs = bs"
| "level V (Suc n) bs = level V n (concat (map (kids V) bs))"

text \<open>
  A visitor on a finite structure: every object has a function, the functions do not set the flag, and they visit objects of lower rank
  only.
\<close>

definition plain_visitor :: "('o \<Rightarrow> nat) \<Rightarrow> ('t, 'o, unit) visitor_impl \<Rightarrow> bool" where
  "plain_visitor rank V \<longleftrightarrow> (\<forall>b. \<exists>t. entry V b = Inr (Some t) \<and> quiet (method_of V t b)) \<and> (\<forall>b. \<forall>x\<in>set (kids V b). rank x < rank b)"

lemma plain_visitorD:
  assumes "plain_visitor rank V"
  shows "x \<in> set (kids V b) \<Longrightarrow> rank x < rank b"
    "\<exists>c. invoke V b s = Inr (c, s\<lparr>handled := handled s @ [label V b]\<rparr>) \<and> quiet c \<and> visits c = kids V b"
proof -
  obtain t where "entry V b = Inr (Some t)" "quiet (method_of V t b)" using assms unfolding plain_visitor_def by blast
  then show "\<exists>c. invoke V b s = Inr (c, s\<lparr>handled := handled s @ [label V b]\<rparr>) \<and> quiet c \<and> visits c = kids V b"
    by (simp add: invoke_def label_def kids_def)
qed (use assms in \<open>auto simp: plain_visitor_def\<close>)

lemma next_objs_same [simp]: "next_objs s = bs \<Longrightarrow> s\<lparr>next_objs := bs\<rparr> = (s :: ('t, 'o) visitor)"
  by (cases s) simp

section \<open>The recursive visitor\<close>

lemma run_body_rec:
  assumes "\<And>b s. b \<in> set (visits c) \<Longrightarrow> \<not> mTerminated s \<Longrightarrow> visit b s = Inr ((), s\<lparr>handled := handled s @ f b\<rparr>)"
  shows "quiet c \<Longrightarrow> \<not> mTerminated s \<Longrightarrow> run_body visit c s = Inr ((), s\<lparr>handled := handled s @ concat (map f (visits c))\<rparr>)"
  using assms by (induction c arbitrary: s) simp_all

lemma visit_rec_preorder:
  assumes V: "plain_visitor rank V"
  shows "rank b < n \<Longrightarrow> n \<le> k \<Longrightarrow> \<not> mTerminated s \<Longrightarrow> visit_rec k V b s = Inr ((), s\<lparr>handled := handled s @ preorder V n b\<rparr>)"
proof (induction n arbitrary: b k s)
  case (Suc n)
  obtain k' where k: "k = Suc k'" using Suc.prems by (cases k) auto
  obtain c where c: "invoke V b s = Inr (c, s\<lparr>handled := handled s @ [label V b]\<rparr>)" "quiet c" "visits c = kids V b"
    using plain_visitorD(2) [OF V] by blast
  have "visit_rec k' V x s = Inr ((), s\<lparr>handled := handled s @ preorder V n x\<rparr>)" if "x \<in> set (visits c)" "\<not> mTerminated s" for x s
    using Suc.IH [of x k' s] Suc.prems k that plain_visitorD(1) [OF V, of x b] c(3) by auto
  from run_body_rec [OF this c(2), where s = "s\<lparr>handled := handled s @ [label V b]\<rparr>"] c Suc.prems k show ?case by simp
qed simp

section \<open>The depth-first visitor\<close>

lemma move_temp_rev: "move_temp tmp nx = rev tmp @ nx"
  by (induction tmp nx rule: move_temp.induct) simp_all

lemma run_body_dfs:
  "quiet c \<Longrightarrow> \<not> mTerminated s \<Longrightarrow> next_objs s \<noteq> [] \<Longrightarrow>
   run_body (visit_dfs (Suc k) V) c s = Inr ((), s\<lparr>temp_objs := rev (visits c) @ temp_objs s\<rparr>)"
  by (induction c arbitrary: s) simp_all

lemma dfs_round:
  assumes "plain_visitor rank V" "\<not> mTerminated s" "next_objs s = b # bs" "temp_objs s = []"
  shows "dfs_run (Suc n) (visit_dfs (Suc k) V) V s =
    dfs_run n (visit_dfs (Suc k) V) V (s\<lparr>handled := handled s @ [label V b], next_objs := kids V b @ bs\<rparr>)"
proof -
  obtain c where "invoke V b s = Inr (c, s\<lparr>handled := handled s @ [label V b]\<rparr>)" "quiet c" "visits c = kids V b"
    using plain_visitorD(2) [OF assms(1)] by blast
  with assms run_body_dfs [of c "s\<lparr>handled := handled s @ [label V b]\<rparr>" k V] show ?thesis
    by (cases s) (simp add: move_temp_rev)
qed

lemma dfs_subtrees:
  assumes V: "plain_visitor rank V"
  shows "\<forall>b\<in>set xs. rank b < d \<Longrightarrow> \<not> mTerminated s \<Longrightarrow> next_objs s = xs @ bs \<Longrightarrow> temp_objs s = [] \<Longrightarrow>
    dfs_run (length (concat (map (preorder V d) xs)) + n) (visit_dfs (Suc k) V) V s =
    dfs_run n (visit_dfs (Suc k) V) V (s\<lparr>handled := handled s @ concat (map (preorder V d) xs), next_objs := bs\<rparr>)"
proof (induction d arbitrary: xs bs s n)
  case (Suc d)
  note IHd = Suc.IH
  from Suc.prems show ?case
  proof (induction xs arbitrary: s n)
    case (Cons b xs)
    let ?kids = "concat (map (preorder V d) (kids V b))" and ?rest = "concat (map (preorder V (Suc d)) xs)"
    let ?s = "s\<lparr>handled := handled s @ [label V b], next_objs := kids V b @ (xs @ bs)\<rparr>"
    have "\<forall>x\<in>set (kids V b). rank x < d" using plain_visitorD(1) [OF V] Cons.prems(1) by fastforce
    from IHd [OF this, of ?s "xs @ bs" "length ?rest + n"] Cons.prems
    have "dfs_run (length ?kids + (length ?rest + n)) (visit_dfs (Suc k) V) V ?s =
      dfs_run (length ?rest + n) (visit_dfs (Suc k) V) V (s\<lparr>handled := handled s @ label V b # ?kids, next_objs := xs @ bs\<rparr>)" by (simp del: visit_dfs.simps)
    also have "\<dots> = dfs_run n (visit_dfs (Suc k) V) V (s\<lparr>handled := handled s @ label V b # ?kids @ ?rest, next_objs := bs\<rparr>)"
      using Cons.IH [of "s\<lparr>handled := handled s @ label V b # ?kids, next_objs := xs @ bs\<rparr>" n] Cons.prems by (simp del: visit_dfs.simps preorder.simps)
    finally show ?case
      using dfs_round [OF V Cons.prems(2), of b "xs @ bs" "length ?kids + (length ?rest + n)" k] Cons.prems
      by (simp add: add.assoc preorder.simps(2) [of V d b] del: visit_dfs.simps preorder.simps)
  qed simp
next
  case 0
  then have "xs = []" by (cases xs) auto
  with 0 show ?case by simp
qed

lemma visit_dfs_preorder:
  assumes V: "plain_visitor rank V" and k: "k \<ge> length (preorder V (Suc (rank b)) b) + 2"
  shows "visit_dfs k V b Visitor_new = Inr ((), Visitor_new\<lparr>handled := preorder V (Suc (rank b)) b\<rparr>)"
proof -
  let ?p = "preorder V (Suc (rank b)) b"
  obtain n where n: "k = Suc (length ?p + Suc n)" using k by (metis add_2_eq_Suc' add_Suc_right le_Suc_ex add_Suc add.assoc)
  let ?s = "Visitor_new\<lparr>next_objs := [b]\<rparr>"
  have "dfs_run (length ?p + Suc n) (visit_dfs (Suc (length ?p + n)) V) V ?s =
      dfs_run (Suc n) (visit_dfs (Suc (length ?p + n)) V) V (?s\<lparr>handled := ?p, next_objs := []\<rparr>)"
    using dfs_subtrees [OF V, of "[b]" "Suc (rank b)" ?s "[]" "Suc n"] by (simp add: Visitor_new_def del: preorder.simps)
  then show ?thesis unfolding n by (simp add: Visitor_new_def del: preorder.simps)
qed

section \<open>The breadth-first visitor\<close>

lemma run_body_bfs:
  "quiet c \<Longrightarrow> \<not> mTerminated s \<Longrightarrow> next_objs s \<noteq> [] \<Longrightarrow>
   run_body (visit_bfs (Suc k) V) c s = Inr ((), s\<lparr>next_objs := next_objs s @ visits c\<rparr>)"
  by (induction c arbitrary: s) (simp_all add: Let_def)

lemma bfs_level:
  assumes V: "plain_visitor rank V"
  shows "\<not> mTerminated s \<Longrightarrow> next_objs s = xs @ ys \<Longrightarrow>
    bfs_run (length xs + n) (visit_bfs (Suc k) V) V s =
    bfs_run n (visit_bfs (Suc k) V) V (s\<lparr>handled := handled s @ map (label V) xs, next_objs := ys @ concat (map (kids V) xs)\<rparr>)"
proof (induction xs arbitrary: s ys)
  case (Cons b xs)
  obtain c where c: "invoke V b s = Inr (c, s\<lparr>handled := handled s @ [label V b]\<rparr>)" "quiet c" "visits c = kids V b"
    using plain_visitorD(2) [OF V] by blast
  let ?s = "s\<lparr>handled := handled s @ [label V b], next_objs := xs @ (ys @ kids V b)\<rparr>"
  have "bfs_run (length (b # xs) + n) (visit_bfs (Suc k) V) V s = bfs_run (length xs + n) (visit_bfs (Suc k) V) V ?s"
    using Cons.prems c run_body_bfs [of c "s\<lparr>handled := handled s @ [label V b]\<rparr>" k V] by (simp del: visit_bfs.simps)
  also have "\<dots> = bfs_run n (visit_bfs (Suc k) V) V (s\<lparr>handled := handled s @ map (label V) (b # xs),
      next_objs := ys @ concat (map (kids V) (b # xs))\<rparr>)"
    using Cons.IH [of ?s "ys @ kids V b"] Cons.prems by (simp del: visit_bfs.simps)
  finally show ?case .
qed simp

lemma level_end:
  assumes V: "plain_visitor rank V"
  shows "\<forall>b\<in>set bs. rank b < n \<Longrightarrow> level V n bs = []"
proof (induction n arbitrary: bs)
  case (Suc n)
  have "\<forall>b\<in>set (concat (map (kids V) bs)). rank b < n" using plain_visitorD(1) [OF V] Suc.prems by fastforce
  from Suc.IH [OF this] show ?case by simp
next
  case 0
  then show ?case by (cases bs) auto
qed

lemma bfs_levels:
  assumes V: "plain_visitor rank V"
  shows "\<not> mTerminated s \<Longrightarrow> next_objs s = xs \<Longrightarrow>
    bfs_run (length (concat (map (\<lambda>i. level V i xs) [0..<m])) + n) (visit_bfs (Suc k) V) V s =
    bfs_run n (visit_bfs (Suc k) V) V (s\<lparr>handled := handled s @ map (label V) (concat (map (\<lambda>i. level V i xs) [0..<m])), next_objs := level V m xs\<rparr>)"
proof (induction m arbitrary: xs s)
  case (Suc m)
  let ?ys = "concat (map (kids V) xs)"
  let ?rest = "concat (map (\<lambda>i. level V i ?ys) [0..<m])"
  have split: "concat (map (\<lambda>i. level V i xs) [0..<Suc m]) = xs @ ?rest"
    by (simp add: upt_conv_Cons map_Suc_upt [symmetric] comp_def del: upt_Suc)
  from bfs_level [OF V Suc.prems(1), of xs "[]" "length ?rest + n" k] Suc.prems(2)
  have "bfs_run (length xs + (length ?rest + n)) (visit_bfs (Suc k) V) V s =
      bfs_run (length ?rest + n) (visit_bfs (Suc k) V) V (s\<lparr>handled := handled s @ map (label V) xs, next_objs := ?ys\<rparr>)" by (simp del: visit_bfs.simps)
  with Suc.IH [of "s\<lparr>handled := handled s @ map (label V) xs, next_objs := ?ys\<rparr>" ?ys] Suc.prems(1)
  show ?case unfolding split by (simp add: add.assoc del: visit_bfs.simps)
qed simp

lemma visit_bfs_levels:
  assumes V: "plain_visitor rank V" and k: "k \<ge> length (concat (map (\<lambda>i. level V i [b]) [0..<Suc (rank b)])) + 2"
  shows "visit_bfs k V b Visitor_new = Inr ((), Visitor_new\<lparr>handled := map (label V) (concat (map (\<lambda>i. level V i [b]) [0..<Suc (rank b)]))\<rparr>)"
proof -
  let ?p = "concat (map (\<lambda>i. level V i [b]) [0..<Suc (rank b)])"
  obtain n where n: "k = Suc (length ?p + Suc n)" using k by (metis add_2_eq_Suc' add_Suc_right le_Suc_ex add_Suc add.assoc)
  let ?s = "Visitor_new\<lparr>next_objs := [b]\<rparr>"
  have "bfs_run (length ?p + Suc n) (visit_bfs (Suc (length ?p + n)) V) V ?s =
      bfs_run (Suc n) (visit_bfs (Suc (length ?p + n)) V) V (?s\<lparr>handled := map (label V) ?p, next_objs := level V (Suc (rank b)) [b]\<rparr>)"
    using bfs_levels [OF V, of ?s "[b]" "Suc (rank b)" "Suc n"] by (simp add: Visitor_new_def del: level.simps upt_Suc)
  moreover have "level V (Suc (rank b)) [b] = []" by (rule level_end [OF V]) simp
  ultimately show ?thesis unfolding n by (simp add: Visitor_new_def Let_def del: level.simps upt_Suc)
qed

section \<open>Properties\<close>

text \<open>
  C26. On a finite structure all three visitors return, given enough fuel. The iterative depth-first visitor calls the same functions on the
  same objects in the same order as the recursive visitor, the preorder; the breadth-first visitor goes level by level. No objects are
  left on a stack or in the queue.
\<close>

theorem visitors_order:
  assumes "plain_visitor rank V"
  shows "\<exists>n. \<forall>k\<ge>n. visit_rec k V b Visitor_new = Inr ((), Visitor_new\<lparr>handled := preorder V (Suc (rank b)) b\<rparr>) \<and>
    visit_dfs k V b Visitor_new = Inr ((), Visitor_new\<lparr>handled := preorder V (Suc (rank b)) b\<rparr>) \<and>
    visit_bfs k V b Visitor_new =
      Inr ((), Visitor_new\<lparr>handled := map (label V) (concat (map (\<lambda>i. level V i [b]) [0..<Suc (rank b)]))\<rparr>)"
proof -
  let ?n = "Suc (rank b) + length (preorder V (Suc (rank b)) b) + length (concat (map (\<lambda>i. level V i [b]) [0..<Suc (rank b)])) + 2"
  have "visit_rec k V b Visitor_new = Inr ((), Visitor_new\<lparr>handled := preorder V (Suc (rank b)) b\<rparr>)" if "k \<ge> ?n" for k
    using visit_rec_preorder [OF assms, of b "Suc (rank b)" k Visitor_new] that by (simp add: Visitor_new_def del: preorder.simps)
  moreover have "visit_dfs k V b Visitor_new = Inr ((), Visitor_new\<lparr>handled := preorder V (Suc (rank b)) b\<rparr>)" if "k \<ge> ?n" for k
    by (rule visit_dfs_preorder [OF assms]) (use that in linarith)
  moreover have "visit_bfs k V b Visitor_new =
      Inr ((), Visitor_new\<lparr>handled := map (label V) (concat (map (\<lambda>i. level V i [b]) [0..<Suc (rank b)]))\<rparr>)" if "k \<ge> ?n" for k
    by (rule visit_bfs_levels [OF assms]) (use that in linarith)
  ultimately show ?thesis by blast
qed

text \<open>Objects are numbers: 4 visits 3 and 2, 3 visits 1, and 2 visits 0.\<close>

definition small_tree :: "(unit, nat, unit) visitor_impl" where
  "small_tree = \<lparr>entry = (\<lambda>_. Inr (Some ())),
     method_of = (\<lambda>_ b. if b = 4 then Visit 3 (\<lambda>_. Visit 2 Return) else if b = 3 then Visit 1 Return else if b = 2 then Visit 0 Return else Return ()),
     no_value = Some ()\<rparr>"

theorem visitors_order_witness:
  "\<exists>n. \<forall>k\<ge>n. visit_rec k small_tree 4 Visitor_new = Inr ((), Visitor_new\<lparr>handled := map (Pair ()) [4, 3, 1, 2, 0]\<rparr>) \<and>
    visit_dfs k small_tree 4 Visitor_new = Inr ((), Visitor_new\<lparr>handled := map (Pair ()) [4, 3, 1, 2, 0]\<rparr>) \<and>
    visit_bfs k small_tree 4 Visitor_new = Inr ((), Visitor_new\<lparr>handled := map (Pair ()) [4, 3, 2, 1, 0]\<rparr>)"
proof -
  have "plain_visitor id small_tree" by (simp add: plain_visitor_def small_tree_def kids_def label_def)
  from visitors_order [OF this, of 4] show ?thesis
    by (simp add: small_tree_def kids_def label_def eval_nat_numeral)
qed

text \<open>
  \<open>terminate\<close> stops the recursive visitor but not the loops of the iterative ones: the function for object 1 terminates, and object 2,
  which is queued, is handled all the same.
\<close>

definition stopping_visitor :: "(unit, nat, unit) visitor_impl" where
  "stopping_visitor = \<lparr>entry = (\<lambda>_. Inr (Some ())),
     method_of = (\<lambda>_ b. if b = 0 then Visit 1 (\<lambda>_. Visit 2 Return) else if b = 1 then Terminate (Return ()) else Return ()), no_value = Some ()\<rparr>"

lemma terminate_keeps_queue:
  "visit_rec 9 stopping_visitor 0 Visitor_new = Inr ((), Visitor_new\<lparr>handled := [((), 0), ((), 1)], mTerminated := True\<rparr>)"
  "visit_bfs 9 stopping_visitor 0 Visitor_new = Inr ((), Visitor_new\<lparr>handled := [((), 0), ((), 1), ((), 2)], mTerminated := True\<rparr>)"
  "visit_dfs 9 stopping_visitor 0 Visitor_new = Inr ((), Visitor_new\<lparr>handled := [((), 0), ((), 1), ((), 2)], mTerminated := True\<rparr>)"
  by (simp_all add: stopping_visitor_def Visitor_new_def invoke_def terminate_def eval_nat_numeral)

text \<open>A recursive visitor that returns a value has none to return after \<open>terminate\<close>.\<close>

lemma terminated_visit_returns_nothing:
  "no_value V = None \<Longrightarrow> mTerminated s \<Longrightarrow> visit_rec (Suc k) V b s = Inl MemFault"
  by simp

end
