(* ===== verification/Object_Pool.thy ===== *)
theory Object_Pool
  imports Prelude
begin

text \<open>
  The object pools of \<open>include/core/ObjectPool.h\<close>: \<open>operator new\<close> takes a block from a queue of deleted ones when there is one, \<open>operator
  delete\<close> puts the block into the queue, \<open>purge\<close> frees the queue. \<open>ObjectPool\<close> and \<open>ConcurrentObjectPool\<close> satisfy the same contract,
  the locale \<open>object_pool\<close>.
\<close>

section \<open>The pools\<close>

text \<open>\<open>heap\<close>: the live blocks with their sizes; \<open>nextp\<close>: the next address of \<open>::operator new\<close>, never null.\<close>

record pool_state =
  allocations :: "nat list"
  heap :: "nat \<rightharpoonup> nat"
  nextp :: nat

definition pool_start :: pool_state where
  "pool_start = \<lparr>allocations = [], heap = Map.empty, nextp = 1\<rparr>"

definition global_new :: "nat \<Rightarrow> pool_state \<Rightarrow> nat \<times> pool_state" where
  "global_new sz s = (nextp s, s\<lparr>heap := (heap s)(nextp s \<mapsto> sz), nextp := nextp s + 1\<rparr>)"

definition global_delete :: "nat \<Rightarrow> pool_state \<Rightarrow> pool_state result" where
  "global_delete p s = (if heap s p = None then Inl MemFault else Inr (s\<lparr>heap := (heap s)(p := None)\<rparr>))"

definition ZILLIANS_OBJPOOL_PREFERABLE_POOL_SIZE :: nat where
  "ZILLIANS_OBJPOOL_PREFERABLE_POOL_SIZE = 0"

definition ObjectPool_new :: "nat \<Rightarrow> pool_state \<Rightarrow> nat \<times> pool_state" where
  "ObjectPool_new sz s = (case allocations s of [] \<Rightarrow> global_new sz s | obj # rest \<Rightarrow> (obj, s\<lparr>allocations := rest\<rparr>))"

definition ObjectPool_delete :: "nat \<Rightarrow> pool_state \<Rightarrow> pool_state result" where
  "ObjectPool_delete p s =
     (if ZILLIANS_OBJPOOL_PREFERABLE_POOL_SIZE > 0 \<and> length (allocations s) > ZILLIANS_OBJPOOL_PREFERABLE_POOL_SIZE then global_delete p s
      else Inr (s\<lparr>allocations := allocations s @ [p]\<rparr>))"

text \<open>The loop of \<open>purge\<close> runs at most as often as there are blocks in the queue.\<close>

fun purge_loop :: "nat \<Rightarrow> pool_state \<Rightarrow> pool_state result" where
  "purge_loop 0 s = (if allocations s = [] then Inr s else Inl NoReturn)"
| "purge_loop (Suc k) s = (case allocations s of [] \<Rightarrow> Inr s
     | obj # rest \<Rightarrow> rbind (global_delete obj s) (\<lambda>s. purge_loop k (s\<lparr>allocations := rest\<rparr>)))"

definition ObjectPool_purge :: "pool_state \<Rightarrow> pool_state result" where
  "ObjectPool_purge s = purge_loop (length (allocations s)) s"

text \<open>\<open>ConcurrentObjectPool\<close>: \<open>try_pop\<close> leaves the null pointer in \<open>obj\<close> when the queue is empty.\<close>

definition try_pop :: "pool_state \<Rightarrow> bool \<times> nat \<times> pool_state" where
  "try_pop s = (case allocations s of [] \<Rightarrow> (False, 0, s) | obj # rest \<Rightarrow> (True, obj, s\<lparr>allocations := rest\<rparr>))"

definition ConcurrentObjectPool_new :: "nat \<Rightarrow> pool_state \<Rightarrow> nat \<times> pool_state" where
  "ConcurrentObjectPool_new sz s = (let (_, obj, s) = try_pop s in if obj \<noteq> 0 then (obj, s) else global_new sz s)"

definition ConcurrentObjectPool_delete :: "nat \<Rightarrow> pool_state \<Rightarrow> pool_state result" where
  "ConcurrentObjectPool_delete p s =
     (if ZILLIANS_OBJPOOL_PREFERABLE_POOL_SIZE > 0 \<and> length (allocations s) > ZILLIANS_OBJPOOL_PREFERABLE_POOL_SIZE then global_delete p s
      else Inr (s\<lparr>allocations := allocations s @ [p]\<rparr>))"

fun cpurge_loop :: "nat \<Rightarrow> pool_state \<Rightarrow> pool_state result" where
  "cpurge_loop 0 s = (if allocations s = [] then Inr s else Inl NoReturn)"
| "cpurge_loop (Suc k) s = (if allocations s = [] then Inr s else
     let (popped, obj, s) = try_pop s in if popped then rbind (global_delete obj s) (cpurge_loop k) else cpurge_loop k s)"

definition ConcurrentObjectPool_purge :: "pool_state \<Rightarrow> pool_state result" where
  "ConcurrentObjectPool_purge s = cpurge_loop (length (allocations s)) s"

section \<open>Clients\<close>

datatype pool_call = New nat | Delete nat | Purge

record pool_ops =
  p_new :: "nat \<Rightarrow> pool_state \<Rightarrow> nat \<times> pool_state"
  p_delete :: "nat \<Rightarrow> pool_state \<Rightarrow> pool_state result"
  p_purge :: "pool_state \<Rightarrow> pool_state result"

text \<open>
  The objects in use, with the size that was asked for, beside the pool. A client deletes only objects in use; other deletions are not
  calls.
\<close>

fun pool_run :: "pool_ops \<Rightarrow> pool_call list \<Rightarrow> (nat \<rightharpoonup> nat) \<times> pool_state \<Rightarrow> ((nat \<rightharpoonup> nat) \<times> pool_state) result" where
  "pool_run Q [] (u, s) = Inr (u, s)"
| "pool_run Q (New sz # cs) (u, s) = (let (p, s) = p_new Q sz s in pool_run Q cs (u(p \<mapsto> sz), s))"
| "pool_run Q (Delete p # cs) (u, s) = (if u p = None then pool_run Q cs (u, s) else rbind (p_delete Q p s) (\<lambda>s. pool_run Q cs (u(p := None), s)))"
| "pool_run Q (Purge # cs) (u, s) = rbind (p_purge Q s) (\<lambda>s. pool_run Q cs (u, s))"

text \<open>The blocks of the heap are those in use and those in the queue, each in one place and of the one size.\<close>

definition pool_inv :: "nat \<Rightarrow> (nat \<rightharpoonup> nat) \<times> pool_state \<Rightarrow> bool" where
  "pool_inv sz = (\<lambda>(u, s). distinct (allocations s) \<and> dom u \<inter> set (allocations s) = {} \<and>
     dom (heap s) = dom u \<union> set (allocations s) \<and> (\<forall>p\<in>dom (heap s). heap s p = Some sz \<and> 0 < p \<and> p < nextp s) \<and>
     ran u \<subseteq> {sz} \<and> 0 < nextp s)"

locale object_pool =
  fixes Q :: pool_ops
  assumes new_law: "pool_inv sz (u, s) \<Longrightarrow> \<exists>p s'. p_new Q sz s = (p, s') \<and> u p = None \<and> pool_inv sz (u(p \<mapsto> sz), s')"
    and delete_law: "pool_inv sz (u, s) \<Longrightarrow> u p \<noteq> None \<Longrightarrow> \<exists>s'. p_delete Q p s = Inr s' \<and> pool_inv sz (u(p := None), s')"
    and purge_law: "pool_inv sz (u, s) \<Longrightarrow> \<exists>s'. p_purge Q s = Inr s' \<and> pool_inv sz (u, s') \<and> allocations s' = []"
begin

lemma run_inv:
  "pool_inv sz (u, s) \<Longrightarrow> list_all (\<lambda>c. case c of New n \<Rightarrow> n = sz | _ \<Rightarrow> True) cs \<Longrightarrow>
   \<exists>u' s'. pool_run Q cs (u, s) = Inr (u', s') \<and> pool_inv sz (u', s')"
proof (induction cs arbitrary: u s)
  case (Cons c cs)
  show ?case
  proof (cases c)
    case (New n)
    with new_law [OF Cons.prems(1)] Cons show ?thesis by fastforce
  next
    case (Delete p)
    with delete_law [OF Cons.prems(1), of p] Cons show ?thesis by (cases "u p = None") fastforce+
  next
    case Purge
    with purge_law [OF Cons.prems(1)] Cons show ?thesis by fastforce
  qed
qed simp

end

lemma global_new_inv:
  "pool_inv sz (u, s) \<Longrightarrow> \<exists>p s'. global_new sz s = (p, s') \<and> u p = None \<and> pool_inv sz (u(p \<mapsto> sz), s')"
proof -
  assume inv: "pool_inv sz (u, s)"
  then have "nextp s \<notin> dom (heap s)" by (auto simp: pool_inv_def)
  then have "nextp s \<notin> dom u" "nextp s \<notin> set (allocations s)" using inv by (auto simp: pool_inv_def)
  then show ?thesis using inv by (auto simp: pool_inv_def global_new_def less_Suc_eq ran_def split: if_splits)
qed

lemma reuse_inv:
  assumes "pool_inv sz (u, s)" "allocations s = p # rest"
  shows "u p = None" "pool_inv sz (u(p \<mapsto> sz), s\<lparr>allocations := rest\<rparr>)" "p \<noteq> 0"
  using assms by (auto simp: pool_inv_def ran_def split: if_splits)

lemma delete_inv:
  "pool_inv sz (u, s) \<Longrightarrow> u p \<noteq> None \<Longrightarrow> pool_inv sz (u(p := None), s\<lparr>allocations := allocations s @ [p]\<rparr>)"
  by (auto simp: pool_inv_def ran_def split: if_splits)

lemma free_front_inv:
  assumes "pool_inv sz (u, s)" "allocations s = p # rest"
  shows "global_delete p s = Inr (s\<lparr>heap := (heap s)(p := None)\<rparr>)" "global_delete p (s\<lparr>allocations := rest\<rparr>) = Inr (s\<lparr>allocations := rest, heap := (heap s)(p := None)\<rparr>)"
    "pool_inv sz (u, s\<lparr>allocations := rest, heap := (heap s)(p := None)\<rparr>)" "pool_inv sz (u, s\<lparr>heap := (heap s)(p := None), allocations := rest\<rparr>)"
proof -
  have "p \<in> dom (heap s)" "p \<notin> dom u" "p \<notin> set rest" "distinct rest" using assms by (auto simp: pool_inv_def)
  then show "global_delete p s = Inr (s\<lparr>heap := (heap s)(p := None)\<rparr>)" "global_delete p (s\<lparr>allocations := rest\<rparr>) = Inr (s\<lparr>allocations := rest, heap := (heap s)(p := None)\<rparr>)"
    "pool_inv sz (u, s\<lparr>allocations := rest, heap := (heap s)(p := None)\<rparr>)" "pool_inv sz (u, s\<lparr>heap := (heap s)(p := None), allocations := rest\<rparr>)"
    using assms by (auto simp: pool_inv_def global_delete_def)
qed

lemma purge_loop_inv:
  "pool_inv sz (u, s) \<Longrightarrow> length (allocations s) \<le> k \<Longrightarrow>
   \<exists>s'. purge_loop k s = Inr s' \<and> pool_inv sz (u, s') \<and> allocations s' = []"
proof (induction k arbitrary: s)
  case (Suc k)
  show ?case
  proof (cases "allocations s")
    case (Cons p rest)
    note F = free_front_inv [OF Suc.prems(1) Cons]
    from Suc.IH [OF F(4)] Suc.prems(2) Cons F(1) show ?thesis by simp
  qed (use Suc.prems in simp)
qed simp

lemma cpurge_loop_inv:
  "pool_inv sz (u, s) \<Longrightarrow> length (allocations s) \<le> k \<Longrightarrow>
   \<exists>s'. cpurge_loop k s = Inr s' \<and> pool_inv sz (u, s') \<and> allocations s' = []"
proof (induction k arbitrary: s)
  case (Suc k)
  show ?case
  proof (cases "allocations s")
    case (Cons p rest)
    note F = free_front_inv [OF Suc.prems(1) Cons]
    with Suc.IH [OF F(3)] Suc.prems(2) Cons show ?thesis by (simp add: F try_pop_def)
  qed (use Suc.prems in simp)
qed simp

definition ObjectPool_ops :: pool_ops where
  "ObjectPool_ops = \<lparr>p_new = ObjectPool_new, p_delete = ObjectPool_delete, p_purge = ObjectPool_purge\<rparr>"

definition ConcurrentObjectPool_ops :: pool_ops where
  "ConcurrentObjectPool_ops =
     \<lparr>p_new = ConcurrentObjectPool_new, p_delete = ConcurrentObjectPool_delete, p_purge = ConcurrentObjectPool_purge\<rparr>"

interpretation pool: object_pool ObjectPool_ops
proof
  fix sz u s p
  assume inv: "pool_inv sz (u, s)"
  show "\<exists>p s'. p_new ObjectPool_ops sz s = (p, s') \<and> u p = None \<and> pool_inv sz (u(p \<mapsto> sz), s')"
    using global_new_inv [OF inv] reuse_inv [OF inv] by (cases "allocations s") (auto simp: ObjectPool_ops_def ObjectPool_new_def)
  show "\<exists>s'. p_purge ObjectPool_ops s = Inr s' \<and> pool_inv sz (u, s') \<and> allocations s' = []"
    using purge_loop_inv [OF inv] by (simp add: ObjectPool_ops_def ObjectPool_purge_def)
  show "u p \<noteq> None \<Longrightarrow> \<exists>s'. p_delete ObjectPool_ops p s = Inr s' \<and> pool_inv sz (u(p := None), s')"
    using delete_inv [OF inv] by (simp add: ObjectPool_ops_def ObjectPool_delete_def ZILLIANS_OBJPOOL_PREFERABLE_POOL_SIZE_def)
qed

interpretation cpool: object_pool ConcurrentObjectPool_ops
proof
  fix sz u s p
  assume inv: "pool_inv sz (u, s)"
  show "\<exists>p s'. p_new ConcurrentObjectPool_ops sz s = (p, s') \<and> u p = None \<and> pool_inv sz (u(p \<mapsto> sz), s')"
    using global_new_inv [OF inv] reuse_inv [OF inv]
    by (cases "allocations s") (auto simp: ConcurrentObjectPool_ops_def ConcurrentObjectPool_new_def try_pop_def)
  show "\<exists>s'. p_purge ConcurrentObjectPool_ops s = Inr s' \<and> pool_inv sz (u, s') \<and> allocations s' = []"
    using cpurge_loop_inv [OF inv] by (simp add: ConcurrentObjectPool_ops_def ConcurrentObjectPool_purge_def)
  show "u p \<noteq> None \<Longrightarrow> \<exists>s'. p_delete ConcurrentObjectPool_ops p s = Inr s' \<and> pool_inv sz (u(p := None), s')"
    using delete_inv [OF inv]
    by (simp add: ConcurrentObjectPool_ops_def ConcurrentObjectPool_delete_def ZILLIANS_OBJPOOL_PREFERABLE_POOL_SIZE_def)
qed

text \<open>
  C28. As long as all objects have one size, no sequence of allocations, deletions and purges of either pool fails: the objects in use
  are distinct live blocks of the size that was asked for, none of them is in the queue, and the heap holds nothing but them and the queue, so
  that after a purge nothing but the objects in use is left.
\<close>

theorem object_pool_safe:
  assumes "list_all (\<lambda>c. case c of New n \<Rightarrow> n = sz | _ \<Rightarrow> True) cs" "Q = ObjectPool_ops \<or> Q = ConcurrentObjectPool_ops"
  shows "\<exists>u s s'. pool_run Q cs (Map.empty, pool_start) = Inr (u, s) \<and> distinct (allocations s) \<and> dom u \<inter> set (allocations s) = {} \<and>
    dom (heap s) = dom u \<union> set (allocations s) \<and> u \<subseteq>\<^sub>m heap s \<and> p_purge Q s = Inr s' \<and> heap s' = u"
proof -
  have start: "pool_inv sz (Map.empty, pool_start)" by (simp add: pool_inv_def pool_start_def)
  have op: "object_pool Q" using assms(2) pool.object_pool_axioms cpool.object_pool_axioms by blast
  obtain u s where r: "pool_run Q cs (Map.empty, pool_start) = Inr (u, s)" and inv: "pool_inv sz (u, s)"
    using object_pool.run_inv [OF op start assms(1)] by blast
  obtain s' where s': "p_purge Q s = Inr s'" "pool_inv sz (u, s')" "allocations s' = []" using object_pool.purge_law [OF op inv] by blast
  have eq: "u p = heap t p" if "pool_inv sz (u, t)" "p \<in> dom u" for t p using that by (auto simp: pool_inv_def ran_def)
  have "heap s' p = u p" for p
    using s'(2,3) eq [OF s'(2), of p] by (cases "p \<in> dom u") (auto simp: pool_inv_def domIff)
  moreover have "u \<subseteq>\<^sub>m heap s" using eq [OF inv] by (auto simp: map_le_def)
  ultimately show ?thesis using r inv s'(1) by (auto simp: pool_inv_def fun_eq_iff)
qed

theorem object_pool_safe_witness:
  "\<exists>u s s'. pool_run ConcurrentObjectPool_ops [New 8, New 8, Delete 1, New 8, Purge] (Map.empty, pool_start) = Inr (u, s) \<and>
    distinct (allocations s) \<and> dom u \<inter> set (allocations s) = {} \<and> dom (heap s) = dom u \<union> set (allocations s) \<and> u \<subseteq>\<^sub>m heap s \<and>
    p_purge ConcurrentObjectPool_ops s = Inr s' \<and> heap s' = u"
  by (rule object_pool_safe [where sz = 8]) simp_all

text \<open>A class with larger objects that shares the pool gets a block that is too small for it.\<close>

lemma pool_ignores_size:
  "\<exists>u s. pool_run ObjectPool_ops [New 8, Delete 1, New 16] (Map.empty, pool_start) = Inr (u, s) \<and> u 1 = Some 16 \<and> heap s 1 = Some 8"
  by (simp add: ObjectPool_ops_def ObjectPool_new_def ObjectPool_delete_def global_new_def pool_start_def ZILLIANS_OBJPOOL_PREFERABLE_POOL_SIZE_def)

end
