(* ===== verification/Bi_Map.thy ===== *)
theory Bi_Map
  imports Prelude
begin

text \<open>
  The two-way map of \<open>include/core/BiMap.h\<close>: every thread has a main map and a buffer; an insertion goes to the buffers of all threads
  that are known, and a look-up merges the buffer of its thread into the main map at intervals. The bidirectional map of Boost is a
  parameter with its documented laws. An operation holds the locks that the code takes and is one step.
\<close>

section \<open>The library\<close>

record ('m, 'l, 'r) bimap_lib =
  bm_new :: 'm
  bm_insert :: "'l \<Rightarrow> 'r \<Rightarrow> 'm \<Rightarrow> 'm"
  bm_pairs :: "'m \<Rightarrow> ('l \<times> 'r) list"
  bm_find_right :: "'r \<Rightarrow> 'm \<Rightarrow> 'l option"
  bm_find_left :: "'l \<Rightarrow> 'm \<Rightarrow> 'r option"

text \<open>A pair is inserted unless its left or its right key is there; both views find the pair.\<close>

definition bimap_laws :: "('m, 'l, 'r) bimap_lib \<Rightarrow> bool" where
  "bimap_laws B \<longleftrightarrow> bm_pairs B (bm_new B) = [] \<and>
     (\<forall>l r m. set (bm_pairs B (bm_insert B l r m)) =
        (if l \<in> fst ` set (bm_pairs B m) \<or> r \<in> snd ` set (bm_pairs B m) then set (bm_pairs B m) else insert (l, r) (set (bm_pairs B m)))) \<and>
     (\<forall>l r m. bm_find_right B r m = Some l \<longleftrightarrow> (l, r) \<in> set (bm_pairs B m)) \<and>
     (\<forall>l r m. bm_find_left B l m = Some r \<longleftrightarrow> (l, r) \<in> set (bm_pairs B m))"

section \<open>The operations\<close>

record 'm thread_data =
  mMainMap :: 'm
  mBufMap :: 'm
  mLastMerge :: nat

text \<open>
  \<open>mThreadPool\<close> is static: one for all maps of the same types. It leads from threads to the data of a thread, which are named by the map and
  the thread they belong to; \<open>mThreadData\<close> holds the data of every map and thread. Times are in milliseconds.
\<close>

record 'm bimaps =
  mThreadPool :: "(nat \<times> (nat \<times> nat)) list"
  mThreadData :: "nat \<times> nat \<rightharpoonup> 'm thread_data"

definition mMergeInterval :: nat where
  "mMergeInterval = 100"

definition bimaps_start :: "'m bimaps" where
  "bimaps_start = \<lparr>mThreadPool = [], mThreadData = Map.empty\<rparr>"

text \<open>The constructor makes a new pool.\<close>

definition BiMap_new :: "'m bimaps \<Rightarrow> 'm bimaps" where
  "BiMap_new s = s\<lparr>mThreadPool := []\<rparr>"

text \<open>\<open>insert\<close> of \<open>std::map\<close> does nothing when the key is there.\<close>

definition addThread :: "nat \<Rightarrow> nat \<times> nat \<Rightarrow> 'm bimaps \<Rightarrow> 'm bimaps" where
  "addThread t d s = (if map_of (mThreadPool s) t = None then s\<lparr>mThreadPool := (t, d) # mThreadPool s\<rparr> else s)"

definition removeThread :: "nat \<Rightarrow> 'm bimaps \<Rightarrow> 'm bimaps" where
  "removeThread t s = s\<lparr>mThreadPool := filter (\<lambda>x. fst x \<noteq> t) (mThreadPool s)\<rparr>"

definition initThreadData :: "('m, 'l, 'r) bimap_lib \<Rightarrow> nat \<Rightarrow> nat \<Rightarrow> nat \<Rightarrow> 'm bimaps \<Rightarrow> 'm bimaps" where
  "initThreadData B b t now s =
     addThread t (b, t) (s\<lparr>mThreadData := (mThreadData s)((b, t) \<mapsto> \<lparr>mMainMap = bm_new B, mBufMap = bm_new B, mLastMerge = now\<rparr>)\<rparr>)"

definition ensureThreadData :: "('m, 'l, 'r) bimap_lib \<Rightarrow> nat \<Rightarrow> nat \<Rightarrow> nat \<Rightarrow> 'm bimaps \<Rightarrow> 'm bimaps" where
  "ensureThreadData B b t now s = (if mThreadData s (b, t) = None then initThreadData B b t now s else s)"

definition cleanupThreadData :: "nat \<Rightarrow> nat \<Rightarrow> 'm bimaps \<Rightarrow> 'm bimaps" where
  "cleanupThreadData b t s = (removeThread t s)\<lparr>mThreadData := (mThreadData s)((b, t) := None)\<rparr>"

definition mergeMap :: "('m, 'l, 'r) bimap_lib \<Rightarrow> 'm thread_data \<Rightarrow> 'm thread_data" where
  "mergeMap B d =
     (if bm_pairs B (mBufMap d) = [] then d
      else d\<lparr>mMainMap := foldl (\<lambda>m (l, r). bm_insert B l r m) (mMainMap d) (bm_pairs B (mBufMap d)), mBufMap := bm_new B\<rparr>)"

fun insert_bufs :: "('m, 'l, 'r) bimap_lib \<Rightarrow> 'l \<Rightarrow> 'r \<Rightarrow> (nat \<times> (nat \<times> nat)) list \<Rightarrow> (nat \<times> nat \<rightharpoonup> 'm thread_data) \<Rightarrow>
    (nat \<times> nat \<rightharpoonup> 'm thread_data) result" where
  "insert_bufs B l r [] h = Inr h"
| "insert_bufs B l r ((t, d) # ds) h = (case h d of None \<Rightarrow> Inl MemFault
     | Some x \<Rightarrow> insert_bufs B l r ds (h(d \<mapsto> x\<lparr>mBufMap := bm_insert B l r (mBufMap x)\<rparr>)))"

definition BiMap_insert :: "('m, 'l, 'r) bimap_lib \<Rightarrow> nat \<Rightarrow> nat \<Rightarrow> nat \<Rightarrow> 'l \<Rightarrow> 'r \<Rightarrow> 'm bimaps \<Rightarrow> 'm bimaps result" where
  "BiMap_insert B b t now l r s =
     (let s = ensureThreadData B b t now s in
      rbind (insert_bufs B l r (mThreadPool s) (mThreadData s)) (\<lambda>h. Inr (s\<lparr>mThreadData := h\<rparr>)))"

text \<open>The merge at the start of a look-up.\<close>

definition mergeIfDue :: "('m, 'l, 'r) bimap_lib \<Rightarrow> nat \<Rightarrow> 'm thread_data \<Rightarrow> 'm thread_data" where
  "mergeIfDue B now d = (if now - mLastMerge d \<ge> mMergeInterval then mergeMap B (d\<lparr>mLastMerge := now\<rparr>) else d)"

definition lookup_data :: "('m, 'l, 'r) bimap_lib \<Rightarrow> nat \<Rightarrow> nat \<Rightarrow> nat \<Rightarrow> 'm bimaps \<Rightarrow> 'm thread_data \<times> 'm bimaps" where
  "lookup_data B b t now s =
     (let s = ensureThreadData B b t now s; d = mergeIfDue B now (the (mThreadData s (b, t))) in
      (d, s\<lparr>mThreadData := (mThreadData s)((b, t) \<mapsto> d)\<rparr>))"

definition mapLeft :: "('m, 'l, 'r) bimap_lib \<Rightarrow> nat \<Rightarrow> nat \<Rightarrow> nat \<Rightarrow> 'r \<Rightarrow> 'm bimaps \<Rightarrow> 'l result \<times> 'm bimaps" where
  "mapLeft B b t now key s =
     (let (d, s) = lookup_data B b t now s in
      (case bm_find_right B key (mMainMap d) of Some l \<Rightarrow> Inr l
       | None \<Rightarrow> (case bm_find_right B key (mBufMap d) of Some l \<Rightarrow> Inr l | None \<Rightarrow> Inl OutOfRange), s))"

definition mapRight :: "('m, 'l, 'r) bimap_lib \<Rightarrow> nat \<Rightarrow> nat \<Rightarrow> nat \<Rightarrow> 'l \<Rightarrow> 'm bimaps \<Rightarrow> 'r result \<times> 'm bimaps" where
  "mapRight B b t now key s =
     (let (d, s) = lookup_data B b t now s in
      (case bm_find_left B key (mMainMap d) of Some r \<Rightarrow> Inr r
       | None \<Rightarrow> (case bm_find_left B key (mBufMap d) of Some r \<Rightarrow> Inr r | None \<Rightarrow> Inl OutOfRange), s))"

section \<open>One map\<close>

datatype ('l, 'r) bimap_call = Insert nat nat 'l 'r | MapLeft nat nat 'r | MapRight nat nat 'l | Exit nat

text \<open>The results of the look-ups, for the map number 0.\<close>

fun bimap_run :: "('m, 'l, 'r) bimap_lib \<Rightarrow> ('l, 'r) bimap_call list \<Rightarrow> 'm bimaps \<Rightarrow> (('l result + 'r result) list \<times> 'm bimaps) result" where
  "bimap_run B [] s = Inr ([], s)"
| "bimap_run B (Insert t now l r # cs) s = rbind (BiMap_insert B 0 t now l r s) (bimap_run B cs)"
| "bimap_run B (MapLeft t now r # cs) s =
     (let (x, s) = mapLeft B 0 t now r s in rbind (bimap_run B cs s) (\<lambda>(xs, s). Inr (Inl x # xs, s)))"
| "bimap_run B (MapRight t now l # cs) s =
     (let (x, s) = mapRight B 0 t now l s in rbind (bimap_run B cs s) (\<lambda>(xs, s). Inr (Inr x # xs, s)))"
| "bimap_run B (Exit t # cs) s = bimap_run B cs (cleanupThreadData 0 t s)"

text \<open>The specification: every known thread sees the pairs that were inserted since it became known.\<close>

definition join_thread :: "nat \<Rightarrow> (nat \<rightharpoonup> ('l \<times> 'r) list) \<Rightarrow> (nat \<rightharpoonup> ('l \<times> 'r) list)" where
  "join_thread t m = (if m t = None then m(t \<mapsto> []) else m)"

definition find_l :: "'r \<Rightarrow> ('l \<times> 'r) list \<Rightarrow> 'l result" where
  "find_l r X = (case find (\<lambda>p. snd p = r) X of None \<Rightarrow> Inl OutOfRange | Some p \<Rightarrow> Inr (fst p))"

definition find_r :: "'l \<Rightarrow> ('l \<times> 'r) list \<Rightarrow> 'r result" where
  "find_r l X = (case find (\<lambda>p. fst p = l) X of None \<Rightarrow> Inl OutOfRange | Some p \<Rightarrow> Inr (snd p))"

fun seen_run :: "('l, 'r) bimap_call list \<Rightarrow> (nat \<rightharpoonup> ('l \<times> 'r) list) \<Rightarrow> ('l result + 'r result) list" where
  "seen_run [] m = []"
| "seen_run (Insert t now l r # cs) m = seen_run cs (\<lambda>u. map_option (\<lambda>X. X @ [(l, r)]) (join_thread t m u))"
| "seen_run (MapLeft t now r # cs) m = (let m = join_thread t m in Inl (find_l r (the (m t))) # seen_run cs m)"
| "seen_run (MapRight t now l # cs) m = (let m = join_thread t m in Inr (find_r l (the (m t))) # seen_run cs m)"
| "seen_run (Exit t # cs) m = seen_run cs (m(t := None))"

definition inserted :: "('l, 'r) bimap_call list \<Rightarrow> ('l \<times> 'r) set" where
  "inserted cs = {(l, r). \<exists>t now. Insert t now l r \<in> set cs}"

text \<open>No two pairs share a key.\<close>

definition one_to_one :: "('l \<times> 'r) set \<Rightarrow> bool" where
  "one_to_one X \<longleftrightarrow> inj_on fst X \<and> inj_on snd X"

definition data_pairs :: "('m, 'l, 'r) bimap_lib \<Rightarrow> 'm thread_data \<Rightarrow> ('l \<times> 'r) set" where
  "data_pairs B d = set (bm_pairs B (mMainMap d)) \<union> set (bm_pairs B (mBufMap d))"

text \<open>The maps and the specification: the pool leads to the data of the known threads, and these hold the pairs seen, all from \<open>Y\<close>.\<close>

definition bimap_rel :: "('m, 'l, 'r) bimap_lib \<Rightarrow> ('l \<times> 'r) set \<Rightarrow> (nat \<rightharpoonup> ('l \<times> 'r) list) \<Rightarrow> 'm bimaps \<Rightarrow> bool" where
  "bimap_rel B Y m s \<longleftrightarrow> (\<forall>t. map_option (data_pairs B) (mThreadData s (0, t)) = map_option set (m t)) \<and>
     distinct (map fst (mThreadPool s)) \<and> set (mThreadPool s) = (\<lambda>t. (t, (0, t))) ` dom m \<and> (\<forall>X\<in>ran m. set X \<subseteq> Y)"

section \<open>Properties\<close>

lemma bimap_lawsD:
  assumes "bimap_laws B"
  shows "bm_pairs B (bm_new B) = []" "bm_find_right B r m = Some l \<longleftrightarrow> (l, r) \<in> set (bm_pairs B m)"
    "bm_find_left B l m = Some r \<longleftrightarrow> (l, r) \<in> set (bm_pairs B m)"
    "set (bm_pairs B (bm_insert B l r m)) = (if l \<in> fst ` set (bm_pairs B m) \<or> r \<in> snd ` set (bm_pairs B m)
       then set (bm_pairs B m) else insert (l, r) (set (bm_pairs B m)))"
  using assms unfolding bimap_laws_def by blast+

lemma insert_pair:
  assumes B: "bimap_laws B" and Y: "one_to_one Y" "set (bm_pairs B m) \<subseteq> Y" "(l, r) \<in> Y"
  shows "set (bm_pairs B (bm_insert B l r m)) = insert (l, r) (set (bm_pairs B m))"
proof -
  have "(l, r) \<in> set (bm_pairs B m)" if "l \<in> fst ` set (bm_pairs B m) \<or> r \<in> snd ` set (bm_pairs B m)"
  proof -
    from that obtain l' r' where p: "(l', r') \<in> set (bm_pairs B m)" "l' = l \<or> r' = r" by auto
    with Y have "(l', r') = (l, r)" unfolding one_to_one_def inj_on_def by fastforce
    with p(1) show ?thesis by simp
  qed
  then show ?thesis unfolding bimap_lawsD(4) [OF B] by auto
qed

lemma fold_insert_pairs:
  assumes B: "bimap_laws B" and Y: "one_to_one Y"
  shows "set (bm_pairs B m) \<subseteq> Y \<Longrightarrow> set ps \<subseteq> Y \<Longrightarrow>
    set (bm_pairs B (foldl (\<lambda>m (l, r). bm_insert B l r m) m ps)) = set (bm_pairs B m) \<union> set ps"
proof (induction ps arbitrary: m)
  case (Cons p ps)
  obtain l r where p: "p = (l, r)" by (cases p)
  have "set (bm_pairs B (bm_insert B l r m)) = insert (l, r) (set (bm_pairs B m))" by (rule insert_pair [OF B Y]) (use Cons.prems p in auto)
  with Cons.IH [of "bm_insert B l r m"] Cons.prems p show ?case by auto
qed simp

lemma merge_pairs:
  assumes "bimap_laws B" "one_to_one Y" "data_pairs B d \<subseteq> Y"
  shows "data_pairs B (mergeIfDue B now d) = data_pairs B d"
  using fold_insert_pairs [OF assms(1,2), of "mMainMap d" "bm_pairs B (mBufMap d)"] assms(3) bimap_lawsD(1) [OF assms(1)]
  by (auto simp: mergeIfDue_def mergeMap_def data_pairs_def)

lemma insert_bufs_all:
  assumes "bimap_laws B" "one_to_one Y" "(l, r) \<in> Y"
  shows "distinct (map fst ps) \<Longrightarrow> (\<And>p. p \<in> set ps \<Longrightarrow> p = (fst p, (0, fst p))) \<Longrightarrow>
    (\<And>t. t \<in> fst ` set ps \<Longrightarrow> \<exists>x. h (0, t) = Some x \<and> data_pairs B x \<subseteq> Y) \<Longrightarrow>
    \<exists>h'. insert_bufs B l r ps h = Inr h' \<and>
      (\<forall>t. map_option (data_pairs B) (h' (0, t)) = map_option (\<lambda>x. (if t \<in> fst ` set ps then insert (l, r) else id) (data_pairs B x)) (h (0, t)))"
proof (induction ps arbitrary: h)
  case (Cons p ps)
  obtain t where p: "p = (t, (0, t))" using Cons.prems(2) [of p] by (cases p) auto
  then obtain x where x: "h (0, t) = Some x" "data_pairs B x \<subseteq> Y" using Cons.prems(3) [of t] by auto
  let ?x = "x\<lparr>mBufMap := bm_insert B l r (mBufMap x)\<rparr>"
  have px: "data_pairs B ?x = insert (l, r) (data_pairs B x)"
    using insert_pair [OF assms(1,2), of "mBufMap x" l r] x(2) assms(3) by (auto simp: data_pairs_def)
  have tn: "t \<notin> fst ` set ps" using Cons.prems(1) p by auto
  have "\<exists>h'. insert_bufs B l r ps (h((0, t) \<mapsto> ?x)) = Inr h' \<and> (\<forall>u. map_option (data_pairs B) (h' (0, u)) =
      map_option (\<lambda>x. (if u \<in> fst ` set ps then insert (l, r) else id) (data_pairs B x)) ((h((0, t) \<mapsto> ?x)) (0, u)))"
    by (rule Cons.IH) (use Cons.prems tn in auto)
  then obtain h' where h': "insert_bufs B l r ps (h((0, t) \<mapsto> ?x)) = Inr h'" "\<And>u. map_option (data_pairs B) (h' (0, u)) =
      map_option (\<lambda>x. (if u \<in> fst ` set ps then insert (l, r) else id) (data_pairs B x)) ((h((0, t) \<mapsto> ?x)) (0, u))" by blast
  have "map_option (data_pairs B) (h' (0, u)) =
      map_option (\<lambda>x. (if u \<in> fst ` set (p # ps) then insert (l, r) else id) (data_pairs B x)) (h (0, u))" for u
    using h'(2) [of u] x px p tn by (cases "u = t") simp_all
  moreover have "insert_bufs B l r (p # ps) h = Inr h'" using h'(1) x p by simp
  ultimately show ?case by blast
qed (auto simp: option.map_ident)

lemma rel_ensure:
  assumes "bimap_laws B" "bimap_rel B Y m s"
  shows "bimap_rel B Y (join_thread t m) (ensureThreadData B 0 t now s)" "mThreadData (ensureThreadData B 0 t now s) (0, t) \<noteq> None"
proof -
  have n: "mThreadData s (0, t) = None \<longleftrightarrow> m t = None" using assms(2) unfolding bimap_rel_def by (metis option.map_disc_iff)
  have d: "data_pairs B \<lparr>mMainMap = bm_new B, mBufMap = bm_new B, mLastMerge = now\<rparr> = {}"
    using bimap_lawsD(1) [OF assms(1)] by (simp add: data_pairs_def)
  show "bimap_rel B Y (join_thread t m) (ensureThreadData B 0 t now s)"
  proof (cases "m t")
    case None
    then have "map_of (mThreadPool s) t = None" using assms(2) by (auto simp: bimap_rel_def map_of_eq_None_iff)
    moreover have "t \<notin> fst ` set (mThreadPool s)" using assms(2) None by (auto simp: bimap_rel_def)
    ultimately show ?thesis using assms(2) None n d
      by (auto simp: bimap_rel_def ensureThreadData_def initThreadData_def addThread_def join_thread_def ran_def split: if_splits)
  qed (use assms(2) n in \<open>auto simp: ensureThreadData_def join_thread_def\<close>)
  show "mThreadData (ensureThreadData B 0 t now s) (0, t) \<noteq> None"
    by (auto simp: ensureThreadData_def initThreadData_def addThread_def)
qed

lemma rel_lookup:
  assumes B: "bimap_laws B" and Y: "one_to_one Y" and rel: "bimap_rel B Y m s" and e: "lookup_data B 0 t now s = (d, s')"
  shows "bimap_rel B Y (join_thread t m) s'" "data_pairs B d = set (the (join_thread t m t))" "data_pairs B d \<subseteq> Y"
proof -
  let ?s = "ensureThreadData B 0 t now s"
  note R = rel_ensure [OF B rel, of t now]
  obtain x where x: "mThreadData ?s (0, t) = Some x" using R(2) by blast
  have jt: "\<exists>X. join_thread t m t = Some X" by (auto simp: join_thread_def)
  then obtain X where X: "join_thread t m t = Some X" by blast
  have px: "data_pairs B x = set X" "set X \<subseteq> Y" using R(1) x X unfolding bimap_rel_def by (metis option.simps(9) option.inject, metis ranI)
  have d: "d = mergeIfDue B now x" "s' = ?s\<lparr>mThreadData := (mThreadData ?s)((0, t) \<mapsto> d)\<rparr>"
    using e x by (auto simp: lookup_data_def Let_def)
  have pd: "data_pairs B d = set X" unfolding d(1) using merge_pairs [OF B Y] px by simp
  show "bimap_rel B Y (join_thread t m) s'" using R(1) x X pd unfolding d(2) bimap_rel_def by auto
  show "data_pairs B d = set (the (join_thread t m t))" "data_pairs B d \<subseteq> Y" using pd X px by simp_all
qed

lemma find_SomeD: "find P X = Some p \<Longrightarrow> p \<in> set X \<and> P p"
  by (induction X) (auto split: if_splits)

lemma find_in:
  assumes "one_to_one Y" "set X \<subseteq> Y"
  shows "(l, r) \<in> set X \<Longrightarrow> find_l r X = Inr l" "(l, r) \<in> set X \<Longrightarrow> find_r l X = Inr r"
    "r \<notin> snd ` set X \<Longrightarrow> find_l r X = Inl OutOfRange" "l \<notin> fst ` set X \<Longrightarrow> find_r l X = Inl OutOfRange"
proof -
  have inj: "inj_on fst (set X)" "inj_on snd (set X)" using assms inj_on_subset unfolding one_to_one_def by blast+
  show "find_l r X = Inr l" if "(l, r) \<in> set X"
  proof (cases "find (\<lambda>p. snd p = r) X")
    case (Some p)
    from find_SomeD [OF Some] that have "p = (l, r)" using inj(2) by (auto simp: inj_on_def)
    with Some show ?thesis by (simp add: find_l_def)
  qed (use that in \<open>auto simp: find_None_iff\<close>)
  show "find_r l X = Inr r" if "(l, r) \<in> set X"
  proof (cases "find (\<lambda>p. fst p = l) X")
    case (Some p)
    from find_SomeD [OF Some] that have "p = (l, r)" using inj(1) by (auto simp: inj_on_def)
    with Some show ?thesis by (simp add: find_r_def)
  qed (use that in \<open>auto simp: find_None_iff\<close>)
  show "find_l r X = Inl OutOfRange" if "r \<notin> snd ` set X"
    using that by (auto simp: find_l_def split: option.split dest!: find_SomeD)
  show "find_r l X = Inl OutOfRange" if "l \<notin> fst ` set X"
    using that by (auto simp: find_r_def split: option.split dest!: find_SomeD)
qed

lemma lookup_result:
  assumes B: "bimap_laws B" and Y: "one_to_one Y" "data_pairs B d = set X" "set X \<subseteq> Y"
  shows "(case bm_find_right B r (mMainMap d) of Some l \<Rightarrow> Inr l
      | None \<Rightarrow> (case bm_find_right B r (mBufMap d) of Some l \<Rightarrow> Inr l | None \<Rightarrow> Inl OutOfRange)) = find_l r X" (is ?L)
    "(case bm_find_left B l (mMainMap d) of Some r \<Rightarrow> Inr r
      | None \<Rightarrow> (case bm_find_left B l (mBufMap d) of Some r \<Rightarrow> Inr r | None \<Rightarrow> Inl OutOfRange)) = find_r l X" (is ?R)
proof -
  note F = find_in [OF Y(1,3)]
  have in1: "(a, b) \<in> set X" if "(a, b) \<in> set (bm_pairs B (mMainMap d)) \<or> (a, b) \<in> set (bm_pairs B (mBufMap d))" for a b
    using that Y(2) by (auto simp: data_pairs_def)
  have out: "r \<notin> snd ` set X" if "bm_find_right B r (mMainMap d) = None" "bm_find_right B r (mBufMap d) = None"
  proof
    assume "r \<in> snd ` set X"
    then obtain a where "(a, r) \<in> data_pairs B d" using Y(2) by auto
    with that show False by (auto simp: data_pairs_def simp flip: bimap_lawsD(2) [OF B])
  qed
  have main: "find_l r X = Inr a" if "bm_find_right B r (mMainMap d) = Some a \<or> bm_find_right B r (mBufMap d) = Some a" for a
    by (rule F(1), rule in1) (use that in \<open>simp add: bimap_lawsD(2) [OF B]\<close>)
  show ?L
  proof (cases "bm_find_right B r (mMainMap d)")
    case None
    then show ?thesis using F(3) [OF out] main by (cases "bm_find_right B r (mBufMap d)") simp_all
  next
    case (Some a)
    with main [of a] show ?thesis by simp
  qed
  have out: "l \<notin> fst ` set X" if "bm_find_left B l (mMainMap d) = None" "bm_find_left B l (mBufMap d) = None"
  proof
    assume "l \<in> fst ` set X"
    then obtain a where "(l, a) \<in> data_pairs B d" using Y(2) by auto
    with that show False by (auto simp: data_pairs_def simp flip: bimap_lawsD(3) [OF B])
  qed
  have main: "find_r l X = Inr a" if "bm_find_left B l (mMainMap d) = Some a \<or> bm_find_left B l (mBufMap d) = Some a" for a
    by (rule F(2), rule in1) (use that in \<open>simp add: bimap_lawsD(3) [OF B]\<close>)
  show ?R
  proof (cases "bm_find_left B l (mMainMap d)")
    case None
    then show ?thesis using F(4) [OF out] main by (cases "bm_find_left B l (mBufMap d)") simp_all
  next
    case (Some a)
    with main [of a] show ?thesis by simp
  qed
qed


lemma rel_insert:
  assumes B: "bimap_laws B" and Y: "one_to_one Y" "(l, r) \<in> Y" and rel: "bimap_rel B Y m s"
  shows "\<exists>s'. BiMap_insert B 0 t now l r s = Inr s' \<and> bimap_rel B Y (\<lambda>u. map_option (\<lambda>X. X @ [(l, r)]) (join_thread t m u)) s'"
proof -
  let ?s = "ensureThreadData B 0 t now s" and ?m = "join_thread t m"
  have R: "bimap_rel B Y ?m ?s" using rel_ensure(1) [OF B rel] .
  have at: "map_option (data_pairs B) (mThreadData ?s (0, u)) = map_option set (?m u)" for u using R by (simp add: bimap_rel_def)
  have pool: "fst ` set (mThreadPool ?s) = dom ?m" using R by (auto simp: bimap_rel_def image_image)
  have "\<exists>x. mThreadData ?s (0, u) = Some x \<and> data_pairs B x \<subseteq> Y" if "u \<in> fst ` set (mThreadPool ?s)" for u
  proof -
    obtain X where X: "?m u = Some X" using \<open>u \<in> _\<close> pool by auto
    then have "set X \<subseteq> Y" using R by (auto simp: bimap_rel_def ran_def)
    with X at [of u] show ?thesis by auto
  qed
  moreover have "p = (fst p, (0, fst p))" if "p \<in> set (mThreadPool ?s)" for p using that R by (auto simp: bimap_rel_def)
  moreover have "distinct (map fst (mThreadPool ?s))" using R by (simp add: bimap_rel_def)
  ultimately obtain h where h: "insert_bufs B l r (mThreadPool ?s) (mThreadData ?s) = Inr h"
    "\<And>u. map_option (data_pairs B) (h (0, u)) =
      map_option (\<lambda>x. (if u \<in> fst ` set (mThreadPool ?s) then insert (l, r) else id) (data_pairs B x)) (mThreadData ?s (0, u))"
    using insert_bufs_all [OF B Y, of "mThreadPool ?s" "mThreadData ?s"] by auto
  have "map_option (data_pairs B) (h (0, u)) = map_option set (map_option (\<lambda>X. X @ [(l, r)]) (?m u))" for u
  proof (cases "?m u")
    case None
    with at [of u] have "mThreadData ?s (0, u) = None" by simp
    with None h(2) [of u] show ?thesis by simp
  next
    case (Some X)
    with at [of u] obtain x where "mThreadData ?s (0, u) = Some x" "data_pairs B x = set X" by auto
    moreover have "u \<in> fst ` set (mThreadPool ?s)" using pool Some by auto
    ultimately show ?thesis using Some h(2) [of u] by simp
  qed
  moreover have "dom (\<lambda>u. map_option (\<lambda>X. X @ [(l, r)]) (?m u)) = dom ?m" by (auto simp: dom_def)
  moreover have "set X \<subseteq> Y" if X: "X \<in> ran (\<lambda>u. map_option (\<lambda>X. X @ [(l, r)]) (?m u))" for X
  proof -
    obtain u Z where "?m u = Some Z" "X = Z @ [(l, r)]" using X by (auto simp: ran_def)
    moreover from this have "set Z \<subseteq> Y" using R by (auto simp: bimap_rel_def ran_def)
    ultimately show ?thesis using Y(2) by simp
  qed
  ultimately have "bimap_rel B Y (\<lambda>u. map_option (\<lambda>X. X @ [(l, r)]) (?m u)) (?s\<lparr>mThreadData := h\<rparr>)"
    using R unfolding bimap_rel_def by simp
  with h(1) show ?thesis by (auto simp: BiMap_insert_def)
qed

lemma rel_exit: "bimap_rel B Y m s \<Longrightarrow> bimap_rel B Y (m(t := None)) (cleanupThreadData 0 t s)"
  unfolding bimap_rel_def by (auto simp: cleanupThreadData_def removeThread_def distinct_map_filter ran_def)

lemma run_seen:
  assumes "bimap_laws B" "one_to_one Y"
  shows "inserted cs \<subseteq> Y \<Longrightarrow> bimap_rel B Y m s \<Longrightarrow> \<exists>s'. bimap_run B cs s = Inr (seen_run cs m, s')"
proof (induction cs arbitrary: m s)
  case (Cons c cs)
  have sub: "inserted cs \<subseteq> Y" using Cons.prems(1) by (auto simp: inserted_def)
  show ?case
  proof (cases c)
    case (Insert t now l r)
    then have "(l, r) \<in> Y" using Cons.prems(1) by (auto simp: inserted_def)
    from rel_insert [OF assms this Cons.prems(2), of t now] Cons.IH [OF sub] Insert show ?thesis by auto
  next
    case (MapLeft t now r)
    obtain d s' where e: "lookup_data B 0 t now s = (d, s')" by (cases "lookup_data B 0 t now s")
    note L = rel_lookup [OF assms Cons.prems(2) e]
    obtain s2 where "bimap_run B cs s' = Inr (seen_run cs (join_thread t m), s2)" using Cons.IH [OF sub L(1)] by blast
    moreover have "set (the (join_thread t m t)) \<subseteq> Y" using L by simp
    ultimately show ?thesis using MapLeft e lookup_result(1) [OF assms L(2)] by (simp add: mapLeft_def Let_def)
  next
    case (MapRight t now l)
    obtain d s' where e: "lookup_data B 0 t now s = (d, s')" by (cases "lookup_data B 0 t now s")
    note L = rel_lookup [OF assms Cons.prems(2) e]
    obtain s2 where "bimap_run B cs s' = Inr (seen_run cs (join_thread t m), s2)" using Cons.IH [OF sub L(1)] by blast
    moreover have "set (the (join_thread t m t)) \<subseteq> Y" using L by simp
    ultimately show ?thesis using MapRight e lookup_result(2) [OF assms L(2)] by (simp add: mapRight_def Let_def)
  next
    case (Exit t)
    then show ?thesis using Cons.IH [OF sub rel_exit [OF Cons.prems(2), of t]] by (simp only: bimap_run.simps seen_run.simps)
  qed
qed simp


text \<open>A list of pairs is such a library; a list in which pairs share a key counts as empty.\<close>

definition pairs_of :: "('l \<times> 'r) list \<Rightarrow> ('l \<times> 'r) list" where
  "pairs_of m = (if distinct (map fst m) \<and> distinct (map snd m) then m else [])"

definition list_bimap :: "(('l \<times> 'r) list, 'l, 'r) bimap_lib" where
  "list_bimap = \<lparr>bm_new = [],
     bm_insert = (\<lambda>l r m. if l \<in> fst ` set (pairs_of m) \<or> r \<in> snd ` set (pairs_of m) then pairs_of m else (l, r) # pairs_of m),
     bm_pairs = pairs_of, bm_find_right = (\<lambda>r m. map_of (map (\<lambda>(a, b). (b, a)) (pairs_of m)) r),
     bm_find_left = (\<lambda>l m. map_of (pairs_of m) l)\<rparr>"

lemma list_bimap_laws: "bimap_laws (list_bimap :: (('l \<times> 'r) list, 'l, 'r) bimap_lib)"
proof -
  have d: "distinct (map fst (pairs_of m))" "distinct (map snd (pairs_of m))" for m :: "('l \<times> 'r) list" by (simp_all add: pairs_of_def)
  have p: "pairs_of (pairs_of m) = pairs_of m" for m :: "('l \<times> 'r) list" by (simp add: pairs_of_def)
  have c: "pairs_of ((l, r) # pairs_of m) = (l, r) # pairs_of m"
    if "l \<notin> fst ` set (pairs_of m)" "r \<notin> snd ` set (pairs_of m)" for l r and m :: "('l \<times> 'r) list"
    using that d [of m] by (simp add: pairs_of_def [of "(l, r) # pairs_of m"])
  have dr: "distinct (map fst (map (\<lambda>(a, b). (b, a)) (pairs_of m)))" for m :: "('l \<times> 'r) list"
    using d(2) [of m] by (simp add: comp_def case_prod_unfold)
  have "map_of (map (\<lambda>(a, b). (b, a)) (pairs_of m)) r = Some l \<longleftrightarrow> (l, r) \<in> set (pairs_of m)" for l r and m :: "('l \<times> 'r) list"
    unfolding map_of_eq_Some_iff [OF dr] by force
  moreover have "map_of (pairs_of m) l = Some r \<longleftrightarrow> (l, r) \<in> set (pairs_of m)" for l r and m :: "('l \<times> 'r) list"
    by (rule map_of_eq_Some_iff [OF d(1)])
  moreover have "pairs_of ([] :: ('l \<times> 'r) list) = []" by (simp add: pairs_of_def)
  ultimately show ?thesis using p c by (simp add: bimap_laws_def list_bimap_def)
qed


text \<open>
  The pool is static, and the constructor of a second map of the same types replaces it: what a thread then inserts into the first map
  is not found, not even by the thread itself.
\<close>

lemma second_map_detaches:
  "rbind (BiMap_insert list_bimap 0 1 5 (3::nat) (7::nat) (BiMap_new (ensureThreadData list_bimap 0 1 0 (BiMap_new bimaps_start))))
     (\<lambda>s. fst (mapLeft list_bimap 0 1 20 7 s)) = Inl OutOfRange"
  by (simp add: BiMap_insert_def BiMap_new_def ensureThreadData_def initThreadData_def addThread_def bimaps_start_def mapLeft_def
      lookup_data_def mergeIfDue_def mMergeInterval_def list_bimap_def pairs_of_def Let_def)

text \<open>A pair whose key is taken in the main map can be looked up until the next merge, which drops it.\<close>

lemma conflicting_pair_forgotten:
  fixes d :: "(nat \<times> nat) list thread_data"
  assumes "d = \<lparr>mMainMap = [(3, 7)], mBufMap = [(4, 7)], mLastMerge = 0\<rparr>"
  shows "bm_find_left list_bimap 4 (mBufMap d) = Some 7"
    "mergeIfDue list_bimap 100 d = \<lparr>mMainMap = [(3, 7)], mBufMap = [], mLastMerge = 100\<rparr>"
  using assms by (simp_all add: mergeIfDue_def mergeMap_def mMergeInterval_def list_bimap_def pairs_of_def)

end
