(* ===== verification/Thread_Map.thy ===== *)
theory Thread_Map
  imports Prelude
begin

text \<open>
  The maps of \<open>include/core/old/Map.h\<close>. \<open>Map<K, V, ReadOverWrite>\<close> keeps a main map and a buffer for every thread: an insertion goes to the
  buffers of all known threads, a look-up merges the buffer of its thread into the main map at intervals. The general \<open>Map\<close> is one
  map behind a lock. \<open>std::tr1::unordered_map\<close> is a list of pairs whose keys differ. An operation is one step.
\<close>

section \<open>The operations\<close>

text \<open>\<open>insert\<close> of the standard map: nothing happens when the key is there.\<close>

definition umap_insert :: "'k \<Rightarrow> 'v \<Rightarrow> ('k \<times> 'v) list \<Rightarrow> ('k \<times> 'v) list" where
  "umap_insert k v m = (if map_of m k = None then (k, v) # m else m)"

record ('k, 'v) map_data =
  main_map :: "('k \<times> 'v) list"
  buf_map :: "('k \<times> 'v) list"
  last_merge :: nat

text \<open>
  \<open>thread_pool\<close> is static: one for all maps of the same types. It leads from threads to their data, which are named by the map and the thread
  they belong to. Times are in milliseconds.
\<close>

record ('k, 'v) thread_maps =
  thread_pool :: "(nat \<times> (nat \<times> nat)) list"
  map_datas :: "nat \<times> nat \<rightharpoonup> ('k, 'v) map_data"

definition maps_start :: "('k, 'v) thread_maps" where
  "maps_start = \<lparr>thread_pool = [], map_datas = Map.empty\<rparr>"

definition merge_interval :: nat where
  "merge_interval = 100"

definition Map_new :: "('k, 'v) thread_maps \<Rightarrow> ('k, 'v) thread_maps" where
  "Map_new s = s\<lparr>thread_pool := []\<rparr>"

definition Map_addThread :: "nat \<Rightarrow> nat \<times> nat \<Rightarrow> ('k, 'v) thread_maps \<Rightarrow> ('k, 'v) thread_maps" where
  "Map_addThread t d s = (if map_of (thread_pool s) t = None then s\<lparr>thread_pool := (t, d) # thread_pool s\<rparr> else s)"

definition Map_removeThread :: "nat \<Rightarrow> ('k, 'v) thread_maps \<Rightarrow> ('k, 'v) thread_maps" where
  "Map_removeThread t s = s\<lparr>thread_pool := filter (\<lambda>x. fst x \<noteq> t) (thread_pool s)\<rparr>"

definition Map_initThreadData :: "nat \<Rightarrow> nat \<Rightarrow> nat \<Rightarrow> ('k, 'v) thread_maps \<Rightarrow> ('k, 'v) thread_maps" where
  "Map_initThreadData b t now s =
     Map_addThread t (b, t) (s\<lparr>map_datas := (map_datas s)((b, t) \<mapsto> \<lparr>main_map = [], buf_map = [], last_merge = now\<rparr>)\<rparr>)"

definition Map_ensure :: "nat \<Rightarrow> nat \<Rightarrow> nat \<Rightarrow> ('k, 'v) thread_maps \<Rightarrow> ('k, 'v) thread_maps" where
  "Map_ensure b t now s = (if map_datas s (b, t) = None then Map_initThreadData b t now s else s)"

definition Map_cleanup :: "nat \<Rightarrow> nat \<Rightarrow> ('k, 'v) thread_maps \<Rightarrow> ('k, 'v) thread_maps" where
  "Map_cleanup b t s = (Map_removeThread t s)\<lparr>map_datas := (map_datas s)((b, t) := None)\<rparr>"

definition Map_mergeMap :: "('k, 'v) map_data \<Rightarrow> ('k, 'v) map_data" where
  "Map_mergeMap d =
     (if buf_map d = [] then d else d\<lparr>main_map := foldl (\<lambda>m (k, v). umap_insert k v m) (main_map d) (buf_map d), buf_map := []\<rparr>)"

fun Map_insert_bufs :: "'k \<Rightarrow> 'v \<Rightarrow> (nat \<times> (nat \<times> nat)) list \<Rightarrow> (nat \<times> nat \<rightharpoonup> ('k, 'v) map_data) \<Rightarrow>
    (nat \<times> nat \<rightharpoonup> ('k, 'v) map_data) result" where
  "Map_insert_bufs k v [] h = Inr h"
| "Map_insert_bufs k v ((t, d) # ds) h = (case h d of None \<Rightarrow> Inl MemFault
     | Some x \<Rightarrow> Map_insert_bufs k v ds (h(d \<mapsto> x\<lparr>buf_map := umap_insert k v (buf_map x)\<rparr>)))"

definition Map_insert :: "nat \<Rightarrow> nat \<Rightarrow> nat \<Rightarrow> 'k \<Rightarrow> 'v \<Rightarrow> ('k, 'v) thread_maps \<Rightarrow> ('k, 'v) thread_maps result" where
  "Map_insert b t now k v s =
     (let s = Map_ensure b t now s in
      rbind (Map_insert_bufs k v (thread_pool s) (map_datas s)) (\<lambda>h. Inr (s\<lparr>map_datas := h\<rparr>)))"

definition Map_at :: "nat \<Rightarrow> nat \<Rightarrow> nat \<Rightarrow> 'k \<Rightarrow> ('k, 'v) thread_maps \<Rightarrow> 'v result \<times> ('k, 'v) thread_maps" where
  "Map_at b t now key s =
     (let s = Map_ensure b t now s; d = the (map_datas s (b, t));
          d = (if now - last_merge d \<ge> merge_interval then Map_mergeMap (d\<lparr>last_merge := now\<rparr>) else d);
          s = s\<lparr>map_datas := (map_datas s)((b, t) \<mapsto> d)\<rparr> in
      (case map_of (main_map d) key of Some v \<Rightarrow> Inr v
       | None \<Rightarrow> (case map_of (buf_map d) key of Some v \<Rightarrow> Inr v | None \<Rightarrow> Inl OutOfRange), s))"

definition Map_clear :: "nat \<Rightarrow> nat \<Rightarrow> nat \<Rightarrow> ('k, 'v) thread_maps \<Rightarrow> ('k, 'v) thread_maps" where
  "Map_clear b t now s =
     (let s = Map_ensure b t now s; d = the (map_datas s (b, t)) in
      s\<lparr>map_datas := (map_datas s)((b, t) \<mapsto> d\<lparr>main_map := [], buf_map := []\<rparr>)\<rparr>)"

text \<open>The general map: \<open>operator[]\<close> of the standard map inserts the default value for a key that is not there.\<close>

definition locked_insert :: "'k \<Rightarrow> 'v \<Rightarrow> ('k \<times> 'v) list \<Rightarrow> ('k \<times> 'v) list" where
  "locked_insert k v m = umap_insert k v m"

definition locked_at :: "'v \<Rightarrow> 'k \<Rightarrow> ('k \<times> 'v) list \<Rightarrow> 'v \<times> ('k \<times> 'v) list" where
  "locked_at dflt k m = (let m = umap_insert k dflt m in (the (map_of m k), m))"

section \<open>One map\<close>

datatype ('k, 'v) map_call = Put nat nat 'k 'v | At nat nat 'k | Clear nat nat | Exit nat

text \<open>The results of the look-ups, for the map number 0.\<close>

fun map_run :: "('k, 'v) map_call list \<Rightarrow> ('k, 'v) thread_maps \<Rightarrow> ('v result list \<times> ('k, 'v) thread_maps) result" where
  "map_run [] s = Inr ([], s)"
| "map_run (Put t now k v # cs) s = rbind (Map_insert 0 t now k v s) (map_run cs)"
| "map_run (At t now k # cs) s = (let (x, s) = Map_at 0 t now k s in rbind (map_run cs s) (\<lambda>(xs, s). Inr (x # xs, s)))"
| "map_run (Clear t now # cs) s = map_run cs (Map_clear 0 t now s)"
| "map_run (Exit t # cs) s = map_run cs (Map_cleanup 0 t s)"

text \<open>
  The specification: a function for every known thread. The first value that is inserted for a key stays; \<open>clear\<close> is for the calling
  thread only.
\<close>

definition know :: "nat \<Rightarrow> (nat \<rightharpoonup> ('k \<rightharpoonup> 'v)) \<Rightarrow> (nat \<rightharpoonup> ('k \<rightharpoonup> 'v))" where
  "know t m = (if m t = None then m(t \<mapsto> Map.empty) else m)"

fun view_run :: "('k, 'v) map_call list \<Rightarrow> (nat \<rightharpoonup> ('k \<rightharpoonup> 'v)) \<Rightarrow> 'v result list" where
  "view_run [] m = []"
| "view_run (Put t now k v # cs) m = view_run cs (\<lambda>u. map_option (\<lambda>f. [k \<mapsto> v] ++ f) (know t m u))"
| "view_run (At t now k # cs) m =
     (let m = know t m in (case the (m t) k of None \<Rightarrow> Inl OutOfRange | Some v \<Rightarrow> Inr v) # view_run cs m)"
| "view_run (Clear t now # cs) m = view_run cs (m(t \<mapsto> Map.empty))"
| "view_run (Exit t # cs) m = view_run cs (m(t := None))"

definition data_view :: "('k, 'v) map_data \<Rightarrow> ('k \<rightharpoonup> 'v)" where
  "data_view d = map_of (buf_map d) ++ map_of (main_map d)"

definition map_rel :: "(nat \<rightharpoonup> ('k \<rightharpoonup> 'v)) \<Rightarrow> ('k, 'v) thread_maps \<Rightarrow> bool" where
  "map_rel m s \<longleftrightarrow> (\<forall>t. map_option data_view (map_datas s (0, t)) = m t) \<and>
     distinct (map fst (thread_pool s)) \<and> set (thread_pool s) = (\<lambda>t. (t, (0, t))) ` dom m"

section \<open>Properties\<close>

lemma map_of_umap_insert: "map_of (umap_insert k v m) = [k \<mapsto> v] ++ map_of m"
  by (auto simp: umap_insert_def map_add_def fun_eq_iff split: option.split)

lemma foldl_umap_insert: "map_of (foldl (\<lambda>m (k, v). umap_insert k v m) m ps) = map_of ps ++ map_of m"
proof (induction ps arbitrary: m)
  case (Cons p ps)
  obtain k v where p: "p = (k, v)" by (cases p)
  show ?case unfolding p foldl.simps prod.case Cons.IH map_of_umap_insert
    by (auto simp: map_add_def fun_eq_iff split: option.split)
qed simp

lemma merge_view: "data_view (Map_mergeMap d) = data_view d"
  by (simp add: data_view_def Map_mergeMap_def foldl_umap_insert)

lemma insert_view: "data_view (d\<lparr>buf_map := umap_insert k v (buf_map d)\<rparr>) = [k \<mapsto> v] ++ data_view d"
  by (simp add: data_view_def map_of_umap_insert)

lemma insert_bufs_view:
  "distinct (map fst ps) \<Longrightarrow> (\<And>p. p \<in> set ps \<Longrightarrow> p = (fst p, (0, fst p)) \<and> h (0, fst p) \<noteq> None) \<Longrightarrow>
   \<exists>h'. Map_insert_bufs k v ps h = Inr h' \<and>
     (\<forall>t. map_option data_view (h' (0, t)) =
        map_option (\<lambda>x. if t \<in> fst ` set ps then [k \<mapsto> v] ++ data_view x else data_view x) (h (0, t)))"
proof (induction ps arbitrary: h)
  case (Cons p ps)
  then obtain t x where p: "p = (t, (0, t))" and x: "h (0, t) = Some x" by (cases p) fastforce
  have tn: "t \<notin> fst ` set ps" using Cons.prems(1) p by auto
  let ?h = "h((0, t) \<mapsto> x\<lparr>buf_map := umap_insert k v (buf_map x)\<rparr>)"
  have "\<exists>h'. Map_insert_bufs k v ps ?h = Inr h' \<and> (\<forall>u. map_option data_view (h' (0, u)) =
      map_option (\<lambda>x. if u \<in> fst ` set ps then [k \<mapsto> v] ++ data_view x else data_view x) (?h (0, u)))"
    by (rule Cons.IH) (use Cons.prems in auto)
  then obtain h' where h': "Map_insert_bufs k v ps ?h = Inr h'" "\<And>u. map_option data_view (h' (0, u)) =
      map_option (\<lambda>x. if u \<in> fst ` set ps then [k \<mapsto> v] ++ data_view x else data_view x) (?h (0, u))" by blast
  have "map_option data_view (h' (0, u)) =
      map_option (\<lambda>x. if u \<in> fst ` set (p # ps) then [k \<mapsto> v] ++ data_view x else data_view x) (h (0, u))" for u
    using h'(2) [of u] x p tn insert_view [where d = x and k = k and v = v] by (cases "u = t") simp_all
  with h'(1) x p show ?case by simp
qed simp

lemma rel_know:
  assumes "map_rel m s"
  shows "map_rel (know t m) (Map_ensure 0 t now s)" "map_option data_view (map_datas (Map_ensure 0 t now s) (0, t)) = know t m t"
    "know t m t \<noteq> None"
proof -
  have n: "map_datas s (0, t) = None \<longleftrightarrow> m t = None" using assms unfolding map_rel_def by (metis option.map_disc_iff)
  have "map_of (thread_pool s) t = None" if "m t = None" using that assms by (auto simp: map_rel_def map_of_eq_None_iff)
  with assms n show R: "map_rel (know t m) (Map_ensure 0 t now s)"
    by (auto simp: map_rel_def know_def Map_ensure_def Map_initThreadData_def Map_addThread_def data_view_def)
  then show "map_option data_view (map_datas (Map_ensure 0 t now s) (0, t)) = know t m t" by (simp add: map_rel_def)
qed (simp add: know_def)

text \<open>Replacing the data of a known thread.\<close>

lemma rel_update:
  assumes "map_rel m s" "m t \<noteq> None"
  shows "map_rel (m(t \<mapsto> data_view d)) (s\<lparr>map_datas := (map_datas s)((0, t) \<mapsto> d)\<rparr>)"
  using assms by (auto simp: map_rel_def insert_absorb domIff)

lemma rel_put:
  assumes "map_rel m s"
  shows "\<exists>s'. Map_insert 0 t now k v s = Inr s' \<and> map_rel (\<lambda>u. map_option (\<lambda>f. [k \<mapsto> v] ++ f) (know t m u)) s'"
proof -
  let ?s = "Map_ensure 0 t now s" and ?m = "know t m"
  have R: "map_rel ?m ?s" by (rule rel_know(1) [OF assms])
  have at: "map_option data_view (map_datas ?s (0, u)) = ?m u" for u using R by (simp add: map_rel_def)
  have pool: "fst ` set (thread_pool ?s) = dom ?m" using R by (auto simp: map_rel_def image_image)
  have "\<exists>h. Map_insert_bufs k v (thread_pool ?s) (map_datas ?s) = Inr h \<and>
     (\<forall>u. map_option data_view (h (0, u)) =
        map_option (\<lambda>x. if u \<in> fst ` set (thread_pool ?s) then [k \<mapsto> v] ++ data_view x else data_view x) (map_datas ?s (0, u)))"
  proof (rule insert_bufs_view)
    show "distinct (map fst (thread_pool ?s))" using R by (simp add: map_rel_def)
    show "p = (fst p, (0, fst p)) \<and> map_datas ?s (0, fst p) \<noteq> None" if "p \<in> set (thread_pool ?s)" for p
      using that R at [of "fst p"] by (cases "map_datas ?s (0, fst p)") (auto simp: map_rel_def)
  qed
  then obtain h where h: "Map_insert_bufs k v (thread_pool ?s) (map_datas ?s) = Inr h"
    "\<And>u. map_option data_view (h (0, u)) =
      map_option (\<lambda>x. if u \<in> fst ` set (thread_pool ?s) then [k \<mapsto> v] ++ data_view x else data_view x) (map_datas ?s (0, u))" by blast
  have "map_option data_view (h (0, u)) = map_option (\<lambda>f. [k \<mapsto> v] ++ f) (?m u)" for u
  proof (cases "map_datas ?s (0, u)")
    case (Some x)
    with at [of u] have "?m u = Some (data_view x)" by simp
    with Some h(2) [of u] show ?thesis unfolding pool by auto
  qed (use at [of u] h(2) [of u] in simp)
  moreover have "dom (\<lambda>u. map_option (\<lambda>f. [k \<mapsto> v] ++ f) (?m u)) = dom ?m" by auto
  ultimately have "map_rel (\<lambda>u. map_option (\<lambda>f. [k \<mapsto> v] ++ f) (?m u)) (?s\<lparr>map_datas := h\<rparr>)" using R by (simp add: map_rel_def)
  with h(1) show ?thesis by (auto simp: Map_insert_def)
qed

lemma rel_at:
  assumes "map_rel m s"
  shows "\<exists>s'. Map_at 0 t now k s = (case the (know t m t) k of None \<Rightarrow> Inl OutOfRange | Some v \<Rightarrow> Inr v, s') \<and> map_rel (know t m) s'"
proof -
  let ?s = "Map_ensure 0 t now s"
  note R = rel_know(1,2) [OF assms, of t now] rel_know(3) [OF assms, of t]
  obtain d where d: "map_datas ?s (0, t) = Some d" "know t m t = Some (data_view d)" using R(2,3) by (cases "map_datas ?s (0, t)") auto
  let ?d = "if now - last_merge d \<ge> merge_interval then Map_mergeMap (d\<lparr>last_merge := now\<rparr>) else d"
  have v: "data_view ?d = data_view d" using merge_view [of "d\<lparr>last_merge := now\<rparr>"] by (simp add: data_view_def)
  have "map_rel (know t m) (?s\<lparr>map_datas := (map_datas ?s)((0, t) \<mapsto> ?d)\<rparr>)"
    using rel_update [OF R(1,3), of ?d] v d(2) by (simp add: fun_upd_idem)
  moreover have look: "(case map_of (main_map e) k of Some v \<Rightarrow> Inr v
      | None \<Rightarrow> (case map_of (buf_map e) k of Some v \<Rightarrow> Inr v | None \<Rightarrow> Inl OutOfRange)) =
      (case data_view e k of None \<Rightarrow> Inl OutOfRange | Some v \<Rightarrow> Inr v)" for e
    by (simp add: data_view_def map_add_def split: option.split)
  moreover have "Map_at 0 t now k s = (case data_view ?d k of None \<Rightarrow> Inl OutOfRange | Some v \<Rightarrow> Inr v,
      ?s\<lparr>map_datas := (map_datas ?s)((0, t) \<mapsto> ?d)\<rparr>)"
    unfolding Map_at_def Let_def d(1) option.sel look ..
  ultimately show ?thesis unfolding v d(2) option.sel by blast
qed

lemma rel_clear: "map_rel m s \<Longrightarrow> map_rel (m(t \<mapsto> Map.empty)) (Map_clear 0 t now s)"
proof -
  assume "map_rel m s"
  note R = rel_know(1,2) [OF this, of t now] rel_know(3) [OF this, of t]
  have "(know t m)(t \<mapsto> Map.empty) = m(t \<mapsto> Map.empty)" by (simp add: know_def)
  with rel_update [OF R(1,3), of "(the (map_datas (Map_ensure 0 t now s) (0, t)))\<lparr>main_map := [], buf_map := []\<rparr>"]
  show ?thesis by (simp add: Map_clear_def Let_def data_view_def)
qed

lemma map_rel_exit: "map_rel m s \<Longrightarrow> map_rel (m(t := None)) (Map_cleanup 0 t s)"
  unfolding map_rel_def by (auto simp: Map_cleanup_def Map_removeThread_def distinct_map_filter)

lemma run_view: "map_rel m s \<Longrightarrow> \<exists>s'. map_run cs s = Inr (view_run cs m, s')"
proof (induction cs arbitrary: m s)
  case (Cons c cs)
  show ?case
  proof (cases c)
    case (Put t now k v)
    then show ?thesis using rel_put [OF Cons.prems, of t now k v] Cons.IH by auto
  next
    case (At t now k)
    obtain s' where s': "Map_at 0 t now k s = (case the (know t m t) k of None \<Rightarrow> Inl OutOfRange | Some v \<Rightarrow> Inr v, s')" "map_rel (know t m) s'"
      using rel_at [OF Cons.prems] by blast
    from Cons.IH [OF s'(2)] s'(1) At show ?thesis by (auto simp: Let_def)
  next
    case (Clear t now)
    then show ?thesis using Cons.IH [OF rel_clear [OF Cons.prems, of t now]] by (simp only: map_run.simps view_run.simps)
  next
    case (Exit t)
    then show ?thesis using Cons.IH [OF map_rel_exit [OF Cons.prems, of t]] by (simp only: map_run.simps view_run.simps)
  qed
qed simp

text \<open>
  For a single map of the kind \<open>ReadOverWrite\<close>, whatever the threads do and whenever the buffers are merged, no access faults, and
  a look-up returns the first value that was inserted for the key since the thread first used the map or cleared it, or throws
  \<open>out_of_range\<close>.
\<close>

theorem thread_map_lookups: "\<exists>s. map_run cs (Map_new maps_start) = Inr (view_run cs Map.empty, s)"
  by (rule run_view) (simp add: map_rel_def Map_new_def maps_start_def)

text \<open>\<open>clear\<close> leaves the maps of the other threads as they are.\<close>

lemma clear_is_local:
  "\<exists>s. map_run [Put 1 0 (3::nat) (7::nat), At 2 0 3, Put 1 0 4 8, Clear 1 0, At 1 0 4, At 2 0 4] (Map_new maps_start) =
     Inr ([Inl OutOfRange, Inl OutOfRange, Inr 8], s)"
  using thread_map_lookups [of "[Put 1 0 (3::nat) (7::nat), At 2 0 3, Put 1 0 4 8, Clear 1 0, At 1 0 4, At 2 0 4]"]
  by (simp add: know_def Let_def)

end
