(* ===== verification/Inverted_Array.thy ===== *)
theory Inverted_Array
  imports Prelude
begin

text \<open>
  The array of \<open>include/core/InvertedArray.h\<close>, whose items know their position: pushing, erasing by moving the last item into the gap, and
  swapping. Items are numbers, \<open>None\<close> is the null pointer; positions are kept in an \<open>int\<close>.
\<close>

section \<open>The operations\<close>

record inverted_array =
  mArrayItems :: "nat option list"
  mInvertedArrayIndex :: "nat \<Rightarrow> u32"

definition InvertedArray_new :: inverted_array where
  "InvertedArray_new = \<lparr>mArrayItems = [], mInvertedArrayIndex = (\<lambda>_. - 1)\<rparr>"

text \<open>\<open>setIndex\<close> of an item that may be null.\<close>

definition setIndex :: "nat option \<Rightarrow> nat \<Rightarrow> inverted_array \<Rightarrow> inverted_array" where
  "setIndex item i a = (case item of None \<Rightarrow> a
     | Some x \<Rightarrow> a\<lparr>mInvertedArrayIndex := (mInvertedArrayIndex a)(x := of_nat i)\<rparr>)"

definition pushBack :: "nat option \<Rightarrow> inverted_array \<Rightarrow> inverted_array" where
  "pushBack item a = (let a = setIndex item (length (mArrayItems a)) a in a\<lparr>mArrayItems := mArrayItems a @ [item]\<rparr>)"

definition erase_at :: "nat \<Rightarrow> inverted_array \<Rightarrow> inverted_array result" where
  "erase_at i a = (if i < length (mArrayItems a) then
       let b = last (mArrayItems a); a = setIndex b i a in Inr (a\<lparr>mArrayItems := butlast ((mArrayItems a)[i := b])\<rparr>)
     else Inl MemFault)"

definition array_swap :: "nat \<Rightarrow> nat \<Rightarrow> inverted_array \<Rightarrow> inverted_array result" where
  "array_swap i j a = (if i < length (mArrayItems a) \<and> j < length (mArrayItems a) then
       let x = mArrayItems a ! i; y = mArrayItems a ! j; a = setIndex y i (setIndex x j a)
       in Inr (a\<lparr>mArrayItems := (mArrayItems a)[i := y, j := x]\<rparr>)
     else Inl MemFault)"

definition array_clear :: "inverted_array \<Rightarrow> inverted_array" where
  "array_clear a = a\<lparr>mArrayItems := []\<rparr>"

definition array_index :: "nat \<Rightarrow> inverted_array \<Rightarrow> nat" where
  "array_index x a = unat (scast (mInvertedArrayIndex a x) :: u64)"

section \<open>Properties\<close>

text \<open>The arrays that clients make: an item is in the array at most once, and there are less than \<open>2 ^ 31\<close> of them.\<close>

inductive reach_array :: "inverted_array \<Rightarrow> bool" where
  start: "reach_array InvertedArray_new"
| push: "reach_array a \<Longrightarrow> item = None \<or> item \<notin> set (mArrayItems a) \<Longrightarrow> length (mArrayItems a) + 1 < 2 ^ 31 \<Longrightarrow> reach_array (pushBack item a)"
| erase: "reach_array a \<Longrightarrow> erase_at i a = Inr b \<Longrightarrow> reach_array b"
| swap: "reach_array a \<Longrightarrow> array_swap i j a = Inr b \<Longrightarrow> reach_array b"
| clear: "reach_array a \<Longrightarrow> reach_array (array_clear a)"

definition array_inv :: "inverted_array \<Rightarrow> bool" where
  "array_inv a \<longleftrightarrow> length (mArrayItems a) < 2 ^ 31 \<and>
     (\<forall>i<length (mArrayItems a). \<forall>x. mArrayItems a ! i = Some x \<longrightarrow> mInvertedArrayIndex a x = of_nat i)"

lemma of_nat_inj: "of_nat i = (of_nat j :: u32) \<Longrightarrow> i < 2 ^ 31 \<Longrightarrow> j < 2 ^ 31 \<Longrightarrow> i = j"
  by (drule arg_cong [where f = unat]) (simp add: unat_of_nat)

text \<open>An item is at one position only, because it has one index.\<close>

lemma array_invD:
  assumes "array_inv a"
  shows "i < length (mArrayItems a) \<Longrightarrow> mArrayItems a ! i = Some x \<Longrightarrow> mInvertedArrayIndex a x = of_nat i"
    "i < length (mArrayItems a) \<Longrightarrow> j < length (mArrayItems a) \<Longrightarrow> mArrayItems a ! i = Some x \<Longrightarrow> mArrayItems a ! j = Some x \<Longrightarrow> i = j"
proof -
  assume ij: "i < length (mArrayItems a)" "j < length (mArrayItems a)" "mArrayItems a ! i = Some x" "mArrayItems a ! j = Some x"
  with assms have "mInvertedArrayIndex a x = of_nat i" "mInvertedArrayIndex a x = of_nat j" "i < 2 ^ 31" "j < 2 ^ 31"
    unfolding array_inv_def by (blast, blast, linarith+)
  then show "i = j" using of_nat_inj [of i j] by simp
qed (use assms in \<open>simp add: array_inv_def\<close>)

lemma setIndex_simps [simp]:
  "mArrayItems (setIndex item i a) = mArrayItems a"
  "mInvertedArrayIndex (setIndex item i a) x = (if item = Some x then of_nat i else mInvertedArrayIndex a x)"
  by (auto simp: setIndex_def split: option.split)

lemma push_inv:
  assumes "array_inv a" "item = None \<or> item \<notin> set (mArrayItems a)" "length (mArrayItems a) + 1 < 2 ^ 31"
  shows "array_inv (pushBack item a)"
  using assms by (auto simp: array_inv_def pushBack_def Let_def nth_append less_Suc_eq in_set_conv_nth)

lemma erase_inv:
  assumes inv: "array_inv a" and e: "erase_at i a = Inr b"
  shows "array_inv b"
proof -
  let ?xs = "mArrayItems a"
  have i: "i < length ?xs" and b: "mArrayItems b = butlast (?xs[i := last ?xs])"
    "\<And>x. mInvertedArrayIndex b x = (if last ?xs = Some x then of_nat i else mInvertedArrayIndex a x)"
    using e by (auto simp: erase_at_def Let_def split: if_splits)
  have "mInvertedArrayIndex b x = of_nat j" if j: "j < length ?xs - 1" and x: "(?xs[i := last ?xs]) ! j = Some x" for j x
  proof (cases "j = i")
    case False
    then have "?xs ! j = Some x" using x by simp
    moreover from this have "last ?xs \<noteq> Some x"
      using array_invD(2) [OF inv, of j "length ?xs - 1" x] j last_conv_nth [of ?xs] by (cases "?xs = []") auto
    ultimately show ?thesis using array_invD(1) [OF inv, of j x] j b(2) by simp
  qed (use x i b(2) in simp)
  then show ?thesis using inv b(1) by (auto simp: array_inv_def nth_butlast)
qed

lemma swap_inv:
  assumes inv: "array_inv a" and e: "array_swap i j a = Inr b"
  shows "array_inv b"
proof -
  let ?xs = "mArrayItems a"
  have ij: "i < length ?xs" "j < length ?xs" and b: "mArrayItems b = ?xs[i := ?xs ! j, j := ?xs ! i]"
    "\<And>x. mInvertedArrayIndex b x = (if ?xs ! j = Some x then of_nat i else if ?xs ! i = Some x then of_nat j else mInvertedArrayIndex a x)"
    using e by (auto simp: array_swap_def Let_def split: if_splits)
  have "mInvertedArrayIndex b x = of_nat k" if k: "k < length ?xs" and x: "?xs[i := ?xs ! j, j := ?xs ! i] ! k = Some x" for k x
  proof -
    consider "k = j" | "k = i" "k \<noteq> j" | "k \<noteq> i" "k \<noteq> j" by blast
    then show ?thesis
    proof cases
      case 1
      then have "?xs ! i = Some x" using x ij by simp
      with 1 b(2) array_invD(2) [OF inv ij, of x] show ?thesis by auto
    next
      case 3
      then have "?xs ! k = Some x" using x by simp
      with 3 b(2) array_invD(2) [OF inv k ij(1), of x] array_invD(2) [OF inv k ij(2), of x] k
      show ?thesis by (auto simp: array_invD(1) [OF inv])
    qed (use x ij b(2) in simp)
  qed
  then show ?thesis using inv b(1) by (simp add: array_inv_def)
qed

lemma reach_array_inv: "reach_array a \<Longrightarrow> array_inv a"
proof (induction rule: reach_array.induct)
  case start
  show ?case by (simp add: array_inv_def InvertedArray_new_def)
next
  case (clear a)
  show ?case by (simp add: array_inv_def array_clear_def)
qed (auto intro: push_inv erase_inv swap_inv)

text \<open>
  Whatever was pushed, erased, swapped and cleared, the position that an item knows is the one where the array has it, and every item
  is there once.
\<close>

theorem inverted_array_index:
  assumes "reach_array a" "i < length (mArrayItems a)" "mArrayItems a ! i = Some x"
  shows "array_index x a = i" "j < length (mArrayItems a) \<Longrightarrow> mArrayItems a ! j = Some x \<Longrightarrow> j = i"
proof -
  note inv = reach_array_inv [OF assms(1)]
  have l: "i < 2 ^ 31" using inv assms(2) by (simp add: array_inv_def)
  have "array_index x a = unat (scast (of_nat i :: u32) :: u64)" using array_invD(1) [OF inv assms(2,3)] by (simp add: array_index_def)
  also have "\<dots> = i"
  proof -
    have "sint (of_nat i :: u32) = int i" using l by (simp add: signed_of_nat signed_take_bit_int_eq_self_iff)
    then have "(scast (of_nat i :: u32) :: u64) = of_nat i" by (simp add: scast_eq)
    with l show ?thesis by (simp add: unat_of_nat)
  qed
  finally show "array_index x a = i" .
  show "j < length (mArrayItems a) \<Longrightarrow> mArrayItems a ! j = Some x \<Longrightarrow> j = i" using array_invD(2) [OF inv] assms(2,3) by blast
qed

end
