(* ===== verification/Join_Tree.thy ===== *)
theory Join_Tree
  imports Prelude
begin

text \<open>
  The tree of join nodes of \<open>include/threading/JoinFunctionModule.h\<close>: a function that runs when all of its inputs have a
  message. The nodes belong to the flow graph of the threading library; the constructor decides how many there are and which edges connect
  them, and this is what is modelled. Of the library the model uses that a join node passes on a tuple when each of its two ports has a
  message, and that a function node passes on the result for each message it receives.
\<close>

section \<open>The construction\<close>

text \<open>Node of the graph: input port \<open>i\<close>, join and fold node \<open>i\<close> of level \<open>l\<close>, and the function itself.\<close>

datatype node = Input nat | JoinNode nat nat | FoldNode nat nat | Func

text \<open>An edge to a port; function nodes have the one port 0.\<close>

type_synonym join_edge = "node \<times> node \<times> nat"

definition MAX_IN_PORT :: nat where
  "MAX_IN_PORT = 2"

text \<open>\<open>Join\<close> and \<open>JoinLevel\<close>: the sizes of the joins of a level for \<open>n\<close> inputs, and the edges inside them.\<close>

definition JoinLevel :: "nat \<Rightarrow> nat list" where
  "JoinLevel n = replicate (n div MAX_IN_PORT) MAX_IN_PORT @ (if n mod MAX_IN_PORT \<noteq> 0 then [n mod MAX_IN_PORT] else [])"

definition join_edges :: "nat \<Rightarrow> nat list \<Rightarrow> join_edge list" where
  "join_edges l joins = map (\<lambda>i. (JoinNode l i, FoldNode l i, 0)) [0..<length joins]"

text \<open>The loop of \<open>createJoinLevels\<close>, which is called for at least one input: the size and the joins of every level.\<close>

function createJoinLevels :: "nat \<Rightarrow> (nat \<times> nat list) list" where
  "createJoinLevels n = (n, JoinLevel n) # (let n' = (n - 1) div 2 + 1 in if n' > 1 then createJoinLevels n' else [])"
  by pat_completeness auto
termination by (relation "measure id") auto

declare createJoinLevels.simps [simp del]

text \<open>
  The edges from \<open>n\<close> nodes to the joins of a level: node \<open>i\<close> to port \<open>i mod 2\<close> of join \<open>i div 2\<close>, and the last of an odd number to both
  ports of its join.
\<close>

definition attach :: "(nat \<Rightarrow> node) \<Rightarrow> nat \<Rightarrow> nat \<Rightarrow> nat list \<Rightarrow> join_edge list result" where
  "attach a n l joins =
     (if list_all (\<lambda>i. i div MAX_IN_PORT < length joins) [0..<n]
      then Inr (map (\<lambda>i. (a i, JoinNode l (i div MAX_IN_PORT), i mod MAX_IN_PORT)) [0..<n] @
             (if n mod MAX_IN_PORT \<noteq> 0 then [(a (n - 1), JoinNode l ((n - 1) div MAX_IN_PORT), 1)] else []))
      else Inl MemFault)"

definition linkTwoJoinLevels :: "nat \<Rightarrow> nat \<times> nat list \<Rightarrow> nat \<times> nat list \<Rightarrow> join_edge list result" where
  "linkTwoJoinLevels l inl nextl =
     rbind (assert_that (length (snd inl) = fst nextl)) (\<lambda>_. attach (FoldNode l) (length (snd inl)) (l + 1) (snd nextl))"

fun linkJoinLevels :: "nat \<Rightarrow> (nat \<times> nat list) list \<Rightarrow> join_edge list result" where
  "linkJoinLevels l [] = Inl MemFault"
| "linkJoinLevels l [lv] = (if snd lv = [] then Inl MemFault else Inr [(FoldNode l 0, Func, 0)])"
| "linkJoinLevels l (lv # lv' # lvs) =
     rbind (linkTwoJoinLevels l lv lv') (\<lambda>es. rbind (linkJoinLevels (l + 1) (lv' # lvs)) (\<lambda>fs. Inr (es @ fs)))"

fun all_join_edges :: "nat \<Rightarrow> (nat \<times> nat list) list \<Rightarrow> join_edge list" where
  "all_join_edges l [] = []"
| "all_join_edges l (lv # lvs) = join_edges l (snd lv) @ all_join_edges (l + 1) lvs"

definition JoinFunctionModule :: "nat \<Rightarrow> join_edge list result" where
  "JoinFunctionModule numInputPort =
     rbind (assert_that (numInputPort > 0)) (\<lambda>_.
     let levels = createJoinLevels numInputPort in
     rbind (linkJoinLevels 0 levels) (\<lambda>es.
     rbind (attach Input numInputPort 0 (snd (hd levels))) (\<lambda>fs.
       Inr (all_join_edges 0 levels @ es @ fs))))"

text \<open>Handing out the input ports: the port and the next value of \<open>connectingInputPort\<close>.\<close>

definition getNextInputPort :: "nat \<Rightarrow> nat \<Rightarrow> (node \<times> nat) result" where
  "getNextInputPort n connectingInputPort =
     (if connectingInputPort < n then Inr (Input connectingInputPort, connectingInputPort + 1) else Inl MemFault)"

definition verifyInput :: "nat \<Rightarrow> nat \<Rightarrow> bool" where
  "verifyInput n connectingInputPort \<longleftrightarrow> connectingInputPort = n"

section \<open>Messages\<close>

text \<open>The nodes that pass on a message when the input ports in \<open>I\<close> have received one.\<close>

inductive fires :: "join_edge set \<Rightarrow> nat set \<Rightarrow> node \<Rightarrow> bool" for E I where
  input: "i \<in> I \<Longrightarrow> fires E I (Input i)"
| fold: "(a, FoldNode l i, 0) \<in> E \<Longrightarrow> fires E I a \<Longrightarrow> fires E I (FoldNode l i)"
| func: "(a, Func, 0) \<in> E \<Longrightarrow> fires E I a \<Longrightarrow> fires E I Func"
| join: "(a, JoinNode l i, 0) \<in> E \<Longrightarrow> fires E I a \<Longrightarrow> (b, JoinNode l i, 1) \<in> E \<Longrightarrow> fires E I b \<Longrightarrow> fires E I (JoinNode l i)"

inductive_simps fires_simps: "fires E I (Input i)" "fires E I (FoldNode l i)" "fires E I Func" "fires E I (JoinNode l i)"

section \<open>The shape of the tree\<close>

primrec level_size :: "nat \<Rightarrow> nat \<Rightarrow> nat" where
  "level_size n 0 = n"
| "level_size n (Suc l) = Suc (level_size n l) div 2"

lemma level_size_shift: "level_size (Suc n div 2) l = level_size n (Suc l)"
  by (induction l) simp_all

lemma length_JoinLevel: "length (JoinLevel n) = Suc n div 2"
  by (simp add: JoinLevel_def MAX_IN_PORT_def) presburger

lemma level_size_pos: "0 < n \<Longrightarrow> 0 < level_size n l"
  by (induction l) auto

lemma level_covers: "k < n \<Longrightarrow> k div 2 ^ l < level_size n l"
proof (induction l)
  case (Suc l)
  then have "(k div 2 ^ l) div 2 < Suc (level_size n l) div 2" by linarith
  then show ?case by (simp only: level_size.simps power_Suc2 div_mult2_eq)
qed simp

lemma createJoinLevels_eq:
  "0 < n \<Longrightarrow> \<exists>L. 0 < L \<and> createJoinLevels n = map (\<lambda>l. (level_size n l, JoinLevel (level_size n l))) [0..<L] \<and> level_size n L = 1"
proof (induction n rule: createJoinLevels.induct)
  case (1 n)
  have n': "(n - 1) div 2 + 1 = Suc n div 2" using 1(2) by linarith
  show ?case
  proof (cases "Suc n div 2 > 1")
    case True
    then obtain L where L: "createJoinLevels (Suc n div 2) = map (\<lambda>l. (level_size (Suc n div 2) l, JoinLevel (level_size (Suc n div 2) l))) [0..<L]"
      "level_size (Suc n div 2) L = 1" using 1(1) [OF refl] n' by auto
    have "map f [0..<Suc L] = f 0 # map (\<lambda>l. f (Suc l)) [0..<L]" for f :: "nat \<Rightarrow> nat \<times> nat list"
      by (simp add: upt_conv_Cons map_Suc_upt [symmetric] del: upt_Suc)
    with L True n' show ?thesis
      by (intro exI [of _ "Suc L"]) (simp add: createJoinLevels.simps [of n] level_size_shift Let_def del: upt_Suc)
  next
    case False
    with 1(2) n' have "createJoinLevels n = [(n, JoinLevel n)]" "Suc n div 2 = 1" by (auto simp: createJoinLevels.simps [of n])
    then show ?thesis by (intro exI [of _ 1]) simp
  qed
qed


section \<open>The edges\<close>

definition attached :: "(nat \<Rightarrow> node) \<Rightarrow> nat \<Rightarrow> nat \<Rightarrow> join_edge set" where
  "attached a n l = (\<lambda>i. (a i, JoinNode l (i div 2), i mod 2)) ` {..<n} \<union> (if odd n then {(a (n - 1), JoinNode l ((n - 1) div 2), 1)} else {})"

lemma attach_eq: "\<exists>es. attach a n l (JoinLevel n) = Inr es \<and> set es = attached a n l"
proof -
  have "list_all (\<lambda>i. i div MAX_IN_PORT < length (JoinLevel n)) [0..<n]"
    by (auto simp: list_all_iff length_JoinLevel MAX_IN_PORT_def)
  then show ?thesis by (auto simp: attach_def attached_def MAX_IN_PORT_def odd_iff_mod_2_eq_one lessThan_atLeast0)
qed

lemma attached_port:
  "(x, JoinNode k i, 0) \<in> attached a n l \<longleftrightarrow> k = l \<and> 2 * i < n \<and> x = a (2 * i)"
  "(x, JoinNode k i, Suc 0) \<in> attached a n l \<longleftrightarrow> k = l \<and> 2 * i < n \<and> x = (if Suc (2 * i) < n then a (Suc (2 * i)) else a (2 * i))"
proof -
  have div: "j div 2 = i \<and> j mod 2 = p \<longleftrightarrow> j = 2 * i + p" if "p < 2" for j p :: nat using that by auto
  have img: "(x, JoinNode k i, p) \<in> (\<lambda>i. (a i, JoinNode l (i div 2), i mod 2)) ` {..<n} \<longleftrightarrow> k = l \<and> 2 * i + p < n \<and> x = a (2 * i + p)"
    if "p < 2" for p
  proof -
    have "(x, JoinNode k i, p) \<in> (\<lambda>i. (a i, JoinNode l (i div 2), i mod 2)) ` {..<n} \<longleftrightarrow>
        (\<exists>j<n. x = a j \<and> k = l \<and> (j div 2 = i \<and> j mod 2 = p))" by auto
    then show ?thesis unfolding div [OF that] by auto
  qed
  show "(x, JoinNode k i, 0) \<in> attached a n l \<longleftrightarrow> k = l \<and> 2 * i < n \<and> x = a (2 * i)"
    unfolding attached_def Un_iff img [OF zero_less_numeral] by simp
  have o: "odd n \<and> i = (n - 1) div 2 \<longleftrightarrow> 2 * i < n \<and> \<not> 2 * i + 1 < n" by presburger
  have n1: "n - 1 = 2 * i" if "2 * i < n \<and> \<not> 2 * i + 1 < n" using that by linarith
  have "(x, JoinNode k i, Suc 0) \<in> (if odd n then {(a (n - 1), JoinNode l ((n - 1) div 2), 1)} else {}) \<longleftrightarrow>
      x = a (n - 1) \<and> k = l \<and> (odd n \<and> i = (n - 1) div 2)" by auto
  also have "\<dots> \<longleftrightarrow> k = l \<and> (2 * i < n \<and> \<not> 2 * i + 1 < n) \<and> x = a (2 * i)" unfolding o using n1 by auto
  finally have e: "(x, JoinNode k i, Suc 0) \<in> (if odd n then {(a (n - 1), JoinNode l ((n - 1) div 2), 1)} else {}) \<longleftrightarrow>
      k = l \<and> (2 * i < n \<and> \<not> 2 * i + 1 < n) \<and> x = a (2 * i)" .
  have "Suc 0 < 2" by simp
  then show "(x, JoinNode k i, Suc 0) \<in> attached a n l \<longleftrightarrow> k = l \<and> 2 * i < n \<and> x = (if Suc (2 * i) < n then a (Suc (2 * i)) else a (2 * i))"
    unfolding attached_def Un_iff e img [OF \<open>Suc 0 < 2\<close>] by auto
qed

lemma attached_other: "(x, FoldNode k i, p) \<notin> attached a n l" "(x, Func, p) \<notin> attached a n l" "(x, Input k, p) \<notin> attached a n l"
  by (auto simp: attached_def split: if_splits)

text \<open>The nodes that feed level \<open>l\<close>.\<close>

fun feeder :: "nat \<Rightarrow> nat \<Rightarrow> node" where
  "feeder 0 = Input"
| "feeder (Suc l) = FoldNode l"

lemma linkJoinLevels_eq:
  assumes "0 < n" "l < L" "level_size n L = 1"
  shows "\<exists>es. linkJoinLevels l (map (\<lambda>l. (level_size n l, JoinLevel (level_size n l))) [l..<L]) = Inr es \<and>
    set es = (\<Union>k\<in>{Suc l..<L}. attached (feeder k) (level_size n k) k) \<union> {(FoldNode (L - 1) 0, Func, 0)}"
  using assms(2)
proof (induction "L - l" arbitrary: l)
  case (Suc d)
  let ?f = "\<lambda>l. (level_size n l, JoinLevel (level_size n l))"
  show ?case
  proof (cases "Suc l = L")
    case True
    have "JoinLevel (level_size n l) \<noteq> []" using assms(3) True length_JoinLevel [of "level_size n l"] by auto
    moreover have "[l..<L] = [l]" using True by auto
    ultimately show ?thesis using True by auto
  next
    case False
    then have l: "Suc l < L" using Suc.prems by simp
    have d: "d = L - Suc l" using Suc.hyps(2) by simp
    obtain es where es: "linkJoinLevels (Suc l) (map ?f [Suc l..<L]) = Inr es"
      "set es = (\<Union>k\<in>{Suc (Suc l)..<L}. attached (feeder k) (level_size n k) k) \<union> {(FoldNode (L - 1) 0, Func, 0)}"
      using Suc.hyps(1) [OF d l] by blast
    obtain fs where fs: "attach (FoldNode l) (level_size n (Suc l)) (Suc l) (JoinLevel (level_size n (Suc l))) = Inr fs"
      "set fs = attached (FoldNode l) (level_size n (Suc l)) (Suc l)" using attach_eq by blast
    have u: "map ?f [l..<L] = ?f l # ?f (Suc l) # map ?f [Suc (Suc l)..<L]" "map ?f [Suc l..<L] = ?f (Suc l) # map ?f [Suc (Suc l)..<L]"
      using l by (simp_all add: upt_conv_Cons)
    have "linkTwoJoinLevels l (?f l) (?f (Suc l)) = Inr fs"
      using fs(1) by (simp add: linkTwoJoinLevels_def length_JoinLevel)
    then have "linkJoinLevels l (map ?f [l..<L]) = Inr (fs @ es)" using es(1) unfolding u by simp
    moreover have "{Suc l..<L} = insert (Suc l) {Suc (Suc l)..<L}" using l by auto
    ultimately show ?thesis using fs(2) es(2) by auto
  qed
qed simp

lemma set_all_join_edges:
  "set (all_join_edges l (map (\<lambda>l. (level_size n l, JoinLevel (level_size n l))) [l..<L])) =
    {(JoinNode k i, FoldNode k i, 0) | k i. l \<le> k \<and> k < L \<and> i < level_size n (Suc k)}"
proof (induction "L - l" arbitrary: l)
  case (Suc d)
  then have "l < L" by simp
  then have "[l..<L] = l # [Suc l..<L]" by (simp add: upt_conv_Cons)
  moreover have "set (all_join_edges (Suc l) (map (\<lambda>l. (level_size n l, JoinLevel (level_size n l))) [Suc l..<L])) =
    {(JoinNode k i, FoldNode k i, 0) | k i. Suc l \<le> k \<and> k < L \<and> i < level_size n (Suc k)}" using Suc by simp
  ultimately show ?case using \<open>l < L\<close> by (auto simp: join_edges_def length_JoinLevel le_eq_less_or_eq Suc_le_eq)
qed auto

text \<open>The edges of the module, by the node they lead to.\<close>

lemma module_edges:
  assumes "0 < n"
  obtains E L where "JoinFunctionModule n = Inr E" "0 < L" "level_size n L = 1"
    "\<And>x k i p. (x, FoldNode k i, p) \<in> set E \<longleftrightarrow> k < L \<and> i < level_size n (Suc k) \<and> x = JoinNode k i \<and> p = 0"
    "\<And>x p. (x, Func, p) \<in> set E \<longleftrightarrow> x = FoldNode (L - 1) 0 \<and> p = 0"
    "\<And>x k i p. (x, JoinNode k i, p) \<in> set E \<longleftrightarrow> k < L \<and> (x, JoinNode k i, p) \<in> attached (feeder k) (level_size n k) k"
    "\<And>x k p. (x, Input k, p) \<notin> set E"
proof -
  let ?f = "\<lambda>l. (level_size n l, JoinLevel (level_size n l))"
  obtain L where L: "0 < L" "createJoinLevels n = map ?f [0..<L]" "level_size n L = 1" using createJoinLevels_eq [OF assms] by blast
  obtain es where es: "linkJoinLevels 0 (map ?f [0..<L]) = Inr es"
    "set es = (\<Union>k\<in>{Suc 0..<L}. attached (feeder k) (level_size n k) k) \<union> {(FoldNode (L - 1) 0, Func, 0)}"
    using linkJoinLevels_eq [OF assms L(1,3)] by blast
  obtain fs where fs: "attach Input n 0 (JoinLevel n) = Inr fs" "set fs = attached Input n 0" using attach_eq by blast
  let ?E = "all_join_edges 0 (map ?f [0..<L]) @ es @ fs"
  have "hd (map ?f [0..<L]) = (n, JoinLevel n)" using L(1) by (simp add: upt_conv_Cons)
  then have E: "JoinFunctionModule n = Inr ?E" using assms es(1) fs(1) by (simp add: JoinFunctionModule_def L(2))
  have lv: "{..<L} = insert 0 {Suc 0..<L}" using L(1) by auto
  have att: "set es \<union> set fs = (\<Union>k\<in>{..<L}. attached (feeder k) (level_size n k) k) \<union> {(FoldNode (L - 1) 0, Func, 0)}"
    unfolding es(2) fs(2) lv by auto
  have only: "(x, JoinNode k i, p) \<in> attached (feeder l) (level_size n l) l \<Longrightarrow> k = l" for x k i p l
    by (auto simp: attached_def split: if_splits)
  have S: "set ?E = {(JoinNode k i, FoldNode k i, 0) | k i. k < L \<and> i < level_size n (Suc k)} \<union>
      (\<Union>k\<in>{..<L}. attached (feeder k) (level_size n k) k) \<union> {(FoldNode (L - 1) 0, Func, 0)}"
    using set_all_join_edges [of 0 n L] att by auto
  show thesis
  proof (rule that [OF E L(1,3)])
    show "(x, JoinNode k i, p) \<in> set ?E \<longleftrightarrow> k < L \<and> (x, JoinNode k i, p) \<in> attached (feeder k) (level_size n k) k" for x k i p
      unfolding S using only [of x k i p] by blast
  qed (unfold S, auto simp: attached_other)
qed


section \<open>When the function runs\<close>

lemma fires_join:
  assumes "\<And>x k i p. (x, JoinNode k i, p) \<in> E \<longleftrightarrow> k < L \<and> (x, JoinNode k i, p) \<in> attached (feeder k) (level_size n k) k"
    and "l < L" "2 * i < level_size n l"
  shows "fires E I (JoinNode l i) \<longleftrightarrow> fires E I (feeder l (2 * i)) \<and> (2 * i + 1 < level_size n l \<longrightarrow> fires E I (feeder l (2 * i + 1)))"
  using assms(2,3) unfolding fires_simps(4) [of E I] assms(1) One_nat_def attached_port by auto

text \<open>The inputs below node \<open>i\<close> of those that feed level \<open>l\<close> are the \<open>k\<close> with \<open>k div 2 ^ l = i\<close>.\<close>

lemma fires_feeder:
  assumes J: "\<And>x k i p. (x, JoinNode k i, p) \<in> E \<longleftrightarrow> k < L \<and> (x, JoinNode k i, p) \<in> attached (feeder k) (level_size n k) k"
    and F: "\<And>x k i p. (x, FoldNode k i, p) \<in> E \<longleftrightarrow> k < L \<and> i < level_size n (Suc k) \<and> x = JoinNode k i \<and> p = 0"
  shows "l \<le> L \<Longrightarrow> i < level_size n l \<Longrightarrow> fires E I (feeder l i) \<longleftrightarrow> {k. k < n \<and> k div 2 ^ l = i} \<subseteq> I"
proof (induction l arbitrary: i)
  case 0
  then show ?case by (auto simp: fires_simps)
next
  case (Suc l)
  have i: "2 * i < level_size n l" using Suc.prems(2) by auto
  have split: "{k. k < n \<and> k div 2 ^ Suc l = i} = {k. k < n \<and> k div 2 ^ l = 2 * i} \<union> {k. k < n \<and> k div 2 ^ l = 2 * i + 1}"
  proof -
    have "k div 2 ^ Suc l = i \<longleftrightarrow> k div 2 ^ l = 2 * i \<or> k div 2 ^ l = 2 * i + 1" for k :: nat
      unfolding power_Suc2 div_mult2_eq by linarith
    then show ?thesis by auto
  qed
  have "fires E I (feeder (Suc l) i) \<longleftrightarrow> fires E I (JoinNode l i)" using Suc.prems F by (auto simp: fires_simps(2) [of E I])
  also have "\<dots> \<longleftrightarrow> fires E I (feeder l (2 * i)) \<and> (2 * i + 1 < level_size n l \<longrightarrow> fires E I (feeder l (2 * i + 1)))"
    by (rule fires_join [OF J _ i]) (use Suc.prems(1) in simp)
  also have "\<dots> \<longleftrightarrow> {k. k < n \<and> k div 2 ^ l = 2 * i} \<subseteq> I \<and> {k. k < n \<and> k div 2 ^ l = 2 * i + 1} \<subseteq> I"
  proof (cases "2 * i + 1 < level_size n l")
    case True
    then show ?thesis using Suc.IH [OF _ i] Suc.IH [OF _ True] Suc.prems(1) by simp
  next
    case False
    have "k div 2 ^ l \<noteq> 2 * i + 1" if "k < n" for k using level_covers [OF that, of l] False by linarith
    then have "{k. k < n \<and> k div 2 ^ l = 2 * i + 1} = {}" by blast
    then show ?thesis using Suc.IH [OF _ i] Suc.prems(1) False by auto
  qed
  finally show ?case unfolding split by simp
qed

text \<open>
  C30. For every positive number of inputs the constructor succeeds: its loop over the levels ends, the assertion that neighbouring levels
  fit holds and no vector is accessed out of range. In the graph that it builds the function runs exactly when all input ports have
  a message, and every port of a join node has exactly one edge, so that an odd node feeds both ports of its join. Without inputs the
  constructor stops at its assertion.
\<close>

theorem join_runs_on_all_inputs:
  "(if 0 < n then \<exists>E. JoinFunctionModule n = Inr E \<and> (\<forall>I. fires (set E) I Func = ({..<n} \<subseteq> I)) \<and>
      list_all (\<lambda>(a, b, p). (\<exists>!c. (c, b, p) \<in> set E) \<and> (case b of JoinNode l i \<Rightarrow> (\<exists>!c. (c, b, 0) \<in> set E) \<and> (\<exists>!c. (c, b, 1) \<in> set E) | _ \<Rightarrow> p = 0)) E
    else JoinFunctionModule n = Inl AssertFailed)"
proof (cases "0 < n")
  case True
  obtain E L where E: "JoinFunctionModule n = Inr E" "0 < L" "level_size n L = 1"
    "\<And>x k i p. (x, FoldNode k i, p) \<in> set E \<longleftrightarrow> k < L \<and> i < level_size n (Suc k) \<and> x = JoinNode k i \<and> p = 0"
    "\<And>x p. (x, Func, p) \<in> set E \<longleftrightarrow> x = FoldNode (L - 1) 0 \<and> p = 0"
    "\<And>x k i p. (x, JoinNode k i, p) \<in> set E \<longleftrightarrow> k < L \<and> (x, JoinNode k i, p) \<in> attached (feeder k) (level_size n k) k"
    "\<And>x k p. (x, Input k, p) \<notin> set E"
    using module_edges [OF True] by metis
  have all: "{k. k < n \<and> k div 2 ^ L = 0} = {..<n}" using level_covers [of _ n L] E(3) by auto
  have "fires (set E) I Func = ({..<n} \<subseteq> I)" for I
  proof -
    have "fires (set E) I Func \<longleftrightarrow> fires (set E) I (feeder L 0)" using E(2,5) by (cases L) (auto simp: fires_simps(3) [of "set E" I])
    also have "\<dots> \<longleftrightarrow> {k. k < n \<and> k div 2 ^ L = 0} \<subseteq> I" by (rule fires_feeder [OF E(6,4)]) (use E(3) in auto)
    finally show ?thesis unfolding all .
  qed
  moreover have "(\<exists>!c. (c, b, p) \<in> set E) \<and> (case b of JoinNode l i \<Rightarrow> (\<exists>!c. (c, b, 0) \<in> set E) \<and> (\<exists>!c. (c, b, 1) \<in> set E) | _ \<Rightarrow> p = 0)"
    if e: "(a, b, p) \<in> set E" for a b p
  proof (cases b)
    case (JoinNode l i)
    have "p = 0 \<or> p = 1" using e unfolding JoinNode E(6) by (auto simp: attached_def split: if_splits)
    moreover from this have "l < L" "2 * i < level_size n l" using e unfolding JoinNode E(6) by (auto simp: attached_port)
    then have "\<exists>!c. (c, b, 0) \<in> set E" "\<exists>!c. (c, b, 1) \<in> set E" unfolding JoinNode E(6) One_nat_def attached_port by auto
    ultimately show ?thesis using JoinNode by auto
  qed (use e E(4,5,7) in auto)
  ultimately show ?thesis unfolding if_P [OF True] list_all_iff Ball_def split_paired_All prod.case using E(1) by blast
qed (simp add: JoinFunctionModule_def)

end
