(* ===== verification/Adaptive_Wait.thy ===== *)
theory Adaptive_Wait
  imports Prelude
begin

text \<open>
  Two small helpers of \<open>include/threading\<close>. \<open>AdaptiveWait.h\<close>: a waiting time that grows and shrinks with the load, with the 32-bit
  arithmetic of the code. \<open>ThreadCollisionDetector.h\<close>: a word with the thread that is inside a region, as interleaved atomic accesses.
\<close>

section \<open>AdaptiveWait\<close>

text \<open>The template parameters and the members.\<close>

record wait_params =
  SignalsBeforeEntering :: u32
  SignalsBeforeLeaving :: u32
  MinWait :: u32
  MaxWait :: u32
  SlowDownStep :: u32
  SpeedUpStep :: u32

record adaptive_wait =
  mWaiting :: bool
  mSignalsBeforeEnter :: u32
  mSignalsBeforeLeave :: u32
  mTimeToWait :: u32

definition AdaptiveWait_new :: "wait_params \<Rightarrow> adaptive_wait" where
  "AdaptiveWait_new P = \<lparr>mWaiting = False, mSignalsBeforeEnter = 0, mSignalsBeforeLeave = 0, mTimeToWait = MinWait P\<rparr>"

definition slowdown :: "wait_params \<Rightarrow> adaptive_wait \<Rightarrow> adaptive_wait" where
  "slowdown P s =
     (if \<not> mWaiting s then
        let s = s\<lparr>mSignalsBeforeEnter := mSignalsBeforeEnter s + 1\<rparr> in
        if mSignalsBeforeEnter s \<ge> SignalsBeforeEntering P
        then s\<lparr>mWaiting := True, mTimeToWait := MinWait P, mSignalsBeforeEnter := 0\<rparr> else s
      else
        let s = s\<lparr>mTimeToWait := mTimeToWait s + SlowDownStep P\<rparr> in
        if mTimeToWait s \<ge> MaxWait P then s\<lparr>mTimeToWait := MaxWait P\<rparr> else s)"

definition speedup :: "wait_params \<Rightarrow> adaptive_wait \<Rightarrow> adaptive_wait" where
  "speedup P s =
     (if \<not> mWaiting s then s
      else if mTimeToWait s > MinWait P + SpeedUpStep P then s\<lparr>mTimeToWait := mTimeToWait s - SpeedUpStep P\<rparr>
      else
        let s = s\<lparr>mTimeToWait := MinWait P, mSignalsBeforeLeave := mSignalsBeforeLeave s + 1\<rparr> in
        if mSignalsBeforeLeave s \<ge> SignalsBeforeLeaving P then s\<lparr>mWaiting := False, mSignalsBeforeLeave := 0\<rparr> else s)"

definition time_to_wait :: "adaptive_wait \<Rightarrow> u32" where
  "time_to_wait s = (if mWaiting s then mTimeToWait s else 0)"

text \<open>\<open>True\<close> is a call of \<open>slowdown\<close>, \<open>False\<close> one of \<open>speedup\<close>.\<close>

fun wait_calls :: "wait_params \<Rightarrow> bool list \<Rightarrow> adaptive_wait \<Rightarrow> adaptive_wait" where
  "wait_calls P [] s = s"
| "wait_calls P (slow # cs) s = wait_calls P cs (if slow then slowdown P s else speedup P s)"

text \<open>Steps that do not carry the waiting time past the range of the type.\<close>

definition params_ok :: "wait_params \<Rightarrow> bool" where
  "params_ok P \<longleftrightarrow> MinWait P \<le> MaxWait P \<and> unat (MaxWait P) + unat (SlowDownStep P) < 2 ^ 32 \<and>
     unat (MinWait P) + unat (SpeedUpStep P) < 2 ^ 32 \<and> 0 < SpeedUpStep P \<and> 0 < SignalsBeforeEntering P \<and> 0 < SignalsBeforeLeaving P"

definition wait_inv :: "wait_params \<Rightarrow> adaptive_wait \<Rightarrow> bool" where
  "wait_inv P s \<longleftrightarrow> MinWait P \<le> mTimeToWait s \<and> mTimeToWait s \<le> MaxWait P \<and>
     mSignalsBeforeEnter s < SignalsBeforeEntering P \<and> mSignalsBeforeLeave s < SignalsBeforeLeaving P"

lemma word_inc: "(a :: u32) < b \<Longrightarrow> a + 1 \<noteq> 0 \<and> unat (a + 1) = unat a + 1"
proof -
  assume "a < b"
  then have "unat a + 1 < 2 ^ 32" using unsigned_less [of b, where ?'a = nat] by (simp add: word_less_nat_alt)
  then have "unat (a + 1) = unat a + 1" by (subst unat_add_lem [THEN iffD1]) simp_all
  then show "a + 1 \<noteq> 0 \<and> unat (a + 1) = unat a + 1" by auto
qed

lemma slowdown_inv:
  assumes P: "params_ok P" and inv: "wait_inv P s"
  shows "wait_inv P (slowdown P s)"
proof -
  have "unat (mTimeToWait s) + unat (SlowDownStep P) < 2 ^ 32" using P inv by (auto simp: params_ok_def wait_inv_def word_le_nat_alt)
  then have t: "unat (mTimeToWait s + SlowDownStep P) = unat (mTimeToWait s) + unat (SlowDownStep P)"
    by (subst unat_add_lem [THEN iffD1]) simp_all
  show ?thesis using P inv t by (auto simp: slowdown_def wait_inv_def params_ok_def Let_def word_le_nat_alt word_less_nat_alt)
qed

text \<open>How far a waiting state is from leaving.\<close>

definition wait_rank :: "wait_params \<Rightarrow> adaptive_wait \<Rightarrow> nat" where
  "wait_rank P s = (unat (mTimeToWait s) - unat (MinWait P)) + (unat (SignalsBeforeLeaving P) - unat (mSignalsBeforeLeave s))"

lemma speedup_inv:
  assumes P: "params_ok P" and inv: "wait_inv P s"
  shows "wait_inv P (speedup P s)" "mWaiting s \<Longrightarrow> mWaiting (speedup P s) \<Longrightarrow> wait_rank P (speedup P s) < wait_rank P s"
proof -
  have m: "unat (MinWait P + SpeedUpStep P) = unat (MinWait P) + unat (SpeedUpStep P)" "0 < unat (SpeedUpStep P)"
    using P by (auto simp: params_ok_def word_less_nat_alt unat_add_lem [THEN iffD1])
  have sub: "unat (mTimeToWait s - SpeedUpStep P) = unat (mTimeToWait s) - unat (SpeedUpStep P)"
    if "mTimeToWait s > MinWait P + SpeedUpStep P" using that m by (intro unat_sub) (simp add: word_less_nat_alt word_le_nat_alt)
  have inc: "unat (mSignalsBeforeLeave s + 1) = unat (mSignalsBeforeLeave s) + 1" using inv word_inc [of "mSignalsBeforeLeave s"] unfolding wait_inv_def by blast
  show "wait_inv P (speedup P s)"
    using P inv m sub inc by (auto simp: speedup_def wait_inv_def params_ok_def Let_def word_le_nat_alt word_less_nat_alt)
  show "wait_rank P (speedup P s) < wait_rank P s" if "mWaiting s" "mWaiting (speedup P s)"
    using that inv m sub inc by (auto simp: speedup_def wait_inv_def wait_rank_def Let_def word_le_nat_alt word_less_nat_alt split: if_splits)
qed

lemma wait_calls_inv: "params_ok P \<Longrightarrow> wait_inv P s \<Longrightarrow> wait_inv P (wait_calls P cs s)"
  by (induction cs arbitrary: s) (auto simp: slowdown_inv speedup_inv)

lemma speedup_leaves:
  "params_ok P \<Longrightarrow> wait_inv P s \<Longrightarrow> wait_rank P s \<le> k \<Longrightarrow> \<not> mWaiting (wait_calls P (replicate k False) s)"
proof (induction k arbitrary: s)
  case 0
  then show ?case by (auto simp: wait_rank_def wait_inv_def word_less_nat_alt)
next
  case (Suc k)
  have stay: "\<not> mWaiting (wait_calls P (replicate k False) s)" if "\<not> mWaiting s" for s
    using that by (induction k) (auto simp: speedup_def)
  show ?case
  proof (cases "mWaiting s \<and> mWaiting (speedup P s)")
    case True
    with Suc speedup_inv [OF Suc.prems(1,2)] show ?thesis by auto
  next
    case False
    then have "\<not> mWaiting (speedup P s)" by (auto simp: speedup_def)
    with stay show ?thesis by simp
  qed
qed

text \<open>
  C31. After any sequence of calls of \<open>slowdown\<close> and \<open>speedup\<close> the waiting time lies between \<open>MinWait\<close> and \<open>MaxWait\<close>, without wrap-around
  of the 32-bit members, and \<open>time_to_wait\<close> is zero or in this range. From there at most \<open>MaxWait - MinWait\<close> plus
  \<open>NumberOfSignalsBeforeLeavingWaitState\<close> calls of \<open>speedup\<close> end the waiting.
\<close>

theorem adaptive_wait_bounds:
  assumes "params_ok P"
  defines "s cs \<equiv> wait_calls P cs (AdaptiveWait_new P)"
  shows "(time_to_wait (s cs) = 0 \<or> MinWait P \<le> time_to_wait (s cs)) \<and> time_to_wait (s cs) \<le> MaxWait P \<and>
    \<not> mWaiting (wait_calls P (replicate (unat (MaxWait P) - unat (MinWait P) + unat (SignalsBeforeLeaving P)) False) (s cs))"
proof -
  have "wait_inv P (AdaptiveWait_new P)" using assms(1) by (simp add: wait_inv_def AdaptiveWait_new_def params_ok_def)
  then have inv: "wait_inv P (s cs)" unfolding s_def by (rule wait_calls_inv [OF assms(1)])
  have "wait_rank P (s cs) \<le> unat (MaxWait P) - unat (MinWait P) + unat (SignalsBeforeLeaving P)"
    using inv by (auto simp: wait_inv_def wait_rank_def word_le_nat_alt)
  from speedup_leaves [OF assms(1) inv this] inv show ?thesis by (auto simp: time_to_wait_def wait_inv_def)
qed

theorem adaptive_wait_bounds_witness:
  "let P = \<lparr>SignalsBeforeEntering = 1, SignalsBeforeLeaving = 2, MinWait = 10, MaxWait = 25, SlowDownStep = 10, SpeedUpStep = 5\<rparr>;
       s = wait_calls P [True, True, True] (AdaptiveWait_new P) in
   time_to_wait s = 25 \<and> \<not> mWaiting (wait_calls P (replicate 17 False) s)"
proof -
  let ?P = "\<lparr>SignalsBeforeEntering = 1, SignalsBeforeLeaving = 2, MinWait = 10, MaxWait = 25, SlowDownStep = 10, SpeedUpStep = 5\<rparr>"
  have "params_ok ?P" by (simp add: params_ok_def)
  from adaptive_wait_bounds [OF this, of "[True, True, True]"]
  have "\<not> mWaiting (wait_calls ?P (replicate 17 False) (wait_calls ?P [True, True, True] (AdaptiveWait_new ?P)))" by simp
  moreover have "time_to_wait (wait_calls ?P [True, True, True] (AdaptiveWait_new ?P)) = 25"
    by (simp add: AdaptiveWait_new_def slowdown_def time_to_wait_def Let_def)
  ultimately show ?thesis by (simp add: Let_def)
qed

text \<open>With steps near the end of the type the waiting time wraps around and falls below its minimum.\<close>

lemma slowdown_wraps:
  "let P = \<lparr>SignalsBeforeEntering = 1, SignalsBeforeLeaving = 1, MinWait = 10, MaxWait = 0xffffffff, SlowDownStep = 0xfffffff8, SpeedUpStep = 1\<rparr> in
   time_to_wait (wait_calls P [True, True] (AdaptiveWait_new P)) = 2"
  by (simp add: AdaptiveWait_new_def slowdown_def time_to_wait_def Let_def)

section \<open>ThreadCollisionDetector\<close>

text \<open>
  Where a thread is: outside, inside a region with a \<open>ScopedWatcher\<close>, in \<open>leave\<close> with the value it has read, in \<open>enterSelf\<close> after the first
  compare-and-swap failed, or before the second with the value it has read. Thread numbers are positive.
\<close>

datatype detector_pc = Outside | Inside | Leaving nat | SelfFailed | SelfRetry nat

record detector =
  mActiveThread :: nat
  dpc :: "nat \<Rightarrow> detector_pc"
  thrown :: "nat list"

definition detector_new :: detector where
  "detector_new = \<lparr>mActiveThread = 0, dpc = (\<lambda>_. Outside), thrown = []\<rparr>"

datatype detector_act = EnterScope nat | EnterSelf nat | Leave nat | Continue nat

text \<open>A thread begins \<open>enter\<close>, \<open>enterSelf\<close> or \<open>leave\<close>, or makes the next access of the call it is in; a failed check throws.\<close>

fun detector_step :: "detector_act \<Rightarrow> detector \<Rightarrow> detector" where
  "detector_step (EnterScope t) s =
     (if dpc s t = Outside then
        if mActiveThread s = 0 then s\<lparr>mActiveThread := t, dpc := (dpc s)(t := Inside)\<rparr> else s\<lparr>thrown := thrown s @ [t]\<rparr>
      else s)"
| "detector_step (EnterSelf t) s =
     (if dpc s t = Outside then
        if mActiveThread s = 0 then s\<lparr>mActiveThread := t\<rparr> else s\<lparr>dpc := (dpc s)(t := SelfFailed)\<rparr>
      else s)"
| "detector_step (Leave t) s = (if dpc s t = Inside then s\<lparr>dpc := (dpc s)(t := Leaving (mActiveThread s))\<rparr> else s)"
| "detector_step (Continue t) s = (case dpc s t of
     Leaving v \<Rightarrow> s\<lparr>mActiveThread := xor (mActiveThread s) v, dpc := (dpc s)(t := Outside)\<rparr>
   | SelfFailed \<Rightarrow> s\<lparr>dpc := (dpc s)(t := SelfRetry (mActiveThread s))\<rparr>
   | SelfRetry v \<Rightarrow> (if mActiveThread s = t then s\<lparr>mActiveThread := v, dpc := (dpc s)(t := Outside)\<rparr>
                   else s\<lparr>dpc := (dpc s)(t := Outside), thrown := thrown s @ [t]\<rparr>)
   | _ \<Rightarrow> s)"

fun detector_run :: "detector_act list \<Rightarrow> detector \<Rightarrow> detector" where
  "detector_run [] s = s"
| "detector_run (a # as) s = detector_run as (detector_step a s)"

definition in_region :: "detector \<Rightarrow> nat \<Rightarrow> bool" where
  "in_region s t \<longleftrightarrow> dpc s t = Inside \<or> (\<exists>v. dpc s t = Leaving v)"

definition detector_inv :: "detector \<Rightarrow> bool" where
  "detector_inv s \<longleftrightarrow> (\<forall>t. in_region s t \<longrightarrow> mActiveThread s = t) \<and> (\<forall>t v. dpc s t = Leaving v \<longrightarrow> v = t) \<and>
     (\<forall>t v. dpc s t = SelfRetry v \<longrightarrow> mActiveThread s = t \<longrightarrow> v = t) \<and> dpc s 0 = Outside"

definition act_thread :: "detector_act \<Rightarrow> nat" where
  "act_thread a = (case a of EnterScope t \<Rightarrow> t | EnterSelf t \<Rightarrow> t | Leave t \<Rightarrow> t | Continue t \<Rightarrow> t)"

lemma detector_step_inv: "detector_inv s \<Longrightarrow> act_thread a \<noteq> 0 \<Longrightarrow> detector_inv (detector_step a s)"
proof (cases a)
  case (Continue t)
  assume inv: "detector_inv s" and t: "act_thread a \<noteq> 0"
  show ?thesis
  proof (cases "dpc s t")
    case (Leaving v)
    then have "mActiveThread s = t" "v = t" using inv by (auto simp: detector_inv_def in_region_def)
    with Continue Leaving inv show ?thesis by (auto simp: detector_inv_def in_region_def)
  next
    case SelfFailed
    with Continue inv t show ?thesis by (auto simp: detector_inv_def in_region_def act_thread_def)
  next
    case (SelfRetry v)
    with Continue inv t show ?thesis by (auto simp: detector_inv_def in_region_def act_thread_def)
  qed (use Continue inv in simp_all)
next
  case (Leave t)
  assume inv: "detector_inv s"
  show ?thesis
  proof (cases "dpc s t = Inside")
    case True
    then have "mActiveThread s = t" using inv by (auto simp: detector_inv_def in_region_def)
    with Leave True have e: "detector_step a s = s\<lparr>dpc := (dpc s)(t := Leaving t)\<rparr>" by simp
    have ir: "in_region (s\<lparr>dpc := (dpc s)(t := Leaving t)\<rparr>) u = in_region s u" for u using True by (simp add: in_region_def)
    have "t \<noteq> 0" using inv True by (cases "t = 0") (simp_all add: detector_inv_def)
    with inv show ?thesis unfolding e detector_inv_def ir by auto
  qed (use Leave inv in simp)
qed (auto simp: detector_inv_def in_region_def act_thread_def)

lemma detector_run_inv: "detector_inv s \<Longrightarrow> list_all (\<lambda>a. act_thread a \<noteq> 0) as \<Longrightarrow> detector_inv (detector_run as s)"
  by (induction as arbitrary: s) (auto simp: detector_step_inv)

text \<open>
  Whatever the interleaving, at most one thread is inside a region watched by a \<open>ScopedWatcher\<close>, and another thread that enters
  meanwhile throws.
\<close>

theorem collision_detected:
  assumes "list_all (\<lambda>a. act_thread a \<noteq> 0) as" "in_region (detector_run as detector_new) t"
  shows "(in_region (detector_run as detector_new) u \<longrightarrow> u = t) \<and>
    (dpc (detector_run as detector_new) u = Outside \<longrightarrow>
      thrown (detector_step (EnterScope u) (detector_run as detector_new)) = thrown (detector_run as detector_new) @ [u])"
proof -
  have "detector_inv detector_new" by (simp add: detector_inv_def detector_new_def in_region_def)
  note inv = detector_run_inv [OF this assms(1)]
  then have "mActiveThread (detector_run as detector_new) = t" "t \<noteq> 0"
    using assms(2) unfolding detector_inv_def in_region_def by (blast, metis detector_pc.distinct(1,3))
  with inv show ?thesis unfolding detector_inv_def by auto
qed

end
