(* ===== verification/BitTrick.thy ===== *)
theory BitTrick
  imports Prelude
begin

text \<open>
  The rounding helpers of \<open>include/utility/BitTrickUtil.h\<close>: rounding up to a multiple, and the
  bit-smearing computation of the next power of two on 32 and 64 bits, which
  \<open>BufferBase::writeDirect\<close> and \<open>writeArray\<close> use to choose the size of a growing buffer.
\<close>

section \<open>Definitions\<close>

definition round_up_to_nearest_power :: "u64 \<Rightarrow> u64 \<Rightarrow> u64" where
  "round_up_to_nearest_power v m =
     (if v = 0 \<or> m = 0 \<or> v mod m = 0 then v else (v div m + 1) * m)"

definition smear_step :: "nat \<Rightarrow> 'a::len word \<Rightarrow> 'a word" where
  "smear_step k v = v OR drop_bit k v"

definition round_up_to_nearest_power_of_two_u32 :: "u32 \<Rightarrow> u32" where
  "round_up_to_nearest_power_of_two_u32 v =
     (let v = v - 1;
          v = smear_step 1 v;
          v = smear_step 2 v;
          v = smear_step 4 v;
          v = smear_step 8 v;
          v = smear_step 16 v
      in v + 1)"

definition round_up_to_nearest_power_of_two_u64 :: "u64 \<Rightarrow> u64" where
  "round_up_to_nearest_power_of_two_u64 v =
     (let v = v - 1;
          v = smear_step 1 v;
          v = smear_step 2 v;
          v = smear_step 4 v;
          v = smear_step 8 v;
          v = smear_step 16 v;
          v = smear_step 32 v
      in v + 1)"

text \<open>The call sites pass a \<open>size_t\<close> and get one back.\<close>

definition round_up_size :: "nat \<Rightarrow> nat" where
  "round_up_size s = unat (round_up_to_nearest_power_of_two_u64 (word_of_nat s))"

section \<open>Smearing\<close>

text \<open>\<open>w\<close> holds at each position the disjunction of the next \<open>k\<close> bits of \<open>v\<close>.\<close>

definition smeared :: "nat \<Rightarrow> 'a::len word \<Rightarrow> 'a word \<Rightarrow> bool" where
  "smeared k v w \<longleftrightarrow> (\<forall>n. bit w n \<longleftrightarrow> (\<exists>j<k. bit v (n + j)))"

lemma smeared_self: "smeared 1 v v"
  by (simp add: smeared_def)

lemma smeared_double: "smeared k v w \<Longrightarrow> smeared (k + k) v (smear_step k w)"
proof -
  assume w: "smeared k v w"
  have "(\<exists>j<k. bit v (n + j)) \<or> (\<exists>j<k. bit v (n + k + j)) \<longleftrightarrow> (\<exists>j<k + k. bit v (n + j))" for n
  proof
    assume "(\<exists>j<k. bit v (n + j)) \<or> (\<exists>j<k. bit v (n + k + j))"
    then show "\<exists>j<k + k. bit v (n + j)"
    proof
      assume "\<exists>j<k. bit v (n + k + j)"
      then obtain j where "j < k" "bit v (n + (k + j))" by (auto simp: ac_simps)
      then show ?thesis by (intro exI [of _ "k + j"]) simp
    qed (meson trans_less_add1)
  next
    assume "\<exists>j<k + k. bit v (n + j)"
    then obtain j where j: "j < k + k" "bit v (n + j)" by blast
    show "(\<exists>j<k. bit v (n + j)) \<or> (\<exists>j<k. bit v (n + k + j))"
    proof (cases "j < k")
      case True
      with j show ?thesis by blast
    next
      case False
      with j have "j - k < k" "bit v (n + k + (j - k))" by auto
      then show ?thesis by blast
    qed
  qed
  with w show ?thesis
    by (simp add: smeared_def smear_step_def bit_or_iff bit_drop_bit_eq add.commute)
qed

lemma smeared_next: "smeared k v w \<Longrightarrow> m = k + k \<Longrightarrow> smeared m v (smear_step k w)"
  using smeared_double by simp

lemma smeared_all:
  fixes v :: "'a::len word"
  assumes s: "smeared k v w" and k: "LENGTH('a) \<le> k"
    and top: "bit v h" "\<And>j. h < j \<Longrightarrow> \<not> bit v j"
  shows "w = mask (Suc h)"
proof (rule bit_word_eqI)
  fix n assume n: "n < LENGTH('a)"
  have h: "h < LENGTH('a)" using top(1) by (rule bit_imp_le_length)
  have "(\<exists>j<k. bit v (n + j)) \<longleftrightarrow> n \<le> h"
  proof
    assume "\<exists>j<k. bit v (n + j)"
    then obtain j where "bit v (n + j)" by blast
    with top(2) show "n \<le> h" by (meson le_add1 le_trans not_le)
  next
    assume "n \<le> h"
    then have "h - n < k" "bit v (n + (h - n))" using h k top(1) by auto
    then show "\<exists>j<k. bit v (n + j)" by blast
  qed
  with s n show "bit w n \<longleftrightarrow> bit (mask (Suc h) :: 'a word) n"
    by (simp add: smeared_def bit_mask_iff less_Suc_eq_le)
qed

lemma highest_bit:
  fixes v :: "'a::len word"
  assumes "v \<noteq> 0"
  obtains h where "bit v h" "\<And>j. h < j \<Longrightarrow> \<not> bit v j" "h < LENGTH('a)"
    "2 ^ h \<le> unat v" "unat v < 2 ^ Suc h"
proof -
  let ?S = "{n. bit v n}"
  have fin: "finite ?S"
    by (rule finite_subset [of _ "{..<LENGTH('a)}"]) (auto dest: bit_imp_le_length)
  have ne: "?S \<noteq> {}"
  proof
    assume "?S = {}"
    then have "v = 0" by (intro bit_word_eqI) auto
    with assms show False by simp
  qed
  define h where "h = Max ?S"
  have h: "bit v h" using Max_in [OF fin ne] by (simp add: h_def)
  have above: "\<not> bit v j" if "h < j" for j
    using Max_ge [OF fin, of j] that unfolding h_def by (metis mem_Collect_eq not_le)
  have "take_bit (Suc h) v = v"
    using above by (intro bit_word_eqI) (metis bit_take_bit_iff less_Suc_eq_le not_le)
  then have "unat v = take_bit (Suc h) (unat v)"
    by (metis unsigned_take_bit_eq)
  then have upper: "unat v < 2 ^ Suc h"
    by (metis take_bit_nat_less_exp)
  have lower: "2 ^ h \<le> unat v"
  proof (rule ccontr)
    assume "\<not> 2 ^ h \<le> unat v"
    then have "take_bit h (unat v) = unat v"
      by (simp add: take_bit_nat_eq_self)
    then have "take_bit h v = v"
      by (metis unsigned_take_bit_eq unsigned_word_eqI)
    with h show False by (metis bit_take_bit_iff less_irrefl)
  qed
  show thesis
    using that [OF h above bit_imp_le_length [OF h] lower upper] .
qed

lemma smeared_zero: "smeared k 0 w \<Longrightarrow> w = 0"
  by (rule bit_word_eqI) (simp add: smeared_def)


section \<open>The next power of two\<close>

lemma unat_pow2: "n < LENGTH('a) \<Longrightarrow> unat (2 ^ n :: 'a::len word) = 2 ^ n"
proof -
  assume n: "n < LENGTH('a)"
  have "(2 ^ n :: 'a word) = of_nat (2 ^ n)" by simp
  then have "unat (2 ^ n :: 'a word) = (2 ^ n) mod 2 ^ LENGTH('a)"
    by (metis unat_of_nat)
  with n show ?thesis by simp
qed

lemma smear_plus_one:
  fixes v :: "'a::len word"
  assumes nz: "v \<noteq> 0" and s: "smeared k (v - 1) w" and k: "LENGTH('a) \<le> k"
    and fits: "unat v \<le> 2 ^ (LENGTH('a) - 1)"
  obtains e where "unat (w + 1) = 2 ^ e" "unat v \<le> 2 ^ e" "2 ^ e < 2 * unat v" "e < LENGTH('a)"
proof (cases "v - 1 = 0")
  case True
  then have "w = 0" "v = 1" using s smeared_zero by auto
  then show ?thesis using that [of 0] by simp
next
  case False
  from nz have v1: "unat (v - 1) = unat v - 1" "0 < unat v"
    by (simp_all add: unat_sub word_le_nat_alt unat_gt_0 Suc_leI)
  obtain h where top: "bit (v - 1) h" "\<And>j. h < j \<Longrightarrow> \<not> bit (v - 1) j"
    and h: "h < LENGTH('a)" and range: "2 ^ h \<le> unat (v - 1)" "unat (v - 1) < 2 ^ Suc h"
    using highest_bit [OF False] by blast
  have w: "w + 1 = 2 ^ Suc h"
    using smeared_all [OF s k top] by (simp add: mask_eq_exp_minus_1)
  have "(2::nat) ^ h < 2 ^ (LENGTH('a) - 1)"
    using range(1) v1 fits by linarith
  then have "Suc h < LENGTH('a)" using power_less_imp_less_exp by fastforce
  then have "unat (w + 1) = 2 ^ Suc h"
    unfolding w by (rule unat_pow2)
  moreover have "unat v \<le> 2 ^ Suc h" "2 ^ Suc h < 2 * unat v"
    using range v1 by auto
  ultimately show ?thesis using that \<open>Suc h < LENGTH('a)\<close> by blast
qed

lemma round_up_u32_smeared:
  "\<exists>w. smeared 32 (v - 1) w \<and> round_up_to_nearest_power_of_two_u32 v = w + 1"
proof -
  have "smeared 32 (v - 1) (smear_step 16 (smear_step 8 (smear_step 4 (smear_step 2 (smear_step 1 (v - 1))))))"
    by (rule smeared_next smeared_self | simp)+
  then show ?thesis by (auto simp: round_up_to_nearest_power_of_two_u32_def Let_def)
qed

lemma round_up_u64_smeared:
  "\<exists>w. smeared 64 (v - 1) w \<and> round_up_to_nearest_power_of_two_u64 v = w + 1"
proof -
  have "smeared 64 (v - 1) (smear_step 32 (smear_step 16 (smear_step 8 (smear_step 4 (smear_step 2 (smear_step 1 (v - 1)))))))"
    by (rule smeared_next smeared_self | simp)+
  then show ?thesis by (auto simp: round_up_to_nearest_power_of_two_u64_def Let_def)
qed

lemma pow2_least: "(2::nat) ^ e < 2 * s \<Longrightarrow> s \<le> 2 ^ j \<Longrightarrow> (2::nat) ^ e \<le> 2 ^ j"
proof -
  assume "(2::nat) ^ e < 2 * s" "s \<le> 2 ^ j"
  then have "(2::nat) ^ e < 2 ^ Suc j" by simp
  then have "e < Suc j" by (rule power_less_imp_less_exp [rotated]) simp
  then show ?thesis by simp
qed

lemma round_up_size_pow2:
  assumes "0 < s" "s \<le> 2 ^ 63"
  obtains e where "round_up_size s = 2 ^ e" "s \<le> 2 ^ e" "2 ^ e < 2 * s" "e < 64"
proof -
  let ?v = "word_of_nat s :: u64"
  have u: "unat ?v = s" using assms by (simp add: unat_of_nat take_bit_eq_mod)
  then have nz: "?v \<noteq> 0" using assms by auto
  obtain w where w: "smeared 64 (?v - 1) w" "round_up_to_nearest_power_of_two_u64 ?v = w + 1"
    using round_up_u64_smeared by blast
  have "LENGTH(64) \<le> 64" "unat ?v \<le> 2 ^ (LENGTH(64) - 1)" using u assms by simp_all
  then obtain e where "unat (w + 1) = 2 ^ e" "unat ?v \<le> 2 ^ e" "2 ^ e < 2 * unat ?v" "e < LENGTH(64)"
    by (rule smear_plus_one [OF nz w(1)])
  with w(2) u show thesis using that [of e] by (simp add: round_up_size_def)
qed

lemma round_up_size_ge: "0 < s \<Longrightarrow> s \<le> 2 ^ 63 \<Longrightarrow> s \<le> round_up_size s"
  by (metis round_up_size_pow2)

lemma round_up_size_less: "0 < s \<Longrightarrow> s \<le> 2 ^ 63 \<Longrightarrow> round_up_size s < 2 * s"
  by (metis round_up_size_pow2)

lemma round_up_size_0 [simp]: "round_up_size 0 = 0"
  by (simp add: round_up_size_def round_up_to_nearest_power_of_two_u64_def smear_step_def Let_def)


lemma round_up_size_limit:
  "0 < s \<Longrightarrow> s \<le> size_limit \<Longrightarrow> s \<le> round_up_size s \<and> round_up_size s < 2 * s"
  using round_up_size_ge [of s] round_up_size_less [of s] by (simp add: size_limit_def)

section \<open>Properties\<close>

text \<open>
  Rounding up to a power of two, on the 64-bit words of the code: for \<open>0 < v \<le> 2^63\<close> the smeared word
  plus one is a power of two, at least \<open>v\<close>, and no smaller power of two is.
\<close>

theorem round_up_is_least_power:
  assumes "0 < v" "unat v \<le> 2 ^ 63"
  shows "\<exists>e. unat (round_up_to_nearest_power_of_two_u64 v) = 2 ^ e \<and> unat v \<le> 2 ^ e \<and> (\<forall>j. unat v \<le> 2 ^ j \<longrightarrow> (2::nat) ^ e \<le> 2 ^ j)"
proof -
  have "0 < unat v" using assms(1) by (simp add: word_less_nat_alt)
  then obtain e where e: "round_up_size (unat v) = 2 ^ e" "unat v \<le> 2 ^ e" "2 ^ e < 2 * unat v"
    using round_up_size_pow2 [OF _ assms(2)] by blast
  have "unat (round_up_to_nearest_power_of_two_u64 v) = 2 ^ e" using e(1) by (simp add: round_up_size_def)
  with e pow2_least [OF e(3)] show ?thesis by blast
qed

theorem round_up_is_least_power_witness:
  "\<exists>e. unat (round_up_to_nearest_power_of_two_u64 5) = 2 ^ e \<and> unat (5 :: u64) \<le> 2 ^ e \<and>
    (\<forall>j. unat (5 :: u64) \<le> 2 ^ j \<longrightarrow> (2::nat) ^ e \<le> 2 ^ j)"
  by (rule round_up_is_least_power) simp_all

end
