(* ===== verification/Buffer_Core.thy ===== *)
theory Buffer_Core
  imports BitTrick
begin

text \<open>
  The byte buffer of \<open>include/core/Buffer.h\<close>, class \<open>BufferBase<Mode, Concurrency>\<close>: its state,
  the constructors that set it up, the pointer and mark operations, raw access to the block, and
  growing, crunching and appending. The template parameter \<open>Mode\<close> is the first argument of every
  operation; \<open>Concurrency\<close> only selects a volatile-qualified position type and has no counterpart
  here. A failing \<open>BOOST_ASSERT\<close> is \<open>AssertFailed\<close> (assertions are enabled), an access outside the
  block is \<open>MemFault\<close>.
\<close>

section \<open>State\<close>

datatype BufferMode = plain | circular

text \<open>
  \<open>mData\<close> is the block the data pointer designates. \<open>fresh\<close> is not a field of the class: it
  stands for the indeterminate bytes that \<open>malloc\<close> and \<open>realloc\<close> hand out, and no theorem
  constrains it. \<open>mContext\<close> is the identity of the shared context object, if any.
\<close>

record buffer =
  mData :: block
  mAllocatedSize :: nat
  mOwner :: bool
  mReadOnly :: bool
  mOnDemand :: bool
  mReadPos :: nat
  mWritePos :: nat
  mReadPosMarked :: nat
  mWritePosMarked :: nat
  mContext :: "nat option"
  fresh :: "nat \<Rightarrow> u8"

definition malloc :: "(nat \<Rightarrow> u8) \<Rightarrow> nat \<Rightarrow> block" where
  "malloc fr n = Some (map fr [0..<n])"

definition realloc :: "(nat \<Rightarrow> u8) \<Rightarrow> block \<Rightarrow> nat \<Rightarrow> block" where
  "realloc fr m n =
     (case m of None \<Rightarrow> malloc fr n
      | Some d \<Rightarrow> Some (take n d @ map fr [length d..<n]))"

section \<open>Constructors\<close>

definition BufferBase_default :: "(nat \<Rightarrow> u8) \<Rightarrow> buffer" where
  "BufferBase_default fr =
     \<lparr>mData = None, mAllocatedSize = 0, mOwner = True, mReadOnly = False, mOnDemand = True,
      mReadPos = 0, mWritePos = 0, mReadPosMarked = 0, mWritePosMarked = 0,
      mContext = None, fresh = fr\<rparr>"

definition BufferBase_size :: "BufferMode \<Rightarrow> (nat \<Rightarrow> u8) \<Rightarrow> nat \<Rightarrow> buffer result" where
  "BufferBase_size Mode fr sz =
     rbind (assert_that (sz > 0)) (\<lambda>_.
       let n = (case Mode of plain \<Rightarrow> sz | circular \<Rightarrow> sz_add sz 1) in
       Inr \<lparr>mData = malloc fr n, mAllocatedSize = n, mOwner = True, mReadOnly = False,
            mOnDemand = False, mReadPos = 0, mWritePos = 0, mReadPosMarked = 0,
            mWritePosMarked = 0, mContext = None, fresh = fr\<rparr>)"

definition BufferBase_data :: "(nat \<Rightarrow> u8) \<Rightarrow> block \<Rightarrow> nat \<Rightarrow> buffer" where
  "BufferBase_data fr data sz =
     \<lparr>mData = data, mAllocatedSize = sz, mOwner = False, mReadOnly = False, mOnDemand = False,
      mReadPos = 0, mWritePos = 0, mReadPosMarked = 0, mWritePosMarked = 0,
      mContext = None, fresh = fr\<rparr>"

definition BufferBase_const_data :: "(nat \<Rightarrow> u8) \<Rightarrow> block \<Rightarrow> nat \<Rightarrow> buffer" where
  "BufferBase_const_data fr data sz =
     \<lparr>mData = data, mAllocatedSize = sz, mOwner = False, mReadOnly = True, mOnDemand = False,
      mReadPos = 0, mWritePos = 0, mReadPosMarked = 0, mWritePosMarked = 0,
      mContext = None, fresh = fr\<rparr>"

definition isMutable :: "buffer \<Rightarrow> bool" where
  "isMutable b = (\<not> mReadOnly b)"

definition setMutable :: "bool \<Rightarrow> buffer \<Rightarrow> buffer" where
  "setMutable m b = b\<lparr>mReadOnly := \<not> m\<rparr>"

section \<open>Positions, sizes and marks\<close>

definition rpos :: "buffer \<Rightarrow> nat" where "rpos b = mReadPos b"

definition wpos :: "buffer \<Rightarrow> nat" where "wpos b = mWritePos b"

definition rpos_set :: "nat \<Rightarrow> buffer \<Rightarrow> buffer" where
  "rpos_set position b = b\<lparr>mReadPos := position\<rparr>"

definition wpos_set :: "nat \<Rightarrow> buffer \<Rightarrow> buffer" where
  "wpos_set position b = b\<lparr>mWritePos := position\<rparr>"

definition clear :: "buffer \<Rightarrow> buffer" where
  "clear b = b\<lparr>mReadPos := 0, mWritePos := 0, mReadPosMarked := 0, mWritePosMarked := 0\<rparr>"

definition mark :: "buffer \<Rightarrow> buffer" where
  "mark b = b\<lparr>mReadPosMarked := mReadPos b, mWritePosMarked := mWritePos b\<rparr>"

definition markRead :: "buffer \<Rightarrow> buffer" where
  "markRead b = b\<lparr>mReadPosMarked := mReadPos b\<rparr>"

definition markWrite :: "buffer \<Rightarrow> buffer" where
  "markWrite b = b\<lparr>mWritePosMarked := mWritePos b\<rparr>"

definition reset :: "buffer \<Rightarrow> buffer" where
  "reset b = b\<lparr>mReadPos := mReadPosMarked b, mWritePos := mWritePosMarked b,
               mReadPosMarked := 0, mWritePosMarked := 0\<rparr>"

definition resetWrite :: "buffer \<Rightarrow> buffer" where
  "resetWrite b = b\<lparr>mWritePos := mWritePosMarked b\<rparr>"

definition resetRead :: "buffer \<Rightarrow> buffer" where
  "resetRead b = b\<lparr>mReadPos := mReadPosMarked b\<rparr>"

definition allocatedSize :: "BufferMode \<Rightarrow> buffer \<Rightarrow> nat" where
  "allocatedSize Mode b =
     (case Mode of plain \<Rightarrow> mAllocatedSize b | circular \<Rightarrow> sz_sub (mAllocatedSize b) 1)"

definition dataSize :: "BufferMode \<Rightarrow> buffer \<Rightarrow> nat" where
  "dataSize Mode b =
     (let current_wpos = wpos b; current_rpos = rpos b in
      case Mode of
        plain \<Rightarrow> sz_sub current_wpos current_rpos
      | circular \<Rightarrow>
          if current_wpos < current_rpos
          then sz_add (sz_sub (mAllocatedSize b) current_rpos) current_wpos
          else sz_sub current_wpos current_rpos)"

definition freeSize :: "BufferMode \<Rightarrow> buffer \<Rightarrow> nat" where
  "freeSize Mode b = sz_sub (allocatedSize Mode b) (dataSize Mode b)"

text \<open>A range is the offset of its first byte in the block and its length.\<close>

definition ranges_between :: "BufferMode \<Rightarrow> bool \<Rightarrow> nat \<Rightarrow> nat \<Rightarrow> nat \<Rightarrow> (nat \<times> nat) list \<times> nat" where
  "ranges_between Mode keep_empty alloc current_rpos current_wpos =
     (case Mode of
        plain \<Rightarrow> ([(current_rpos, sz_sub current_wpos current_rpos)], sz_sub current_wpos current_rpos)
      | circular \<Rightarrow>
          if current_wpos < current_rpos
          then ((current_rpos, sz_sub alloc current_rpos)
                  # (if keep_empty \<or> current_wpos \<noteq> 0 then [(0, current_wpos)] else []),
                sz_add (sz_sub alloc current_rpos) current_wpos)
          else if current_wpos \<noteq> current_rpos
          then ([(current_rpos, sz_sub current_wpos current_rpos)], sz_sub current_wpos current_rpos)
          else ([], 0))"

definition getDataRanges :: "BufferMode \<Rightarrow> (nat \<times> nat) list \<Rightarrow> buffer \<Rightarrow> (nat \<times> nat) list \<times> nat" where
  "getDataRanges Mode ranges b =
     (let (rs, n) = ranges_between Mode True (mAllocatedSize b) (rpos b) (wpos b)
      in (ranges @ rs, n))"

definition getDataRangesFromMark :: "BufferMode \<Rightarrow> (nat \<times> nat) list \<Rightarrow> buffer \<Rightarrow> (nat \<times> nat) list \<times> nat" where
  "getDataRangesFromMark Mode ranges b =
     (let (rs, n) = ranges_between Mode False (mAllocatedSize b) (mReadPosMarked b) (mWritePosMarked b)
      in (ranges @ rs, n))"

definition rskip :: "BufferMode \<Rightarrow> nat \<Rightarrow> buffer \<Rightarrow> buffer result" where
  "rskip Mode bytes b =
     (case Mode of
        plain \<Rightarrow>
          rbind (assert_that (bytes \<le> mAllocatedSize b)) (\<lambda>_.
            let b' = b\<lparr>mReadPos := sz_add (mReadPos b) bytes\<rparr> in
            rbind (assert_that (mReadPos b' \<le> mAllocatedSize b')) (\<lambda>_. Inr b'))
      | circular \<Rightarrow>
          rbind (assert_that (bytes \<le> sz_sub (mAllocatedSize b) 1)) (\<lambda>_.
            if bytes > dataSize circular b then Inl LengthError
            else
              let p = sz_add (mReadPos b) bytes in
              Inr (b\<lparr>mReadPos := if p \<ge> mAllocatedSize b then sz_sub p (mAllocatedSize b) else p\<rparr>)))"

definition wskip :: "BufferMode \<Rightarrow> nat \<Rightarrow> buffer \<Rightarrow> buffer result" where
  "wskip Mode bytes b =
     (case Mode of
        plain \<Rightarrow>
          rbind (assert_that (bytes \<le> mAllocatedSize b)) (\<lambda>_.
            let b' = b\<lparr>mWritePos := sz_add (mWritePos b) bytes\<rparr> in
            rbind (assert_that (mWritePos b' \<le> mAllocatedSize b')) (\<lambda>_. Inr b'))
      | circular \<Rightarrow>
          rbind (assert_that (bytes \<le> sz_sub (mAllocatedSize b) 1)) (\<lambda>_.
            if bytes > freeSize circular b then Inl LengthError
            else
              let p = sz_add (mWritePos b) bytes in
              Inr (b\<lparr>mWritePos := if p \<ge> mAllocatedSize b then sz_sub p (mAllocatedSize b) else p\<rparr>)))"

definition rrev :: "BufferMode \<Rightarrow> nat \<Rightarrow> buffer \<Rightarrow> buffer result" where
  "rrev Mode bytes b =
     (case Mode of
        plain \<Rightarrow>
          rbind (assert_that (bytes \<le> mAllocatedSize b)) (\<lambda>_.
          rbind (assert_that (mReadPos b \<ge> bytes)) (\<lambda>_.
            Inr (b\<lparr>mReadPos := sz_sub (mReadPos b) bytes\<rparr>)))
      | circular \<Rightarrow>
          rbind (assert_that (bytes \<le> sz_sub (mAllocatedSize b) 1)) (\<lambda>_.
            Inr (b\<lparr>mReadPos :=
                    if mReadPos b < bytes
                    then sz_sub (mAllocatedSize b) (sz_sub bytes (mReadPos b))
                    else sz_sub (mReadPos b) bytes\<rparr>)))"

definition wrev :: "BufferMode \<Rightarrow> nat \<Rightarrow> buffer \<Rightarrow> buffer result" where
  "wrev Mode bytes b =
     (case Mode of
        plain \<Rightarrow>
          rbind (assert_that (bytes \<le> mAllocatedSize b)) (\<lambda>_.
          rbind (assert_that (mWritePos b \<ge> bytes)) (\<lambda>_.
            Inr (b\<lparr>mWritePos := sz_sub (mWritePos b) bytes\<rparr>)))
      | circular \<Rightarrow>
          rbind (assert_that (bytes \<le> sz_sub (mAllocatedSize b) 1)) (\<lambda>_.
            Inr (b\<lparr>mWritePos :=
                    if mWritePos b < bytes
                    then sz_sub (mAllocatedSize b) (sz_sub bytes (mWritePos b))
                    else sz_sub (mWritePos b) bytes\<rparr>)))"

section \<open>Raw access to the block\<close>

definition store :: "nat \<Rightarrow> u8 list \<Rightarrow> buffer \<Rightarrow> buffer result" where
  "store pos bs b = rbind (mem_write (mData b) pos bs) (\<lambda>m. Inr (b\<lparr>mData := m\<rparr>))"

definition zero :: "BufferMode \<Rightarrow> buffer \<Rightarrow> buffer result" where
  "zero Mode b =
     rbind (mem_set (mData b) (wpos b) 0 (freeSize Mode b)) (\<lambda>m. Inr (b\<lparr>mData := m\<rparr>))"

definition crunch :: "BufferMode \<Rightarrow> buffer \<Rightarrow> buffer result" where
  "crunch Mode b =
     (case Mode of
        plain \<Rightarrow>
          if dataSize plain b > 0 \<and> rpos b > 0
          then let sz = dataSize plain b in
               rbind (mem_read (mData b) (rpos b) sz) (\<lambda>bs.
               rbind (store 0 bs b) (\<lambda>b.
                 Inr (rpos_set 0 (wpos_set sz b))))
          else Inr b
      | circular \<Rightarrow>
          if wpos b < rpos b
          then let size_to_end = sz_sub (mAllocatedSize b) (rpos b);
                   size_from_begin = wpos b;
                   sz = sz_add size_to_end size_from_begin in
               rbind (if sz > 0
                      then rbind (mem_read (mData b) (rpos b) size_to_end) (\<lambda>t1.
                           rbind (mem_read (mData b) 0 size_from_begin) (\<lambda>t2.
                             store 0 (t1 @ t2) b))
                      else Inr b) (\<lambda>b.
                 Inr (rpos_set 0 (wpos_set sz b)))
          else let sz = sz_sub (wpos b) (rpos b) in
               rbind (if sz > 0 \<and> rpos b > 0
                      then rbind (mem_read (mData b) (rpos b) sz) (\<lambda>t. store 0 t b)
                      else Inr b) (\<lambda>b.
                 Inr (rpos_set 0 (wpos_set sz b))))"

text \<open>
  \<open>getDirect\<close> and \<open>setDirect\<close> move the object representation of one value, \<open>getArray\<close> and
  \<open>setArray\<close> a run of bytes.
\<close>

definition getDirect :: "BufferMode \<Rightarrow> nat \<Rightarrow> nat \<Rightarrow> buffer \<Rightarrow> u8 list result" where
  "getDirect Mode sz position b =
     (case Mode of
        plain \<Rightarrow> mem_read (mData b) position sz
      | circular \<Rightarrow>
          if sz_add position sz > mAllocatedSize b
          then let size_to_end = sz_sub (mAllocatedSize b) position in
               rbind (mem_read (mData b) position size_to_end) (\<lambda>t1.
               rbind (mem_read (mData b) 0 (sz_sub sz size_to_end)) (\<lambda>t2. Inr (t1 @ t2)))
          else mem_read (mData b) position sz)"

definition getArray :: "BufferMode \<Rightarrow> nat \<Rightarrow> nat \<Rightarrow> buffer \<Rightarrow> u8 list result" where
  "getArray Mode position sz b =
     rbind (assert_that (sz \<le> dataSize Mode b)) (\<lambda>_.
     case Mode of
        plain \<Rightarrow> if sz = 0 then Inr [] else mem_read (mData b) position sz
      | circular \<Rightarrow>
          if sz_add position sz > mAllocatedSize b
          then let size_to_end = sz_sub (mAllocatedSize b) position in
               rbind (mem_read (mData b) position size_to_end) (\<lambda>t1.
               rbind (mem_read (mData b) 0 (sz_sub sz size_to_end)) (\<lambda>t2. Inr (t1 @ t2)))
          else mem_read (mData b) position sz)"

definition setDirect :: "BufferMode \<Rightarrow> u8 list \<Rightarrow> nat \<Rightarrow> buffer \<Rightarrow> buffer result" where
  "setDirect Mode t position b =
     (case Mode of
        plain \<Rightarrow> store position t b
      | circular \<Rightarrow>
          if sz_add position (length t) > mAllocatedSize b
          then let size_to_end = sz_sub (mAllocatedSize b) position in
               rbind (store position (take size_to_end t) b) (\<lambda>b.
                 store 0 (drop size_to_end t) b)
          else store position t b)"

definition setArray :: "BufferMode \<Rightarrow> u8 list \<Rightarrow> nat \<Rightarrow> buffer \<Rightarrow> buffer result" where
  "setArray Mode source position b =
     rbind (assert_that (length source \<le> freeSize Mode b)) (\<lambda>_.
     case Mode of
        plain \<Rightarrow> if length source = 0 then Inr b else store position source b
      | circular \<Rightarrow>
          if sz_add position (length source) > mAllocatedSize b
          then let size_to_end = sz_sub (mAllocatedSize b) position in
               rbind (store position (take size_to_end source) b) (\<lambda>b.
                 store 0 (drop size_to_end source) b)
          else store position source b)"

definition byte_at :: "nat \<Rightarrow> buffer \<Rightarrow> u8 result" where
  "byte_at position b =
     rbind (assert_that (position < mWritePos b)) (\<lambda>_.
     rbind (mem_read (mData b) position 1) (\<lambda>bs. Inr (hd bs)))"

section \<open>Growing, reading and writing runs of bytes\<close>

definition resize :: "BufferMode \<Rightarrow> nat \<Rightarrow> buffer \<Rightarrow> buffer result" where
  "resize Mode sz b =
     rbind (assert_that (mOnDemand b)) (\<lambda>_.
     rbind (assert_that (sz > mAllocatedSize b)) (\<lambda>_.
     rbind (case Mode of circular \<Rightarrow> crunch circular b | plain \<Rightarrow> Inr b) (\<lambda>b.
       Inr (b\<lparr>mData := (case mData b of None \<Rightarrow> malloc (fresh b) sz
                                        | Some d \<Rightarrow> realloc (fresh b) (Some d) sz),
              mAllocatedSize := sz\<rparr>))))"

text \<open>The room check that \<open>writeDirect\<close> and \<open>writeArray\<close> make before they store \<open>n\<close> bytes.\<close>

definition make_room :: "BufferMode \<Rightarrow> nat \<Rightarrow> buffer \<Rightarrow> buffer result" where
  "make_room Mode n b =
     (case Mode of
        plain \<Rightarrow>
          if \<not> mOnDemand b
          then rbind (assert_that (mAllocatedSize b \<ge> sz_add (wpos b) n)) (\<lambda>_. Inr b)
          else if mAllocatedSize b < sz_add (wpos b) n
          then let s = sz_add (wpos b) n in resize plain (round_up_size s) b
          else Inr b
      | circular \<Rightarrow>
          let current_size = dataSize circular b in
          if \<not> mOnDemand b
          then rbind (assert_that (mAllocatedSize b \<ge> sz_add (sz_add current_size n) 1)) (\<lambda>_. Inr b)
          else if mAllocatedSize b < sz_add (sz_add current_size n) 1
          then let s = sz_add current_size n in resize circular (sz_add (round_up_size s) 1) b
          else Inr b)"

definition writeDirect :: "BufferMode \<Rightarrow> u8 list \<Rightarrow> buffer \<Rightarrow> buffer result" where
  "writeDirect Mode t b =
     rbind (assert_that (\<not> mReadOnly b)) (\<lambda>_.
     rbind (make_room Mode (length t) b) (\<lambda>b.
     rbind (setDirect Mode t (wpos b) b) (\<lambda>b.
       wskip Mode (length t) b)))"

definition writeArray :: "BufferMode \<Rightarrow> u8 list \<Rightarrow> buffer \<Rightarrow> buffer result" where
  "writeArray Mode source b =
     rbind (assert_that (\<not> mReadOnly b)) (\<lambda>_.
     rbind (make_room Mode (length source) b) (\<lambda>b.
     rbind (setArray Mode source (wpos b) b) (\<lambda>b.
       wskip Mode (length source) b)))"

definition readDirect :: "BufferMode \<Rightarrow> nat \<Rightarrow> buffer \<Rightarrow> (u8 list \<times> buffer) result" where
  "readDirect Mode sz b =
     rbind (getDirect Mode sz (rpos b) b) (\<lambda>t.
     rbind (rskip Mode sz b) (\<lambda>b. Inr (t, b)))"

definition readArray :: "BufferMode \<Rightarrow> nat \<Rightarrow> buffer \<Rightarrow> (u8 list \<times> buffer) result" where
  "readArray Mode sz b =
     rbind (getArray Mode (rpos b) sz b) (\<lambda>t.
     rbind (rskip Mode sz b) (\<lambda>b. Inr (t, b)))"

text \<open>
  \<open>append(source, size)\<close> copies from \<open>source.rptr()\<close>, a raw pointer into the source block, and
  advances the source's read position; the pair is (destination, source).
\<close>

definition append_size :: "BufferMode \<Rightarrow> BufferMode \<Rightarrow> nat \<Rightarrow> buffer \<Rightarrow> buffer \<Rightarrow> (buffer \<times> buffer) result" where
  "append_size Mode M sz b source =
     rbind (assert_that (sz \<le> dataSize M source)) (\<lambda>_.
     rbind (mem_read (mData source) (rpos source) sz) (\<lambda>bs.
     rbind (writeArray Mode bs b) (\<lambda>b.
     rbind (rskip M sz source) (\<lambda>source. Inr (b, source)))))"

definition append_all :: "BufferMode \<Rightarrow> buffer \<Rightarrow> buffer \<Rightarrow> (buffer \<times> buffer) result" where
  "append_all Mode b source =
     rbind (assert_that (dataSize Mode source \<le> freeSize Mode b)) (\<lambda>_.
       append_size Mode Mode (dataSize Mode source) b source)"

definition getContext :: "buffer \<Rightarrow> nat option" where "getContext b = mContext b"

definition setContext :: "nat option \<Rightarrow> buffer \<Rightarrow> buffer" where "setContext c b = b\<lparr>mContext := c\<rparr>"

definition clearContext :: "buffer \<Rightarrow> buffer" where "clearContext b = b\<lparr>mContext := None\<rparr>"

text \<open>The definitions that evaluate an operation on a concrete buffer.\<close>

lemmas buffer_eval = BufferBase_default_def BufferBase_size_def malloc_def realloc_def writeDirect_def writeArray_def
  readDirect_def readArray_def make_room_def resize_def dataSize_def freeSize_def allocatedSize_def wpos_def rpos_def
  sz_add_def sz_sub_def size_mod_def setDirect_def setArray_def getDirect_def getArray_def store_def mem_write_def
  mem_read_def wskip_def rskip_def crunch_def rpos_set_def wpos_set_def Let_def

end
