(* ===== verification/Buffer_Spec.thy ===== *)
theory Buffer_Spec
  imports Buffer_Core
begin

text \<open>
  What a buffer promises: it is a queue of bytes. \<open>contents\<close> is the abstraction (the unread bytes
  in order), \<open>buf_wf\<close> the invariant of the positions and the block, \<open>room\<close> says when \<open>n\<close> more bytes
  can be written. The theory shows that every operation keeps the invariant, that writing appends
  to the contents and reading removes from their front, for the plain and the circular mode, with
  and without growing, and that neither leaves the memory block.
\<close>

section \<open>Abstraction and invariant\<close>

definition contents :: "BufferMode \<Rightarrow> buffer \<Rightarrow> u8 list" where
  "contents Mode b =
     (let d = blk (mData b); r = mReadPos b; w = mWritePos b in
      case Mode of
        plain \<Rightarrow> window d r w
      | circular \<Rightarrow> ring d (mAllocatedSize b) r w)"

definition buf_wf :: "BufferMode \<Rightarrow> buffer \<Rightarrow> bool" where
  "buf_wf Mode b \<longleftrightarrow>
     block_size (mData b) = mAllocatedSize b \<and> mAllocatedSize b \<le> 2 * size_limit \<and>
     (case Mode of
        plain \<Rightarrow> mReadPos b \<le> mWritePos b \<and> mWritePos b \<le> mAllocatedSize b
      | circular \<Rightarrow>
          (mAllocatedSize b = 0 \<and> mReadPos b = 0 \<and> mWritePos b = 0) \<or>
          (mReadPos b < mAllocatedSize b \<and> mWritePos b < mAllocatedSize b))"

text \<open>The bytes in front of the write position that a write cannot reuse, and what a write needs.\<close>

definition occupied :: "BufferMode \<Rightarrow> buffer \<Rightarrow> nat" where
  "occupied Mode b = (case Mode of plain \<Rightarrow> mWritePos b | circular \<Rightarrow> length (contents circular b))"

definition fits :: "BufferMode \<Rightarrow> nat \<Rightarrow> buffer \<Rightarrow> bool" where
  "fits Mode n b \<longleftrightarrow>
     (case Mode of plain \<Rightarrow> occupied plain b + n \<le> mAllocatedSize b
                 | circular \<Rightarrow> occupied circular b + n + 1 \<le> mAllocatedSize b)"

definition room :: "BufferMode \<Rightarrow> nat \<Rightarrow> buffer \<Rightarrow> bool" where
  "room Mode n b \<longleftrightarrow>
     \<not> mReadOnly b \<and> (if mOnDemand b then occupied Mode b + n \<le> size_limit else fits Mode n b)"

definition same_flags :: "buffer \<Rightarrow> buffer \<Rightarrow> bool" where
  "same_flags b b' \<longleftrightarrow>
     mOwner b' = mOwner b \<and> mReadOnly b' = mReadOnly b \<and> mOnDemand b' = mOnDemand b \<and>
     mReadPosMarked b' = mReadPosMarked b \<and> mWritePosMarked b' = mWritePosMarked b \<and>
     mContext b' = mContext b \<and> fresh b' = fresh b"

lemma same_flags_refl [simp]: "same_flags b b"
  by (simp add: same_flags_def)

lemma same_flags_trans: "same_flags a b \<Longrightarrow> same_flags b c \<Longrightarrow> same_flags a c"
  by (simp add: same_flags_def)

lemmas contents_simps = contents_def Let_def

lemma length_contents:
  "buf_wf Mode b \<Longrightarrow> length (contents Mode b) =
     (case Mode of plain \<Rightarrow> mWritePos b - mReadPos b
      | circular \<Rightarrow> if mWritePos b < mReadPos b then mAllocatedSize b - mReadPos b + mWritePos b
                    else mWritePos b - mReadPos b)"
  by (auto simp: buf_wf_def contents_simps ring_def split: BufferMode.splits)

lemma dataSize_contents: "buf_wf Mode b \<Longrightarrow> dataSize Mode b = length (contents Mode b)"
  by (auto simp: length_contents dataSize_def rpos_def wpos_def Let_def buf_wf_def size_simps
      split: BufferMode.splits)

lemma contents_less_alloc:
  "buf_wf circular b \<Longrightarrow> 0 < mAllocatedSize b \<Longrightarrow> length (contents circular b) < mAllocatedSize b"
  by (auto simp: length_contents buf_wf_def)

lemma freeSize_plain: "buf_wf plain b \<Longrightarrow> freeSize plain b = mAllocatedSize b - length (contents plain b)"
  by (simp add: freeSize_def dataSize_contents allocatedSize_def length_contents)
     (auto simp: buf_wf_def size_simps)

lemma freeSize_circular:
  "buf_wf circular b \<Longrightarrow> 0 < mAllocatedSize b \<Longrightarrow>
     freeSize circular b = mAllocatedSize b - 1 - length (contents circular b)"
  using contents_less_alloc [of b]
  by (auto simp add: freeSize_def dataSize_contents allocatedSize_def buf_wf_def size_simps)


section \<open>Reading\<close>

text \<open>Reading \<open>n\<close> bytes that are there: the copy delivers the front of the contents.\<close>

lemma getDirect_front:
  assumes "buf_wf Mode b" "n \<le> length (contents Mode b)"
  shows "getDirect Mode n (mReadPos b) b = Inr (take n (contents Mode b))"
proof (cases Mode)
  case plain
  with assms have "mReadPos b + n \<le> mWritePos b" "mWritePos b \<le> block_size (mData b)"
    by (auto simp: length_contents buf_wf_def)
  with plain show ?thesis
    by (simp add: getDirect_def mem_simps contents_simps take_window)
next
  case circular
  let ?r = "mReadPos b" and ?w = "mWritePos b" and ?N = "mAllocatedSize b" and ?d = "blk (mData b)"
  from assms circular have N: "block_size (mData b) = ?N" "?N \<le> 2 * size_limit"
    by (auto simp: buf_wf_def)
  show ?thesis
  proof (cases "?w < ?r")
    case False
    with assms circular have "?r + n \<le> ?w" "?w \<le> ?N" "?r + n \<le> ?N"
      by (auto simp: length_contents buf_wf_def)
    with False circular N show ?thesis
      by (simp add: getDirect_def size_simps mem_simps contents_simps ring_def take_window)
  next
    case True
    with assms circular have n: "n \<le> ?N - ?r + ?w" "?r < ?N" "?r + n \<le> 7 * size_limit"
      by (auto simp: length_contents buf_wf_def)
    show ?thesis
    proof (cases "?r + n \<le> ?N")
      case True
      with \<open>?w < ?r\<close> circular N n show ?thesis
        by (simp add: getDirect_def size_simps mem_simps contents_simps ring_def take_window)
    next
      case False
      then have "window ?d ?r ?N @ window ?d 0 (n - (?N - ?r)) = take n (contents circular b)"
        using \<open>?w < ?r\<close> N n by (simp add: contents_simps ring_def take_window)
      with False \<open>?w < ?r\<close> circular N n show ?thesis
        by (simp add: getDirect_def size_simps mem_simps Let_def)
    qed
  qed
qed

lemma rskip_drop:
  assumes "buf_wf Mode b" "n \<le> length (contents Mode b)"
  shows "\<exists>b'. rskip Mode n b = Inr b' \<and> buf_wf Mode b' \<and> contents Mode b' = drop n (contents Mode b) \<and>
    same_flags b b' \<and> mWritePos b' = mWritePos b \<and> mAllocatedSize b' = mAllocatedSize b \<and> mData b' = mData b"
proof (cases Mode)
  case plain
  with assms have "mReadPos b + n \<le> mWritePos b" "mWritePos b \<le> block_size (mData b)"
    "block_size (mData b) = mAllocatedSize b" "mAllocatedSize b \<le> 2 * size_limit"
    by (auto simp: length_contents buf_wf_def)
  with plain show ?thesis
    by (simp add: rskip_def size_simps buf_wf_def contents_simps same_flags_def)
next
  case circular
  let ?r = "mReadPos b" and ?w = "mWritePos b" and ?N = "mAllocatedSize b" and ?d = "blk (mData b)"
  let ?b' = "b\<lparr>mReadPos := wrap ?N (?r + n)\<rparr>"
  from assms circular have N: "block_size (mData b) = ?N" "?N \<le> 2 * size_limit"
    by (auto simp: buf_wf_def)
  show ?thesis
  proof (cases "?N = 0")
    case True
    with assms circular have "?r = 0" "?w = 0" "n = 0"
      by (auto simp: buf_wf_def length_contents)
    with True N circular assms show ?thesis
      by (simp add: rskip_def dataSize_contents size_simps buf_wf_def contents_simps same_flags_def)
  next
    case False
    with assms circular have rw: "?r < ?N" "?w < ?N" by (auto simp: buf_wf_def)
    have n: "n \<le> (if ?w < ?r then ?N - ?r + ?w else ?w - ?r)"
      using assms circular by (simp add: length_contents)
    have "n \<le> sz_sub ?N 1" "?r + n \<le> 7 * size_limit"
      using n N rw by (auto simp: size_simps split: if_splits)
    then have "rskip circular n b = Inr ?b'"
      using assms circular N by (simp add: rskip_def dataSize_contents size_simps Let_def wrap_def)
    moreover have "buf_wf circular ?b'"
      using assms circular n rw by (auto simp: buf_wf_def wrap_def split: if_splits)
    moreover have "contents circular ?b' = drop n (contents circular b)"
      using ring_drop [of ?N ?d ?r ?w n] rw N assms circular by (simp add: contents_simps)
    ultimately show ?thesis using circular by (simp add: same_flags_def)
  qed
qed


lemma getArray_front:
  assumes "buf_wf Mode b" "n \<le> length (contents Mode b)"
  shows "getArray Mode (mReadPos b) n b = Inr (take n (contents Mode b))"
  using getDirect_front [OF assms] assms
  by (auto simp: getArray_def getDirect_def dataSize_contents rbind_simps split: BufferMode.splits if_splits)

text \<open>
  The reading law: \<open>n\<close> bytes of the contents are delivered in order and removed. The marks, the
  flags, the block and the write position stay.
\<close>

lemma readDirect_contents:
  assumes "buf_wf Mode b" "n \<le> length (contents Mode b)"
  shows "\<exists>b'. readDirect Mode n b = Inr (take n (contents Mode b), b') \<and> buf_wf Mode b' \<and>
    contents Mode b' = drop n (contents Mode b) \<and> same_flags b b' \<and>
    mWritePos b' = mWritePos b \<and> mAllocatedSize b' = mAllocatedSize b \<and> mData b' = mData b"
  using rskip_drop [OF assms] getDirect_front [OF assms]
  by (auto simp: readDirect_def rpos_def)

lemma readArray_readDirect:
  assumes "buf_wf Mode b" "n \<le> length (contents Mode b)"
  shows "readArray Mode n b = readDirect Mode n b"
  using getDirect_front [OF assms] getArray_front [OF assms]
  by (simp add: readArray_def readDirect_def rpos_def)

section \<open>Growing\<close>

lemma crunch_circular:
  assumes "buf_wf circular b"
  shows "\<exists>b'. crunch circular b = Inr b' \<and> buf_wf circular b' \<and> contents circular b' = contents circular b \<and>
    same_flags b b' \<and> mReadPos b' = 0 \<and> mWritePos b' = length (contents circular b) \<and>
    mAllocatedSize b' = mAllocatedSize b"
proof -
  let ?r = "mReadPos b" and ?w = "mWritePos b" and ?N = "mAllocatedSize b" and ?d = "blk (mData b)"
  let ?n = "length (contents circular b)"
  from assms have N: "block_size (mData b) = ?N" "?N \<le> 2 * size_limit"
    by (auto simp: buf_wf_def)
  have le: "?n \<le> ?N" "?r \<le> ?N" "?w \<le> ?N" "0 < ?N \<Longrightarrow> ?n < ?N" "?w < ?r \<Longrightarrow> ?r < ?N"
    using assms contents_less_alloc [OF assms] by (auto simp: length_contents buf_wf_def)
  define b' where "b' = b\<lparr>mData := block_patch (mData b) 0 (contents circular b), mReadPos := 0, mWritePos := ?n\<rparr>"
  have "buf_wf circular b'"
    using N le by (cases "?N = 0") (auto simp: buf_wf_def b'_def)
  moreover have "contents circular b' = contents circular b"
    using N le window_patch_inside [of 0 "contents circular b" ?d]
    unfolding contents_def [of circular b'] by (simp add: ring_def b'_def)
  ultimately have shown: "buf_wf circular b'" "contents circular b' = contents circular b" .
  show ?thesis
  proof (cases "?w < ?r")
    case True
    then have "sz_add (sz_sub ?N ?r) ?w = ?n" "0 < ?n" "?r + (?N - ?r) = ?N"
      using assms N le by (auto simp: length_contents size_simps)
    moreover have "window ?d ?r ?N @ window ?d 0 ?w = contents circular b"
      using True by (simp add: contents_simps ring_def)
    ultimately have "crunch circular b = Inr b'"
      using True N le
      by (simp add: crunch_def rpos_def wpos_def store_def mem_simps size_simps Let_def
          rpos_set_def wpos_set_def b'_def)
    with shown show ?thesis by (auto simp: b'_def same_flags_def)
  next
    case False
    then have n: "?n = ?w - ?r" "contents circular b = window ?d ?r ?w"
      using N le by (simp_all add: contents_simps ring_def)
    show ?thesis
    proof (cases "?r < ?w \<and> 0 < ?r")
      case True
      then have "crunch circular b = Inr b'"
        using False N le n
        by (simp add: crunch_def rpos_def wpos_def store_def mem_simps size_simps Let_def
            rpos_set_def wpos_set_def b'_def)
      with shown show ?thesis by (auto simp: b'_def same_flags_def)
    next
      case nomove: False
      then have "crunch circular b = Inr (b\<lparr>mReadPos := 0, mWritePos := ?n\<rparr>)"
        using False N le n
        by (auto simp: crunch_def rpos_def wpos_def size_simps Let_def rpos_set_def wpos_set_def)
      moreover have "contents circular (b\<lparr>mReadPos := 0, mWritePos := ?n\<rparr>) = contents circular b"
        using nomove False n by (auto simp: contents_simps ring_def)
      ultimately show ?thesis
        using assms le nomove by (auto simp: same_flags_def buf_wf_def)
    qed
  qed
qed


lemma blk_grown: "block_size m \<le> n \<Longrightarrow>
    blk (case m of None \<Rightarrow> malloc fr n | Some d \<Rightarrow> realloc fr (Some d) n) = blk m @ map fr [block_size m..<n]"
  by (cases m) (simp_all add: malloc_def realloc_def)

lemma window_append: "b \<le> length xs \<Longrightarrow> window (xs @ ys) a b = window xs a b"
  by (simp add: window_def)

text \<open>Growing keeps the contents and makes the block as large as asked.\<close>

lemma resize_contents:
  assumes "buf_wf Mode b" "mOnDemand b" "mAllocatedSize b < n" "n \<le> 2 * size_limit"
  shows "\<exists>b'. resize Mode n b = Inr b' \<and> buf_wf Mode b' \<and> contents Mode b' = contents Mode b \<and>
    same_flags b b' \<and> mAllocatedSize b' = n \<and> occupied Mode b' = occupied Mode b"
proof -
  define c where "c = (case Mode of circular \<Rightarrow> crunch circular b | plain \<Rightarrow> Inr b)"
  obtain b1 where b1: "c = Inr b1" "buf_wf Mode b1" "contents Mode b1 = contents Mode b" "same_flags b b1"
    "mAllocatedSize b1 = mAllocatedSize b" "occupied Mode b1 = occupied Mode b"
    "Mode = circular \<Longrightarrow> mReadPos b1 = 0"
    using assms(1) crunch_circular [of b] by (cases Mode) (auto simp: c_def occupied_def)
  define b' where "b' = b1\<lparr>mData := (case mData b1 of None \<Rightarrow> malloc (fresh b1) n
    | Some d \<Rightarrow> realloc (fresh b1) (Some d) n), mAllocatedSize := n\<rparr>"
  have blk': "blk (mData b') = blk (mData b1) @ map (fresh b1) [mAllocatedSize b..<n]"
    using blk_grown [of "mData b1" n "fresh b1"] b1 assms by (simp add: b'_def buf_wf_def)
  have size': "block_size (mData b') = n"
    using arg_cong [OF blk', of length] b1 assms by (simp add: buf_wf_def)
  have res: "resize Mode n b = Inr b'"
    using assms b1(1) by (simp add: resize_def c_def b'_def)
  have wf': "buf_wf Mode b'"
    using b1 assms size' by (auto simp: buf_wf_def b'_def split: BufferMode.splits)
  have le: "mWritePos b1 \<le> length (blk (mData b1))"
    using b1(2) by (auto simp: buf_wf_def split: BufferMode.splits)
  have pos: "mReadPos b' = mReadPos b1" "mWritePos b' = mWritePos b1"
    by (simp_all add: b'_def)
  from le have "contents Mode b' = contents Mode b1"
    using b1(7) by (cases Mode) (simp_all add: contents_simps blk' pos ring_def window_append)
  moreover have "same_flags b b'" "mAllocatedSize b' = n" "mWritePos b' = mWritePos b1"
    using b1(4) by (auto simp: b'_def same_flags_def)
  ultimately show ?thesis
    using res wf' b1 by (cases Mode) (auto simp: occupied_def)
qed

lemma make_room_contents:
  assumes "buf_wf Mode b" "room Mode n b"
  shows "\<exists>b'. make_room Mode n b = Inr b' \<and> buf_wf Mode b' \<and> contents Mode b' = contents Mode b \<and>
    same_flags b b' \<and> occupied Mode b' = occupied Mode b \<and> fits Mode n b'"
proof (cases Mode)
  case plain
  let ?s = "mWritePos b + n"
  have w: "mWritePos b \<le> mAllocatedSize b" "mAllocatedSize b \<le> 2 * size_limit"
    using assms plain by (auto simp: buf_wf_def)
  have s: "?s \<le> 7 * size_limit" "mOnDemand b \<Longrightarrow> ?s \<le> size_limit"
    using assms plain w by (auto simp: room_def occupied_def fits_def split: if_splits)
  show ?thesis
  proof (cases "mOnDemand b \<and> mAllocatedSize b < ?s")
    case True
    then have "?s \<le> round_up_size ?s" "round_up_size ?s < 2 * ?s"
      using round_up_size_limit [of ?s] s w by auto
    moreover obtain b' where "resize plain (round_up_size ?s) b = Inr b'" "buf_wf plain b'"
      "contents plain b' = contents plain b" "same_flags b b'"
      "mAllocatedSize b' = round_up_size ?s" "occupied plain b' = occupied plain b"
      using resize_contents [of plain b "round_up_size ?s"] True assms plain s calculation by auto
    ultimately show ?thesis
      using plain True s by (auto simp: make_room_def wpos_def size_simps fits_def occupied_def)
  next
    case False
    then show ?thesis
      using plain assms s by (auto simp: make_room_def wpos_def size_simps fits_def occupied_def room_def)
  qed
next
  case circular
  let ?s = "length (contents circular b) + n"
  have w: "mAllocatedSize b \<le> 2 * size_limit" "length (contents circular b) \<le> mAllocatedSize b"
    using assms circular contents_less_alloc [of b]
    by (cases "mAllocatedSize b = 0"; auto simp: buf_wf_def contents_simps ring_def)+
  have s: "?s + 1 \<le> 7 * size_limit" "mOnDemand b \<Longrightarrow> ?s \<le> size_limit"
    using assms circular w size_limit_pos
    by (auto simp: room_def occupied_def fits_def split: if_splits)
  show ?thesis
  proof (cases "mOnDemand b \<and> mAllocatedSize b < ?s + 1")
    case True
    have "?s \<le> round_up_size ?s" "round_up_size ?s + 1 \<le> 2 * size_limit" "mAllocatedSize b < round_up_size ?s + 1"
      using round_up_size_limit [of ?s] s True size_limit_pos by (cases "?s = 0"; auto)+
    moreover obtain b' where "resize circular (round_up_size ?s + 1) b = Inr b'" "buf_wf circular b'"
      "contents circular b' = contents circular b" "same_flags b b'"
      "mAllocatedSize b' = round_up_size ?s + 1" "occupied circular b' = occupied circular b"
      using resize_contents [of circular b "round_up_size ?s + 1"] True assms circular calculation by auto
    ultimately show ?thesis
      using circular True s assms
      by (auto simp: make_room_def dataSize_contents Let_def size_simps fits_def occupied_def)
  next
    case False
    then show ?thesis
      using circular assms s
      by (auto simp: make_room_def dataSize_contents Let_def size_simps fits_def occupied_def room_def)
  qed
qed


section \<open>Writing\<close>

lemma store_ok:
  "pos + length bs \<le> block_size (mData b) \<Longrightarrow> store pos bs b = Inr (b\<lparr>mData := block_patch (mData b) pos bs\<rparr>)"
  by (simp add: store_def mem_simps)

text \<open>The block after \<open>t\<close> has been stored at the write position of a ring, split at its end.\<close>

definition ring_store :: "block \<Rightarrow> nat \<Rightarrow> nat \<Rightarrow> u8 list \<Rightarrow> block" where
  "ring_store m N w t =
     (if w + length t > N then block_patch (block_patch m w (take (N - w) t)) 0 (drop (N - w) t)
      else block_patch m w t)"

lemma block_size_ring_store:
  "N = block_size m \<Longrightarrow> w \<le> N \<Longrightarrow> length t \<le> N \<Longrightarrow> block_size (ring_store m N w t) = N"
  by (simp add: ring_store_def)

lemma ring_ring_store:
  assumes N: "N = block_size m" "r < N" "w < N"
    and room: "length (ring (blk m) N r w) + length t < N"
  shows "ring (blk (ring_store m N w t)) N r (wrap N (w + length t)) = ring (blk m) N r w @ t"
proof -
  let ?d = "blk m" and ?n = "length t"
  have len: "length ?d = N" using N by simp
  have "w < r \<Longrightarrow> w + ?n < r"
    and "r \<le> w \<Longrightarrow> w + ?n < N \<or> (w + ?n = N \<and> 0 < r) \<or> (N < w + ?n \<and> w + ?n - N < r)"
    using room N by (auto simp: length_ring)
  then consider (ahead) "w < r" "w + ?n < r" | (inside) "r \<le> w" "w + ?n < N" | (edge) "r \<le> w" "w + ?n = N" "0 < r"
    | (split) "r \<le> w" "N < w + ?n" "w + ?n - N < r"
    by (meson not_less)
  then show ?thesis
  proof cases
    case ahead
    then have "window (patch ?d w t) 0 (w + ?n) = window ?d 0 w @ t"
      using len N window_split [of 0 w "w + ?n" "patch ?d w t"]
      by (simp add: window_patch_before window_patch_inside)
    moreover have "window (patch ?d w t) r N = window ?d r N"
      using ahead len N by (simp add: window_patch_after)
    ultimately show ?thesis using ahead N by (simp add: ring_store_def ring_def wrap_def)
  next
    case inside
    then have "window (patch ?d w t) r (w + ?n) = window ?d r w @ t"
      using len N window_split [of r w "w + ?n" "patch ?d w t"]
      by (simp add: window_patch_before window_patch_inside)
    then show ?thesis using inside N by (simp add: ring_store_def ring_def wrap_def)
  next
    case edge
    have "window (patch ?d w t) r (w + ?n) = window ?d r w @ t"
      using len edge window_split [of r w "w + ?n" "patch ?d w t"] window_patch_inside [of w t ?d]
      by (simp only: window_patch_before)
    then have "window (patch ?d w t) r N = window ?d r w @ t" by (simp only: edge(2))
    then show ?thesis using edge N by (simp add: ring_store_def ring_def wrap_def)
  next
    case split
    let ?k = "N - w" and ?d1 = "patch ?d w (take (N - w) t)"
    let ?d2 = "patch ?d1 0 (drop ?k t)"
    have d1: "length ?d1 = N" using len N split by simp
    have rest: "length (drop ?k t) = w + ?n - N" using split N by simp
    have "window ?d2 r N = window ?d1 r N"
      using split d1 rest by (intro window_patch_after) auto
    also have "\<dots> = window ?d1 r w @ window ?d1 w N"
      using split N by (intro window_split) auto
    also have "window ?d1 r w = window ?d r w"
      using split N len by (intro window_patch_before) auto
    also have "window ?d1 w N = take ?k t"
      using window_patch_inside [of w "take ?k t" ?d] split N len by simp
    finally have hi: "window ?d2 r N = window ?d r w @ take ?k t" .
    have lo: "window ?d2 0 (w + ?n - N) = drop ?k t"
      using window_patch_inside [of 0 "drop ?k t" ?d1] d1 rest split N by simp
    have "blk (ring_store m N w t) = ?d2"
      using split N by (simp add: ring_store_def)
    with hi lo split N show ?thesis by (simp add: ring_def wrap_def)
  qed
qed

lemma setDirect_skip:
  assumes wf: "buf_wf Mode b" and fits: "fits Mode (length t) b"
  shows "\<exists>b'. rbind (setDirect Mode t (mWritePos b) b) (wskip Mode (length t)) = Inr b' \<and>
    buf_wf Mode b' \<and> contents Mode b' = contents Mode b @ t \<and> same_flags b b' \<and>
    mAllocatedSize b' = mAllocatedSize b \<and> occupied Mode b' = occupied Mode b + length t"
proof (cases Mode)
  case plain
  let ?b' = "b\<lparr>mData := block_patch (mData b) (mWritePos b) t, mWritePos := mWritePos b + length t\<rparr>"
  have le: "mReadPos b \<le> mWritePos b" "mWritePos b + length t \<le> block_size (mData b)"
    "block_size (mData b) = mAllocatedSize b" "mAllocatedSize b \<le> 2 * size_limit"
    using assms plain by (auto simp: buf_wf_def fits_def occupied_def)
  then have "rbind (setDirect plain t (mWritePos b) b) (wskip plain (length t)) = Inr ?b'"
    by (simp add: setDirect_def store_ok wskip_def size_simps)
  moreover have "contents plain ?b' = contents plain b @ t"
    using le window_split [of "mReadPos b" "mWritePos b" "mWritePos b + length t" "patch (blk (mData b)) (mWritePos b) t"]
    by (simp add: contents_simps window_patch_before window_patch_inside)
  ultimately show ?thesis
    using plain le by (auto simp: buf_wf_def same_flags_def occupied_def)
next
  case circular
  let ?N = "mAllocatedSize b" and ?w = "mWritePos b" and ?r = "mReadPos b" and ?n = "length t"
  let ?m = "ring_store (mData b) ?N ?w t"
  let ?b' = "b\<lparr>mData := ?m, mWritePos := wrap ?N (?w + ?n)\<rparr>"
  have N: "block_size (mData b) = ?N" "?N \<le> 2 * size_limit" "?r < ?N" "?w < ?N"
    and room: "length (contents circular b) + ?n < ?N"
    using assms circular by (auto simp: buf_wf_def fits_def occupied_def)
  have small: "?w + ?n \<le> 7 * size_limit" "?n \<le> ?N" using room N by auto
  have stored: "setDirect circular t ?w b = Inr (b\<lparr>mData := ?m\<rparr>)"
    using N small by (simp add: setDirect_def ring_store_def store_ok size_simps Let_def)
  have wf1: "buf_wf circular (b\<lparr>mData := ?m\<rparr>)"
    using N small by (simp add: buf_wf_def block_size_ring_store)
  have "length (contents circular (b\<lparr>mData := ?m\<rparr>)) = length (contents circular b)"
    using wf1 wf circular by (simp add: length_contents)
  then have "freeSize circular (b\<lparr>mData := ?m\<rparr>) = ?N - 1 - length (contents circular b)"
    using freeSize_circular [OF wf1] N by simp
  moreover have "?n \<le> ?N - 1" "?n \<le> ?N - 1 - length (contents circular b)"
    using room by auto
  ultimately have skip: "wskip circular ?n (b\<lparr>mData := ?m\<rparr>) = Inr ?b'"
    using N small by (simp add: wskip_def size_simps Let_def wrap_def)
  have "ring (blk ?m) ?N ?r (wrap ?N (?w + ?n)) = ring (blk (mData b)) ?N ?r ?w @ t"
    using N room by (intro ring_ring_store) (simp_all add: contents_simps)
  then have cont: "contents circular ?b' = contents circular b @ t"
    by (simp add: contents_simps)
  moreover have "buf_wf circular ?b'"
    using N small by (auto simp: buf_wf_def block_size_ring_store wrap_def)
  ultimately show ?thesis
    using circular stored skip by (auto simp: same_flags_def occupied_def)
qed


lemma make_room_fixed: "make_room Mode n b = Inr b' \<Longrightarrow> mOnDemand b \<or> b' = b"
  by (auto simp: make_room_def rbind_simps Let_def split: BufferMode.splits if_splits)

text \<open>The writing law: with room, the bytes go to the end of the contents.\<close>

lemma writeDirect_contents:
  assumes "buf_wf Mode b" "room Mode (length t) b"
  shows "\<exists>b'. writeDirect Mode t b = Inr b' \<and> buf_wf Mode b' \<and> contents Mode b' = contents Mode b @ t \<and>
    same_flags b b' \<and> occupied Mode b' = occupied Mode b + length t \<and>
    (mOnDemand b \<or> mAllocatedSize b' = mAllocatedSize b)"
proof -
  obtain b1 where b1: "make_room Mode (length t) b = Inr b1" "buf_wf Mode b1" "contents Mode b1 = contents Mode b"
    "same_flags b b1" "occupied Mode b1 = occupied Mode b" "fits Mode (length t) b1"
    using make_room_contents [OF assms] by auto
  obtain b2 where b2: "rbind (setDirect Mode t (mWritePos b1) b1) (wskip Mode (length t)) = Inr b2" "buf_wf Mode b2"
    "contents Mode b2 = contents Mode b1 @ t" "same_flags b1 b2" "occupied Mode b2 = occupied Mode b1 + length t"
    "mAllocatedSize b2 = mAllocatedSize b1"
    using setDirect_skip [OF b1(2) b1(6)] by auto
  have "writeDirect Mode t b = Inr b2"
    using b1(1) b2(1) assms by (simp add: writeDirect_def wpos_def room_def)
  with b1 b2 make_room_fixed [OF b1(1)] show ?thesis by (auto intro: same_flags_trans)
qed

lemma fits_freeSize: "buf_wf Mode b \<Longrightarrow> fits Mode n b \<Longrightarrow> n \<le> freeSize Mode b"
  by (cases Mode) (auto simp: fits_def occupied_def freeSize_plain freeSize_circular length_contents)

lemma setArray_setDirect:
  assumes "buf_wf Mode b" "fits Mode (length t) b"
  shows "setArray Mode t (mWritePos b) b = setDirect Mode t (mWritePos b) b"
proof -
  have "length t \<le> freeSize Mode b" using assms by (rule fits_freeSize)
  moreover have "t = [] \<Longrightarrow> store (mWritePos b) t b = Inr b"
    using assms by (cases "mData b") (auto simp: store_def mem_write_def fits_def occupied_def buf_wf_def
        split: BufferMode.splits)
  ultimately show ?thesis
    by (auto simp: setArray_def setDirect_def split: BufferMode.splits)
qed

lemma writeArray_writeDirect:
  assumes "buf_wf Mode b" "room Mode (length t) b"
  shows "writeArray Mode t b = writeDirect Mode t b"
proof -
  obtain b1 where "make_room Mode (length t) b = Inr b1" "buf_wf Mode b1" "fits Mode (length t) b1"
    using make_room_contents [OF assms] by auto
  then show ?thesis
    using setArray_setDirect [of Mode b1 t] by (simp add: writeArray_def writeDirect_def wpos_def)
qed

section \<open>Refused writes and reads\<close>

lemma write_read_only:
  "mReadOnly b \<Longrightarrow> writeDirect Mode t b = Inl AssertFailed"
  "mReadOnly b \<Longrightarrow> writeArray Mode t b = Inl AssertFailed"
  by (simp_all add: writeDirect_def writeArray_def)

lemma make_room_full:
  assumes "buf_wf Mode b" "\<not> mOnDemand b" "\<not> fits Mode n b" "n \<le> size_limit"
  shows "make_room Mode n b = Inl AssertFailed"
proof (cases Mode)
  case plain
  then have "mWritePos b + n \<le> 7 * size_limit" "mAllocatedSize b < mWritePos b + n"
    using assms by (auto simp: buf_wf_def fits_def occupied_def)
  then show ?thesis using plain assms(2) by (simp add: make_room_def wpos_def size_simps)
next
  case circular
  have "length (contents circular b) \<le> mAllocatedSize b" "mAllocatedSize b \<le> 2 * size_limit"
    using assms circular by (auto simp: buf_wf_def contents_simps ring_def)
  then have "length (contents circular b) + n + 1 \<le> 7 * size_limit"
    "mAllocatedSize b < length (contents circular b) + n + 1"
    using assms circular size_limit_pos by (auto simp: fits_def occupied_def)
  then show ?thesis using circular assms(1,2) by (simp add: make_room_def dataSize_contents size_simps Let_def)
qed

lemma write_full:
  assumes "buf_wf Mode b" "\<not> mOnDemand b" "\<not> fits Mode (length t) b" "length t \<le> size_limit"
  shows "writeDirect Mode t b = Inl AssertFailed" "writeArray Mode t b = Inl AssertFailed"
  using make_room_full [OF assms]
  by (cases "mReadOnly b"; simp add: writeDirect_def writeArray_def)+

lemma getDirect_whole:
  assumes wf: "buf_wf circular b" and n: "n < mAllocatedSize b"
  shows "is_ok (getDirect circular n (mReadPos b) b)"
proof -
  let ?r = "mReadPos b" and ?N = "mAllocatedSize b"
  have N: "block_size (mData b) = ?N" "?N \<le> 2 * size_limit" "?r < ?N"
    using assms by (auto simp: buf_wf_def)
  then show ?thesis
    using n by (cases "?r + n \<le> ?N") (simp_all add: getDirect_def size_simps mem_simps Let_def)
qed

text \<open>A circular buffer never delivers bytes it does not hold: the attempt throws.\<close>

lemma circular_underflow:
  assumes wf: "buf_wf circular b" and n: "length (contents circular b) < n" "n < mAllocatedSize b"
  shows "readDirect circular n b = Inl LengthError" "readArray circular n b = Inl AssertFailed"
proof -
  have small: "mAllocatedSize b \<le> 2 * size_limit" and le: "n \<le> mAllocatedSize b - 1"
    using wf n by (simp_all add: buf_wf_def)
  have "rskip circular n b = Inl LengthError"
    using n small le by (simp add: rskip_def size_simps dataSize_contents [OF wf])
  then show "readDirect circular n b = Inl LengthError"
    using getDirect_whole [OF wf n(2)] by (auto simp: readDirect_def rpos_def is_ok_iff)
  show "readArray circular n b = Inl AssertFailed"
    using n by (simp add: readArray_def getArray_def dataSize_contents [OF wf])
qed


section \<open>Constructors, clearing and marks\<close>

lemma block_size_malloc [simp]: "block_size (malloc fr n) = n"
  by (simp add: malloc_def)

lemma constructors_wf:
  "buf_wf Mode (BufferBase_default fr)" "contents Mode (BufferBase_default fr) = []"
  by (cases Mode; simp add: BufferBase_default_def buf_wf_def contents_simps ring_def)+

lemma BufferBase_size_wf:
  assumes "0 < n" "n \<le> size_limit"
  shows "\<exists>b. BufferBase_size Mode fr n = Inr b \<and> buf_wf Mode b \<and> contents Mode b = [] \<and>
    \<not> mReadOnly b \<and> \<not> mOnDemand b \<and> freeSize Mode b = n \<and> (\<forall>k. fits Mode k b \<longleftrightarrow> k \<le> n)"
proof -
  obtain b where b: "BufferBase_size Mode fr n = Inr b"
    "mReadPos b = 0" "mWritePos b = 0" "\<not> mReadOnly b" "\<not> mOnDemand b"
    "mAllocatedSize b = (case Mode of plain \<Rightarrow> n | circular \<Rightarrow> n + 1)" "block_size (mData b) = mAllocatedSize b"
    using assms by (cases Mode) (auto simp: BufferBase_size_def Let_def size_simps)
  then have wf: "buf_wf Mode b" "contents Mode b = []"
    using assms by (cases Mode; simp add: buf_wf_def contents_simps ring_def)+
  with b show ?thesis
    by (cases Mode) (auto simp: fits_def occupied_def freeSize_plain freeSize_circular)
qed

lemma BufferBase_data_wf:
  "n \<le> 2 * size_limit \<Longrightarrow> block_size data = n \<Longrightarrow> buf_wf Mode (BufferBase_data fr data n)"
  "n \<le> 2 * size_limit \<Longrightarrow> block_size data = n \<Longrightarrow> buf_wf Mode (BufferBase_const_data fr data n)"
  by (cases Mode; auto simp: BufferBase_data_def BufferBase_const_data_def buf_wf_def)+

lemma clear_contents: "buf_wf Mode b \<Longrightarrow> buf_wf Mode (clear b)" "contents Mode (clear b) = []"
  by (cases Mode; auto simp: clear_def buf_wf_def contents_simps ring_def)+

text \<open>
  Reading can be undone: whatever was read after \<open>mark\<close>, \<open>reset\<close> brings back the contents that
  were there at the mark, as long as nothing is written in between.
\<close>

lemma mark_simps [simp]:
  "buf_wf Mode (mark b) = buf_wf Mode b" "contents Mode (mark b) = contents Mode b"
  "mReadOnly (mark b) = mReadOnly b" "mOnDemand (mark b) = mOnDemand b"
  "mData (mark b) = mData b" "mAllocatedSize (mark b) = mAllocatedSize b"
  "mReadPosMarked (mark b) = mReadPos b" "mWritePosMarked (mark b) = mWritePos b"
  by (cases Mode; simp add: mark_def buf_wf_def contents_simps)+

lemma reset_contents:
  assumes "same_flags (mark b) b'" "mData b' = mData b" "mAllocatedSize b' = mAllocatedSize b"
  shows "contents Mode (reset b') = contents Mode b" "buf_wf Mode (reset b') = buf_wf Mode b"
  using assms by (cases Mode; simp add: reset_def contents_simps buf_wf_def same_flags_def)+

lemma mark_read_reset:
  assumes "buf_wf Mode b" "n \<le> length (contents Mode b)"
  shows "\<exists>b'. readDirect Mode n (mark b) = Inr (take n (contents Mode b), b') \<and>
    contents Mode (reset b') = contents Mode b \<and> buf_wf Mode (reset b')"
  using readDirect_contents [of Mode "mark b" n] assms reset_contents [of b _ Mode] by auto

section \<open>Crunching, skipping and going back\<close>

lemma crunch_plain:
  assumes "buf_wf plain b"
  shows "\<exists>b'. crunch plain b = Inr b' \<and> buf_wf plain b' \<and> contents plain b' = contents plain b \<and>
    same_flags b b' \<and> mAllocatedSize b' = mAllocatedSize b \<and>
    (contents plain b \<noteq> [] \<longrightarrow> mReadPos b' = 0 \<and> occupied plain b' = length (contents plain b))"
proof -
  let ?r = "mReadPos b" and ?w = "mWritePos b" and ?d = "blk (mData b)"
  have le: "?r \<le> ?w" "?w \<le> block_size (mData b)" "block_size (mData b) = mAllocatedSize b"
    "mAllocatedSize b \<le> 2 * size_limit"
    using assms by (auto simp: buf_wf_def)
  have n: "length (contents plain b) = ?w - ?r" "contents plain b = window ?d ?r ?w"
    using le by (simp_all add: contents_simps)
  show ?thesis
  proof (cases "?r < ?w \<and> 0 < ?r")
    case True
    let ?b' = "b\<lparr>mData := block_patch (mData b) 0 (window ?d ?r ?w), mReadPos := 0, mWritePos := ?w - ?r\<rparr>"
    have "crunch plain b = Inr ?b'"
      using True le assms n
      by (simp add: crunch_def dataSize_contents rpos_def wpos_def store_def mem_simps
          rpos_set_def wpos_set_def Let_def)
    moreover have "contents plain ?b' = contents plain b"
      using le n window_patch_inside [of 0 "window ?d ?r ?w" ?d] by (simp add: contents_simps)
    moreover have "buf_wf plain ?b'" using le by (simp add: buf_wf_def)
    ultimately show ?thesis using n by (auto simp: same_flags_def occupied_def)
  next
    case False
    then have "crunch plain b = Inr b"
      using assms n by (auto simp: crunch_def dataSize_contents rpos_def)
    then show ?thesis using assms False n by (auto simp: occupied_def)
  qed
qed

lemma rskip_rrev:
  assumes "buf_wf Mode b" "n \<le> length (contents Mode b)"
  shows "rbind (rskip Mode n b) (rrev Mode n) = Inr b"
proof (cases "n = 0 \<and> mAllocatedSize b = 0")
  case True
  with assms show ?thesis
    by (cases Mode) (auto simp: rskip_def rrev_def dataSize_contents buf_wf_def size_simps sz_sub_def size_mod_def)
next
  case False
  have N: "mAllocatedSize b \<le> 2 * size_limit" using assms by (simp add: buf_wf_def)
  show ?thesis
  proof (cases Mode)
    case plain
    with assms N have "mReadPos b + n \<le> mAllocatedSize b"
      by (auto simp: length_contents buf_wf_def)
    with plain N show ?thesis by (simp add: rskip_def rrev_def size_simps)
  next
    case circular
    have "mAllocatedSize b \<noteq> 0"
      using assms False circular by (auto simp: buf_wf_def length_contents)
    then have rw: "mReadPos b < mAllocatedSize b" "n \<le> mAllocatedSize b - 1" "0 < mAllocatedSize b"
      "mReadPos b + n \<le> 7 * size_limit"
      using assms circular False contents_less_alloc [of b] N by (auto simp: buf_wf_def)
    have skip: "rskip circular n b = Inr (b\<lparr>mReadPos := wrap (mAllocatedSize b) (mReadPos b + n)\<rparr>)"
      using assms circular rw N by (simp add: rskip_def dataSize_contents size_simps Let_def wrap_def)
    show ?thesis
      using skip circular rw N by (cases "mReadPos b + n < mAllocatedSize b")
        (simp_all add: rrev_def size_simps wrap_def)
  qed
qed

section \<open>Sample buffers\<close>

text \<open>A circular buffer of three bytes at the end of its ring, and a plain one with two bytes to read.\<close>

definition ring_sample :: buffer where
  "ring_sample = \<lparr>mData = Some [9, 9, 9, 9], mAllocatedSize = 4, mOwner = True, mReadOnly = False, mOnDemand = False,
     mReadPos = 3, mWritePos = 3, mReadPosMarked = 0, mWritePosMarked = 0, mContext = None, fresh = (\<lambda>_. 0)\<rparr>"

definition plain_sample :: buffer where
  "plain_sample = \<lparr>mData = Some [5, 6, 7, 0], mAllocatedSize = 4, mOwner = True, mReadOnly = False, mOnDemand = False,
     mReadPos = 1, mWritePos = 3, mReadPosMarked = 0, mWritePosMarked = 0, mContext = None, fresh = (\<lambda>_. 0)\<rparr>"

lemma ring_sample_facts:
  "buf_wf circular ring_sample" "contents circular ring_sample = []" "n \<le> 3 \<Longrightarrow> room circular n ring_sample"
  "mAllocatedSize ring_sample = 4" "\<not> mOnDemand ring_sample" "\<not> mReadOnly ring_sample" "fits circular n ring_sample \<longleftrightarrow> n \<le> 3"
  by (auto simp: ring_sample_def buf_wf_def size_limit_def contents_def ring_def room_def fits_def occupied_def)

lemma plain_sample_facts:
  "buf_wf plain plain_sample" "contents plain plain_sample = [6, 7]" "n \<le> 1 \<Longrightarrow> room plain n plain_sample"
  "mAllocatedSize plain_sample = 4" "\<not> mOnDemand plain_sample" "fits plain n plain_sample \<longleftrightarrow> n \<le> 1"
  by (auto simp: plain_sample_def buf_wf_def size_limit_def contents_def window_def room_def fits_def occupied_def)

section \<open>Properties\<close>



text \<open>
  A circular buffer never delivers bytes it does not hold: reading one value that is larger than
  the contents throws \<open>std::length_error\<close>, reading an array stops at the assertion.
\<close>

theorem circular_read_underflow:
  assumes "buf_wf circular b" "length (contents circular b) < n" "n < mAllocatedSize b"
  shows "readDirect circular n b = Inl LengthError \<and> readArray circular n b = Inl AssertFailed"
  using circular_underflow [OF assms] by simp

theorem circular_read_underflow_witness:
  "readDirect circular 2 ring_sample = Inl LengthError \<and> readArray circular 2 ring_sample = Inl AssertFailed"
  using ring_sample_facts by (intro circular_read_underflow) simp_all

text \<open>
  A default-constructed buffer grows on demand: any run of bytes up to the size limit can be
  written to it, and is what it then holds.
\<close>

theorem default_buffer_grows:
  assumes "length t \<le> size_limit"
  shows "\<exists>b. writeArray Mode t (BufferBase_default fr) = Inr b \<and> buf_wf Mode b \<and> contents Mode b = t"
proof -
  have r: "room Mode (length t) (BufferBase_default fr)"
    using assms constructors_wf(2) [of Mode fr]
    by (cases Mode) (simp_all add: room_def occupied_def BufferBase_default_def)
  show ?thesis
    using writeDirect_contents [OF constructors_wf(1) r] writeArray_writeDirect [OF constructors_wf(1) r]
      constructors_wf(2) [of Mode fr] by auto
qed

theorem default_buffer_grows_witness:
  "\<exists>b. writeArray circular [1, 2, 3] (BufferBase_default (\<lambda>_. 0)) = Inr b \<and> buf_wf circular b \<and> contents circular b = [1, 2, 3]"
  by (rule default_buffer_grows) (simp add: size_limit_def)

text \<open>
  Reading can be undone: \<open>mark\<close>, then a read of \<open>n\<close> bytes, then \<open>reset\<close> leaves the contents as they
  were at the mark.
\<close>

theorem mark_reset_undoes_read:
  assumes "buf_wf Mode b" "n \<le> length (contents Mode b)"
  shows "\<exists>b'. readDirect Mode n (mark b) = Inr (take n (contents Mode b), b') \<and>
    contents Mode b' = drop n (contents Mode b) \<and> contents Mode (reset b') = contents Mode b \<and> buf_wf Mode (reset b')"
  using readDirect_contents [of Mode "mark b" n] assms reset_contents [of b _ Mode] by auto

theorem mark_reset_undoes_read_witness:
  "\<exists>b'. readDirect plain 2 (mark plain_sample) = Inr (take 2 (contents plain plain_sample), b') \<and>
    contents plain b' = drop 2 (contents plain plain_sample) \<and> contents plain (reset b') = contents plain plain_sample \<and>
    buf_wf plain (reset b')"
  using plain_sample_facts by (intro mark_reset_undoes_read) simp_all

text \<open>
  Crunching moves the unread bytes to the front of the block and changes nothing else: the
  contents, the flags and the size stay, and a non-empty buffer reads from position zero.
\<close>

theorem crunch_keeps_contents:
  assumes "buf_wf Mode b"
  shows "\<exists>b'. crunch Mode b = Inr b' \<and> buf_wf Mode b' \<and> contents Mode b' = contents Mode b \<and> same_flags b b' \<and>
    mAllocatedSize b' = mAllocatedSize b \<and> (contents Mode b \<noteq> [] \<longrightarrow> mReadPos b' = 0)"
  using crunch_circular [of b] crunch_plain [of b] assms by (cases Mode) auto

theorem crunch_keeps_contents_witness:
  "\<exists>b'. crunch plain plain_sample = Inr b' \<and> buf_wf plain b' \<and> contents plain b' = contents plain plain_sample \<and>
    same_flags plain_sample b' \<and> mAllocatedSize b' = mAllocatedSize plain_sample \<and>
    (contents plain plain_sample \<noteq> [] \<longrightarrow> mReadPos b' = 0)"
  using plain_sample_facts by (intro crunch_keeps_contents)

text \<open>
  Clearing the free space with \<open>zero\<close> overruns the block as soon as bytes have been read: it
  clears \<open>freeSize()\<close> bytes from the write position on, but the free bytes of a plain buffer include
  those in front of the read position.
\<close>

theorem zero_overruns:
  assumes "buf_wf plain b" "0 < mReadPos b" "0 < freeSize plain b"
  shows "zero plain b = Inl MemFault"
proof -
  have "mReadPos b \<le> mWritePos b" "mWritePos b \<le> mAllocatedSize b" "block_size (mData b) = mAllocatedSize b"
    using assms(1) by (auto simp: buf_wf_def)
  moreover have "freeSize plain b = mAllocatedSize b - (mWritePos b - mReadPos b)"
    using assms(1) by (simp add: freeSize_plain length_contents)
  ultimately have "block_size (mData b) < wpos b + length (replicate (freeSize plain b) (0 :: u8))"
    "replicate (freeSize plain b) (0 :: u8) \<noteq> []"
    using assms by (auto simp: wpos_def)
  then show ?thesis unfolding zero_def mem_set_def by (simp add: mem_simps)
qed

theorem zero_overruns_witness: "zero plain plain_sample = Inl MemFault"
  using plain_sample_facts(1) by (intro zero_overruns) (simp_all add: plain_sample_def buffer_eval)

end
