(* ===== verification/Buffer_Queue.thy ===== *)
theory Buffer_Queue
  imports Buffer_Spec
begin

text \<open>
  The contract between a byte buffer and the code that reads and writes it, as a locale: a queue
  of bytes with a bound on what can be written. The clients' lemmas (a refinement of whole
  sequences of reads and writes, delivery of written records in order) are proved once in the
  locale and hold for the plain and the circular mode and for both families of operations,
  \<open>writeDirect\<close>/\<open>readDirect\<close> and \<open>writeArray\<close>/\<open>readArray\<close>.
\<close>

section \<open>Sequences of reads and writes\<close>

datatype buf_op = Put "u8 list" | Get nat

text \<open>A sequence on the queue itself: a read beyond the end is not possible.\<close>

fun queue_run :: "buf_op list \<Rightarrow> u8 list \<Rightarrow> (u8 list list \<times> u8 list) option" where
  "queue_run [] q = Some ([], q)"
| "queue_run (Put t # ops) q = queue_run ops (q @ t)"
| "queue_run (Get n # ops) q =
     (if n \<le> length q
      then map_option (\<lambda>(outs, q'). (take n q # outs, q')) (queue_run ops (drop n q))
      else None)"

text \<open>The same sequence on a state with fallible operations.\<close>

fun op_run :: "(u8 list \<Rightarrow> 's \<Rightarrow> 's result) \<Rightarrow> (nat \<Rightarrow> 's \<Rightarrow> (u8 list \<times> 's) result) \<Rightarrow> buf_op list \<Rightarrow> 's
    \<Rightarrow> (u8 list list \<times> 's) result" where
  "op_run put get [] s = Inr ([], s)"
| "op_run put get (Put t # ops) s = rbind (put t s) (op_run put get ops)"
| "op_run put get (Get n # ops) s =
     rbind (get n s) (\<lambda>(t, s). rbind (op_run put get ops s) (\<lambda>(outs, s). Inr (t # outs, s)))"

fun total_put :: "buf_op list \<Rightarrow> nat" where
  "total_put [] = 0"
| "total_put (Put t # ops) = length t + total_put ops"
| "total_put (Get n # ops) = total_put ops"

lemma queue_run_conserves:
  "queue_run ops q = Some (outs, q') \<Longrightarrow>
     q @ concat (map (\<lambda>op. case op of Put t \<Rightarrow> t | Get _ \<Rightarrow> []) ops) = concat outs @ q'"
proof (induction ops q arbitrary: outs rule: queue_run.induct)
  case (3 n ops q)
  then obtain outs' where "n \<le> length q" "queue_run ops (drop n q) = Some (outs', q')" "outs = take n q # outs'"
    by (auto split: if_splits)
  with "3.IH" [of outs'] show ?case by simp (metis append_assoc append_take_drop_id)
qed simp_all

lemma queue_run_puts: "queue_run (map Put rs @ ops) q = queue_run ops (q @ concat rs)"
  by (induction rs arbitrary: q) simp_all

lemma queue_run_gets: "queue_run (map (\<lambda>r. Get (length r)) rs) (concat rs @ q) = Some (rs, q)"
  by (induction rs) simp_all

lemma queue_run_records:
  "queue_run (map Put rs @ map (\<lambda>r. Get (length r)) rs) [] = Some (rs, [])"
  using queue_run_gets [of rs "[]"] by (simp add: queue_run_puts)

lemma total_put_append: "total_put (ops @ ops') = total_put ops + total_put ops'"
  by (induction ops rule: total_put.induct) simp_all

lemma total_put_records:
  "total_put (map Put rs @ map (\<lambda>r. Get (length r)) rs') = sum_list (map length rs)"
proof -
  have "total_put (map (\<lambda>r. Get (length r)) rs') = 0" by (induction rs') simp_all
  moreover have "total_put (map Put rs) = sum_list (map length rs)" by (induction rs) simp_all
  ultimately show ?thesis by (simp add: total_put_append)
qed

section \<open>The contract\<close>

locale byte_queue =
  fixes inv :: "'s \<Rightarrow> bool"
    and bytes :: "'s \<Rightarrow> u8 list"
    and can_put :: "nat \<Rightarrow> 's \<Rightarrow> bool"
    and put :: "u8 list \<Rightarrow> 's \<Rightarrow> 's result"
    and get :: "nat \<Rightarrow> 's \<Rightarrow> (u8 list \<times> 's) result"
  assumes put_ok: "inv s \<Longrightarrow> can_put (length t + n) s \<Longrightarrow>
      \<exists>s'. put t s = Inr s' \<and> inv s' \<and> bytes s' = bytes s @ t \<and> can_put n s'"
    and get_ok: "inv s \<Longrightarrow> n \<le> length (bytes s) \<Longrightarrow>
      \<exists>s'. get n s = Inr (take n (bytes s), s') \<and> inv s' \<and> bytes s' = drop n (bytes s) \<and>
        (\<forall>k. can_put k s \<longrightarrow> can_put k s')"
begin

lemma refines_queue:
  assumes "inv s" "can_put (total_put ops) s" "queue_run ops (bytes s) = Some (outs, q)"
  shows "\<exists>s'. op_run put get ops s = Inr (outs, s') \<and> inv s' \<and> bytes s' = q"
  using assms
proof (induction ops arbitrary: s outs)
  case (Cons op ops)
  show ?case
  proof (cases op)
    case (Put t)
    then obtain s1 where "put t s = Inr s1" "inv s1" "bytes s1 = bytes s @ t" "can_put (total_put ops) s1"
      using put_ok [of s t "total_put ops"] Cons.prems by auto
    then show ?thesis using Put Cons.IH [of s1 outs] Cons.prems by auto
  next
    case (Get n)
    then obtain outs' where o: "n \<le> length (bytes s)" "queue_run ops (drop n (bytes s)) = Some (outs', q)"
      "outs = take n (bytes s) # outs'"
      using Cons.prems by (auto split: if_splits)
    then obtain s1 where "get n s = Inr (take n (bytes s), s1)" "inv s1" "bytes s1 = drop n (bytes s)"
      "can_put (total_put ops) s1"
      using get_ok [of s n] Cons.prems Get by auto
    then show ?thesis using Get Cons.IH [of s1 outs'] o by auto
  qed
qed simp

lemma delivers_records:
  assumes "inv s" "bytes s = []" "can_put (sum_list (map length rs)) s"
  shows "\<exists>s'. op_run put get (map Put rs @ map (\<lambda>r. Get (length r)) rs) s = Inr (rs, s') \<and> inv s' \<and> bytes s' = []"
  using assms by (intro refines_queue) (simp_all add: total_put_records queue_run_records)

lemma conserves_bytes:
  assumes "inv s" "can_put (total_put ops) s" "queue_run ops (bytes s) \<noteq> None"
  shows "\<exists>outs s'. op_run put get ops s = Inr (outs, s') \<and>
    bytes s @ concat (map (\<lambda>op. case op of Put t \<Rightarrow> t | Get _ \<Rightarrow> []) ops) = concat outs @ bytes s'"
proof -
  obtain outs q where run: "queue_run ops (bytes s) = Some (outs, q)" using assms by auto
  from refines_queue [OF assms(1,2) run] queue_run_conserves [OF run] show ?thesis by blast
qed

end

section \<open>The buffer keeps the contract\<close>

lemma room_split: "room Mode (m + n) b \<Longrightarrow> room Mode m b"
  by (auto simp: room_def fits_def split: if_splits BufferMode.splits)

lemma room_after_write:
  assumes "room Mode (m + n) b" "same_flags b b'" "occupied Mode b' = occupied Mode b + m"
    "mOnDemand b \<or> mAllocatedSize b' = mAllocatedSize b"
  shows "room Mode n b'"
  using assms by (auto simp: room_def fits_def same_flags_def split: BufferMode.splits if_splits)

lemma writeDirect_put:
  assumes "buf_wf Mode b" "room Mode (length t + n) b"
  shows "\<exists>b'. writeDirect Mode t b = Inr b' \<and> buf_wf Mode b' \<and> contents Mode b' = contents Mode b @ t \<and> room Mode n b'"
  using writeDirect_contents [OF assms(1) room_split [OF assms(2)]] room_after_write [OF assms(2)] by blast

lemma room_after_read:
  assumes "buf_wf Mode b" "buf_wf Mode b'" "same_flags b b'" "mWritePos b' = mWritePos b"
    "mAllocatedSize b' = mAllocatedSize b" "length (contents Mode b') \<le> length (contents Mode b)"
  shows "room Mode k b \<Longrightarrow> room Mode k b'"
  using assms by (auto simp: room_def fits_def occupied_def same_flags_def split: BufferMode.splits if_splits)

lemma readDirect_get:
  assumes "buf_wf Mode b" "n \<le> length (contents Mode b)"
  shows "\<exists>b'. readDirect Mode n b = Inr (take n (contents Mode b), b') \<and> buf_wf Mode b' \<and>
    contents Mode b' = drop n (contents Mode b) \<and> (\<forall>k. room Mode k b \<longrightarrow> room Mode k b')"
proof -
  obtain b' where b': "readDirect Mode n b = Inr (take n (contents Mode b), b')" "buf_wf Mode b'"
    "contents Mode b' = drop n (contents Mode b)" "same_flags b b'" "mWritePos b' = mWritePos b"
    "mAllocatedSize b' = mAllocatedSize b"
    using readDirect_contents [OF assms] by auto
  then show ?thesis using room_after_read [OF assms(1) b'(2,4,5,6)] by auto
qed

interpretation direct: byte_queue "buf_wf Mode" "contents Mode" "room Mode" "writeDirect Mode" "readDirect Mode"
  for Mode
  by unfold_locales (simp_all add: writeDirect_put readDirect_get)

interpretation arr: byte_queue "buf_wf Mode" "contents Mode" "room Mode" "writeArray Mode" "readArray Mode"
  for Mode
  by unfold_locales
    (simp_all add: writeDirect_put readDirect_get writeArray_writeDirect readArray_readDirect room_split)

section \<open>Properties\<close>



end
