(* ===== verification/UUID.thy ===== *)
theory UUID
  imports Prelude
begin

text \<open>
  The identifier class \<open>UUID\<close> of \<open>include/utility/UUIDUtil.h\<close> on its two 64-bit halves (the branch of
  the preprocessor conditions for 64-bit words): validity, assignment, the comparison operators, the
  hash, and the object representation the buffer copies. Parsing, formatting and generating go
  through the Apache Portable Runtime and are not modelled.
\<close>

section \<open>State and operations\<close>

record UUID =
  u64_0 :: u64
  u64_1 :: u64

definition UUID_copy :: "UUID \<Rightarrow> UUID" where
  "UUID_copy i = \<lparr>u64_0 = u64_0 i, u64_1 = u64_1 i\<rparr>"

definition valid :: "UUID \<Rightarrow> bool" where
  "valid i = (u64_0 i \<noteq> 0 \<or> u64_1 i \<noteq> 0)"

definition invalid :: "UUID \<Rightarrow> bool" where
  "invalid i = (u64_0 i = 0 \<and> u64_1 i = 0)"

definition invalidate :: "UUID \<Rightarrow> UUID" where
  "invalidate i = i\<lparr>u64_0 := 0, u64_1 := 0\<rparr>"

text \<open>\<open>operator =\<close> of \<open>this\<close> and \<open>id\<close>; the boolean says whether they are the same object.\<close>

definition UUID_assign :: "bool \<Rightarrow> UUID \<Rightarrow> UUID \<Rightarrow> UUID" where
  "UUID_assign same this i = (if same then this else this\<lparr>u64_0 := u64_0 i, u64_1 := u64_1 i\<rparr>)"

definition UUID_eq :: "UUID \<Rightarrow> UUID \<Rightarrow> bool" where
  "UUID_eq a b = (u64_0 a = u64_0 b \<and> u64_1 a = u64_1 b)"

definition UUID_ne :: "UUID \<Rightarrow> UUID \<Rightarrow> bool" where
  "UUID_ne a b = (\<not> UUID_eq a b)"

definition UUID_lt :: "UUID \<Rightarrow> UUID \<Rightarrow> bool" where
  "UUID_lt a b =
     (if u64_0 a = u64_0 b
      then if u64_1 a = u64_1 b then False else if u64_1 a < u64_1 b then True else False
      else if u64_0 a < u64_0 b then True else False)"

definition UUID_gt :: "UUID \<Rightarrow> UUID \<Rightarrow> bool" where
  "UUID_gt a b = (\<not> UUID_lt a b)"

definition UUID_le :: "UUID \<Rightarrow> UUID \<Rightarrow> bool" where
  "UUID_le a b = (UUID_lt a b \<or> UUID_eq a b)"

definition UUID_ge :: "UUID \<Rightarrow> UUID \<Rightarrow> bool" where
  "UUID_ge a b = (UUID_gt a b \<or> UUID_eq a b)"

definition UUID_hash :: "UUID \<Rightarrow> u64" where
  "UUID_hash x = u64_0 x + u64_1 x"

definition UUIDHasher_equal :: "UUID \<Rightarrow> UUID \<Rightarrow> bool" where
  "UUIDHasher_equal x y = UUID_eq x y"

definition UUID_bytes :: "UUID \<Rightarrow> u8 list" where
  "UUID_bytes i = le_bytes 8 (unat (u64_0 i)) @ le_bytes 8 (unat (u64_1 i))"

definition UUID_of_bytes :: "u8 list \<Rightarrow> UUID" where
  "UUID_of_bytes bs = \<lparr>u64_0 = word_of_nat (le_value (take 8 bs)), u64_1 = word_of_nat (le_value (drop 8 bs))\<rparr>"

section \<open>Laws\<close>

lemma UUID_eq_iff: "UUID_eq a b \<longleftrightarrow> a = b"
  by (auto simp: UUID_eq_def)

lemma UUID_lt_lex: "UUID_lt a b \<longleftrightarrow> (u64_0 a, u64_1 a) \<noteq> (u64_0 b, u64_1 b) \<and>
    (u64_0 a < u64_0 b \<or> u64_0 a = u64_0 b \<and> u64_1 a \<le> u64_1 b)"
  by (auto simp: UUID_lt_def)

lemma UUID_lt_trans: "UUID_lt a b \<Longrightarrow> UUID_lt b c \<Longrightarrow> UUID_lt a c"
  by (auto simp: UUID_lt_def split: if_splits)

lemma UUID_lt_irrefl: "\<not> UUID_lt a a"
  by (simp add: UUID_lt_def)

lemma UUID_lt_total: "UUID_lt a b \<or> a = b \<or> UUID_lt b a"
  by (auto simp: UUID_lt_def)

lemma unat_u64_less: "unat (x :: u64) < 18446744073709551616"
  using unsigned_less [of x, where 'a = nat] by simp

lemma length_UUID_bytes [simp]: "length (UUID_bytes i) = 16"
  by (simp add: UUID_bytes_def)

lemma UUID_of_UUID_bytes [simp]: "UUID_of_bytes (UUID_bytes i) = i"
  by (simp add: UUID_of_bytes_def UUID_bytes_def le_value_bytes unat_u64_less)

text \<open>
  The locale of strict total orders that \<open>std::map\<close> and \<open>std::set\<close> require of a key comparison, and
  what follows: incomparable keys are the same key.
\<close>

locale strict_key_order =
  fixes lt :: "'k \<Rightarrow> 'k \<Rightarrow> bool"
  assumes irrefl: "\<not> lt a a"
    and trans: "lt a b \<Longrightarrow> lt b c \<Longrightarrow> lt a c"
    and total: "lt a b \<or> a = b \<or> lt b a"
begin

lemma asym: "lt a b \<Longrightarrow> \<not> lt b a"
  using irrefl trans by blast

lemma incomparable_eq: "\<not> lt a b \<Longrightarrow> \<not> lt b a \<Longrightarrow> a = b"
  using total by blast

end

interpretation uuid: strict_key_order UUID_lt
  by unfold_locales (use UUID_lt_irrefl UUID_lt_trans UUID_lt_total in blast)+

section \<open>Properties\<close>

text \<open>
  \<open>operator <\<close> of UUIDs is a strict total order that agrees with \<open>operator ==\<close>, as the ordered
  containers require, and the copied object representation identifies the UUID.
\<close>

theorem UUID_strict_order:
  "(UUID_lt a b \<and> UUID_lt b c \<longrightarrow> UUID_lt a c) \<and> (UUID_lt a b \<longrightarrow> \<not> UUID_lt b a) \<and>
   (\<not> UUID_lt a b \<and> \<not> UUID_lt b a \<longleftrightarrow> UUID_eq a b) \<and> UUID_of_bytes (UUID_bytes a) = a"
  using uuid.trans [of a b c] uuid.asym [of a b] uuid.incomparable_eq [of a b] uuid.irrefl [of a]
  by (auto simp: UUID_eq_iff)

theorem UUID_strict_order_witness:
  "let a = \<lparr>u64_0 = 1, u64_1 = 2\<rparr>; b = \<lparr>u64_0 = 1, u64_1 = 3\<rparr>; c = \<lparr>u64_0 = 2, u64_1 = 0\<rparr> in
   UUID_lt a b \<and> UUID_lt b c \<and> UUID_lt a c"
  using UUID_strict_order [of "\<lparr>u64_0 = 1, u64_1 = 2\<rparr>" "\<lparr>u64_0 = 1, u64_1 = 3\<rparr>" "\<lparr>u64_0 = 2, u64_1 = 0\<rparr>"]
  by (simp add: UUID_lt_def)

text \<open>
  \<open>operator >\<close> is defined as not less, so it holds between equal UUIDs, and \<open>a > b\<close> and \<open>b > a\<close>
  hold together exactly when the two are equal.
\<close>

theorem UUID_gt_reflexive: "UUID_gt a a \<and> (UUID_gt a b \<and> UUID_gt b a \<longleftrightarrow> UUID_eq a b)"
  using uuid.irrefl [of a] uuid.incomparable_eq [of a b] by (auto simp: UUID_gt_def UUID_eq_iff)

end
