(* ===== verification/Buffer_Serial.thy ===== *)
theory Buffer_Serial
  imports Buffer_Queue UUID
begin

text \<open>
  Serialization of C++ values through \<open>BufferBase\<close>: the overloads of \<open>writeBuiltin\<close>, \<open>readBuiltin\<close>
  and \<open>probeSizeBuiltin\<close> in \<open>include/core/Buffer.h\<close>, one definition each, and the templates \<open>write\<close>,
  \<open>read\<close> and \<open>probeSize\<close> that select among them by the static type. \<open>encode\<close> is the byte format;
  writing appends it, reading inverts it, and \<open>probeSize\<close> is its length where the code intends so.
\<close>

section \<open>Types and values\<close>

datatype scalar = int8 | uint8 | int16 | uint16 | int32 | uint32 | int64 | uint64 | float32 | float64

text \<open>
  The static types the templates distinguish. A serializable class is known by \<open>sizeof\<close>, its
  alignment and the types of the members that its \<open>serialize\<close> hands to the archive, in order.
\<close>

datatype ctype =
    TScalar scalar | TBool | TString | TWString | TCStr | TUUID | TErrorCode
  | TVector ctype | TList ctype | TMap ctype ctype | TPair ctype ctype | TArray ctype nat
  | TStruct nat nat "ctype list"

datatype error_category = system_category | generic_category | posix_category | other_category nat

text \<open>
  A scalar is its bit pattern read as an unsigned number (two's complement and IEEE formats are
  only copied here). The containers carry their element types, which select overloads; a
  \<open>std::map\<close> is its list of entries in iteration order. A character is its byte, a \<open>wchar_t\<close> its
  32 bits.
\<close>

datatype cvalue =
    VScalar scalar nat | VBool bool | VString "u8 list" | VWString "u32 list" | VCStr "u8 list"
  | VUUID UUID | VErrorCode u32 error_category
  | VVector ctype "cvalue list" | VList ctype "cvalue list" | VMap ctype ctype "(cvalue \<times> cvalue) list"
  | VPair cvalue cvalue | VArray ctype "cvalue list" | VStruct nat nat "cvalue list"

primrec scalar_size :: "scalar \<Rightarrow> nat" where
  "scalar_size int8 = 1" | "scalar_size uint8 = 1" | "scalar_size int16 = 2" | "scalar_size uint16 = 2"
| "scalar_size int32 = 4" | "scalar_size uint32 = 4" | "scalar_size int64 = 8" | "scalar_size uint64 = 8"
| "scalar_size float32 = 4" | "scalar_size float64 = 8"

definition align_up :: "nat \<Rightarrow> nat \<Rightarrow> nat" where
  "align_up a n = (n + a - 1) div a * a"

text \<open>Sizes and alignments of the 64-bit platform of the sources.\<close>

primrec alignof :: "ctype \<Rightarrow> nat" where
  "alignof (TScalar s) = scalar_size s"
| "alignof TBool = 1" | "alignof TString = 8" | "alignof TWString = 8" | "alignof TCStr = 8"
| "alignof TUUID = 1" | "alignof TErrorCode = 8"
| "alignof (TVector T) = 8" | "alignof (TList T) = 8" | "alignof (TMap K V) = 8"
| "alignof (TPair A B) = max (alignof A) (alignof B)"
| "alignof (TArray T n) = alignof T"
| "alignof (TStruct sz al Ts) = al"

primrec sizeof :: "ctype \<Rightarrow> nat" where
  "sizeof (TScalar s) = scalar_size s"
| "sizeof TBool = 1" | "sizeof TString = 8" | "sizeof TWString = 8" | "sizeof TCStr = 8"
| "sizeof TUUID = 16" | "sizeof TErrorCode = 16"
| "sizeof (TVector T) = 24" | "sizeof (TList T) = 16" | "sizeof (TMap K V) = 48"
| "sizeof (TPair A B) =
     align_up (max (alignof A) (alignof B)) (align_up (alignof B) (sizeof A) + sizeof B)"
| "sizeof (TArray T n) = n * sizeof T"
| "sizeof (TStruct sz al Ts) = sz"

fun is_variable_types :: "ctype \<Rightarrow> bool" where
  "is_variable_types TString = True" | "is_variable_types TWString = True" | "is_variable_types TCStr = True"
| "is_variable_types (TVector T) = True" | "is_variable_types (TList T) = True"
| "is_variable_types (TMap K V) = True"
| "is_variable_types T = False"

fun is_builtin_types :: "ctype \<Rightarrow> bool" where
  "is_builtin_types (TStruct sz al Ts) = False"
| "is_builtin_types T = True"

fun is_direct_types :: "ctype \<Rightarrow> bool" where
  "is_direct_types (TScalar s) = True" | "is_direct_types TUUID = True" | "is_direct_types TCStr = True"
| "is_direct_types T = False"

definition MAX_STRING_LENGTH :: nat where "MAX_STRING_LENGTH = 8192"
definition MAX_VECTOR_LENGTH :: nat where "MAX_VECTOR_LENGTH = 65536"
definition MAX_LIST_LENGTH :: nat where "MAX_LIST_LENGTH = 65536"
definition MAX_ARRAY_LENGTH :: nat where "MAX_ARRAY_LENGTH = 65536"

primrec type_of :: "cvalue \<Rightarrow> ctype" where
  "type_of (VScalar s n) = TScalar s" | "type_of (VBool x) = TBool" | "type_of (VString bs) = TString"
| "type_of (VWString ws) = TWString" | "type_of (VCStr bs) = TCStr" | "type_of (VUUID bs) = TUUID"
| "type_of (VErrorCode c cat) = TErrorCode"
| "type_of (VVector T vs) = TVector T" | "type_of (VList T vs) = TList T"
| "type_of (VMap K V kvs) = TMap K V" | "type_of (VPair x y) = TPair (type_of x) (type_of y)"
| "type_of (VArray T vs) = TArray T (length vs)"
| "type_of (VStruct sz al vs) = TStruct sz al (map type_of vs)"

section \<open>Writing\<close>

text \<open>A \<open>size_t\<close> length assigned to an \<open>uint32\<close>.\<close>

definition to_uint32 :: "nat \<Rightarrow> nat" where "to_uint32 n = n mod 4294967296"

definition uint32_bytes :: "nat \<Rightarrow> u8 list" where "uint32_bytes n = le_bytes 4 n"

text \<open>The writes of a loop over the elements of a container, one after the other.\<close>

fun write_each :: "(buffer \<Rightarrow> buffer result) list \<Rightarrow> buffer \<Rightarrow> buffer result" where
  "write_each [] b = Inr b"
| "write_each (w # ws) b = rbind (w b) (write_each ws)"

definition writeBuiltin_scalar :: "BufferMode \<Rightarrow> scalar \<Rightarrow> nat \<Rightarrow> buffer \<Rightarrow> buffer result" where
  "writeBuiltin_scalar Mode s n = writeDirect Mode (le_bytes (scalar_size s) n)"

definition writeBuiltin_bool :: "BufferMode \<Rightarrow> bool \<Rightarrow> buffer \<Rightarrow> buffer result" where
  "writeBuiltin_bool Mode value = (let x = (if value then 1 else 0) in writeDirect Mode [x])"

definition writeBuiltin_string :: "BufferMode \<Rightarrow> u8 list \<Rightarrow> buffer \<Rightarrow> buffer result" where
  "writeBuiltin_string Mode value b =
     (let length = to_uint32 (length value) in
      if length \<le> MAX_STRING_LENGTH
      then rbind (writeDirect Mode (uint32_bytes length) b) (writeArray Mode (take length value))
      else Inl AssertFailed)"

definition wchar_bytes :: "u32 list \<Rightarrow> u8 list" where
  "wchar_bytes ws = concat (map (\<lambda>w. le_bytes 4 (unat w)) ws)"

definition writeBuiltin_wstring :: "BufferMode \<Rightarrow> u32 list \<Rightarrow> buffer \<Rightarrow> buffer result" where
  "writeBuiltin_wstring Mode value b =
     (let length = to_uint32 (length value); bytes_count = to_uint32 (length * 4) in
      if length \<le> MAX_STRING_LENGTH
      then rbind (writeDirect Mode (uint32_bytes length) b)
             (writeArray Mode (take bytes_count (wchar_bytes value)))
      else Inl AssertFailed)"

definition writeBuiltin_cstr :: "BufferMode \<Rightarrow> u8 list \<Rightarrow> buffer \<Rightarrow> buffer result" where
  "writeBuiltin_cstr Mode value b =
     (let length = to_uint32 (length (takeWhile (\<lambda>c. c \<noteq> 0) value)) in
      if length \<le> MAX_STRING_LENGTH
      then rbind (writeDirect Mode (uint32_bytes length) b) (writeArray Mode (take length value))
      else Inl AssertFailed)"

definition writeBuiltin_UUID :: "BufferMode \<Rightarrow> UUID \<Rightarrow> buffer \<Rightarrow> buffer result" where
  "writeBuiltin_UUID Mode value = writeDirect Mode (UUID_bytes value)"

definition writeBuiltin_vector :: "BufferMode \<Rightarrow> (buffer \<Rightarrow> buffer result) list \<Rightarrow> buffer \<Rightarrow> buffer result" where
  "writeBuiltin_vector Mode ws b =
     (let length = to_uint32 (length ws) in
      if length \<le> MAX_VECTOR_LENGTH
      then rbind (writeDirect Mode (uint32_bytes length) b) (write_each ws)
      else Inl AssertFailed)"

definition writeBuiltin_list :: "BufferMode \<Rightarrow> (buffer \<Rightarrow> buffer result) list \<Rightarrow> buffer \<Rightarrow> buffer result" where
  "writeBuiltin_list Mode ws b =
     (let length = to_uint32 (length ws) in
      if length \<le> MAX_VECTOR_LENGTH
      then rbind (writeDirect Mode (uint32_bytes length) b) (write_each ws)
      else Inl AssertFailed)"

definition writeBuiltin_map ::
    "BufferMode \<Rightarrow> ((buffer \<Rightarrow> buffer result) \<times> (buffer \<Rightarrow> buffer result)) list \<Rightarrow> buffer \<Rightarrow> buffer result" where
  "writeBuiltin_map Mode kws b =
     (let length = to_uint32 (length kws) in
      if length \<le> MAX_VECTOR_LENGTH
      then rbind (writeDirect Mode (uint32_bytes length) b) (write_each (concat (map (\<lambda>(k, v). [k, v]) kws)))
      else Inl AssertFailed)"

definition writeBuiltin_pair :: "(buffer \<Rightarrow> buffer result) \<Rightarrow> (buffer \<Rightarrow> buffer result) \<Rightarrow> buffer \<Rightarrow> buffer result" where
  "writeBuiltin_pair first second b = rbind (first b) second"

text \<open>The object representation of a direct element, as it lies in a \<open>boost::array\<close>.\<close>

fun object_bytes :: "cvalue \<Rightarrow> u8 list" where
  "object_bytes (VScalar s n) = le_bytes (scalar_size s) n"
| "object_bytes (VUUID i) = UUID_bytes i"
| "object_bytes v = []"

definition writeBoostArrayImpl_native :: "BufferMode \<Rightarrow> cvalue list \<Rightarrow> buffer \<Rightarrow> buffer result" where
  "writeBoostArrayImpl_native Mode value = writeArray Mode (concat (map object_bytes value))"

definition writeBoostArrayImpl_non_native :: "(buffer \<Rightarrow> buffer result) list \<Rightarrow> buffer \<Rightarrow> buffer result" where
  "writeBoostArrayImpl_non_native ws = write_each ws"

definition writeBuiltin_boost_array ::
    "BufferMode \<Rightarrow> ctype \<Rightarrow> cvalue list \<Rightarrow> (buffer \<Rightarrow> buffer result) list \<Rightarrow> buffer \<Rightarrow> buffer result" where
  "writeBuiltin_boost_array Mode T value ws b =
     (let N = length value in
      if N * sizeof T \<le> MAX_ARRAY_LENGTH
      then let length = to_uint32 (N * sizeof T) in
           rbind (writeDirect Mode (uint32_bytes length) b)
             (if is_direct_types T then writeBoostArrayImpl_native Mode value
              else writeBoostArrayImpl_non_native ws)
      else Inl AssertFailed)"

definition writeBuiltin_error_code :: "BufferMode \<Rightarrow> u32 \<Rightarrow> error_category \<Rightarrow> buffer \<Rightarrow> buffer result" where
  "writeBuiltin_error_code Mode code category b =
     rbind (writeDirect Mode (le_bytes 4 (unat code)) b) (\<lambda>b.
     rbind (if category = system_category then Inr 0
            else if category = generic_category then Inr 1
            else if category = posix_category then Inr 2
            else Inl AssertFailed) (\<lambda>cat.
       writeDirect Mode (le_bytes 4 cat) b))"

definition writeSerializable :: "(buffer \<Rightarrow> buffer result) list \<Rightarrow> buffer \<Rightarrow> buffer result" where
  "writeSerializable ws b = rbind (assert_that (\<not> mReadOnly b)) (\<lambda>_. write_each ws b)"

primrec write_value :: "BufferMode \<Rightarrow> cvalue \<Rightarrow> buffer \<Rightarrow> buffer result" where
  "write_value Mode (VScalar s n) = writeBuiltin_scalar Mode s n"
| "write_value Mode (VBool x) = writeBuiltin_bool Mode x"
| "write_value Mode (VString bs) = writeBuiltin_string Mode bs"
| "write_value Mode (VWString ws) = writeBuiltin_wstring Mode ws"
| "write_value Mode (VCStr bs) = writeBuiltin_cstr Mode bs"
| "write_value Mode (VUUID bs) = writeBuiltin_UUID Mode bs"
| "write_value Mode (VErrorCode c cat) = writeBuiltin_error_code Mode c cat"
| "write_value Mode (VVector T vs) = writeBuiltin_vector Mode (map (write_value Mode) vs)"
| "write_value Mode (VList T vs) = writeBuiltin_list Mode (map (write_value Mode) vs)"
| "write_value Mode (VMap K V kvs) = writeBuiltin_map Mode (map (map_prod (write_value Mode) (write_value Mode)) kvs)"
| "write_value Mode (VPair x y) = writeBuiltin_pair (write_value Mode x) (write_value Mode y)"
| "write_value Mode (VArray T vs) = writeBuiltin_boost_array Mode T vs (map (write_value Mode) vs)"
| "write_value Mode (VStruct sz al vs) = writeSerializable (map (write_value Mode) vs)"

section \<open>Reading\<close>

text \<open>The reads of a loop, collecting what each delivers.\<close>

fun read_each :: "(buffer \<Rightarrow> ('v \<times> buffer) result) list \<Rightarrow> buffer \<Rightarrow> ('v list \<times> buffer) result" where
  "read_each [] b = Inr ([], b)"
| "read_each (r # rs) b = rbind (r b) (\<lambda>(x, b). rbind (read_each rs b) (\<lambda>(xs, b). Inr (x # xs, b)))"

definition with_value :: "('v \<Rightarrow> 'w) \<Rightarrow> ('v \<times> buffer) result \<Rightarrow> ('w \<times> buffer) result" where
  "with_value f m = rbind m (\<lambda>(x, b). Inr (f x, b))"

definition readBuiltin_scalar :: "BufferMode \<Rightarrow> scalar \<Rightarrow> buffer \<Rightarrow> (nat \<times> buffer) result" where
  "readBuiltin_scalar Mode s b = with_value le_value (readDirect Mode (scalar_size s) b)"

definition readBuiltin_bool :: "BufferMode \<Rightarrow> buffer \<Rightarrow> (bool \<times> buffer) result" where
  "readBuiltin_bool Mode b = with_value (\<lambda>x. if x > 0 then True else False) (readBuiltin_scalar Mode uint8 b)"

definition readBuiltin_string :: "BufferMode \<Rightarrow> buffer \<Rightarrow> (u8 list \<times> buffer) result" where
  "readBuiltin_string Mode b =
     rbind (readBuiltin_scalar Mode uint32 b) (\<lambda>(length, b).
     rbind (if length \<le> MAX_STRING_LENGTH
            then case Mode of
                   plain \<Rightarrow> mem_read (mData b) (rpos b) length
                 | circular \<Rightarrow>
                     if sz_add (rpos b) length \<le> mAllocatedSize b
                     then mem_read (mData b) (rpos b) length
                     else let size_to_end = sz_sub (mAllocatedSize b) (rpos b) in
                          rbind (mem_read (mData b) (rpos b) size_to_end) (\<lambda>t1.
                          rbind (mem_read (mData b) 0 (sz_sub length size_to_end)) (\<lambda>t2. Inr (t1 @ t2)))
            else Inl AssertFailed) (\<lambda>value.
     rbind (rskip Mode length b) (\<lambda>b. Inr (value, b))))"

fun wchars :: "u8 list \<Rightarrow> u32 list" where
  "wchars (a # b # c # d # bs) = word_of_nat (le_value [a, b, c, d]) # wchars bs"
| "wchars bs = []"

definition readBuiltin_wstring :: "BufferMode \<Rightarrow> buffer \<Rightarrow> (u32 list \<times> buffer) result" where
  "readBuiltin_wstring Mode b =
     rbind (readBuiltin_scalar Mode uint32 b) (\<lambda>(length, b).
     let bytes_count = to_uint32 (length * 4) in
     rbind (if length \<le> MAX_STRING_LENGTH
            then case Mode of
                   plain \<Rightarrow> mem_read (mData b) (rpos b) (length * 4)
                 | circular \<Rightarrow>
                     if sz_add (rpos b) bytes_count \<le> mAllocatedSize b
                     then mem_read (mData b) (rpos b) (length * 4)
                     else Inl AssertFailed
            else Inl AssertFailed) (\<lambda>value.
     rbind (rskip Mode bytes_count b) (\<lambda>b. Inr (wchars value, b))))"

definition readBuiltin_cstr :: "BufferMode \<Rightarrow> buffer \<Rightarrow> (u8 list \<times> buffer) result" where
  "readBuiltin_cstr Mode b =
     rbind (readBuiltin_scalar Mode uint32 b) (\<lambda>(length, b).
     rbind (if length \<le> MAX_STRING_LENGTH
            then rbind (assert_that (length \<le> dataSize Mode b)) (\<lambda>_. getArray Mode (rpos b) length b)
            else Inl AssertFailed) (\<lambda>value.
     rbind (rskip Mode length b) (\<lambda>b. Inr (value, b))))"

definition readBuiltin_UUID :: "BufferMode \<Rightarrow> buffer \<Rightarrow> (UUID \<times> buffer) result" where
  "readBuiltin_UUID Mode b = with_value UUID_of_bytes (readDirect Mode 16 b)"

definition readBuiltin_vector ::
    "BufferMode \<Rightarrow> (buffer \<Rightarrow> ('v \<times> buffer) result) \<Rightarrow> buffer \<Rightarrow> ('v list \<times> buffer) result" where
  "readBuiltin_vector Mode read b =
     rbind (readBuiltin_scalar Mode uint32 b) (\<lambda>(length, b).
       if length \<le> MAX_VECTOR_LENGTH then read_each (replicate length read) b else Inl AssertFailed)"

definition readBuiltin_list ::
    "BufferMode \<Rightarrow> (buffer \<Rightarrow> ('v \<times> buffer) result) \<Rightarrow> buffer \<Rightarrow> ('v list \<times> buffer) result" where
  "readBuiltin_list Mode read b =
     rbind (readBuiltin_scalar Mode uint32 b) (\<lambda>(length, b).
       if length \<le> MAX_LIST_LENGTH then read_each (replicate length read) b else Inl AssertFailed)"

definition readBuiltin_pair ::
    "(buffer \<Rightarrow> ('v \<times> buffer) result) \<Rightarrow> (buffer \<Rightarrow> ('w \<times> buffer) result) \<Rightarrow> buffer \<Rightarrow> (('v \<times> 'w) \<times> buffer) result" where
  "readBuiltin_pair read_first read_second b =
     rbind (read_first b) (\<lambda>(x, b). rbind (read_second b) (\<lambda>(y, b). Inr ((x, y), b)))"

text \<open>
  \<open>value[k] = v\<close> on a \<open>std::map\<close> with comparison \<open>lt\<close>: overwrite the entry with an equivalent key,
  or insert a new one at its place in the order.
\<close>

fun map_assign :: "('k \<Rightarrow> 'k \<Rightarrow> bool) \<Rightarrow> 'k \<Rightarrow> 'v \<Rightarrow> ('k \<times> 'v) list \<Rightarrow> ('k \<times> 'v) list" where
  "map_assign lt k v [] = [(k, v)]"
| "map_assign lt k v ((k', v') # kvs) =
     (if lt k' k then (k', v') # map_assign lt k v kvs
      else if lt k k' then (k, v) # (k', v') # kvs
      else (k', v) # kvs)"

definition readBuiltin_map ::
    "BufferMode \<Rightarrow> ('k \<Rightarrow> 'k \<Rightarrow> bool) \<Rightarrow> (buffer \<Rightarrow> ('k \<times> buffer) result) \<Rightarrow> (buffer \<Rightarrow> ('v \<times> buffer) result)
       \<Rightarrow> buffer \<Rightarrow> (('k \<times> 'v) list \<times> buffer) result" where
  "readBuiltin_map Mode lt read_key read_val b =
     rbind (readBuiltin_scalar Mode uint32 b) (\<lambda>(length, b).
       if length \<le> MAX_LIST_LENGTH
       then with_value (\<lambda>kvs. foldl (\<lambda>m (k, v). map_assign lt k v m) [] kvs)
              (read_each (replicate length (readBuiltin_pair read_key read_val)) b)
       else Inl AssertFailed)"

fun object_values :: "ctype \<Rightarrow> nat \<Rightarrow> u8 list \<Rightarrow> cvalue list" where
  "object_values T 0 bs = []"
| "object_values T (Suc n) bs =
     (case T of TScalar s \<Rightarrow> VScalar s (le_value (take (scalar_size s) bs)) | _ \<Rightarrow> VUUID (UUID_of_bytes (take 16 bs)))
       # object_values T n (drop (sizeof T) bs)"

definition readBoostArrayImpl_native :: "BufferMode \<Rightarrow> ctype \<Rightarrow> nat \<Rightarrow> buffer \<Rightarrow> (cvalue list \<times> buffer) result" where
  "readBoostArrayImpl_native Mode T N b = with_value (object_values T N) (readArray Mode (N * sizeof T) b)"

definition readBoostArrayImpl_non_native ::
    "(buffer \<Rightarrow> ('v \<times> buffer) result) \<Rightarrow> nat \<Rightarrow> buffer \<Rightarrow> ('v list \<times> buffer) result" where
  "readBoostArrayImpl_non_native read N = read_each (replicate N read)"

definition readBuiltin_boost_array ::
    "BufferMode \<Rightarrow> ctype \<Rightarrow> nat \<Rightarrow> (buffer \<Rightarrow> (cvalue \<times> buffer) result) \<Rightarrow> buffer \<Rightarrow> (cvalue list \<times> buffer) result" where
  "readBuiltin_boost_array Mode T N read b =
     rbind (readBuiltin_scalar Mode uint32 b) (\<lambda>(length, b).
       if length = N * sizeof T
       then if is_direct_types T then readBoostArrayImpl_native Mode T N b
            else readBoostArrayImpl_non_native read N b
       else Inl AssertFailed)"

definition readBuiltin_error_code :: "BufferMode \<Rightarrow> buffer \<Rightarrow> ((u32 \<times> error_category) \<times> buffer) result" where
  "readBuiltin_error_code Mode b =
     rbind (readBuiltin_scalar Mode int32 b) (\<lambda>(code, b).
     rbind (readBuiltin_scalar Mode int32 b) (\<lambda>(category, b).
       if category = 0 then Inr ((word_of_nat code, system_category), b)
       else if category = 1 then Inr ((word_of_nat code, generic_category), b)
       else if category = 2 then Inr ((word_of_nat code, posix_category), b)
       else Inl AssertFailed))"

definition readSerializable :: "(buffer \<Rightarrow> ('v \<times> buffer) result) list \<Rightarrow> buffer \<Rightarrow> ('v list \<times> buffer) result" where
  "readSerializable rs b = read_each rs b"

text \<open>
  \<open>std::lt\<close> on the key types: signed and unsigned integers, IEEE numbers (the sign-magnitude
  order, a NaN unordered), strings by their characters, UUIDs by their
  \<open>operator <\<close>, pairs lexicographically. Keys
  of other types have no order here.
\<close>

definition signed_of :: "nat \<Rightarrow> nat \<Rightarrow> int" where
  "signed_of n x = (if 2 * x < 256 ^ n then int x else int x - int (256 ^ n))"

definition ieee_rank :: "nat \<Rightarrow> nat \<Rightarrow> int" where
  "ieee_rank n x = (if 2 * x < 256 ^ n then int x else - (int x - int (256 ^ n) div 2))"

definition ieee_nan :: "scalar \<Rightarrow> nat \<Rightarrow> bool" where
  "ieee_nan s x = (if s = float32 then x mod 2147483648 > 2139095040
                   else x mod 9223372036854775808 > 9218868437227405312)"

definition scalar_less :: "scalar \<Rightarrow> nat \<Rightarrow> nat \<Rightarrow> bool" where
  "scalar_less s x y =
     (if s \<in> {int8, int16, int32, int64} then signed_of (scalar_size s) x < signed_of (scalar_size s) y
      else if s \<in> {float32, float64}
      then \<not> ieee_nan s x \<and> \<not> ieee_nan s y \<and> ieee_rank (scalar_size s) x < ieee_rank (scalar_size s) y
      else x < y)"

fun lex_less :: "('a \<Rightarrow> 'a \<Rightarrow> bool) \<Rightarrow> 'a list \<Rightarrow> 'a list \<Rightarrow> bool" where
  "lex_less lt [] ys = (ys \<noteq> [])"
| "lex_less lt xs [] = False"
| "lex_less lt (x # xs) (y # ys) = (lt x y \<or> \<not> lt y x \<and> lex_less lt xs ys)"

text \<open>Whether the first key is less than the second, and whether it is greater.\<close>

primrec key_compare :: "cvalue \<Rightarrow> cvalue \<Rightarrow> bool \<times> bool" where
  "key_compare (VScalar s x) w =
     (case w of VScalar s' y \<Rightarrow> (scalar_less s x y, scalar_less s y x) | _ \<Rightarrow> (False, False))"
| "key_compare (VBool x) w = (case w of VBool y \<Rightarrow> (\<not> x \<and> y, x \<and> \<not> y) | _ \<Rightarrow> (False, False))"
| "key_compare (VString xs) w =
     (case w of VString ys \<Rightarrow> (lex_less (<) xs ys, lex_less (<) ys xs) | _ \<Rightarrow> (False, False))"
| "key_compare (VWString xs) w =
     (case w of
        VWString ys \<Rightarrow> (lex_less (\<lambda>x y. sint x < sint y) xs ys, lex_less (\<lambda>x y. sint x < sint y) ys xs)
      | _ \<Rightarrow> (False, False))"
| "key_compare (VCStr xs) w = (False, False)"
| "key_compare (VUUID x) w = (case w of VUUID y \<Rightarrow> (UUID_lt x y, UUID_lt y x) | _ \<Rightarrow> (False, False))"
| "key_compare (VErrorCode c cat) w = (False, False)"
| "key_compare (VVector T xs) w = (False, False)"
| "key_compare (VList T xs) w = (False, False)"
| "key_compare (VMap K V xs) w = (False, False)"
| "key_compare (VPair a b) w =
     (case w of
        VPair c d \<Rightarrow> (fst (key_compare a c) \<or> \<not> snd (key_compare a c) \<and> fst (key_compare b d),
                      snd (key_compare a c) \<or> \<not> fst (key_compare a c) \<and> snd (key_compare b d))
      | _ \<Rightarrow> (False, False))"
| "key_compare (VArray T xs) w = (False, False)"
| "key_compare (VStruct sz al xs) w = (False, False)"

definition key_less :: "cvalue \<Rightarrow> cvalue \<Rightarrow> bool" where
  "key_less v w = fst (key_compare v w)"

primrec read_value :: "BufferMode \<Rightarrow> ctype \<Rightarrow> buffer \<Rightarrow> (cvalue \<times> buffer) result" where
  "read_value Mode (TScalar s) = (\<lambda>b. with_value (VScalar s) (readBuiltin_scalar Mode s b))"
| "read_value Mode TBool = (\<lambda>b. with_value VBool (readBuiltin_bool Mode b))"
| "read_value Mode TString = (\<lambda>b. with_value VString (readBuiltin_string Mode b))"
| "read_value Mode TWString = (\<lambda>b. with_value VWString (readBuiltin_wstring Mode b))"
| "read_value Mode TCStr = (\<lambda>b. with_value VCStr (readBuiltin_cstr Mode b))"
| "read_value Mode TUUID = (\<lambda>b. with_value VUUID (readBuiltin_UUID Mode b))"
| "read_value Mode TErrorCode = (\<lambda>b. with_value (\<lambda>(c, cat). VErrorCode c cat) (readBuiltin_error_code Mode b))"
| "read_value Mode (TVector T) = (\<lambda>b. with_value (VVector T) (readBuiltin_vector Mode (read_value Mode T) b))"
| "read_value Mode (TList T) = (\<lambda>b. with_value (VList T) (readBuiltin_list Mode (read_value Mode T) b))"
| "read_value Mode (TMap K V) = (\<lambda>b.
     with_value (VMap K V) (readBuiltin_map Mode key_less (read_value Mode K) (read_value Mode V) b))"
| "read_value Mode (TPair A B) = (\<lambda>b.
     with_value (\<lambda>(x, y). VPair x y) (readBuiltin_pair (read_value Mode A) (read_value Mode B) b))"
| "read_value Mode (TArray T n) = (\<lambda>b. with_value (VArray T) (readBuiltin_boost_array Mode T n (read_value Mode T) b))"
| "read_value Mode (TStruct sz al Ts) = (\<lambda>b. with_value (VStruct sz al) (readSerializable (map (read_value Mode) Ts) b))"

section \<open>Probing sizes\<close>

text \<open>Sizes of objects in memory: the sums stay below the range of \<open>size_t\<close>.\<close>

definition probeSize_type :: "ctype \<Rightarrow> nat" where
  "probeSize_type T = (if T = TBool then 1 else sizeof T)"

definition probeSizeBuiltinForVector_variable :: "nat list \<Rightarrow> nat" where
  "probeSizeBuiltinForVector_variable sizes = sum_list sizes"

definition probeSizeBuiltinForVector_fixed :: "nat list \<Rightarrow> nat" where
  "probeSizeBuiltinForVector_fixed sizes = (if length sizes = 0 then 0 else length sizes * hd sizes)"

definition probeSizeBuiltin_vector :: "ctype \<Rightarrow> nat list \<Rightarrow> nat" where
  "probeSizeBuiltin_vector T sizes =
     4 + (if is_variable_types T then probeSizeBuiltinForVector_variable sizes
          else probeSizeBuiltinForVector_fixed sizes)"

definition probeSizeBuiltinForList_variable :: "nat list \<Rightarrow> nat" where
  "probeSizeBuiltinForList_variable sizes = sum_list sizes"

definition probeSizeBuiltinForList_fixed :: "nat list \<Rightarrow> nat" where
  "probeSizeBuiltinForList_fixed sizes = (if length sizes = 0 then 0 else length sizes * hd sizes)"

definition probeSizeBuiltin_list :: "ctype \<Rightarrow> nat list \<Rightarrow> nat" where
  "probeSizeBuiltin_list T sizes =
     4 + (if is_variable_types T then probeSizeBuiltinForList_variable sizes
          else probeSizeBuiltinForList_fixed sizes)"

definition probeSizeBuiltinForMap_variable :: "(nat \<times> nat) list \<Rightarrow> nat" where
  "probeSizeBuiltinForMap_variable sizes = sum_list (map (\<lambda>(k, v). k + v) sizes)"

definition probeSizeBuiltinForMap_fixed :: "(nat \<times> nat) list \<Rightarrow> nat" where
  "probeSizeBuiltinForMap_fixed sizes =
     (if length sizes = 0 then 0 else length sizes * (fst (hd sizes) + snd (hd sizes)))"

definition probeSizeBuiltin_map :: "ctype \<Rightarrow> ctype \<Rightarrow> (nat \<times> nat) list \<Rightarrow> nat" where
  "probeSizeBuiltin_map K V sizes =
     4 + (if is_variable_types K \<or> is_variable_types V then probeSizeBuiltinForMap_variable sizes
          else probeSizeBuiltinForMap_fixed sizes)"

definition probeSizeBuiltin_boost_array :: "ctype \<Rightarrow> nat \<Rightarrow> nat" where
  "probeSizeBuiltin_boost_array T N = N * sizeof T + 4"

definition probeSizeBuiltin_bool :: nat where "probeSizeBuiltin_bool = 1"

definition probeSizeBuiltin_cstr :: "u8 list \<Rightarrow> nat" where
  "probeSizeBuiltin_cstr value = length (takeWhile (\<lambda>c. c \<noteq> 0) value) + 4"

definition probeSizeBuiltin_string :: "u8 list \<Rightarrow> nat" where
  "probeSizeBuiltin_string value = length value + 4"

definition probeSizeBuiltin_wstring :: "u32 list \<Rightarrow> nat" where
  "probeSizeBuiltin_wstring value = (length value + 1) * 4"

definition probeSizeBuiltin_Buffer :: "BufferMode \<Rightarrow> buffer \<Rightarrow> nat" where
  "probeSizeBuiltin_Buffer Mode value = dataSize Mode value + 4"

definition probeSizeBuiltin_error_code :: nat where "probeSizeBuiltin_error_code = 4 + 4"

definition probeSizeBuiltin_pair :: "nat \<Rightarrow> nat \<Rightarrow> nat" where
  "probeSizeBuiltin_pair first second = first + second"

text \<open>The archive that a serializable class fills: it adds up the sizes of the members.\<close>

definition probeSizeSerializable :: "nat list \<Rightarrow> nat" where
  "probeSizeSerializable sizes = foldl (+) 0 sizes"

primrec probeSize :: "cvalue \<Rightarrow> nat" where
  "probeSize (VScalar s n) = sizeof (TScalar s)"
| "probeSize (VBool x) = probeSizeBuiltin_bool"
| "probeSize (VString bs) = probeSizeBuiltin_string bs"
| "probeSize (VWString ws) = probeSizeBuiltin_wstring ws"
| "probeSize (VCStr bs) = probeSizeBuiltin_cstr bs"
| "probeSize (VUUID i) = sizeof TUUID"
| "probeSize (VErrorCode c cat) = probeSizeBuiltin_error_code"
| "probeSize (VVector T vs) = probeSizeBuiltin_vector T (map probeSize vs)"
| "probeSize (VList T vs) = probeSizeBuiltin_list T (map probeSize vs)"
| "probeSize (VMap K V kvs) = probeSizeBuiltin_map K V (map (map_prod probeSize probeSize) kvs)"
| "probeSize (VPair x y) = probeSizeBuiltin_pair (probeSize x) (probeSize y)"
| "probeSize (VArray T vs) = probeSizeBuiltin_boost_array T (length vs)"
| "probeSize (VStruct sz al vs) = probeSizeSerializable (map probeSize vs)"

section \<open>Nested buffers\<close>

text \<open>
  A buffer written into a buffer: its length and its unread bytes, which are consumed (the code
  casts the const away). The results pair the outer buffer with the nested one.
\<close>

definition writeBuiltin_Buffer :: "BufferMode \<Rightarrow> BufferMode \<Rightarrow> buffer \<Rightarrow> buffer \<Rightarrow> (buffer \<times> buffer) result" where
  "writeBuiltin_Buffer Mode M value b =
     (let length = to_uint32 (dataSize M value) in
      rbind (writeDirect Mode (uint32_bytes length) b) (\<lambda>b.
      rbind (assert_that (dataSize M value \<ge> length)) (\<lambda>_.
        append_size Mode M length b value)))"

definition readBuiltin_Buffer :: "BufferMode \<Rightarrow> BufferMode \<Rightarrow> buffer \<Rightarrow> buffer \<Rightarrow> (buffer \<times> buffer) result" where
  "readBuiltin_Buffer Mode M value b =
     rbind (readBuiltin_scalar Mode uint32 b) (\<lambda>(length, b).
     rbind (assert_that (dataSize Mode b \<ge> length)) (\<lambda>_.
     rbind (append_size M Mode length value b) (\<lambda>(value, b). Inr (b, value))))"

end
