(* ===== verification/Buffer_Serial_Spec.thy ===== *)
theory Buffer_Serial_Spec
  imports Buffer_Serial
begin

text \<open>
  The byte format of serialized values and the proofs that \<open>write_value\<close> produces it, that
  \<open>read_value\<close> inverts it and that \<open>probeSize\<close> predicts its length. \<open>appends\<close> and \<open>delivers\<close> are the
  two judgements on buffer actions the proofs compose; they rest on the byte-queue contract.
\<close>

section \<open>The byte format\<close>

primrec category_code :: "error_category \<Rightarrow> nat" where
  "category_code system_category = 0" | "category_code generic_category = 1"
| "category_code posix_category = 2" | "category_code (other_category n) = 3"

primrec encode :: "cvalue \<Rightarrow> u8 list" where
  "encode (VScalar s n) = le_bytes (scalar_size s) n"
| "encode (VBool x) = [if x then 1 else 0]"
| "encode (VString bs) = uint32_bytes (length bs) @ bs"
| "encode (VWString ws) = uint32_bytes (length ws) @ wchar_bytes ws"
| "encode (VCStr bs) = uint32_bytes (length bs) @ bs"
| "encode (VUUID i) = UUID_bytes i"
| "encode (VErrorCode c cat) = le_bytes 4 (unat c) @ le_bytes 4 (category_code cat)"
| "encode (VVector T vs) = uint32_bytes (length vs) @ concat (map encode vs)"
| "encode (VList T vs) = uint32_bytes (length vs) @ concat (map encode vs)"
| "encode (VMap K V kvs) =
     uint32_bytes (length kvs) @ concat (map (\<lambda>(k, v). k @ v) (map (map_prod encode encode) kvs))"
| "encode (VPair x y) = encode x @ encode y"
| "encode (VArray T vs) = uint32_bytes (length vs * sizeof T) @ concat (map encode vs)"
| "encode (VStruct sz al vs) = concat (map encode vs)"

text \<open>
  Values a C++ program can hold at the type and within the limits of the class. An array of
  \<open>char*\<close> is a direct type and would be copied as pointers: it is left out.
\<close>

primrec wf_value :: "cvalue \<Rightarrow> bool" where
  "wf_value (VScalar s n) = (n < 256 ^ scalar_size s)"
| "wf_value (VBool x) = True"
| "wf_value (VString bs) = (length bs \<le> MAX_STRING_LENGTH)"
| "wf_value (VWString ws) = (length ws \<le> MAX_STRING_LENGTH)"
| "wf_value (VCStr bs) = (length bs \<le> MAX_STRING_LENGTH \<and> 0 \<notin> set bs)"
| "wf_value (VUUID i) = True"
| "wf_value (VErrorCode c cat) = (category_code cat < 3)"
| "wf_value (VVector T vs) =
     (length vs \<le> MAX_VECTOR_LENGTH \<and> list_all (\<lambda>v. type_of v = T) vs \<and> list_all id (map wf_value vs))"
| "wf_value (VList T vs) =
     (length vs \<le> MAX_LIST_LENGTH \<and> list_all (\<lambda>v. type_of v = T) vs \<and> list_all id (map wf_value vs))"
| "wf_value (VMap K V kvs) =
     (length kvs \<le> MAX_LIST_LENGTH \<and> list_all (\<lambda>(k, v). type_of k = K \<and> type_of v = V) kvs \<and>
      sorted_wrt (\<lambda>x y. key_less (fst x) (fst y)) kvs \<and>
      list_all (\<lambda>(p, q). p \<and> q) (map (map_prod wf_value wf_value) kvs))"
| "wf_value (VPair x y) = (wf_value x \<and> wf_value y)"
| "wf_value (VArray T vs) =
     (length vs * sizeof T \<le> MAX_ARRAY_LENGTH \<and> T \<noteq> TCStr \<and> list_all (\<lambda>v. type_of v = T) vs \<and>
      list_all id (map wf_value vs))"
| "wf_value (VStruct sz al vs) = list_all id (map wf_value vs)"

section \<open>Actions that append\<close>

definition appends :: "BufferMode \<Rightarrow> (buffer \<Rightarrow> buffer result) \<Rightarrow> u8 list \<Rightarrow> bool" where
  "appends Mode w bs \<longleftrightarrow>
     (\<forall>b n. buf_wf Mode b \<longrightarrow> room Mode (length bs + n) b \<longrightarrow>
        (\<exists>b'. w b = Inr b' \<and> buf_wf Mode b' \<and> contents Mode b' = contents Mode b @ bs \<and> room Mode n b'))"

lemma appendsD:
  "appends Mode w bs \<Longrightarrow> buf_wf Mode b \<Longrightarrow> room Mode (length bs + n) b \<Longrightarrow>
     \<exists>b'. w b = Inr b' \<and> buf_wf Mode b' \<and> contents Mode b' = contents Mode b @ bs \<and> room Mode n b'"
  by (simp add: appends_def)

lemma appends_writeDirect [intro]: "appends Mode (writeDirect Mode t) t"
  unfolding appends_def using direct.put_ok by blast

lemma appends_writeArray [intro]: "appends Mode (writeArray Mode t) t"
  unfolding appends_def using arr.put_ok by blast

lemma appends_Nil: "appends Mode Inr []"
  by (simp add: appends_def)

lemma appends_seq:
  assumes "appends Mode w bs" "appends Mode w' bs'"
  shows "appends Mode (\<lambda>b. rbind (w b) w') (bs @ bs')"
  unfolding appends_def
proof (intro allI impI)
  fix b n
  assume "buf_wf Mode b" "room Mode (length (bs @ bs') + n) b"
  then obtain b1 where "w b = Inr b1" "buf_wf Mode b1" "contents Mode b1 = contents Mode b @ bs"
    "room Mode (length bs' + n) b1"
    using appendsD [OF assms(1), of b "length bs' + n"] by (auto simp: add.assoc)
  then show "\<exists>b'. rbind (w b) w' = Inr b' \<and> buf_wf Mode b' \<and> contents Mode b' = contents Mode b @ (bs @ bs') \<and>
      room Mode n b'"
    using appendsD [OF assms(2), of b1 n] by auto
qed

lemma appends_each: "list_all2 (appends Mode) ws bss \<Longrightarrow> appends Mode (write_each ws) (concat bss)"
proof (induction ws bss rule: list_all2_induct)
  case Nil
  then show ?case by (simp add: appends_def)
next
  case (Cons w ws bs bss)
  from appends_seq [OF Cons.hyps(1) Cons.IH] show ?case by (simp add: fun_eq_iff appends_def)
qed

lemma appends_length:
  assumes "n < 4294967296" "appends Mode w bs" "\<And>b. w' b = rbind (writeDirect Mode (uint32_bytes n) b) w"
  shows "appends Mode w' (uint32_bytes n @ bs)"
proof -
  have "w' = (\<lambda>b. rbind (writeDirect Mode (uint32_bytes n) b) w)" using assms(3) by auto
  then show ?thesis using appends_seq [OF appends_writeDirect assms(2)] by simp
qed

lemmas max_lengths = MAX_STRING_LENGTH_def MAX_VECTOR_LENGTH_def MAX_LIST_LENGTH_def MAX_ARRAY_LENGTH_def

lemma to_uint32_small: "n < 4294967296 \<Longrightarrow> to_uint32 n = n"
  by (simp add: to_uint32_def)

lemma length_wchar_bytes [simp]: "length (wchar_bytes ws) = 4 * length ws"
  by (induction ws) (simp_all add: wchar_bytes_def)

lemma takeWhile_no_0: "0 \<notin> set bs \<Longrightarrow> takeWhile (\<lambda>c. c \<noteq> (0 :: u8)) bs = bs"
  by (induction bs) auto

lemma appends_string:
  assumes "length bs \<le> MAX_STRING_LENGTH"
  shows "appends Mode (writeBuiltin_string Mode bs) (uint32_bytes (length bs) @ bs)"
  using assms by (intro appends_length [where w = "writeArray Mode bs"])
    (auto simp: writeBuiltin_string_def to_uint32_small max_lengths)

lemma appends_wstring:
  assumes "length ws \<le> MAX_STRING_LENGTH"
  shows "appends Mode (writeBuiltin_wstring Mode ws) (uint32_bytes (length ws) @ wchar_bytes ws)"
  using assms by (intro appends_length [where w = "writeArray Mode (wchar_bytes ws)"])
    (auto simp: writeBuiltin_wstring_def to_uint32_small max_lengths)

lemma appends_cstr:
  assumes "length bs \<le> MAX_STRING_LENGTH" "0 \<notin> set bs"
  shows "appends Mode (writeBuiltin_cstr Mode bs) (uint32_bytes (length bs) @ bs)"
  using assms by (intro appends_length [where w = "writeArray Mode bs"])
    (auto simp: writeBuiltin_cstr_def to_uint32_small max_lengths takeWhile_no_0)

lemma appends_sequence:
  assumes "length ws \<le> MAX_VECTOR_LENGTH" "list_all2 (appends Mode) ws bss"
  shows "appends Mode (writeBuiltin_vector Mode ws) (uint32_bytes (length ws) @ concat bss)"
    "appends Mode (writeBuiltin_list Mode ws) (uint32_bytes (length ws) @ concat bss)"
  using assms by (intro appends_length [where w = "write_each ws"] appends_each;
      auto simp: writeBuiltin_vector_def writeBuiltin_list_def to_uint32_small max_lengths)+

lemma appends_map:
  assumes "length kws \<le> MAX_VECTOR_LENGTH"
    "list_all2 (\<lambda>(w, w') (k, v). appends Mode w k \<and> appends Mode w' v) kws kvs"
  shows "appends Mode (writeBuiltin_map Mode kws) (uint32_bytes (length kws) @ concat (map (\<lambda>(k, v). k @ v) kvs))"
proof (intro appends_length [where w = "write_each (concat (map (\<lambda>(k, v). [k, v]) kws))"])
  have "list_all2 (appends Mode) (concat (map (\<lambda>(k, v). [k, v]) kws)) (concat (map (\<lambda>(k, v). [k, v]) kvs))"
    using assms(2) by (induction kws kvs rule: list_all2_induct) auto
  then have "appends Mode (write_each (concat (map (\<lambda>(k, v). [k, v]) kws))) (concat (concat (map (\<lambda>(k, v). [k, v]) kvs)))"
    by (rule appends_each)
  moreover have "concat (concat (map (\<lambda>(k, v). [k, v]) kvs)) = concat (map (\<lambda>(k, v). k @ v) kvs)"
    by (induction kvs) auto
  ultimately show "appends Mode (write_each (concat (map (\<lambda>(k, v). [k, v]) kws))) (concat (map (\<lambda>(k, v). k @ v) kvs))"
    by simp
qed (use assms in \<open>auto simp: writeBuiltin_map_def to_uint32_small max_lengths\<close>)

lemma appends_error_code:
  assumes "category_code cat < 3"
  shows "appends Mode (writeBuiltin_error_code Mode c cat) (le_bytes 4 (unat c) @ le_bytes 4 (category_code cat))"
proof -
  have "writeBuiltin_error_code Mode c cat =
      (\<lambda>b. rbind (writeDirect Mode (le_bytes 4 (unat c)) b) (writeDirect Mode (le_bytes 4 (category_code cat))))"
    using assms by (cases cat) (auto simp: writeBuiltin_error_code_def fun_eq_iff)
  then show ?thesis using appends_seq [OF appends_writeDirect appends_writeDirect] by simp
qed

lemma object_bytes_encode:
  "is_direct_types T \<Longrightarrow> T \<noteq> TCStr \<Longrightarrow> type_of v = T \<Longrightarrow> object_bytes v = encode v"
  by (cases v) auto

lemma concat_map_cong: "list_all (\<lambda>v. f v = g v) vs \<Longrightarrow> concat (map f vs) = concat (map g vs)"
  by (induction vs) auto

lemma appends_array:
  assumes "length vs * sizeof T \<le> MAX_ARRAY_LENGTH" "T \<noteq> TCStr" "list_all (\<lambda>v. type_of v = T) vs"
    "list_all2 (appends Mode) ws (map encode vs)"
  shows "appends Mode (writeBuiltin_boost_array Mode T vs ws)
    (uint32_bytes (length vs * sizeof T) @ concat (map encode vs))"
proof (intro appends_length)
  let ?w = "if is_direct_types T then writeBoostArrayImpl_native Mode vs else writeBoostArrayImpl_non_native ws"
  have "is_direct_types T \<Longrightarrow> concat (map object_bytes vs) = concat (map encode vs)"
    using assms object_bytes_encode by (intro concat_map_cong) (auto simp: list_all_iff)
  then show "appends Mode ?w (concat (map encode vs))"
    using appends_each [OF assms(4)] appends_writeArray
    by (auto simp: writeBoostArrayImpl_native_def writeBoostArrayImpl_non_native_def)
  show "\<And>b. writeBuiltin_boost_array Mode T vs ws b = rbind (writeDirect Mode (uint32_bytes (length vs * sizeof T)) b) ?w"
    using assms by (simp add: writeBuiltin_boost_array_def Let_def to_uint32_small max_lengths)
qed (use assms in \<open>simp add: max_lengths\<close>)

lemma appends_serializable:
  assumes "appends Mode (write_each ws) bs"
  shows "appends Mode (writeSerializable ws) bs"
  unfolding appends_def
proof (intro allI impI)
  fix b n
  assume b: "buf_wf Mode b" "room Mode (length bs + n) b"
  then have "writeSerializable ws b = write_each ws b"
    by (simp add: writeSerializable_def room_def)
  then show "\<exists>b'. writeSerializable ws b = Inr b' \<and> buf_wf Mode b' \<and> contents Mode b' = contents Mode b @ bs \<and>
      room Mode n b'"
    using appendsD [OF assms b] by simp
qed

lemma appends_elements:
  assumes "\<And>v. v \<in> set vs \<Longrightarrow> wf_value v \<Longrightarrow> appends Mode (write_value Mode v) (encode v)"
    "list_all id (map wf_value vs)"
  shows "list_all2 (appends Mode) (map (write_value Mode) vs) (map encode vs)"
  using assms by (auto simp: list_all2_conv_all_nth list_all_iff)

lemma write_value_appends: "wf_value v \<Longrightarrow> appends Mode (write_value Mode v) (encode v)"
proof (induction v)
  case (VMap K V kvs)
  have "list_all2 (\<lambda>(w, w') (k, v). appends Mode w k \<and> appends Mode w' v)
      (map (map_prod (write_value Mode) (write_value Mode)) kvs) (map (map_prod encode encode) kvs)"
  proof (unfold list_all2_map1 list_all2_map2, rule list.rel_refl_strong)
    fix kv assume "kv \<in> set kvs"
    with VMap show "(case map_prod (write_value Mode) (write_value Mode) kv of
        (w, w') \<Rightarrow> \<lambda>(k, v). appends Mode w k \<and> appends Mode w' v) (map_prod encode encode kv)"
      by (cases kv) (auto simp: list_all_iff)
  qed
  from appends_map [OF _ this] VMap.prems show ?case by (simp add: max_lengths)
next
  case (VPair x y)
  then show ?case using appends_seq [of Mode "write_value Mode x" "encode x" "write_value Mode y" "encode y"]
    by (simp add: writeBuiltin_pair_def fun_eq_iff appends_def)
next
  case (VVector T vs)
  from appends_sequence(1) [OF _ appends_elements [of vs Mode]] VVector show ?case by simp
next
  case (VList T vs)
  from appends_sequence(2) [OF _ appends_elements [of vs Mode]] VList show ?case by (simp add: max_lengths)
next
  case (VArray T vs)
  from appends_array [OF _ _ _ appends_elements [of vs Mode]] VArray show ?case by simp
next
  case (VStruct sz al vs)
  from appends_serializable [OF appends_each [OF appends_elements [of vs Mode]]] VStruct show ?case by simp
qed (auto simp: writeBuiltin_scalar_def writeBuiltin_bool_def writeBuiltin_UUID_def Let_def
    intro: appends_string appends_wstring appends_cstr appends_error_code)

section \<open>Actions that deliver\<close>

definition delivers :: "BufferMode \<Rightarrow> (buffer \<Rightarrow> ('v \<times> buffer) result) \<Rightarrow> u8 list \<Rightarrow> 'v \<Rightarrow> bool" where
  "delivers Mode r bs x \<longleftrightarrow>
     (\<forall>b rest. buf_wf Mode b \<longrightarrow> contents Mode b = bs @ rest \<longrightarrow>
        (\<exists>b'. r b = Inr (x, b') \<and> buf_wf Mode b' \<and> contents Mode b' = rest \<and>
              (\<forall>k. room Mode k b \<longrightarrow> room Mode k b')))"

lemma deliversD:
  "delivers Mode r bs x \<Longrightarrow> buf_wf Mode b \<Longrightarrow> contents Mode b = bs @ rest \<Longrightarrow>
     \<exists>b'. r b = Inr (x, b') \<and> buf_wf Mode b' \<and> contents Mode b' = rest \<and> (\<forall>k. room Mode k b \<longrightarrow> room Mode k b')"
  by (simp add: delivers_def)

lemma deliversI:
  "(\<And>b rest. buf_wf Mode b \<Longrightarrow> contents Mode b = bs @ rest \<Longrightarrow>
     \<exists>b'. r b = Inr (x, b') \<and> buf_wf Mode b' \<and> contents Mode b' = rest \<and> (\<forall>k. room Mode k b \<longrightarrow> room Mode k b'))
   \<Longrightarrow> delivers Mode r bs x"
  by (simp add: delivers_def)

lemma delivers_readDirect:
  assumes "length bs = n"
  shows "delivers Mode (readDirect Mode n) bs bs"
proof (rule deliversI)
  fix b rest
  assume b: "buf_wf Mode b" "contents Mode b = bs @ rest"
  with assms show "\<exists>b'. readDirect Mode n b = Inr (bs, b') \<and> buf_wf Mode b' \<and> contents Mode b' = rest \<and>
      (\<forall>k. room Mode k b \<longrightarrow> room Mode k b')"
    using direct.get_ok [of Mode b n] by auto
qed

lemma delivers_readArray:
  assumes "length bs = n"
  shows "delivers Mode (readArray Mode n) bs bs"
proof (rule deliversI)
  fix b rest
  assume b: "buf_wf Mode b" "contents Mode b = bs @ rest"
  with assms show "\<exists>b'. readArray Mode n b = Inr (bs, b') \<and> buf_wf Mode b' \<and> contents Mode b' = rest \<and>
      (\<forall>k. room Mode k b \<longrightarrow> room Mode k b')"
    using arr.get_ok [of Mode b n] by auto
qed

lemma delivers_with_value:
  "delivers Mode r bs x \<Longrightarrow> f x = y \<Longrightarrow> delivers Mode (\<lambda>b. with_value f (r b)) bs y"
  unfolding delivers_def with_value_def by fastforce

lemma delivers_Nil: "delivers Mode (\<lambda>b. Inr (x, b)) [] x"
  by (simp add: delivers_def)

lemma delivers_bind:
  assumes "delivers Mode r bs x" "delivers Mode (f x) bs' y"
  shows "delivers Mode (\<lambda>b. rbind (r b) (\<lambda>(x, b). f x b)) (bs @ bs') y"
proof (rule deliversI)
  fix b rest
  assume "buf_wf Mode b" "contents Mode b = (bs @ bs') @ rest"
  then obtain b1 where b1: "r b = Inr (x, b1)" "buf_wf Mode b1" "contents Mode b1 = bs' @ rest"
    "\<And>k. room Mode k b \<Longrightarrow> room Mode k b1"
    using deliversD [OF assms(1), of b "bs' @ rest"] by auto
  then show "\<exists>b'. rbind (r b) (\<lambda>(x, b). f x b) = Inr (y, b') \<and> buf_wf Mode b' \<and> contents Mode b' = rest \<and>
      (\<forall>k. room Mode k b \<longrightarrow> room Mode k b')"
    using deliversD [OF assms(2), of b1 rest] by auto
qed

lemma delivers_cong:
  "delivers Mode r bs x \<Longrightarrow> (\<And>b. buf_wf Mode b \<Longrightarrow> bs = take (length bs) (contents Mode b) \<Longrightarrow> r' b = r b)
     \<Longrightarrow> delivers Mode r' bs x"
  unfolding delivers_def by (metis append_eq_conv_conj)

lemma delivers_each:
  "list_all2 (\<lambda>r (bs, x). delivers Mode r bs x) rs bxs \<Longrightarrow>
     delivers Mode (read_each rs) (concat (map fst bxs)) (map snd bxs)"
proof (induction rs bxs rule: list_all2_induct)
  case Nil
  then show ?case by (simp add: delivers_def)
next
  case (Cons r rs bx bxs)
  obtain bs x where bx: "bx = (bs, x)" by force
  have "delivers Mode (\<lambda>b. rbind (read_each rs b) (\<lambda>(xs, b). Inr (x # xs, b))) (concat (map fst bxs) @ []) (x # map snd bxs)"
    by (rule delivers_bind [where f = "\<lambda>xs b. Inr (x # xs, b)"]) (use Cons.IH delivers_Nil in auto)
  then show ?case
    using delivers_bind [of Mode r bs x "\<lambda>x b. rbind (read_each rs b) (\<lambda>(xs, b). Inr (x # xs, b))"] Cons.hyps bx
    by (simp add: delivers_def)
qed

lemma delivers_scalar:
  "n < 256 ^ scalar_size s \<Longrightarrow> delivers Mode (readBuiltin_scalar Mode s) (le_bytes (scalar_size s) n) n"
  unfolding readBuiltin_scalar_def
  by (rule delivers_with_value, rule delivers_readDirect) (simp_all add: le_value_bytes)

lemma delivers_uint32: "n < 4294967296 \<Longrightarrow> delivers Mode (readBuiltin_scalar Mode uint32) (uint32_bytes n) n"
  using delivers_scalar [of n uint32 Mode] by (simp add: uint32_bytes_def)

lemma delivers_int32: "n < 4294967296 \<Longrightarrow> delivers Mode (readBuiltin_scalar Mode int32) (le_bytes 4 n) n"
  using delivers_scalar [of n int32 Mode] by simp

text \<open>A length and then what the length announces.\<close>

lemma delivers_sized:
  assumes "n < 4294967296" "delivers Mode (f n) bs x"
    "\<And>b. r b = rbind (readBuiltin_scalar Mode uint32 b) (\<lambda>(n, b). f n b)"
  shows "delivers Mode r (uint32_bytes n @ bs) x"
proof -
  have "r = (\<lambda>b. rbind (readBuiltin_scalar Mode uint32 b) (\<lambda>(n, b). f n b))" using assms(3) by auto
  then show ?thesis using delivers_bind [of Mode _ _ n f, OF delivers_uint32 assms(2)] assms(1) by simp
qed

lemma delivers_string:
  assumes "length bs \<le> MAX_STRING_LENGTH"
  shows "delivers Mode (readBuiltin_string Mode) (uint32_bytes (length bs) @ bs) bs"
proof (rule delivers_sized)
  show "\<And>b. readBuiltin_string Mode b = rbind (readBuiltin_scalar Mode uint32 b)
    (\<lambda>(n, b). if n \<le> MAX_STRING_LENGTH then readDirect Mode n b else Inl AssertFailed)"
    unfolding readBuiltin_string_def
    by (intro arg_cong [where f = "rbind _"] ext)
      (auto simp: readDirect_def getDirect_def not_le split: BufferMode.split)
qed (use assms in \<open>simp_all add: max_lengths delivers_readDirect\<close>)

lemma length_4_cases:
  assumes "length xs = 4"
  obtains a b c d where "xs = [a, b, c, d]"
  using assms by (cases xs rule: list.exhaust; fastforce simp: numeral_eq_Suc length_Suc_conv)

lemma wchars_bytes: "wchars (wchar_bytes ws) = ws"
proof (induction ws)
  case (Cons w ws)
  obtain a b c d where abcd: "le_bytes 4 (unat w) = [a, b, c, d]"
    by (rule length_4_cases [OF length_le_bytes])
  have "unat w < 256 ^ 4" using unsigned_less [of w, where 'a = nat] by simp
  then have "le_value [a, b, c, d] = unat w" using le_value_bytes [of "unat w" 4] abcd by simp
  with Cons abcd show ?case by (simp add: wchar_bytes_def)
qed (simp add: wchar_bytes_def)

lemma delivers_wstring:
  assumes "length ws \<le> MAX_STRING_LENGTH"
  shows "delivers plain (readBuiltin_wstring plain) (uint32_bytes (length ws) @ wchar_bytes ws) ws"
proof (rule delivers_sized)
  show "\<And>b. readBuiltin_wstring plain b = rbind (readBuiltin_scalar plain uint32 b)
    (\<lambda>(n, b). if n \<le> MAX_STRING_LENGTH then with_value wchars (readDirect plain (n * 4) b) else Inl AssertFailed)"
    unfolding readBuiltin_wstring_def
    by (intro arg_cong [where f = "rbind _"] ext)
      (auto simp: readDirect_def getDirect_def with_value_def rbind_assoc to_uint32_small max_lengths)
  have "delivers plain (\<lambda>b. with_value wchars (readDirect plain (length ws * 4) b)) (wchar_bytes ws) ws"
    by (rule delivers_with_value [OF delivers_readDirect]) (simp_all add: wchars_bytes)
  with assms show "delivers plain (\<lambda>b. if length ws \<le> MAX_STRING_LENGTH
      then with_value wchars (readDirect plain (length ws * 4) b) else Inl AssertFailed) (wchar_bytes ws) ws"
    by simp
qed (use assms in \<open>simp add: max_lengths\<close>)

lemma delivers_cstr:
  assumes "length bs \<le> MAX_STRING_LENGTH"
  shows "delivers Mode (readBuiltin_cstr Mode) (uint32_bytes (length bs) @ bs) bs"
proof (rule delivers_sized)
  let ?f = "\<lambda>n b. rbind (if n \<le> MAX_STRING_LENGTH
            then rbind (assert_that (n \<le> dataSize Mode b)) (\<lambda>_. getArray Mode (rpos b) n b)
            else Inl AssertFailed) (\<lambda>value. rbind (rskip Mode n b) (\<lambda>b. Inr (value, b)))"
  show "\<And>b. readBuiltin_cstr Mode b = rbind (readBuiltin_scalar Mode uint32 b) (\<lambda>(n, b). ?f n b)"
    by (simp add: readBuiltin_cstr_def)
  show "delivers Mode (?f (length bs)) bs bs"
  proof (rule delivers_cong [OF delivers_readArray [OF refl]])
    fix b assume b: "buf_wf Mode b" "bs = take (length bs) (contents Mode b)"
    have "length bs \<le> length (contents Mode b)" by (subst b(2)) simp
    with b(1) assms show "?f (length bs) b = readArray Mode (length bs) b"
      by (simp add: dataSize_contents readArray_def)
  qed
qed (use assms in \<open>simp add: max_lengths\<close>)

lemma delivers_replicate:
  assumes "\<And>v. v \<in> set vs \<Longrightarrow> delivers Mode r (enc v) v"
  shows "delivers Mode (read_each (replicate (length vs) r)) (concat (map enc vs)) vs"
proof -
  have "list_all2 (\<lambda>r (bs, x). delivers Mode r bs x) (replicate (length vs) r) (map (\<lambda>v. (enc v, v)) vs)"
    using assms by (auto simp: list_all2_conv_all_nth)
  from delivers_each [OF this] show ?thesis by (simp add: comp_def)
qed

lemma delivers_sequence:
  assumes "length vs \<le> MAX_VECTOR_LENGTH" "\<And>v. v \<in> set vs \<Longrightarrow> delivers Mode r (enc v) v"
  shows "delivers Mode (readBuiltin_vector Mode r) (uint32_bytes (length vs) @ concat (map enc vs)) vs"
    "delivers Mode (readBuiltin_list Mode r) (uint32_bytes (length vs) @ concat (map enc vs)) vs"
  using assms delivers_replicate [of vs Mode r enc]
  by (intro delivers_sized [where f = "\<lambda>n b. if n \<le> MAX_VECTOR_LENGTH then read_each (replicate n r) b else Inl AssertFailed"];
      simp add: readBuiltin_vector_def readBuiltin_list_def max_lengths)+

lemma delivers_pair:
  "delivers Mode r bs x \<Longrightarrow> delivers Mode r' bs' y \<Longrightarrow> delivers Mode (readBuiltin_pair r r') (bs @ bs') (x, y)"
proof -
  assume r: "delivers Mode r bs x" and r': "delivers Mode r' bs' y"
  have "delivers Mode (\<lambda>b. rbind (r' b) (\<lambda>(y, b). Inr ((x, y), b))) (bs' @ []) (x, y)"
    by (rule delivers_bind [where f = "\<lambda>y b. Inr ((x, y), b)", OF r' delivers_Nil])
  then have "delivers Mode (\<lambda>b. rbind (r' b) (\<lambda>(y, b). Inr ((x, y), b))) bs' (x, y)" by simp
  from delivers_bind [where f = "\<lambda>x b. rbind (r' b) (\<lambda>(y, b). Inr ((x, y), b))", OF r this] show ?thesis
    by (simp add: readBuiltin_pair_def delivers_def)
qed

text \<open>Entries arrive in the order of the map, so each assignment inserts at the end.\<close>

lemma map_assign_end: "\<forall>x\<in>set m. lt (fst x) k \<Longrightarrow> map_assign lt k v m = m @ [(k, v)]"
  by (induction m) auto

lemma map_assign_sorted:
  "sorted_wrt (\<lambda>x y. lt (fst x) (fst y)) (m @ kvs) \<Longrightarrow> foldl (\<lambda>m (k, v). map_assign lt k v m) m kvs = m @ kvs"
proof (induction kvs arbitrary: m)
  case (Cons kv kvs)
  have "map_assign lt (fst kv) (snd kv) m = m @ [kv]"
    using Cons.prems map_assign_end [of m lt "fst kv" "snd kv"] by (simp add: sorted_wrt_append)
  then have "foldl (\<lambda>m (k, v). map_assign lt k v m) m (kv # kvs) = foldl (\<lambda>m (k, v). map_assign lt k v m) (m @ [kv]) kvs"
    by (cases kv) simp
  also have "\<dots> = (m @ [kv]) @ kvs" by (rule Cons.IH) (use Cons.prems in simp)
  finally show ?case by simp
qed simp

lemma delivers_map:
  assumes "length kvs \<le> MAX_LIST_LENGTH" "sorted_wrt (\<lambda>x y. lt (fst x) (fst y)) kvs"
    "\<And>k v. (k, v) \<in> set kvs \<Longrightarrow> delivers Mode r (enc k) k \<and> delivers Mode r' (enc' v) v"
  shows "delivers Mode (readBuiltin_map Mode lt r r')
    (uint32_bytes (length kvs) @ concat (map (\<lambda>(k, v). enc k @ enc' v) kvs)) kvs"
proof (rule delivers_sized)
  let ?f = "\<lambda>n b. if n \<le> MAX_LIST_LENGTH
       then with_value (\<lambda>kvs. foldl (\<lambda>m (k, v). map_assign lt k v m) [] kvs)
              (read_each (replicate n (readBuiltin_pair r r')) b)
       else Inl AssertFailed"
  show "\<And>b. readBuiltin_map Mode lt r r' b = rbind (readBuiltin_scalar Mode uint32 b) (\<lambda>(n, b). ?f n b)"
    by (simp add: readBuiltin_map_def)
  have "delivers Mode (read_each (replicate (length kvs) (readBuiltin_pair r r'))) (concat (map (\<lambda>(k, v). enc k @ enc' v) kvs)) kvs"
    using assms by (intro delivers_replicate) (auto intro: delivers_pair)
  moreover have "foldl (\<lambda>m (k, v). map_assign lt k v m) [] kvs = kvs"
    using map_assign_sorted [of lt "[]" kvs] assms(2) by simp
  ultimately have "delivers Mode (\<lambda>b. with_value (\<lambda>kvs. foldl (\<lambda>m (k, v). map_assign lt k v m) [] kvs)
      (read_each (replicate (length kvs) (readBuiltin_pair r r')) b)) (concat (map (\<lambda>(k, v). enc k @ enc' v) kvs)) kvs"
    by (rule delivers_with_value)
  then show "delivers Mode (?f (length kvs)) (concat (map (\<lambda>(k, v). enc k @ enc' v) kvs)) kvs"
    using assms by simp
qed (use assms in \<open>simp add: max_lengths\<close>)

lemma sizeof_direct: "is_direct_types T \<Longrightarrow> T \<noteq> TCStr \<Longrightarrow> type_of v = T \<Longrightarrow> length (encode v) = sizeof T"
  by (cases v) auto

lemma object_values_encode:
  assumes "is_direct_types T" "T \<noteq> TCStr"
  shows "list_all (\<lambda>v. type_of v = T \<and> wf_value v) vs \<Longrightarrow>
    object_values T (length vs) (concat (map encode vs)) = vs \<and> length (concat (map encode vs)) = length vs * sizeof T"
proof (induction vs)
  case (Cons v vs)
  then have v: "type_of v = T" "wf_value v" and len: "length (encode v) = sizeof T"
    using sizeof_direct [OF assms, of v] by auto
  show ?case
  proof (cases T)
    case (TScalar s)
    with v obtain n where "v = VScalar s n" by (cases v) auto
    with Cons v len TScalar show ?thesis by (simp add: le_value_bytes)
  next
    case TUUID
    with v obtain i where "v = VUUID i" by (cases v) auto
    with Cons v len TUUID show ?thesis by simp
  qed (use assms in auto)
qed simp

lemma delivers_array:
  assumes "length vs * sizeof T \<le> MAX_ARRAY_LENGTH" "T \<noteq> TCStr" "list_all (\<lambda>v. type_of v = T \<and> wf_value v) vs"
    "\<And>v. v \<in> set vs \<Longrightarrow> delivers Mode r (encode v) v"
  shows "delivers Mode (readBuiltin_boost_array Mode T (length vs) r)
    (uint32_bytes (length vs * sizeof T) @ concat (map encode vs)) vs"
proof (rule delivers_sized)
  let ?f = "\<lambda>n b. if n = length vs * sizeof T
       then if is_direct_types T then readBoostArrayImpl_native Mode T (length vs) b
            else readBoostArrayImpl_non_native r (length vs) b
       else Inl AssertFailed"
  show "\<And>b. readBuiltin_boost_array Mode T (length vs) r b = rbind (readBuiltin_scalar Mode uint32 b) (\<lambda>(n, b). ?f n b)"
    by (simp add: readBuiltin_boost_array_def)
  show "delivers Mode (?f (length vs * sizeof T)) (concat (map encode vs)) vs"
  proof (cases "is_direct_types T")
    case True
    note vals = object_values_encode [OF True assms(2,3)]
    from vals have "delivers Mode (\<lambda>b. with_value (object_values T (length vs)) (readArray Mode (length vs * sizeof T) b))
        (concat (map encode vs)) vs"
      by (intro delivers_with_value [OF delivers_readArray]) auto
    with True show ?thesis by (simp add: readBoostArrayImpl_native_def)
  next
    case False
    with assms delivers_replicate [of vs Mode r encode] show ?thesis
      by (simp add: readBoostArrayImpl_non_native_def)
  qed
qed (use assms in \<open>simp add: max_lengths\<close>)

lemma unat_u32_less: "unat (x :: u32) < 4294967296"
  using unsigned_less [of x, where 'a = nat] by simp

lemma delivers_error_code:
  assumes "category_code cat < 3"
  shows "delivers Mode (readBuiltin_error_code Mode) (le_bytes 4 (unat c) @ le_bytes 4 (category_code cat)) (c, cat)"
proof -
  let ?g = "\<lambda>code category b.
       if category = 0 then Inr ((word_of_nat code, system_category), b)
       else if category = 1 then Inr ((word_of_nat code, generic_category), b)
       else if category = 2 then Inr ((word_of_nat code, posix_category), b)
       else Inl AssertFailed"
  have "delivers Mode (?g (unat c) (category_code cat)) [] (c, cat)"
    using assms by (cases cat) (simp_all add: delivers_Nil)
  from delivers_bind [where f = "?g (unat c)", OF delivers_int32 [of "category_code cat"] this] assms
  have "delivers Mode (\<lambda>b. rbind (readBuiltin_scalar Mode int32 b) (\<lambda>(category, b). ?g (unat c) category b))
      (le_bytes 4 (category_code cat)) (c, cat)"
    by simp
  from delivers_bind [where f = "\<lambda>code b. rbind (readBuiltin_scalar Mode int32 b) (\<lambda>(category, b). ?g code category b)",
      OF delivers_int32 [OF unat_u32_less] this]
  show ?thesis by (simp add: readBuiltin_error_code_def delivers_def)
qed

text \<open>A wide string cannot be read from a circular buffer when it wraps: the code asserts.\<close>

primrec no_wstring :: "ctype \<Rightarrow> bool" where
  "no_wstring (TScalar s) = True" | "no_wstring TBool = True" | "no_wstring TString = True"
| "no_wstring TWString = False" | "no_wstring TCStr = True" | "no_wstring TUUID = True"
| "no_wstring TErrorCode = True" | "no_wstring (TVector T) = no_wstring T" | "no_wstring (TList T) = no_wstring T"
| "no_wstring (TMap K V) = (no_wstring K \<and> no_wstring V)" | "no_wstring (TPair A B) = (no_wstring A \<and> no_wstring B)"
| "no_wstring (TArray T n) = no_wstring T" | "no_wstring (TStruct sz al Ts) = list_all id (map no_wstring Ts)"

definition readable :: "BufferMode \<Rightarrow> cvalue \<Rightarrow> bool" where
  "readable Mode v \<longleftrightarrow> wf_value v \<and> (Mode = circular \<longrightarrow> no_wstring (type_of v))"

lemma readable_elements:
  assumes "\<And>v. v \<in> set vs \<Longrightarrow> readable Mode v \<Longrightarrow> delivers Mode (read_value Mode (type_of v)) (encode v) v"
    "list_all (\<lambda>v. type_of v = T) vs" "list_all id (map wf_value vs)" "Mode = circular \<longrightarrow> no_wstring T"
  shows "\<And>v. v \<in> set vs \<Longrightarrow> delivers Mode (read_value Mode T) (encode v) v"
  using assms by (auto simp: readable_def list_all_iff)

lemma read_value_delivers: "readable Mode v \<Longrightarrow> delivers Mode (read_value Mode (type_of v)) (encode v) v"
proof (induction v)
  case (VMap K V kvs)
  have "delivers Mode (read_value Mode K) (encode k) k \<and> delivers Mode (read_value Mode V) (encode v) v"
    if "(k, v) \<in> set kvs" for k v
    using that VMap.IH(1) [OF that, of k] VMap.IH(2) [OF that, of v] VMap.prems
    by (fastforce simp: readable_def list_all_iff)
  then have "delivers Mode (readBuiltin_map Mode key_less (read_value Mode K) (read_value Mode V))
      (uint32_bytes (length kvs) @ concat (map (\<lambda>(k, v). encode k @ encode v) kvs)) kvs"
    using VMap.prems by (intro delivers_map) (auto simp: readable_def)
  moreover have "encode (VMap K V kvs) = uint32_bytes (length kvs) @ concat (map (\<lambda>(k, v). encode k @ encode v) kvs)"
    by (simp add: comp_def split_def)
  ultimately have "delivers Mode (readBuiltin_map Mode key_less (read_value Mode K) (read_value Mode V)) (encode (VMap K V kvs)) kvs"
    by simp
  then show ?case by (auto intro: delivers_with_value)
next
  case (VPair x y)
  then have "delivers Mode (readBuiltin_pair (read_value Mode (type_of x)) (read_value Mode (type_of y)))
      (encode x @ encode y) (x, y)"
    by (intro delivers_pair) (simp_all add: readable_def)
  then show ?case by (auto intro: delivers_with_value)
next
  case (VVector T vs)
  note readable_elements [OF VVector.IH, of vs T]
  with VVector.prems show ?case by (auto simp: readable_def intro!: delivers_with_value delivers_sequence)
next
  case (VList T vs)
  note readable_elements [OF VList.IH, of vs T]
  with VList.prems show ?case by (auto simp: readable_def max_lengths intro!: delivers_with_value delivers_sequence)
next
  case (VArray T vs)
  note readable_elements [OF VArray.IH, of vs T]
  with VArray.prems show ?case by (auto simp: readable_def list_all_iff intro!: delivers_with_value delivers_array)
next
  case (VStruct sz al vs)
  have "list_all2 (\<lambda>r (bs, x). delivers Mode r bs x) (map (read_value Mode) (map type_of vs)) (map (\<lambda>v. (encode v, v)) vs)"
    using VStruct by (auto simp: list_all2_conv_all_nth readable_def list_all_iff)
  from delivers_each [OF this] have "delivers Mode (read_each (map (read_value Mode) (map type_of vs))) (concat (map encode vs)) vs"
    by (simp add: comp_def)
  then show ?case by (auto simp: readSerializable_def intro: delivers_with_value)
next
  case (VErrorCode c cat)
  then show ?case by (auto simp: readable_def intro!: delivers_with_value delivers_error_code)
next
  case (VWString ws)
  then show ?case by (cases Mode) (auto simp: readable_def intro!: delivers_with_value delivers_wstring)
next
  case (VBool x)
  have "delivers Mode (readBuiltin_scalar Mode uint8) [if x then 1 else 0] (if x then 1 else 0)"
    using delivers_scalar [of "if x then 1 else 0" uint8 Mode] by (cases x) simp_all
  then have "delivers Mode (readBuiltin_bool Mode) [if x then 1 else 0] x"
    unfolding readBuiltin_bool_def by (rule delivers_with_value) simp
  then show ?case by (auto intro!: delivers_with_value)
qed (auto simp: readable_def readBuiltin_UUID_def [abs_def]
    intro!: delivers_with_value delivers_scalar delivers_string delivers_cstr delivers_readDirect)

section \<open>Predicted sizes\<close>

text \<open>
  Types whose values all take the same space, and types for which the prediction is exact: a
  container of elements that are neither fixed nor a variable type in the sense of the code (a
  pair with a string, say) is measured by its first element only.
\<close>

primrec fixed_size :: "ctype \<Rightarrow> nat option" where
  "fixed_size (TScalar s) = Some (scalar_size s)" | "fixed_size TBool = Some 1" | "fixed_size TString = None"
| "fixed_size TWString = None" | "fixed_size TCStr = None" | "fixed_size TUUID = Some 16"
| "fixed_size TErrorCode = Some 8" | "fixed_size (TVector T) = None" | "fixed_size (TList T) = None"
| "fixed_size (TMap K V) = None"
| "fixed_size (TPair A B) =
     (case (fixed_size A, fixed_size B) of (Some m, Some n) \<Rightarrow> Some (m + n) | _ \<Rightarrow> None)"
| "fixed_size (TArray T n) = (if fixed_size T = Some (sizeof T) then Some (4 + n * sizeof T) else None)"
| "fixed_size (TStruct sz al Ts) =
     (if list_all (\<lambda>s. s \<noteq> None) (map fixed_size Ts) then Some (sum_list (map the (map fixed_size Ts))) else None)"

primrec probe_exact :: "ctype \<Rightarrow> bool" where
  "probe_exact (TScalar s) = True" | "probe_exact TBool = True" | "probe_exact TString = True"
| "probe_exact TWString = True" | "probe_exact TCStr = True" | "probe_exact TUUID = True"
| "probe_exact TErrorCode = True"
| "probe_exact (TVector T) = (probe_exact T \<and> (is_variable_types T \<or> fixed_size T \<noteq> None))"
| "probe_exact (TList T) = (probe_exact T \<and> (is_variable_types T \<or> fixed_size T \<noteq> None))"
| "probe_exact (TMap K V) =
     (probe_exact K \<and> probe_exact V \<and>
      (is_variable_types K \<or> is_variable_types V \<or> fixed_size K \<noteq> None \<and> fixed_size V \<noteq> None))"
| "probe_exact (TPair A B) = (probe_exact A \<and> probe_exact B)"
| "probe_exact (TArray T n) = (fixed_size T = Some (sizeof T))"
| "probe_exact (TStruct sz al Ts) = list_all id (map probe_exact Ts)"

lemma length_concat_const: "(\<And>v. v \<in> set vs \<Longrightarrow> length (f v) = n) \<Longrightarrow> length (concat (map f vs)) = length vs * n"
  by (induction vs) simp_all

lemma fixed_size_encode:
  "fixed_size (type_of v) = Some n \<Longrightarrow> wf_value v \<Longrightarrow> length (encode v) = n"
proof (induction v arbitrary: n)
  case (VArray T vs)
  then have "\<And>v. v \<in> set vs \<Longrightarrow> length (encode v) = sizeof T" by (auto simp: list_all_iff split: if_splits)
  then have "length (concat (map encode vs)) = length vs * sizeof T" by (rule length_concat_const)
  with VArray.prems show ?case by (simp add: uint32_bytes_def split: if_splits)
next
  case (VStruct sz al vs)
  then have "\<And>v. v \<in> set vs \<Longrightarrow> length (encode v) = the (fixed_size (type_of v))"
    by (auto simp: list_all_iff split: if_splits)
  then have "sum_list (map (length \<circ> encode) vs) = sum_list (map (the \<circ> (fixed_size \<circ> type_of)) vs)"
    by (intro arg_cong [where f = sum_list] map_cong) auto
  with VStruct.prems show ?case by (simp add: length_concat comp_def split: if_splits)
qed (auto split: option.splits)

lemma foldl_add_sum: "foldl (+) 0 (xs :: nat list) = sum_list xs"
  using foldl_conv_fold [of "(+)" 0 xs] fold_plus_sum_list_rev [of xs] by (simp add: add.commute)

lemma sum_const: "(\<And>v. v \<in> set vs \<Longrightarrow> f v = (n :: nat)) \<Longrightarrow> sum_list (map f vs) = length vs * n"
  by (induction vs) simp_all

lemma probe_elements:
  assumes "\<And>v. v \<in> set vs \<Longrightarrow> probeSize v = length (encode v)"
    "is_variable_types T \<or> fixed_size T \<noteq> None" "\<And>v. v \<in> set vs \<Longrightarrow> type_of v = T \<and> wf_value v"
  shows "probeSizeBuiltin_vector T (map probeSize vs) = 4 + length (concat (map encode vs))"
    "probeSizeBuiltin_list T (map probeSize vs) = 4 + length (concat (map encode vs))"
proof -
  have sizes: "map probeSize vs = map (\<lambda>v. length (encode v)) vs" using assms(1) by simp
  have "fixed_size T = Some n \<Longrightarrow> sum_list (map (\<lambda>v. length (encode v)) vs) = length vs * n" for n
    using assms(3) fixed_size_encode by (intro sum_const) auto
  moreover have "fixed_size T = Some n \<Longrightarrow> vs \<noteq> [] \<Longrightarrow> hd (map (\<lambda>v. length (encode v)) vs) = n" for n
    using assms(3) fixed_size_encode by (cases vs) auto
  ultimately have "\<not> is_variable_types T \<Longrightarrow>
      (if vs = [] then 0 else length vs * hd (map (\<lambda>v. length (encode v)) vs)) = sum_list (map (\<lambda>v. length (encode v)) vs)"
    using assms(2) by auto
  then show "probeSizeBuiltin_vector T (map probeSize vs) = 4 + length (concat (map encode vs))"
    "probeSizeBuiltin_list T (map probeSize vs) = 4 + length (concat (map encode vs))"
    unfolding sizes by (auto simp: probeSizeBuiltin_vector_def probeSizeBuiltin_list_def
        probeSizeBuiltinForVector_variable_def probeSizeBuiltinForVector_fixed_def
        probeSizeBuiltinForList_variable_def probeSizeBuiltinForList_fixed_def length_concat comp_def)
qed

lemma probe_entries:
  assumes "\<And>k v. (k, v) \<in> set kvs \<Longrightarrow> probeSize k = length (encode k) \<and> probeSize v = length (encode v)"
    "is_variable_types K \<or> is_variable_types V \<or> fixed_size K \<noteq> None \<and> fixed_size V \<noteq> None"
    "\<And>k v. (k, v) \<in> set kvs \<Longrightarrow> type_of k = K \<and> type_of v = V \<and> wf_value k \<and> wf_value v"
  shows "probeSizeBuiltin_map K V (map (map_prod probeSize probeSize) kvs) =
    4 + length (concat (map (\<lambda>(k, v). encode k @ encode v) kvs))"
proof -
  let ?len = "\<lambda>(k, v). length (encode k) + length (encode v)"
  have sizes: "map (map_prod probeSize probeSize) kvs = map (map_prod (length \<circ> encode) (length \<circ> encode)) kvs"
    using assms(1) by auto
  have total: "length (concat (map (\<lambda>(k, v). encode k @ encode v) kvs)) = sum_list (map ?len kvs)"
    by (induction kvs) auto
  have "fixed_size K = Some m \<Longrightarrow> fixed_size V = Some n \<Longrightarrow> kv \<in> set kvs \<Longrightarrow> ?len kv = m + n" for m n kv
    using assms(3) [of "fst kv" "snd kv"] fixed_size_encode by (cases kv) auto
  then have "fixed_size K = Some m \<Longrightarrow> fixed_size V = Some n \<Longrightarrow>
      sum_list (map ?len kvs) = length kvs * (m + n) \<and> (kvs \<noteq> [] \<longrightarrow> ?len (hd kvs) = m + n)" for m n
    using sum_const [of kvs ?len "m + n"] by (cases kvs) auto
  then have "\<not> is_variable_types K \<Longrightarrow> \<not> is_variable_types V \<Longrightarrow>
      (if kvs = [] then 0 else length kvs * ?len (hd kvs)) = sum_list (map ?len kvs)"
    using assms(2) by auto
  then show ?thesis
    unfolding sizes total
    by (auto simp: probeSizeBuiltin_map_def probeSizeBuiltinForMap_variable_def probeSizeBuiltinForMap_fixed_def
        split_def comp_def hd_map split: if_splits)
qed

lemma probeSize_encode: "wf_value v \<Longrightarrow> probe_exact (type_of v) \<Longrightarrow> probeSize v = length (encode v)"
proof (induction v)
  case (VVector T vs)
  then show ?case using probe_elements(1) [of vs T] by (auto simp: list_all_iff uint32_bytes_def)
next
  case (VList T vs)
  then show ?case using probe_elements(2) [of vs T] by (auto simp: list_all_iff uint32_bytes_def)
next
  case (VMap K V kvs)
  have typed: "type_of k = K \<and> type_of v = V \<and> wf_value k \<and> wf_value v" if "(k, v) \<in> set kvs" for k v
    using VMap.prems that by (force simp: list_all_iff)
  have "probeSize k = length (encode k) \<and> probeSize v = length (encode v)" if "(k, v) \<in> set kvs" for k v
    using VMap.IH(1) [OF that, of k] VMap.IH(2) [OF that, of v] typed [OF that] VMap.prems by auto
  from probe_entries [OF this _ typed] VMap.prems show ?case
    by (simp add: uint32_bytes_def comp_def split_def)
next
  case (VArray T vs)
  then show ?case using fixed_size_encode [of "VArray T vs" "4 + length vs * sizeof T"]
    by (auto simp: probeSizeBuiltin_boost_array_def)
next
  case (VStruct sz al vs)
  then have "map probeSize vs = map (\<lambda>v. length (encode v)) vs" by (auto simp: list_all_iff)
  then have "sum_list (map probeSize vs) = sum_list (map (\<lambda>v. length (encode v)) vs)" by (simp only:)
  then show ?case by (simp add: probeSizeSerializable_def foldl_add_sum length_concat comp_def)
qed (simp_all add: probeSizeBuiltin_bool_def probeSizeBuiltin_string_def probeSizeBuiltin_wstring_def
    probeSizeBuiltin_cstr_def probeSizeBuiltin_error_code_def probeSizeBuiltin_pair_def uint32_bytes_def takeWhile_no_0)

section \<open>Properties\<close>


definition nested_sample :: cvalue where
  "nested_sample = VMap (TScalar uint16) (TVector TString)
     [(VScalar uint16 3, VVector TString [VString [104, 105], VString []]), (VScalar uint16 515, VVector TString [])]"




definition pair_vector_sample :: cvalue where
  "pair_vector_sample = VVector (TPair TString (TScalar int8))
     [VPair (VString []) (VScalar int8 1), VPair (VString [97, 98, 99]) (VScalar int8 2)]"

text \<open>
  The prediction is wrong for a vector of pairs with a string: a pair is not a variable type in the
  code's classification, so the size of the first element is multiplied by the number of elements.
  For a vector with one empty and one three-character string it predicts 14 bytes while 17 are
  written.
\<close>

theorem probeSize_pair_vector_wrong:
  "wf_value pair_vector_sample \<and> probeSize pair_vector_sample = 14 \<and> length (encode pair_vector_sample) = 17"
  by (simp add: pair_vector_sample_def max_lengths probeSizeBuiltin_vector_def probeSizeBuiltinForVector_fixed_def
      probeSizeBuiltin_pair_def probeSizeBuiltin_string_def uint32_bytes_def)

end
