(* ===== verification/Buffer_Transfer.thy ===== *)
theory Buffer_Transfer
  imports Buffer_Serial_Spec
begin

text \<open>
  Moving bytes between buffers and between buffers and streams: \<open>append\<close>, buffers nested in
  buffers, the stream operators of \<open>Buffer\<close>, and \<open>ThreadLocalBufferWrapper\<close>, all of
  \<open>include/core/Buffer.h\<close>.
\<close>

section \<open>Append\<close>

text \<open>The next \<open>n\<close> bytes lie in one piece; only then does the raw pointer cover them.\<close>

definition contiguous :: "BufferMode \<Rightarrow> nat \<Rightarrow> buffer \<Rightarrow> bool" where
  "contiguous M n s \<longleftrightarrow> M = plain \<or> mReadPos s + n \<le> mAllocatedSize s"

lemma raw_read_front:
  assumes "buf_wf M s" "n \<le> length (contents M s)" "contiguous M n s"
  shows "mem_read (mData s) (rpos s) n = Inr (take n (contents M s))"
proof (cases M)
  case plain
  with getDirect_front [OF assms(1,2)] show ?thesis by (simp add: getDirect_def rpos_def)
next
  case circular
  then have "mReadPos s + n \<le> 7 * size_limit" "mReadPos s + n \<le> mAllocatedSize s"
    using assms by (auto simp: contiguous_def buf_wf_def)
  with circular getDirect_front [OF assms(1,2)] show ?thesis by (simp add: getDirect_def rpos_def size_simps)
qed

lemma append_size_ok:
  assumes b: "buf_wf Mode b" "room Mode n b" and s: "buf_wf M s" "n \<le> length (contents M s)" "contiguous M n s"
  shows "\<exists>b' s'. append_size Mode M n b s = Inr (b', s') \<and> buf_wf Mode b' \<and> buf_wf M s' \<and>
    contents Mode b' = contents Mode b @ take n (contents M s) \<and> contents M s' = drop n (contents M s)"
proof -
  have len: "length (take n (contents M s)) = n" using s by simp
  obtain b' where "writeArray Mode (take n (contents M s)) b = Inr b'" "buf_wf Mode b'"
    "contents Mode b' = contents Mode b @ take n (contents M s)"
    using arr.put_ok [of Mode b "take n (contents M s)" 0] b len by auto
  moreover obtain s' where "rskip M n s = Inr s'" "buf_wf M s'" "contents M s' = drop n (contents M s)"
    using rskip_drop [OF s(1,2)] by auto
  ultimately show ?thesis
    using raw_read_front [OF s] s by (simp add: append_size_def dataSize_contents)
qed

lemma append_size_wrapped:
  assumes s: "buf_wf circular s" "n \<le> length (contents circular s)" "\<not> contiguous circular n s" "0 < n"
  shows "append_size Mode circular n b s = Inl MemFault"
proof -
  have "block_size (mData s) < rpos s + n" using s by (simp add: contiguous_def buf_wf_def rpos_def)
  then show ?thesis using s by (simp add: append_size_def dataSize_contents mem_simps)
qed

section \<open>Buffers in buffers\<close>

lemma writeBuiltin_Buffer_ok:
  assumes b: "buf_wf Mode b" "room Mode (4 + n) b" and s: "buf_wf M s" "n = length (contents M s)"
    "contiguous M n s" "n < 4294967296"
  shows "\<exists>b' s'. writeBuiltin_Buffer Mode M s b = Inr (b', s') \<and> buf_wf Mode b' \<and> buf_wf M s' \<and>
    contents Mode b' = contents Mode b @ uint32_bytes n @ contents M s \<and> contents M s' = []"
proof -
  have ds: "to_uint32 (dataSize M s) = n" "dataSize M s = n" using s by (simp_all add: dataSize_contents to_uint32_small)
  have "room Mode (length (uint32_bytes n) + n) b" using b by (simp add: uint32_bytes_def)
  then obtain b1 where b1: "writeDirect Mode (uint32_bytes n) b = Inr b1" "buf_wf Mode b1"
    "contents Mode b1 = contents Mode b @ uint32_bytes n" "room Mode n b1"
    using direct.put_ok [OF b(1)] by blast
  obtain b2 s2 where "append_size Mode M n b1 s = Inr (b2, s2)" "buf_wf Mode b2" "buf_wf M s2"
    "contents Mode b2 = contents Mode b1 @ take n (contents M s)" "contents M s2 = drop n (contents M s)"
    using append_size_ok [OF b1(2,4) s(1) _ s(3)] s by auto
  with b1 ds s(2) show ?thesis by (simp add: writeBuiltin_Buffer_def Let_def)
qed

lemma readBuiltin_Buffer_ok:
  assumes b: "buf_wf Mode b" "contents Mode b = uint32_bytes n @ bs @ rest" "n = length bs" "n < 4294967296"
    and s: "buf_wf M s" "room M n s"
    and piece: "\<And>b'. readBuiltin_scalar Mode uint32 b = Inr (n, b') \<Longrightarrow> contiguous Mode n b'"
  shows "\<exists>b' s'. readBuiltin_Buffer Mode M s b = Inr (b', s') \<and> buf_wf Mode b' \<and> buf_wf M s' \<and>
    contents Mode b' = rest \<and> contents M s' = contents M s @ bs"
proof -
  obtain b1 where b1: "readBuiltin_scalar Mode uint32 b = Inr (n, b1)" "buf_wf Mode b1" "contents Mode b1 = bs @ rest"
    using deliversD [OF delivers_uint32 [OF b(4)] b(1,2)] by auto
  obtain s2 b2 where "append_size M Mode n s b1 = Inr (s2, b2)" "buf_wf M s2" "buf_wf Mode b2"
    "contents M s2 = contents M s @ take n (contents Mode b1)" "contents Mode b2 = drop n (contents Mode b1)"
    using append_size_ok [OF s b1(2) _ piece [OF b1(1)]] b1 b by auto
  with b1 b show ?thesis by (simp add: readBuiltin_Buffer_def dataSize_contents)
qed

section \<open>Streams\<close>

text \<open>
  An output stream is the bytes written to it, an input stream the bytes still to come. Reading
  past the end of the input leaves the destination indeterminate, which is \<open>MemFault\<close> here.
\<close>

definition stream_read :: "nat \<Rightarrow> u8 list \<Rightarrow> (u8 list \<times> u8 list) result" where
  "stream_read n s = (if n \<le> length s then Inr (take n s, drop n s) else Inl MemFault)"

definition ostream_Buffer :: "u8 list \<Rightarrow> buffer \<Rightarrow> (u8 list \<times> buffer) result" where
  "ostream_Buffer stream b =
     (let sz = dataSize plain b in
      rbind (mem_read (mData b) (rpos b) (dataSize plain b)) (\<lambda>bs.
      rbind (rskip plain sz b) (\<lambda>b.
        Inr (stream @ le_bytes 8 sz @ bs, b))))"

definition istream_Buffer :: "u8 list \<Rightarrow> buffer \<Rightarrow> (u8 list \<times> buffer) result" where
  "istream_Buffer stream b =
     rbind (stream_read 8 stream) (\<lambda>(t, stream).
     let sz = le_value t in
     rbind (assert_that (freeSize plain b \<ge> sz)) (\<lambda>_.
     rbind (stream_read sz stream) (\<lambda>(bs, stream).
     rbind (store (wpos b) bs b) (\<lambda>b.
     rbind (wskip plain sz b) (\<lambda>b. Inr (stream, b))))))"

lemma ostream_Buffer_ok:
  assumes "buf_wf plain b"
  shows "\<exists>b'. ostream_Buffer s b = Inr (s @ le_bytes 8 (length (contents plain b)) @ contents plain b, b') \<and>
    buf_wf plain b' \<and> contents plain b' = []"
proof -
  have "mem_read (mData b) (rpos b) (length (contents plain b)) = Inr (contents plain b)"
    using raw_read_front [OF assms, of "length (contents plain b)"] by (simp add: contiguous_def)
  then show ?thesis
    using rskip_drop [OF assms, of "length (contents plain b)"]
    by (auto simp: ostream_Buffer_def dataSize_contents [OF assms] Let_def)
qed

lemma istream_Buffer_ok:
  assumes "buf_wf plain b" "fits plain (length bs) b"
  shows "\<exists>b'. istream_Buffer (le_bytes 8 (length bs) @ bs @ rest) b = Inr (rest, b') \<and> buf_wf plain b' \<and>
    contents plain b' = contents plain b @ bs"
proof -
  have "length bs \<le> 2 * size_limit" using assms by (auto simp: fits_def occupied_def buf_wf_def)
  then have len: "le_value (le_bytes 8 (length bs)) = length bs"
    by (intro le_value_bytes) (simp add: size_limit_def)
  obtain b' where "rbind (store (wpos b) bs b) (wskip plain (length bs)) = Inr b'" "buf_wf plain b'"
    "contents plain b' = contents plain b @ bs"
    using setDirect_skip [OF assms] by (auto simp: setDirect_def wpos_def)
  then show ?thesis
    using fits_freeSize [OF assms] len
    by (cases "store (wpos b) bs b") (auto simp: istream_Buffer_def stream_read_def rbind_simps)
qed

section \<open>Thread-local buffers\<close>

text \<open>The specification of the buffer, and the buffer of the calling thread once it was asked for.\<close>

datatype spec_type = size_only nat | non_const_buffer_with_size block nat | const_buffer_with_size block nat

record ThreadLocalBufferWrapper =
  spec :: spec_type
  tlsData :: "buffer option"

definition TLBW_new :: "spec_type \<Rightarrow> ThreadLocalBufferWrapper" where
  "TLBW_new s = \<lparr>spec = s, tlsData = None\<rparr>"

definition TLBW_get :: "(nat \<Rightarrow> u8) \<Rightarrow> ThreadLocalBufferWrapper \<Rightarrow> (buffer \<times> ThreadLocalBufferWrapper) result" where
  "TLBW_get fr t =
     (case tlsData t of
        Some ptr \<Rightarrow> Inr (ptr, t)
      | None \<Rightarrow>
          rbind (case spec t of
                   size_only n \<Rightarrow> BufferBase_size plain fr n
                 | non_const_buffer_with_size d n \<Rightarrow> Inr (BufferBase_data fr d n)
                 | const_buffer_with_size d n \<Rightarrow> Inr (BufferBase_const_data fr d n)) (\<lambda>ptr.
            Inr (ptr, t\<lparr>tlsData := Some ptr\<rparr>)))"

lemma TLBW_get_twice: "TLBW_get fr t = Inr (b, t') \<Longrightarrow> TLBW_get fr' t' = Inr (b, t')"
  by (auto simp: TLBW_get_def rbind_simps split: option.splits)

section \<open>Properties\<close>

text \<open>
  A buffer sent inside another buffer arrives: writing a nested buffer (length, then its unread
  bytes) into an empty plain buffer and reading it into a third one moves exactly its contents
  there and leaves both the source and the carrier empty.
\<close>

theorem nested_buffer_roundtrip:
  assumes "buf_wf plain b" "contents plain b = []" "room plain (4 + length (contents plain s)) b"
    "buf_wf plain s" "length (contents plain s) < 4294967296" "buf_wf M d" "room M (length (contents plain s)) d"
  shows "\<exists>b1 s1 b2 d1. writeBuiltin_Buffer plain plain s b = Inr (b1, s1) \<and> contents plain s1 = [] \<and>
    readBuiltin_Buffer plain M d b1 = Inr (b2, d1) \<and> contents plain b2 = [] \<and>
    contents M d1 = contents M d @ contents plain s \<and> buf_wf M d1"
proof -
  obtain b1 s1 where b1: "writeBuiltin_Buffer plain plain s b = Inr (b1, s1)" "buf_wf plain b1" "contents plain s1 = []"
    "contents plain b1 = uint32_bytes (length (contents plain s)) @ contents plain s @ []"
    using writeBuiltin_Buffer_ok [OF assms(1,3,4) refl _ assms(5)] assms(2) by (auto simp: contiguous_def)
  from readBuiltin_Buffer_ok [OF b1(2,4) refl assms(5-7)] b1 show ?thesis by (auto simp: contiguous_def)
qed

theorem nested_buffer_roundtrip_witness:
  "\<exists>b1 s1 b2 d1. writeBuiltin_Buffer plain plain plain_sample (BufferBase_default (\<lambda>_. 0)) = Inr (b1, s1) \<and> contents plain s1 = [] \<and>
    readBuiltin_Buffer plain circular ring_sample b1 = Inr (b2, d1) \<and> contents plain b2 = [] \<and>
    contents circular d1 = contents circular ring_sample @ contents plain plain_sample \<and> buf_wf circular d1"
  by (rule nested_buffer_roundtrip [OF constructors_wf])
     (simp_all add: plain_sample_facts ring_sample_facts room_def occupied_def BufferBase_default_def size_limit_def)

text \<open>
  \<open>append\<close> from a circular source whose unread bytes wrap around reads past the end of the source
  block: it copies linearly from the raw read pointer.
\<close>

theorem append_wrapped_source_faults:
  assumes "buf_wf circular s" "n \<le> length (contents circular s)" "mAllocatedSize s < mReadPos s + n"
  shows "append_size Mode circular n b s = Inl MemFault"
proof -
  have "0 < n" using assms(1,3) by (auto simp: buf_wf_def)
  then show ?thesis using assms by (intro append_size_wrapped) (auto simp: contiguous_def)
qed

theorem append_wrapped_source_faults_witness:
  "append_size plain circular 2 (BufferBase_default (\<lambda>_. 0)) (ring_sample\<lparr>mWritePos := 1\<rparr>) = Inl MemFault"
  by (rule append_wrapped_source_faults)
     (simp_all add: ring_sample_def buf_wf_def size_limit_def contents_def ring_def window_def)

text \<open>
  Stream round trip: what \<open>operator <<\<close> writes for a buffer, \<open>operator >>\<close> appends to another buffer
  whose tail has room for it, and the rest of the stream is untouched.
\<close>

theorem stream_roundtrip:
  assumes "buf_wf plain b" "buf_wf plain d" "fits plain (length (contents plain b)) d"
  shows "\<exists>t b1 d1. ostream_Buffer [] b = Inr (t, b1) \<and> contents plain b1 = [] \<and>
    istream_Buffer (t @ rest) d = Inr (rest, d1) \<and> contents plain d1 = contents plain d @ contents plain b \<and> buf_wf plain d1"
  using ostream_Buffer_ok [OF assms(1), of "[]"] istream_Buffer_ok [OF assms(2,3), of rest] by auto

theorem stream_roundtrip_witness:
  "\<exists>t b1 d1. ostream_Buffer [] (clear plain_sample) = Inr (t, b1) \<and> contents plain b1 = [] \<and>
    istream_Buffer (t @ [8]) plain_sample = Inr ([8], d1) \<and>
    contents plain d1 = contents plain plain_sample @ contents plain (clear plain_sample) \<and> buf_wf plain d1"
  by (rule stream_roundtrip) (simp_all add: plain_sample_facts clear_contents)

text \<open>
  The check of \<open>operator >>\<close> does not protect the block: \<open>freeSize()\<close> counts the bytes in front of the
  read position, so a message that passes the assertion can be stored past the end of the block.
\<close>

theorem istream_overruns:
  assumes "buf_wf plain b" "length bs \<le> freeSize plain b" "mAllocatedSize b < mWritePos b + length bs"
  shows "istream_Buffer (le_bytes 8 (length bs) @ bs @ rest) b = Inl MemFault"
proof -
  have "mWritePos b \<le> mAllocatedSize b" "block_size (mData b) = mAllocatedSize b" "mAllocatedSize b \<le> 2 * size_limit"
    using assms(1) by (auto simp: buf_wf_def)
  moreover have "freeSize plain b \<le> mAllocatedSize b" using assms(1) by (simp add: freeSize_plain)
  ultimately have "length bs < 256 ^ 8" and over: "block_size (mData b) < wpos b + length bs" "bs \<noteq> []"
    using assms(2,3) by (auto simp: size_limit_def wpos_def)
  then have "le_value (le_bytes 8 (length bs)) = length bs" by (intro le_value_bytes)
  with over assms(2) show ?thesis
    by (simp add: istream_Buffer_def stream_read_def store_def mem_write_fault)
qed

theorem istream_overruns_witness:
  "istream_Buffer (le_bytes 8 (length [1, 2 :: u8]) @ [1, 2] @ []) plain_sample = Inl MemFault"
  by (rule istream_overruns) (simp_all add: plain_sample_facts freeSize_plain, simp add: plain_sample_def)

end
