(* ===== verification/Buffer_Lifetime.thy ===== *)
theory Buffer_Lifetime
  imports Buffer_Spec
begin

text \<open>
  Who owns the memory block of a buffer: the copy and move constructors, the two assignment
  operators and the destructor of \<open>BufferBase\<close> (\<open>include/core/Buffer.h\<close>) on a store of buffer objects
  and a heap of blocks, and the forwarding classes \<open>BufferT\<close> and \<open>ThreadLocalBufferWrapper\<close>. Shown:
  every live block has at most one owner, no block is freed twice and none is used after it was
  freed, copies are deep, moves transfer the block.
\<close>

section \<open>Heap and objects\<close>

text \<open>
  A buffer object holds the address of its block; the other members are those of the record
  \<open>buffer\<close>. \<open>brk\<close> is the next address that \<open>malloc\<close> hands out, \<open>junk\<close> the bytes it hands out there.
\<close>

record bufobj =
  pData :: "nat option"
  oAllocatedSize :: nat
  oOwner :: bool
  oReadOnly :: bool
  oOnDemand :: bool
  oReadPos :: nat
  oWritePos :: nat
  oReadPosMarked :: nat
  oWritePosMarked :: nat

record world =
  blocks :: "nat \<rightharpoonup> u8 list"
  brk :: nat
  objs :: "nat \<rightharpoonup> bufobj"
  junk :: "nat \<Rightarrow> u8"

definition heap_malloc :: "nat \<Rightarrow> world \<Rightarrow> nat \<times> world" where
  "heap_malloc n w = (brk w, w\<lparr>blocks := (blocks w)(brk w \<mapsto> map (junk w) [0..<n]), brk := brk w + 1\<rparr>)"

definition heap_free :: "nat \<Rightarrow> world \<Rightarrow> world result" where
  "heap_free a w =
     (if blocks w a = None then Inl MemFault else Inr (w\<lparr>blocks := (blocks w)(a := None)\<rparr>))"

definition get_obj :: "nat \<Rightarrow> world \<Rightarrow> bufobj result" where
  "get_obj i w = (case objs w i of None \<Rightarrow> Inl MemFault | Some x \<Rightarrow> Inr x)"

definition set_obj :: "nat \<Rightarrow> bufobj \<Rightarrow> world \<Rightarrow> world" where
  "set_obj i x w = w\<lparr>objs := (objs w)(i \<mapsto> x)\<rparr>"

text \<open>\<open>memcpy(dst, src, n)\<close> of the first \<open>n\<close> bytes of two blocks; no byte is touched for \<open>n = 0\<close>.\<close>

definition heap_copy :: "nat \<Rightarrow> nat option \<Rightarrow> nat \<Rightarrow> world \<Rightarrow> world result" where
  "heap_copy dst src n w =
     (if n = 0 then Inr w
      else case src of None \<Rightarrow> Inl MemFault
      | Some s \<Rightarrow>
          (case (blocks w s, blocks w dst) of
             (Some d, Some e) \<Rightarrow>
               if n \<le> length d \<and> n \<le> length e
               then Inr (w\<lparr>blocks := (blocks w)(dst \<mapsto> take n d @ drop n e)\<rparr>) else Inl MemFault
           | _ \<Rightarrow> Inl MemFault))"

section \<open>Operations\<close>

definition new_default :: "nat \<Rightarrow> world \<Rightarrow> world" where
  "new_default i w = set_obj i \<lparr>pData = None, oAllocatedSize = 0, oOwner = True, oReadOnly = False, oOnDemand = True,
     oReadPos = 0, oWritePos = 0, oReadPosMarked = 0, oWritePosMarked = 0\<rparr> w"

definition new_size :: "BufferMode \<Rightarrow> nat \<Rightarrow> nat \<Rightarrow> world \<Rightarrow> world result" where
  "new_size Mode i sz w =
     rbind (assert_that (sz > 0)) (\<lambda>_.
       let n = (case Mode of plain \<Rightarrow> sz | circular \<Rightarrow> sz_add sz 1); (a, w) = heap_malloc n w in
       Inr (set_obj i \<lparr>pData = Some a, oAllocatedSize = n, oOwner = True, oReadOnly = False, oOnDemand = False,
         oReadPos = 0, oWritePos = 0, oReadPosMarked = 0, oWritePosMarked = 0\<rparr> w))"

definition copy_construct :: "nat \<Rightarrow> nat \<Rightarrow> world \<Rightarrow> world result" where
  "copy_construct i j w =
     rbind (get_obj j w) (\<lambda>buffer.
       if oOwner buffer
       then let (a, w) = heap_malloc (oAllocatedSize buffer) w;
                w = set_obj i \<lparr>pData = Some a, oAllocatedSize = oAllocatedSize buffer, oOwner = True,
                      oReadOnly = False, oOnDemand = oOnDemand buffer, oReadPos = oReadPos buffer,
                      oWritePos = oWritePos buffer, oReadPosMarked = oReadPosMarked buffer,
                      oWritePosMarked = oWritePosMarked buffer\<rparr> w in
            heap_copy a (pData buffer) (oAllocatedSize buffer) w
       else Inr (set_obj i (buffer\<lparr>oOwner := False\<rparr>) w))"

definition moved_from :: bufobj where
  "moved_from = \<lparr>pData = None, oAllocatedSize = 0, oOwner = False, oReadOnly = False, oOnDemand = False,
     oReadPos = 0, oWritePos = 0, oReadPosMarked = 0, oWritePosMarked = 0\<rparr>"

definition move_construct :: "nat \<Rightarrow> nat \<Rightarrow> world \<Rightarrow> world result" where
  "move_construct i j w =
     rbind (get_obj j w) (\<lambda>buffer. Inr (set_obj j moved_from (set_obj i buffer w)))"

text \<open>\<open>if(mOwner && mData) { free(mData); mData = NULL; }\<close>\<close>

definition release :: "nat \<Rightarrow> world \<Rightarrow> world result" where
  "release i w =
     rbind (get_obj i w) (\<lambda>this.
       case pData this of
         Some a \<Rightarrow> if oOwner this
                   then rbind (heap_free a w) (\<lambda>w. Inr (set_obj i (this\<lparr>pData := None\<rparr>) w))
                   else Inr w
       | None \<Rightarrow> Inr w)"

definition destruct :: "nat \<Rightarrow> world \<Rightarrow> world result" where
  "destruct i w = rbind (release i w) (\<lambda>w. Inr (w\<lparr>objs := (objs w)(i := None)\<rparr>))"

definition copy_assign :: "nat \<Rightarrow> nat \<Rightarrow> world \<Rightarrow> world result" where
  "copy_assign i j w =
     rbind (release i w) (\<lambda>w.
     rbind (get_obj i w) (\<lambda>this.
     rbind (get_obj j w) (\<lambda>buffer.
       if oOwner buffer
       then let (a, w) = heap_malloc (oAllocatedSize buffer) w;
                w = set_obj i \<lparr>pData = Some a, oAllocatedSize = oAllocatedSize buffer, oOwner = True,
                      oReadOnly = False, oOnDemand = oOnDemand this, oReadPos = oReadPos buffer,
                      oWritePos = oWritePos buffer, oReadPosMarked = oReadPosMarked buffer,
                      oWritePosMarked = oWritePosMarked buffer\<rparr> w in
            heap_copy a (pData (if i = j then (buffer\<lparr>pData := Some a\<rparr>) else buffer)) (oAllocatedSize buffer) w
       else Inr (set_obj i (buffer\<lparr>oOwner := False, oOnDemand := oOnDemand this\<rparr>) w))))"

definition move_assign :: "nat \<Rightarrow> nat \<Rightarrow> world \<Rightarrow> world result" where
  "move_assign i j w =
     (if i = j then Inr w
      else rbind (release i w) (\<lambda>w.
           rbind (get_obj j w) (\<lambda>buffer. Inr (set_obj j moved_from (set_obj i buffer w)))))"

section \<open>The object seen as a buffer\<close>

definition view :: "world \<Rightarrow> bufobj \<Rightarrow> buffer" where
  "view w x =
     \<lparr>mData = (case pData x of None \<Rightarrow> None | Some a \<Rightarrow> blocks w a), mAllocatedSize = oAllocatedSize x,
      mOwner = oOwner x, mReadOnly = oReadOnly x, mOnDemand = oOnDemand x, mReadPos = oReadPos x,
      mWritePos = oWritePos x, mReadPosMarked = oReadPosMarked x, mWritePosMarked = oWritePosMarked x,
      mContext = None, fresh = junk w\<rparr>"

definition owned :: "world \<Rightarrow> nat \<Rightarrow> nat option" where
  "owned w i = (case objs w i of None \<Rightarrow> None | Some x \<Rightarrow> if oOwner x then pData x else None)"

definition heap_inv :: "world \<Rightarrow> bool" where
  "heap_inv w \<longleftrightarrow>
     (\<forall>i a. owned w i = Some a \<longrightarrow> blocks w a \<noteq> None) \<and>
     (\<forall>i j a. owned w i = Some a \<longrightarrow> owned w j = Some a \<longrightarrow> i = j) \<and>
     (\<forall>a. brk w \<le> a \<longrightarrow> blocks w a = None)"

definition sized :: "world \<Rightarrow> nat \<Rightarrow> bool" where
  "sized w i \<longleftrightarrow>
     (\<forall>x. objs w i = Some x \<longrightarrow> oOwner x \<longrightarrow> block_size (mData (view w x)) = oAllocatedSize x)"

text \<open>
  The ownership invariant: owned blocks are live, no two objects own the same block, addresses
  from \<open>brk\<close> on are unused, and the block of an owner is as large as the object says.
\<close>

definition own_inv :: "world \<Rightarrow> bool" where
  "own_inv w \<longleftrightarrow> heap_inv w \<and> (\<forall>i. sized w i)"

lemmas own_simps = heap_inv_def owned_def sized_def view_def

lemma owned_Some: "objs w i = Some x \<Longrightarrow> oOwner x \<Longrightarrow> owned w i = pData x"
  by (simp add: owned_def)

lemma owned_live: "heap_inv w \<Longrightarrow> owned w i = Some a \<Longrightarrow> blocks w a \<noteq> None"
  unfolding heap_inv_def by blast

lemma owned_unique: "heap_inv w \<Longrightarrow> owned w i = Some a \<Longrightarrow> owned w j = Some a \<Longrightarrow> i = j"
  unfolding heap_inv_def by blast

lemma owned_below_brk: "heap_inv w \<Longrightarrow> owned w i = Some a \<Longrightarrow> a < brk w"
  using owned_live [of w i a] by (cases "brk w \<le> a") (simp_all add: heap_inv_def)

text \<open>Releasing the block of an object: nobody else's block is touched.\<close>

lemma release_ok:
  assumes inv: "heap_inv w" and x: "objs w i = Some x"
  shows "\<exists>w' x'. release i w = Inr w' \<and> heap_inv w' \<and> objs w' = (objs w)(i \<mapsto> x') \<and> owned w' i = None \<and>
    (\<forall>a. blocks w' a = (if owned w i = Some a then None else blocks w a)) \<and>
    brk w' = brk w \<and> junk w' = junk w \<and> oOnDemand x' = oOnDemand x"
proof (cases "owned w i")
  case None
  with x have "release i w = Inr w"
    by (auto simp: release_def get_obj_def owned_def split: option.splits if_splits)
  with inv x None show ?thesis by (intro exI [of _ w] exI [of _ x]) (auto simp: fun_upd_triv)
next
  case (Some a)
  let ?x = "x\<lparr>pData := None\<rparr>"
  let ?w = "set_obj i ?x (w\<lparr>blocks := (blocks w)(a := None)\<rparr>)"
  have x_own: "oOwner x" "pData x = Some a"
    using Some x by (auto simp: owned_def split: if_splits)
  moreover have "blocks w a \<noteq> None" using owned_live [OF inv Some] .
  ultimately have "release i w = Inr ?w"
    using x by (simp add: release_def get_obj_def heap_free_def)
  moreover have other: "owned ?w j = (if j = i then None else owned w j)" for j
    by (simp add: owned_def set_obj_def)
  have "heap_inv ?w"
    using inv Some unfolding heap_inv_def other by (auto simp: set_obj_def)
  ultimately show ?thesis
    using Some other [of i] x_own by (intro exI [of _ ?w] exI [of _ ?x]) (auto simp: set_obj_def)
qed

lemma view_eq:
  "(\<And>a. pData x = Some a \<Longrightarrow> blocks w' a = blocks w a) \<Longrightarrow> junk w' = junk w \<Longrightarrow> view w' x = view w x"
  by (auto simp: view_def split: option.splits)

lemma view_objs [simp]: "view (w\<lparr>objs := f\<rparr>) x = view w x"
  by (rule view_eq) simp_all

theorem destruct_ok:
  assumes inv: "own_inv w" and x: "objs w i = Some x"
  shows "\<exists>w'. destruct i w = Inr w' \<and> own_inv w' \<and> objs w' = (objs w)(i := None) \<and>
    (\<forall>a. blocks w' a = (if owned w i = Some a then None else blocks w a))"
proof -
  have h: "heap_inv w" using inv by (simp add: own_inv_def)
  obtain w1 x1 where w1: "release i w = Inr w1" "heap_inv w1" "objs w1 = (objs w)(i \<mapsto> x1)" "owned w1 i = None"
    "\<And>a. blocks w1 a = (if owned w i = Some a then None else blocks w a)" "junk w1 = junk w"
    using release_ok [OF h x] by auto
  let ?w = "w1\<lparr>objs := (objs w1)(i := None)\<rparr>"
  have other: "owned ?w j = (if j = i then None else owned w1 j)" for j by (simp add: owned_def)
  have "heap_inv ?w" using w1(2) unfolding heap_inv_def other by auto
  moreover have "sized ?w j" for j
  proof (cases "j = i")
    case False
    have "view ?w y = view w y" if "objs w j = Some y" "oOwner y" for y
      using w1(5,6) False owned_unique [OF h, of j _ i] owned_Some [OF that] by (intro view_eq) auto
    moreover have "sized w j" using inv by (simp add: own_inv_def)
    ultimately show ?thesis using w1(3) False unfolding sized_def by simp
  qed (simp add: sized_def)
  ultimately have "own_inv ?w" by (simp add: own_inv_def)
  then show ?thesis using w1 by (auto simp: destruct_def)
qed

lemma heap_inv_update:
  assumes "heap_inv w" "\<And>j. j \<noteq> i \<Longrightarrow> owned w' j = owned w j"
    "\<And>j a. j \<noteq> i \<Longrightarrow> owned w j = Some a \<Longrightarrow> blocks w' a \<noteq> None"
    "\<And>a. owned w' i = Some a \<Longrightarrow> blocks w' a \<noteq> None \<and> (\<forall>j. j \<noteq> i \<longrightarrow> owned w j \<noteq> Some a)"
    "\<And>a. brk w' \<le> a \<Longrightarrow> blocks w' a = None"
  shows "heap_inv w'"
  using assms unfolding heap_inv_def by (metis (full_types))

text \<open>The common end of the copy constructor and the copy assignment: allocate, then copy.\<close>

lemma deep_copy_ok:
  assumes inv: "heap_inv w" "\<And>k. k \<noteq> i \<Longrightarrow> sized w k" and x: "objs w j = Some x" "i \<noteq> j" "oOwner x"
    and y: "pData y = Some (brk w)" "oOwner y" "oAllocatedSize y = oAllocatedSize x"
  shows "\<exists>w'. heap_copy (brk w) (pData x) (oAllocatedSize x) (set_obj i y (snd (heap_malloc (oAllocatedSize x) w))) = Inr w' \<and>
    own_inv w' \<and> objs w' = (objs w)(i \<mapsto> y) \<and> blocks w' = (blocks w)(brk w \<mapsto> blk (mData (view w x))) \<and> junk w' = junk w"
proof -
  let ?n = "oAllocatedSize x" and ?d = "blk (mData (view w x))"
  let ?w = "w\<lparr>blocks := (blocks w)(brk w \<mapsto> ?d), brk := brk w + 1, objs := (objs w)(i \<mapsto> y)\<rparr>"
  have len: "length ?d = ?n" using inv(2) [of j] x by (simp add: sized_def)
  have fresh: "pData x \<noteq> Some (brk w)"
    using owned_below_brk [OF inv(1), of j] owned_Some [OF x(1,3)] by auto
  have "heap_copy (brk w) (pData x) ?n (set_obj i y (snd (heap_malloc ?n w))) = Inr ?w"
  proof (cases "?n = 0")
    case True
    then have "?d = []" using len by (metis length_0_conv)
    with True show ?thesis by (simp add: heap_copy_def heap_malloc_def set_obj_def)
  next
    case False
    then obtain s d where "pData x = Some s" "blocks w s = Some d" "?d = d"
      using len by (auto simp: view_def blk_def split: option.splits)
    with False fresh len show ?thesis
      by (simp add: heap_copy_def heap_malloc_def set_obj_def)
  qed
  moreover have "heap_inv ?w"
  proof (rule heap_inv_update [OF inv(1), of i])
    fix j a assume "owned w j = Some a"
    then show "blocks ?w a \<noteq> None" using owned_live [OF inv(1)] by auto
  next
    fix a assume "owned ?w i = Some a"
    then have "a = brk w" using y by (simp add: owned_def)
    then show "blocks ?w a \<noteq> None \<and> (\<forall>j. j \<noteq> i \<longrightarrow> owned w j \<noteq> Some a)"
      using owned_below_brk [OF inv(1)] by auto
  qed (use inv(1) in \<open>auto simp: owned_def heap_inv_def\<close>)
  moreover have "sized ?w k" for k
  proof (cases "k = i")
    case True
    then show ?thesis using y len by (auto simp: sized_def view_def)
  next
    case False
    have "view ?w z = view w z" if "objs w k = Some z" "oOwner z" for z
      using owned_below_brk [OF inv(1), of k] owned_Some [OF that] by (intro view_eq) auto
    then show ?thesis using inv(2) [OF False] False unfolding sized_def by simp
  qed
  ultimately show ?thesis by (intro exI [of _ ?w]) (simp add: own_inv_def)
qed

text \<open>A non-owner put in place of an object that owns nothing.\<close>

lemma set_borrower_ok:
  assumes "heap_inv w" "\<And>k. k \<noteq> i \<Longrightarrow> sized w k" "\<not> oOwner y" "owned w i = None"
  shows "own_inv (set_obj i y w)"
proof -
  have o: "owned (set_obj i y w) j = owned w j" for j
    using assms by (auto simp: owned_def set_obj_def)
  have "heap_inv (set_obj i y w)" using assms(1) unfolding heap_inv_def o by (simp add: set_obj_def)
  moreover have "sized (set_obj i y w) k" for k
    using assms(2) [of k] assms(3) by (auto simp: sized_def set_obj_def)
  ultimately show ?thesis by (simp add: own_inv_def)
qed

section \<open>Copying and moving\<close>

lemma copy_construct_ok:
  assumes inv: "own_inv w" and x: "objs w j = Some x" and i: "objs w i = None"
  shows "\<exists>w' y. copy_construct i j w = Inr w' \<and> own_inv w' \<and> objs w' = (objs w)(i \<mapsto> y) \<and>
    (\<forall>a. blocks w a \<noteq> None \<longrightarrow> blocks w' a = blocks w a) \<and> (\<forall>Mode. contents Mode (view w' y) = contents Mode (view w x)) \<and>
    (oOwner x \<longrightarrow> pData y = Some (brk w) \<and> oOwner y)"
proof -
  have h: "heap_inv w" "\<And>k. sized w k" using inv by (auto simp: own_inv_def)
  have ij: "i \<noteq> j" using x i by auto
  show ?thesis
  proof (cases "oOwner x")
    case True
    let ?y = "\<lparr>pData = Some (brk w), oAllocatedSize = oAllocatedSize x, oOwner = True,
      oReadOnly = False, oOnDemand = oOnDemand x, oReadPos = oReadPos x, oWritePos = oWritePos x,
      oReadPosMarked = oReadPosMarked x, oWritePosMarked = oWritePosMarked x\<rparr>"
    obtain w' where w': "heap_copy (brk w) (pData x) (oAllocatedSize x) (set_obj i ?y (snd (heap_malloc (oAllocatedSize x) w))) = Inr w'"
      "own_inv w'" "objs w' = (objs w)(i \<mapsto> ?y)" "blocks w' = (blocks w)(brk w \<mapsto> blk (mData (view w x)))"
      using deep_copy_ok [of w i j x ?y] h x ij True by auto
    have "copy_construct i j w = Inr w'"
      using w'(1) x True by (simp add: copy_construct_def get_obj_def heap_malloc_def)
    moreover have "contents Mode (view w' ?y) = contents Mode (view w x)" for Mode
      by (cases Mode) (simp_all add: contents_def view_def w'(4))
    moreover have "blocks w a \<noteq> None \<Longrightarrow> blocks w' a = blocks w a" for a
      using h(1) by (auto simp: w'(4) heap_inv_def)
    ultimately show ?thesis using w'(2,3) by (intro exI [of _ w'] exI [of _ ?y]) auto
  next
    case False
    let ?y = "x\<lparr>oOwner := False\<rparr>"
    have "own_inv (set_obj i ?y w)"
      using set_borrower_ok [of w i ?y] h i by (simp add: owned_def)
    moreover have "contents Mode (view (set_obj i ?y w) ?y) = contents Mode (view w x)" for Mode
      by (cases Mode) (simp_all add: contents_def view_def set_obj_def split: option.splits)
    ultimately show ?thesis using x False
      by (intro exI [of _ "set_obj i ?y w"] exI [of _ ?y]) (simp add: copy_construct_def get_obj_def set_obj_def)
  qed
qed

text \<open>Handing the block of \<open>j\<close> over to \<open>i\<close>.\<close>

lemma hand_over_ok:
  assumes inv: "heap_inv w" "\<And>k. k \<noteq> i \<Longrightarrow> sized w k" and x: "objs w j = Some x" "i \<noteq> j" "owned w i = None"
  shows "own_inv (set_obj j moved_from (set_obj i x w))"
proof -
  let ?w = "set_obj j moved_from (set_obj i x w)"
  have o: "owned ?w k = (if k = i then owned w j else if k = j then None else owned w k)" for k
    using x by (simp add: owned_def set_obj_def moved_from_def)
  have b: "blocks ?w = blocks w" "brk ?w = brk w" by (simp_all add: set_obj_def)
  have "heap_inv ?w" using inv(1) x(3) unfolding heap_inv_def o b by auto
  moreover have "sized ?w k" for k
    using inv(2) [of k] inv(2) [of j] x by (auto simp: sized_def set_obj_def moved_from_def)
  ultimately show ?thesis by (simp add: own_inv_def)
qed

lemma move_construct_ok:
  assumes "own_inv w" "objs w j = Some x" "objs w i = None"
  shows "\<exists>w'. move_construct i j w = Inr w' \<and> own_inv w' \<and> objs w' = (objs w)(i \<mapsto> x, j \<mapsto> moved_from) \<and>
    blocks w' = blocks w \<and> view w' x = view w x"
proof -
  have "i \<noteq> j" using assms by auto
  with assms have "own_inv (set_obj j moved_from (set_obj i x w))"
    by (intro hand_over_ok) (auto simp: own_inv_def owned_def)
  with assms show ?thesis by (simp add: move_construct_def get_obj_def set_obj_def)
qed

lemma released:
  assumes inv: "own_inv w" and x: "objs w i = Some x"
  obtains w1 x1 where "release i w = Inr w1" "heap_inv w1" "\<And>k. k \<noteq> i \<Longrightarrow> sized w1 k" "objs w1 = (objs w)(i \<mapsto> x1)"
    "owned w1 i = None" "\<And>a. blocks w1 a = (if owned w i = Some a then None else blocks w a)"
    "brk w1 = brk w" "junk w1 = junk w" "oOnDemand x1 = oOnDemand x"
    "\<And>k y. k \<noteq> i \<Longrightarrow> objs w k = Some y \<Longrightarrow> oOwner y \<Longrightarrow> view w1 y = view w y"
proof -
  have h: "heap_inv w" using inv by (simp add: own_inv_def)
  obtain w1 x1 where w1: "release i w = Inr w1" "heap_inv w1" "objs w1 = (objs w)(i \<mapsto> x1)" "owned w1 i = None"
    "\<And>a. blocks w1 a = (if owned w i = Some a then None else blocks w a)" "brk w1 = brk w" "junk w1 = junk w"
    "oOnDemand x1 = oOnDemand x"
    using release_ok [OF h x] by auto
  have v: "view w1 y = view w y" if "k \<noteq> i" "objs w k = Some y" "oOwner y" for k y
    using w1(5,7) that(1) owned_unique [OF h, of k _ i] owned_Some [OF that(2,3)] by (intro view_eq) auto
  have "sized w1 k" if "k \<noteq> i" for k
    using inv v [OF that] w1(3) that unfolding own_inv_def sized_def by auto
  with w1 v show ?thesis by (auto intro: that)
qed

lemma copy_assign_ok:
  assumes inv: "own_inv w" and x: "objs w j = Some x" and z: "objs w i = Some z" and ij: "i \<noteq> j"
  shows "\<exists>w' y. copy_assign i j w = Inr w' \<and> own_inv w' \<and> objs w' = (objs w)(i \<mapsto> y) \<and>
    (oOwner x \<longrightarrow> oOwner y \<and> (\<forall>Mode. contents Mode (view w' y) = contents Mode (view w x)))"
proof -
  obtain w1 z1 where w1: "release i w = Inr w1" "heap_inv w1" "\<And>k. k \<noteq> i \<Longrightarrow> sized w1 k" "objs w1 = (objs w)(i \<mapsto> z1)"
    "owned w1 i = None" "brk w1 = brk w" "oOnDemand z1 = oOnDemand z"
    "\<And>k y. k \<noteq> i \<Longrightarrow> objs w k = Some y \<Longrightarrow> oOwner y \<Longrightarrow> view w1 y = view w y"
    using released [OF inv z] by metis
  have x1: "objs w1 j = Some x" "objs w1 i = Some z1" using w1(4) x ij by auto
  show ?thesis
  proof (cases "oOwner x")
    case True
    let ?y = "\<lparr>pData = Some (brk w1), oAllocatedSize = oAllocatedSize x, oOwner = True,
      oReadOnly = False, oOnDemand = oOnDemand z1, oReadPos = oReadPos x, oWritePos = oWritePos x,
      oReadPosMarked = oReadPosMarked x, oWritePosMarked = oWritePosMarked x\<rparr>"
    obtain w' where w': "heap_copy (brk w1) (pData x) (oAllocatedSize x) (set_obj i ?y (snd (heap_malloc (oAllocatedSize x) w1))) = Inr w'"
      "own_inv w'" "objs w' = (objs w1)(i \<mapsto> ?y)" "blocks w' = (blocks w1)(brk w1 \<mapsto> blk (mData (view w1 x)))"
      using deep_copy_ok [of w1 i j x ?y] w1(2,3) x1 ij True by auto
    have "copy_assign i j w = Inr w'"
      using w'(1) x1 w1(1) True ij by (simp add: copy_assign_def get_obj_def heap_malloc_def)
    moreover have "contents Mode (view w' ?y) = contents Mode (view w1 x)" for Mode
      by (cases Mode) (simp_all add: contents_def view_def w'(4))
    moreover have "view w1 x = view w x" using w1(8) [of j x] x ij True by simp
    ultimately show ?thesis using w'(2,3) w1(4) by (intro exI [of _ w'] exI [of _ ?y]) auto
  next
    case False
    let ?y = "x\<lparr>oOwner := False, oOnDemand := oOnDemand z1\<rparr>"
    have "own_inv (set_obj i ?y w1)" using set_borrower_ok [of w1 i ?y] w1 by simp
    then show ?thesis using x1 w1 False
      by (intro exI [of _ "set_obj i ?y w1"] exI [of _ ?y]) (simp add: copy_assign_def get_obj_def set_obj_def)
  qed
qed

lemma move_assign_ok:
  assumes inv: "own_inv w" and x: "objs w j = Some x" and z: "objs w i = Some z" and ij: "i \<noteq> j"
  shows "\<exists>w'. move_assign i j w = Inr w' \<and> own_inv w' \<and> objs w' = (objs w)(i \<mapsto> x, j \<mapsto> moved_from) \<and>
    (oOwner x \<longrightarrow> view w' x = view w x) \<and> (\<forall>a. owned w i = Some a \<longrightarrow> blocks w' a = None)"
proof -
  obtain w1 z1 where w1: "release i w = Inr w1" "heap_inv w1" "\<And>k. k \<noteq> i \<Longrightarrow> sized w1 k" "objs w1 = (objs w)(i \<mapsto> z1)"
    "owned w1 i = None" "\<And>a. blocks w1 a = (if owned w i = Some a then None else blocks w a)"
    "\<And>k y. k \<noteq> i \<Longrightarrow> objs w k = Some y \<Longrightarrow> oOwner y \<Longrightarrow> view w1 y = view w y"
    using released [OF inv z] by metis
  have x1: "objs w1 j = Some x" using w1(4) x ij by auto
  let ?w = "set_obj j moved_from (set_obj i x w1)"
  have "own_inv ?w" using hand_over_ok [of w1 i j x] w1 x1 ij by simp
  moreover have "move_assign i j w = Inr ?w" using w1(1) x1 ij by (simp add: move_assign_def get_obj_def)
  moreover have "oOwner x \<longrightarrow> view ?w x = view w x" using w1(7) [of j x] x ij by (simp add: set_obj_def)
  ultimately show ?thesis using w1(4,6) ij by (intro exI [of _ ?w]) (auto simp: set_obj_def)
qed

lemma new_default_ok: "own_inv w \<Longrightarrow> objs w i = None \<Longrightarrow> own_inv (new_default i w)"
proof -
  assume inv: "own_inv w" and i: "objs w i = None"
  have o: "owned (new_default i w) j = owned w j" for j
    using i by (auto simp: owned_def new_default_def set_obj_def)
  have "heap_inv (new_default i w)"
    using inv unfolding own_inv_def heap_inv_def o by (auto simp: new_default_def set_obj_def)
  moreover have "sized (new_default i w) k" for k
    using inv by (auto simp: own_inv_def sized_def new_default_def set_obj_def) (simp add: view_def)
  ultimately show ?thesis by (simp add: own_inv_def)
qed

lemma new_size_ok:
  assumes inv: "own_inv w" and i: "objs w i = None" and n: "0 < n"
  shows "\<exists>w'. new_size Mode i n w = Inr w' \<and> own_inv w'"
proof -
  let ?n = "case Mode of plain \<Rightarrow> n | circular \<Rightarrow> sz_add n 1"
  let ?x = "\<lparr>pData = Some (brk w), oAllocatedSize = ?n, oOwner = True, oReadOnly = False, oOnDemand = False,
         oReadPos = 0, oWritePos = 0, oReadPosMarked = 0, oWritePosMarked = 0\<rparr>"
  let ?w = "set_obj i ?x (snd (heap_malloc ?n w))"
  have h: "heap_inv w" using inv by (simp add: own_inv_def)
  have "new_size Mode i n w = Inr ?w" using n by (simp add: new_size_def heap_malloc_def Let_def)
  moreover have "heap_inv ?w"
  proof (rule heap_inv_update [OF h, of i])
    fix j a assume "owned w j = Some a"
    then show "blocks ?w a \<noteq> None" using owned_live [OF h] by (auto simp: set_obj_def heap_malloc_def)
  next
    fix a assume "owned ?w i = Some a"
    then have "a = brk w" by (simp add: owned_def set_obj_def)
    then show "blocks ?w a \<noteq> None \<and> (\<forall>j. j \<noteq> i \<longrightarrow> owned w j \<noteq> Some a)"
      using owned_below_brk [OF h] by (auto simp: set_obj_def heap_malloc_def)
  qed (use h in \<open>auto simp: owned_def heap_inv_def set_obj_def heap_malloc_def\<close>)
  moreover have "sized ?w k" for k
  proof (cases "k = i")
    case True
    then show ?thesis by (simp add: sized_def view_def set_obj_def heap_malloc_def)
  next
    case False
    have "view ?w z = view w z" if "objs w k = Some z" "oOwner z" for z
      using owned_below_brk [OF h, of k] owned_Some [OF that]
      by (intro view_eq) (auto simp: set_obj_def heap_malloc_def)
    then show ?thesis using inv False by (simp add: own_inv_def sized_def set_obj_def heap_malloc_def)
  qed
  ultimately show ?thesis unfolding own_inv_def by blast
qed

section \<open>Programs that use buffers\<close>

text \<open>
  What a program can do with buffer objects: construct a new one (in a free place), assign
  between two different ones, move, destroy. \<open>lifetime_step\<close> is one such operation, with its
  outcome; a world is reachable from the empty one by such steps.
\<close>

datatype lifetime_op =
    NewDefault nat | NewSize BufferMode nat nat | CopyConstruct nat nat | MoveConstruct nat nat
  | CopyAssign nat nat | MoveAssign nat nat | Destruct nat

fun lifetime_run :: "lifetime_op \<Rightarrow> world \<Rightarrow> world result" where
  "lifetime_run (NewDefault i) w = Inr (new_default i w)"
| "lifetime_run (NewSize Mode i n) w = new_size Mode i n w"
| "lifetime_run (CopyConstruct i j) w = copy_construct i j w"
| "lifetime_run (MoveConstruct i j) w = move_construct i j w"
| "lifetime_run (CopyAssign i j) w = copy_assign i j w"
| "lifetime_run (MoveAssign i j) w = move_assign i j w"
| "lifetime_run (Destruct i) w = destruct i w"

fun lifetime_pre :: "lifetime_op \<Rightarrow> world \<Rightarrow> bool" where
  "lifetime_pre (NewDefault i) w = (objs w i = None)"
| "lifetime_pre (NewSize Mode i n) w = (objs w i = None \<and> 0 < n)"
| "lifetime_pre (CopyConstruct i j) w = (objs w i = None \<and> objs w j \<noteq> None)"
| "lifetime_pre (MoveConstruct i j) w = (objs w i = None \<and> objs w j \<noteq> None)"
| "lifetime_pre (CopyAssign i j) w = (objs w i \<noteq> None \<and> objs w j \<noteq> None \<and> i \<noteq> j)"
| "lifetime_pre (MoveAssign i j) w = (objs w i \<noteq> None \<and> objs w j \<noteq> None)"
| "lifetime_pre (Destruct i) w = (objs w i \<noteq> None)"

inductive lifetime_step :: "world \<Rightarrow> lifetime_op \<Rightarrow> world result \<Rightarrow> bool" where
  "lifetime_pre ev w \<Longrightarrow> lifetime_run ev w = r \<Longrightarrow> lifetime_step w ev r"

inductive_cases lifetime_stepE: "lifetime_step w ev r"

inductive lifetime_reachable :: "world \<Rightarrow> world \<Rightarrow> bool" for w0 where
  start: "lifetime_reachable w0 w0"
| step: "lifetime_reachable w0 w \<Longrightarrow> lifetime_step w ev (Inr w') \<Longrightarrow> lifetime_reachable w0 w'"

definition empty_world :: "(nat \<Rightarrow> u8) \<Rightarrow> world" where
  "empty_world fr = \<lparr>blocks = Map.empty, brk = 0, objs = Map.empty, junk = fr\<rparr>"

lemma empty_world_inv: "own_inv (empty_world fr)"
  by (simp add: own_inv_def own_simps empty_world_def)

lemma lifetime_step_ok:
  assumes "own_inv w" "lifetime_step w ev r"
  shows "\<exists>w'. r = Inr w' \<and> own_inv w'"
  using assms(2)
proof (rule lifetime_stepE)
  assume pre: "lifetime_pre ev w" and r: "lifetime_run ev w = r"
  show ?thesis
  proof (cases ev)
    case (CopyConstruct i j)
    with pre r assms(1) show ?thesis using copy_construct_ok [of w j _ i] by fastforce
  next
    case (CopyAssign i j)
    with pre r assms(1) show ?thesis using copy_assign_ok [of w j _ i] by fastforce
  next
    case (MoveAssign i j)
    with pre r assms(1) show ?thesis
      using move_assign_ok [of w j _ i] by (cases "i = j") (fastforce simp: move_assign_def)+
  next
    case (MoveConstruct i j)
    with pre r assms(1) show ?thesis using move_construct_ok [of w j _ i] by fastforce
  next
    case (Destruct i)
    with pre r assms(1) show ?thesis using destruct_ok [of w i] by fastforce
  next
    case (NewSize Mode i n)
    with pre r assms(1) show ?thesis using new_size_ok [of w i n Mode] by fastforce
  qed (use pre r assms(1) new_default_ok in auto)
qed

lemma lifetime_reachable_inv:
  "lifetime_reachable (empty_world fr) w \<Longrightarrow> own_inv w"
  by (induction rule: lifetime_reachable.induct) (use empty_world_inv lifetime_step_ok in blast)+

lemma copy_self_junk:
  assumes "own_inv w" "objs w i = Some x" "oOwner x" "pData x = Some a"
  shows "\<exists>w' y. copy_assign i i w = Inr w' \<and> objs w' i = Some y \<and>
    mData (view w' y) = Some (map (junk w) [0..<oAllocatedSize x])"
proof -
  have "heap_inv w" "owned w i = Some a" using assms by (auto simp: own_inv_def owned_def)
  then have "blocks w a \<noteq> None" by (rule owned_live)
  with assms show ?thesis
    by (auto simp: copy_assign_def release_def get_obj_def heap_free_def set_obj_def heap_malloc_def heap_copy_def view_def)
qed

section \<open>Properties\<close>

text \<open>
  C37. Memory safety of ownership: in every state a program reaches from nothing by constructing, copying,
  moving, assigning and destroying buffers, the next such operation succeeds (nothing is freed twice
  or used after it was freed), owned blocks are live and no two objects own the same block.
\<close>

theorem buffers_never_double_free:
  assumes "lifetime_reachable (empty_world fr) w" "lifetime_pre ev w"
  shows "(\<exists>w'. lifetime_run ev w = Inr w') \<and> (\<forall>i a. owned w i = Some a \<longrightarrow> blocks w a \<noteq> None) \<and>
    (\<forall>i j a. owned w i = Some a \<and> owned w j = Some a \<longrightarrow> i = j)"
proof -
  have inv: "own_inv w" using lifetime_reachable_inv [OF assms(1)] .
  have "lifetime_step w ev (lifetime_run ev w)" using assms(2) by (rule lifetime_step.intros) simp
  from lifetime_step_ok [OF inv this] inv show ?thesis by (auto simp: own_inv_def heap_inv_def)
qed

theorem buffers_never_double_free_witness:
  "\<exists>w. (\<exists>w'. lifetime_run (Destruct 1) w = Inr w') \<and> owned w 1 \<noteq> None"
proof -
  let ?w0 = "empty_world (\<lambda>_. 0)"
  obtain w1 where w1: "lifetime_run (NewSize plain 1 8) ?w0 = Inr w1" "objs w1 1 \<noteq> None" "owned w1 1 \<noteq> None"
    by (auto simp: new_size_def Let_def heap_malloc_def set_obj_def empty_world_def owned_def)
  have "lifetime_step ?w0 (NewSize plain 1 8) (Inr w1)"
    using w1(1) by (intro lifetime_step.intros) (simp_all add: empty_world_def)
  then have "lifetime_reachable ?w0 w1" by (rule lifetime_reachable.step [OF lifetime_reachable.start])
  from buffers_never_double_free [OF this, of "Destruct 1"] w1 show ?thesis by auto
qed

text \<open>
  C40. Copies are deep: the copy of a buffer that owns its block gets a block of its own with the same
  contents, every block that was live is unchanged, and the source keeps its object.
\<close>

theorem copy_is_deep:
  assumes "own_inv w" "objs w j = Some x" "objs w i = None" "oOwner x"
  shows "\<exists>w' y. copy_construct i j w = Inr w' \<and> own_inv w' \<and> objs w' = (objs w)(i \<mapsto> y) \<and> oOwner y \<and>
    (\<forall>a. blocks w a \<noteq> None \<longrightarrow> blocks w' a = blocks w a) \<and> pData y \<noteq> pData x \<and>
    (\<forall>Mode. contents Mode (view w' y) = contents Mode (view w x))"
proof -
  obtain w' y where y: "copy_construct i j w = Inr w'" "own_inv w'" "objs w' = (objs w)(i \<mapsto> y)"
    "\<forall>a. blocks w a \<noteq> None \<longrightarrow> blocks w' a = blocks w a" "\<forall>Mode. contents Mode (view w' y) = contents Mode (view w x)"
    "pData y = Some (brk w)" "oOwner y"
    using copy_construct_ok [OF assms(1-3)] assms(4) by auto
  have "pData x \<noteq> Some (brk w)"
    using owned_below_brk [of w j "brk w"] owned_Some [OF assms(2,4)] assms(1) by (auto simp: own_inv_def)
  with y show ?thesis by auto
qed

theorem copy_is_deep_witness:
  "\<exists>w' y. copy_construct 2 1 (new_default 1 (empty_world (\<lambda>_. 0))) = Inr w' \<and> own_inv w' \<and> objs w' 2 = Some y \<and> oOwner y"
proof -
  let ?w = "new_default 1 (empty_world (\<lambda>_. 0))"
  have "own_inv ?w" by (rule new_default_ok [OF empty_world_inv]) (simp add: empty_world_def)
  moreover obtain x where "objs ?w 1 = Some x" "oOwner x" "objs ?w 2 = None"
    by (auto simp: new_default_def set_obj_def empty_world_def)
  ultimately show ?thesis using copy_is_deep [of ?w 1 x 2] by fastforce
qed

text \<open>
  Assigning a buffer to itself destroys it: the copy assignment frees the block before it looks at
  the source, so afterwards the object holds a new block of indeterminate bytes.
\<close>

theorem copy_self_assignment_loses_data:
  assumes "own_inv w" "objs w i = Some x" "oOwner x" "pData x = Some a"
  shows "\<exists>w' y. copy_assign i i w = Inr w' \<and> objs w' i = Some y \<and>
    mData (view w' y) = Some (map (junk w) [0..<oAllocatedSize x])"
  by (rule copy_self_junk [OF assms])

theorem copy_self_assignment_loses_data_witness:
  "\<exists>w x w' y. copy_assign 1 1 w = Inr w' \<and> objs w 1 = Some x \<and> objs w' 1 = Some y \<and>
    mData (view w' y) = Some (map (junk w) [0..<oAllocatedSize x])"
proof -
  let ?w0 = "empty_world (\<lambda>_. 0)"
  obtain w1 where w1: "new_size plain 1 8 ?w0 = Inr w1" "own_inv w1"
    using new_size_ok [OF empty_world_inv, of "\<lambda>_. 0" 1 8 plain] by (auto simp: empty_world_def)
  then obtain x a where "objs w1 1 = Some x" "oOwner x" "pData x = Some a"
    by (auto simp: new_size_def Let_def heap_malloc_def set_obj_def)
  from copy_self_assignment_loses_data [OF w1(2) this] this(1) show ?thesis by blast
qed

end
