(* ===== verification/Fragment.thy ===== *)
theory Fragment
  imports Prelude
begin

text \<open>
  The fragment allocator of \<open>src/libzillians-common-core/core/FragmentFreeAllocator.cpp\<close>: a pool cut into
  blocks that form a doubly linked list in address order, the free ones linked again among
  themselves. Blocks, fragment pointers and mutable pointers are heap objects at addresses;
  \<open>nextAddr\<close> is the next address \<open>new\<close> hands out. The allocation lock makes every operation atomic,
  so it has no counterpart here, and the progress messages are left out. The three pointer-chasing
  loops carry a bound on the number of iterations; \<open>nextAddr\<close>, an upper bound on the number of
  blocks, is enough for all of them.
\<close>

section \<open>State\<close>

record FragmentBlock =
  free :: bool
  offset :: nat
  bsize :: nat
  nextFree :: "nat option"
  prevFree :: "nat option"
  nextBlock :: "nat option"
  prevBlock :: "nat option"
  pointerReference :: "nat option"

record MutablePointer =
  ptrReference :: "nat option"
  pointerOffset :: nat
  pointerOwner :: bool

record FragmentAllocator =
  mConfiguredChunkSize :: nat
  mConfiguredNumChunks :: nat
  mAllocSize :: nat
  mDeviceBasePointer :: nat
  mFragmentBlockHeadFree :: "nat option"
  mFragmentBlockHead :: "nat option"
  mPointerToBlockMap :: "nat \<rightharpoonup> nat"
  heap :: "nat \<rightharpoonup> FragmentBlock"
  pointers :: "nat \<rightharpoonup> nat"
  mutables :: "nat \<rightharpoonup> MutablePointer"
  nextAddr :: nat

definition FragmentBlock_new :: FragmentBlock where
  "FragmentBlock_new = \<lparr>free = True, offset = 0, bsize = 0, nextFree = None, prevFree = None,
     nextBlock = None, prevBlock = None, pointerReference = None\<rparr>"

section \<open>Access through block pointers\<close>

definition deref :: "nat option \<Rightarrow> FragmentAllocator \<Rightarrow> FragmentBlock result" where
  "deref p s = (case p of None \<Rightarrow> Inl MemFault
     | Some a \<Rightarrow> (case heap s a of None \<Rightarrow> Inl MemFault | Some b \<Rightarrow> Inr b))"

definition put_block :: "nat \<Rightarrow> FragmentBlock \<Rightarrow> FragmentAllocator \<Rightarrow> FragmentAllocator" where
  "put_block a b s = s\<lparr>heap := (heap s)(a \<mapsto> b)\<rparr>"

text \<open>\<open>p->member = value\<close>, and the same under \<open>if(p)\<close>.\<close>

definition modify :: "nat option \<Rightarrow> (FragmentBlock \<Rightarrow> FragmentBlock) \<Rightarrow> FragmentAllocator \<Rightarrow> FragmentAllocator result" where
  "modify p f s = rbind (deref p s) (\<lambda>b. Inr (put_block (the p) (f b) s))"

definition modify_if :: "nat option \<Rightarrow> (FragmentBlock \<Rightarrow> FragmentBlock) \<Rightarrow> FragmentAllocator \<Rightarrow> FragmentAllocator result" where
  "modify_if p f s = (if p = None then Inr s else modify p f s)"

definition delete_block :: "nat option \<Rightarrow> FragmentAllocator \<Rightarrow> FragmentAllocator result" where
  "delete_block p s =
     (case p of None \<Rightarrow> Inr s
      | Some a \<Rightarrow> (if heap s a = None then Inl MemFault else Inr (s\<lparr>heap := (heap s)(a := None)\<rparr>)))"

definition new_block :: "FragmentBlock \<Rightarrow> FragmentAllocator \<Rightarrow> nat \<times> FragmentAllocator" where
  "new_block b s = (nextAddr s, s\<lparr>heap := (heap s)(nextAddr s \<mapsto> b), nextAddr := nextAddr s + 1\<rparr>)"

section \<open>Construction and destruction\<close>

definition FragmentAllocator_new :: "nat \<Rightarrow> nat \<Rightarrow> FragmentAllocator result" where
  "FragmentAllocator_new pool sz =
     rbind (assert_that (pool \<noteq> 0)) (\<lambda>_.
     rbind (assert_that (sz > 0)) (\<lambda>_.
       let s = \<lparr>mConfiguredChunkSize = 1024, mConfiguredNumChunks = sz div 1024, mAllocSize = 0,
                mDeviceBasePointer = pool, mFragmentBlockHeadFree = None, mFragmentBlockHead = None,
                mPointerToBlockMap = Map.empty, heap = Map.empty, pointers = Map.empty,
                mutables = Map.empty, nextAddr = 0\<rparr>;
           (a, s) = new_block (FragmentBlock_new\<lparr>free := True, offset := 0, bsize := sz\<rparr>) s
       in Inr (s\<lparr>mFragmentBlockHead := Some a, mFragmentBlockHeadFree := Some a\<rparr>)))"

fun delete_chain :: "nat \<Rightarrow> nat option \<Rightarrow> FragmentAllocator \<Rightarrow> FragmentAllocator result" where
  "delete_chain fuel None s = Inr s"
| "delete_chain 0 (Some a) s = Inl NoReturn"
| "delete_chain (Suc k) (Some a) s =
     rbind (deref (Some a) s) (\<lambda>b. rbind (delete_block (Some a) s) (delete_chain k (nextBlock b)))"

definition FragmentAllocator_destroy :: "FragmentAllocator \<Rightarrow> FragmentAllocator result" where
  "FragmentAllocator_destroy s =
     rbind (assert_that (mDeviceBasePointer s \<noteq> 0)) (\<lambda>_.
     rbind (assert_that (mAllocSize s = 0)) (\<lambda>_.
       let s = s\<lparr>mDeviceBasePointer := 0, mConfiguredChunkSize := 0, mConfiguredNumChunks := 0\<rparr> in
       rbind (delete_chain (nextAddr s) (mFragmentBlockHead s) s) (\<lambda>s.
       let s = s\<lparr>mFragmentBlockHeadFree := None, mFragmentBlockHead := None\<rparr> in
       rbind (assert_that (dom (mPointerToBlockMap s) = {})) (\<lambda>_. Inr s))))"

section \<open>Allocation\<close>

definition chunk_round :: "nat \<Rightarrow> nat \<Rightarrow> nat" where
  "chunk_round chunk sz =
     (if sz mod chunk \<noteq> 0 then ((sz div chunk) + 1) * chunk mod size_mod else sz)"

fun find_free :: "nat \<Rightarrow> nat option \<Rightarrow> nat \<Rightarrow> FragmentAllocator \<Rightarrow> nat option result" where
  "find_free fuel None sz s = Inr None"
| "find_free 0 (Some a) sz s = Inl NoReturn"
| "find_free (Suc k) (Some a) sz s =
     rbind (deref (Some a) s) (\<lambda>b.
       if bsize b \<ge> sz then Inr (Some a)
       else if nextFree b = None then Inr None
       else find_free k (nextFree b) sz s)"

text \<open>The new block is linked in front of the free block \<open>c\<close> it is cut from.\<close>

definition insert_allocated :: "nat \<Rightarrow> nat \<Rightarrow> FragmentAllocator \<Rightarrow> (nat \<times> FragmentAllocator) result" where
  "insert_allocated c sz s =
     rbind (deref (Some c) s) (\<lambda>cur.
       let (n, s) = new_block (FragmentBlock_new\<lparr>free := False, offset := offset cur, bsize := sz,
                      prevFree := None, nextFree := None, prevBlock := prevBlock cur\<rparr>) s in
       rbind (modify_if (prevBlock cur) (\<lambda>b. b\<lparr>nextBlock := Some n\<rparr>) s) (\<lambda>s.
       rbind (modify (Some c) (\<lambda>b. b\<lparr>prevBlock := Some n\<rparr>) s) (\<lambda>s.
       rbind (modify (Some n) (\<lambda>b. b\<lparr>nextBlock := Some c\<rparr>) s) (\<lambda>s.
         Inr (n, if Some c = mFragmentBlockHead s then s\<lparr>mFragmentBlockHead := Some n\<rparr> else s)))))"

text \<open>A free block that is used up leaves both lists, otherwise it shrinks.\<close>

definition shrink_free :: "nat \<Rightarrow> nat \<Rightarrow> FragmentAllocator \<Rightarrow> FragmentAllocator result" where
  "shrink_free c sz s =
     rbind (deref (Some c) s) (\<lambda>cur.
       if bsize cur = sz
       then rbind (modify_if (prevFree cur) (\<lambda>b. b\<lparr>nextFree := nextFree cur\<rparr>) s) (\<lambda>s.
            rbind (modify_if (nextFree cur) (\<lambda>b. b\<lparr>prevFree := prevFree cur\<rparr>) s) (\<lambda>s.
            rbind (modify_if (prevBlock cur) (\<lambda>b. b\<lparr>nextBlock := nextBlock cur\<rparr>) s) (\<lambda>s.
            rbind (modify_if (nextBlock cur) (\<lambda>b. b\<lparr>prevBlock := prevBlock cur\<rparr>) s) (\<lambda>s.
              delete_block (Some c)
                (if Some c = mFragmentBlockHeadFree s then s\<lparr>mFragmentBlockHeadFree := nextFree cur\<rparr> else s)))))
       else modify (Some c) (\<lambda>b. b\<lparr>offset := sz_add (offset b) sz, bsize := sz_sub (bsize b) sz\<rparr>) s)"

text \<open>The mutable pointer and its fragment pointer, entered in the allocation map.\<close>

definition register :: "nat \<Rightarrow> nat \<Rightarrow> FragmentAllocator \<Rightarrow> (nat \<times> FragmentAllocator) result" where
  "register n sz s =
     rbind (deref (Some n) s) (\<lambda>b.
       let r = nextAddr s; m = nextAddr s + 1;
           s = s\<lparr>pointers := (pointers s)(r \<mapsto> mDeviceBasePointer s + offset b),
                 mutables := (mutables s)(m \<mapsto> \<lparr>ptrReference = Some r, pointerOffset = 0, pointerOwner = True\<rparr>),
                 nextAddr := nextAddr s + 2\<rparr> in
       rbind (modify (Some n) (\<lambda>b. b\<lparr>pointerReference := Some r\<rparr>) s) (\<lambda>s.
         Inr (m, s\<lparr>mPointerToBlockMap := (mPointerToBlockMap s)(r \<mapsto> n),
                   mAllocSize := sz_add (mAllocSize s) sz\<rparr>)))"

definition allocate :: "nat \<Rightarrow> FragmentAllocator \<Rightarrow> (nat option \<times> FragmentAllocator) result" where
  "allocate sz s =
     (if mFragmentBlockHeadFree s = None then Inr (None, s)
      else
        let sz = chunk_round (mConfiguredChunkSize s) sz in
        rbind (find_free (nextAddr s) (mFragmentBlockHeadFree s) sz s) (\<lambda>found.
          case found of
            None \<Rightarrow> Inr (None, s)
          | Some c \<Rightarrow>
              rbind (insert_allocated c sz s) (\<lambda>(n, s).
              rbind (shrink_free c sz s) (\<lambda>s.
              rbind (register n sz s) (\<lambda>(m, s). Inr (Some m, s))))))"

section \<open>Deallocation\<close>

definition merge_both :: "nat \<Rightarrow> nat \<Rightarrow> nat \<Rightarrow> FragmentAllocator \<Rightarrow> FragmentAllocator result" where
  "merge_both p c n s =
     rbind (deref (Some p) s) (\<lambda>prv.
     rbind (deref (Some n) s) (\<lambda>nxt.
     rbind (modify (Some c) (\<lambda>b. b\<lparr>prevFree := prevFree prv, nextFree := nextFree nxt,
              prevBlock := prevBlock prv, nextBlock := nextBlock nxt\<rparr>) s) (\<lambda>s.
     rbind (modify_if (prevFree prv) (\<lambda>b. b\<lparr>nextFree := Some c\<rparr>) s) (\<lambda>s.
     rbind (modify_if (nextFree nxt) (\<lambda>b. b\<lparr>prevFree := Some c\<rparr>) s) (\<lambda>s.
     rbind (modify_if (prevBlock prv) (\<lambda>b. b\<lparr>nextBlock := Some c\<rparr>) s) (\<lambda>s.
     rbind (modify_if (nextBlock nxt) (\<lambda>b. b\<lparr>prevBlock := Some c\<rparr>) s) (\<lambda>s.
     rbind (modify (Some c) (\<lambda>b. b\<lparr>free := True, offset := offset prv,
              bsize := sz_add (sz_add (bsize prv) (bsize b)) (bsize nxt)\<rparr>) s) (\<lambda>s.
     rbind (assert_that (mFragmentBlockHeadFree s \<noteq> None)) (\<lambda>_.
       let s = (if Some p = mFragmentBlockHeadFree s then s\<lparr>mFragmentBlockHeadFree := Some c\<rparr> else s);
           s = (if Some p = mFragmentBlockHead s then s\<lparr>mFragmentBlockHead := Some c\<rparr> else s) in
       rbind (delete_block (Some p) s) (delete_block (Some n)))))))))))"

definition merge_left :: "nat \<Rightarrow> nat \<Rightarrow> nat option \<Rightarrow> FragmentAllocator \<Rightarrow> FragmentAllocator result" where
  "merge_left p c n s =
     rbind (deref (Some c) s) (\<lambda>cur.
     rbind (modify (Some p) (\<lambda>b. b\<lparr>nextBlock := n\<rparr>) s) (\<lambda>s.
     rbind (modify_if n (\<lambda>b. b\<lparr>prevBlock := Some p\<rparr>) s) (\<lambda>s.
     rbind (modify (Some p) (\<lambda>b. b\<lparr>bsize := sz_add (bsize b) (bsize cur)\<rparr>) s) (\<lambda>s.
     rbind (assert_that (mFragmentBlockHeadFree s \<noteq> None)) (\<lambda>_.
     rbind (assert_that (Some c \<noteq> mFragmentBlockHeadFree s)) (\<lambda>_.
     rbind (assert_that (Some c \<noteq> mFragmentBlockHead s)) (\<lambda>_.
       delete_block (Some c) s)))))))"

definition merge_right :: "nat option \<Rightarrow> nat \<Rightarrow> nat \<Rightarrow> FragmentAllocator \<Rightarrow> FragmentAllocator result" where
  "merge_right p c n s =
     rbind (deref (Some c) s) (\<lambda>cur.
     rbind (modify (Some n) (\<lambda>b. b\<lparr>prevBlock := p\<rparr>) s) (\<lambda>s.
     rbind (modify_if p (\<lambda>b. b\<lparr>nextBlock := Some n\<rparr>) s) (\<lambda>s.
     rbind (modify (Some n) (\<lambda>b. b\<lparr>offset := offset cur, bsize := sz_add (bsize b) (bsize cur)\<rparr>) s) (\<lambda>s.
     rbind (assert_that (mFragmentBlockHeadFree s \<noteq> None)) (\<lambda>_.
     rbind (assert_that (Some c \<noteq> mFragmentBlockHeadFree s)) (\<lambda>_.
       delete_block (Some c)
         (if Some c = mFragmentBlockHead s then s\<lparr>mFragmentBlockHead := nextBlock cur\<rparr> else s)))))))"

fun search_left :: "nat \<Rightarrow> nat option \<Rightarrow> FragmentAllocator \<Rightarrow> nat option result" where
  "search_left fuel None s = Inr None"
| "search_left 0 (Some a) s = Inl NoReturn"
| "search_left (Suc k) (Some a) s =
     rbind (deref (Some a) s) (\<lambda>b. if free b then Inr (Some a) else search_left k (prevBlock b) s)"

fun search_right :: "nat \<Rightarrow> nat option \<Rightarrow> FragmentAllocator \<Rightarrow> nat option result" where
  "search_right fuel None s = Inr None"
| "search_right 0 (Some a) s = Inl NoReturn"
| "search_right (Suc k) (Some a) s =
     rbind (deref (Some a) s) (\<lambda>b. if free b then Inr (Some a) else search_right k (nextBlock b) s)"

definition merge_none :: "nat option \<Rightarrow> nat \<Rightarrow> nat option \<Rightarrow> FragmentAllocator \<Rightarrow> FragmentAllocator result" where
  "merge_none p c n s =
     rbind (modify (Some c) (\<lambda>b. b\<lparr>free := True\<rparr>) s) (\<lambda>s.
     rbind (search_left (nextAddr s) p s) (\<lambda>l.
       case l of
         Some a \<Rightarrow>
           rbind (deref l s) (\<lambda>prv.
           rbind (modify l (\<lambda>b. b\<lparr>nextFree := Some c\<rparr>) s) (\<lambda>s.
           rbind (modify (Some c) (\<lambda>b. b\<lparr>prevFree := l, nextFree := nextFree prv\<rparr>) s) (\<lambda>s.
             modify_if (nextFree prv) (\<lambda>b. b\<lparr>prevFree := Some c\<rparr>) s)))
       | None \<Rightarrow>
           rbind (modify (Some c) (\<lambda>b. b\<lparr>prevFree := None\<rparr>) s) (\<lambda>s.
           let s = s\<lparr>mFragmentBlockHeadFree := Some c\<rparr> in
           rbind (search_right (nextAddr s) n s) (\<lambda>r.
             case r of
               Some a \<Rightarrow>
                 rbind (deref r s) (\<lambda>nxt.
                 rbind (assert_that (prevFree nxt = None)) (\<lambda>_.
                 rbind (modify r (\<lambda>b. b\<lparr>prevFree := Some c\<rparr>) s) (\<lambda>s.
                 rbind (modify (Some c) (\<lambda>b. b\<lparr>prevFree := prevFree nxt, nextFree := r\<rparr>) s) (\<lambda>s.
                   modify_if (prevFree nxt) (\<lambda>b. b\<lparr>nextFree := Some c\<rparr>) s))))
             | None \<Rightarrow> modify (Some c) (\<lambda>b. b\<lparr>nextFree := None\<rparr>) s))))"

text \<open>The four cases: merge with both neighbours, the left one, the right one, or none.\<close>

definition merge :: "nat \<Rightarrow> nat option \<Rightarrow> nat option \<Rightarrow> bool \<Rightarrow> bool \<Rightarrow> FragmentAllocator \<Rightarrow> FragmentAllocator result" where
  "merge c p n isPrevFree isNextFree s =
     (if isPrevFree \<and> isNextFree then merge_both (the p) c (the n) s
      else if isPrevFree \<and> \<not> isNextFree then merge_left (the p) c n s
      else if \<not> isPrevFree \<and> isNextFree then merge_right p c (the n) s
      else merge_none p c n s)"

definition is_free :: "nat option \<Rightarrow> FragmentAllocator \<Rightarrow> bool result" where
  "is_free p s = (if p = None then Inr False else rbind (deref p s) (\<lambda>b. Inr (free b)))"

text \<open>\<open>SAFE_DELETE\<close> of a mutable pointer; its destructor deletes the fragment pointer it owns.\<close>

definition delete_mutable :: "nat \<Rightarrow> FragmentAllocator \<Rightarrow> FragmentAllocator result" where
  "delete_mutable m s =
     (case mutables s m of
        None \<Rightarrow> Inl MemFault
      | Some mp \<Rightarrow>
          Inr (s\<lparr>mutables := (mutables s)(m := None),
                 pointers := (if pointerOwner mp
                              then (case ptrReference mp of None \<Rightarrow> pointers s | Some r \<Rightarrow> (pointers s)(r := None))
                              else pointers s)\<rparr>))"

definition deallocate :: "nat option \<Rightarrow> FragmentAllocator \<Rightarrow> (bool \<times> FragmentAllocator) result" where
  "deallocate pointer s =
     (case pointer of None \<Rightarrow> Inr (False, s)
      | Some m \<Rightarrow>
          (case mutables s m of None \<Rightarrow> Inl MemFault
           | Some mp \<Rightarrow>
               (case ptrReference mp of None \<Rightarrow> Inr (False, s)
                | Some r \<Rightarrow>
                    (case mPointerToBlockMap s r of None \<Rightarrow> Inr (False, s)
                     | Some c \<Rightarrow>
                         let s = s\<lparr>mPointerToBlockMap := (mPointerToBlockMap s)(r := None)\<rparr> in
                         rbind (delete_mutable m s) (\<lambda>s.
                         rbind (deref (Some c) s) (\<lambda>cur.
                         let s = s\<lparr>mAllocSize := sz_sub (mAllocSize s) (bsize cur)\<rparr>;
                             p = prevBlock cur; n = nextBlock cur in
                         rbind (is_free p s) (\<lambda>isPrevFree.
                         rbind (is_free n s) (\<lambda>isNextFree.
                         rbind (merge c p n isPrevFree isNextFree s) (\<lambda>s. Inr (True, s))))))))))"

section \<open>Queries\<close>

definition total :: "FragmentAllocator \<Rightarrow> nat" where
  "total s = mConfiguredChunkSize s * mConfiguredNumChunks s"

definition used :: "FragmentAllocator \<Rightarrow> nat" where "used s = mAllocSize s"

definition available :: "FragmentAllocator \<Rightarrow> nat" where "available s = sz_sub (total s) (used s)"

definition isValid :: "nat \<Rightarrow> FragmentAllocator \<Rightarrow> bool result" where
  "isValid m s =
     (case mutables s m of None \<Rightarrow> Inl MemFault
      | Some mp \<Rightarrow> Inr (case ptrReference mp of None \<Rightarrow> False | Some r \<Rightarrow> mPointerToBlockMap s r \<noteq> None))"

definition infoSize :: "nat \<Rightarrow> FragmentAllocator \<Rightarrow> nat result" where
  "infoSize m s =
     (case mutables s m of None \<Rightarrow> Inl MemFault
      | Some mp \<Rightarrow>
          (case ptrReference mp of None \<Rightarrow> Inr 0
           | Some r \<Rightarrow> (case mPointerToBlockMap s r of None \<Rightarrow> Inr 0
                        | Some c \<Rightarrow> rbind (deref (Some c) s) (\<lambda>b. Inr (bsize b)))))"

section \<open>Consistency report\<close>

text \<open>The complaints \<open>debug\<close> prints, one constructor per message; the listing itself is left out.\<close>

datatype frag_diag =
    head_has_prevBlock | head_has_prevFree | next_offset_error | prevBlock_link_error
  | another_free_block_found | consecutive_free_block_error | prev_free_link_error
  | nonfree_has_prevFree | nonfree_has_nextFree | total_size_differs | head_is_NULL
  | headfree_has_prevFree | current_not_free | incorrect_free_link

definition diag_if :: "bool \<Rightarrow> frag_diag \<Rightarrow> frag_diag list" where
  "diag_if c d = (if c then [d] else [])"

text \<open>One round of the first loop; the boolean is \<open>isNoMoreFreeBlock\<close>.\<close>

definition debug_block :: "nat \<Rightarrow> bool \<Rightarrow> FragmentAllocator \<Rightarrow> (frag_diag list \<times> bool) result" where
  "debug_block a noMore s =
     rbind (deref (Some a) s) (\<lambda>b.
     rbind (if nextBlock b = None then Inr []
            else rbind (deref (nextBlock b) s) (\<lambda>n.
                   Inr (diag_if (offset n \<noteq> sz_add (offset b) (bsize b)) next_offset_error @
                        diag_if (prevBlock n \<noteq> Some a) prevBlock_link_error))) (\<lambda>ds.
     if free b
     then rbind (if nextFree b = None then Inr ([], True)
                 else rbind (deref (nextFree b) s) (\<lambda>n.
                        Inr (diag_if (nextFree b = nextBlock b) consecutive_free_block_error @
                             diag_if (prevFree n \<noteq> Some a) prev_free_link_error, noMore))) (\<lambda>(es, noMore').
            Inr (ds @ diag_if noMore another_free_block_found @ es, noMore'))
     else Inr (ds @ diag_if (prevFree b \<noteq> None) nonfree_has_prevFree @
               diag_if (nextFree b \<noteq> None) nonfree_has_nextFree, noMore)))"

fun debug_blocks :: "nat \<Rightarrow> nat option \<Rightarrow> bool \<Rightarrow> FragmentAllocator \<Rightarrow> (frag_diag list \<times> nat) result" where
  "debug_blocks fuel None noMore s = Inr ([], 0)"
| "debug_blocks 0 (Some a) noMore s = Inl NoReturn"
| "debug_blocks (Suc k) (Some a) noMore s =
     rbind (debug_block a noMore s) (\<lambda>(ds, noMore).
     rbind (deref (Some a) s) (\<lambda>b.
     rbind (debug_blocks k (nextBlock b) noMore s) (\<lambda>(es, sumSize). Inr (ds @ es, sz_add (bsize b) sumSize))))"

fun debug_free :: "nat \<Rightarrow> nat option \<Rightarrow> FragmentAllocator \<Rightarrow> frag_diag list result" where
  "debug_free fuel None s = Inr []"
| "debug_free 0 (Some a) s = Inl NoReturn"
| "debug_free (Suc k) (Some a) s =
     rbind (deref (Some a) s) (\<lambda>b.
     rbind (if \<not> free b then Inr [current_not_free]
            else if nextFree b = None then Inr []
            else rbind (deref (nextFree b) s) (\<lambda>n.
                   Inr (diag_if (prevFree n \<noteq> Some a) incorrect_free_link @
                        diag_if (prevFree n \<noteq> Some a) prev_free_link_error))) (\<lambda>ds.
     rbind (debug_free k (nextFree b) s) (\<lambda>es. Inr (ds @ es))))"

definition debug :: "FragmentAllocator \<Rightarrow> frag_diag list result" where
  "debug s =
     rbind (if mFragmentBlockHead s = None then Inr [head_is_NULL]
            else rbind (deref (mFragmentBlockHead s) s) (\<lambda>b.
                 rbind (debug_blocks (nextAddr s) (mFragmentBlockHead s) False s) (\<lambda>(ds, sumSize).
                   Inr (diag_if (prevBlock b \<noteq> None) head_has_prevBlock @
                        diag_if (prevFree b \<noteq> None) head_has_prevFree @ ds @
                        diag_if (sumSize \<noteq> mConfiguredChunkSize s * mConfiguredNumChunks s) total_size_differs)))) (\<lambda>ds.
     rbind (if mFragmentBlockHeadFree s = None then Inr []
            else rbind (deref (mFragmentBlockHeadFree s) s) (\<lambda>b.
                 rbind (debug_free (nextAddr s) (mFragmentBlockHeadFree s) s) (\<lambda>es.
                   Inr (diag_if (prevFree b \<noteq> None) headfree_has_prevFree @ es)))) (\<lambda>es.
       Inr (ds @ es)))"

section \<open>Defragmentation\<close>

text \<open>
  \<open>FragmentFreeOperator::operator()\<close>. The copy functor is supplied by the caller: the model
  collects the calls \<open>(dst, src, size)\<close> it receives, in order.
\<close>

type_synonym copies = "(nat \<times> nat \<times> nat) list"

definition migrate :: "nat \<Rightarrow> nat \<Rightarrow> copies \<Rightarrow> FragmentAllocator \<Rightarrow> (copies \<times> FragmentAllocator) result" where
  "migrate a sumFree cs s =
     rbind (deref (Some a) s) (\<lambda>b.
       case pointerReference b of None \<Rightarrow> Inl MemFault
       | Some r \<Rightarrow>
           (case pointers s r of None \<Rightarrow> Inl MemFault
            | Some data \<Rightarrow>
                rbind (modify (Some a) (\<lambda>b. b\<lparr>offset := sz_sub (offset b) sumFree\<rparr>) s) (\<lambda>s.
                  Inr (cs @ [(sz_sub data sumFree, data, bsize b)], s))))"

definition drop_free :: "nat \<Rightarrow> FragmentAllocator \<Rightarrow> FragmentAllocator result" where
  "drop_free a s =
     rbind (deref (Some a) s) (\<lambda>b.
     rbind (modify_if (prevBlock b) (\<lambda>x. x\<lparr>nextBlock := nextBlock b\<rparr>) s) (\<lambda>s.
     rbind (modify_if (nextBlock b) (\<lambda>x. x\<lparr>prevBlock := prevBlock b\<rparr>) s) (\<lambda>s.
       delete_block (Some a)
         (if Some a = mFragmentBlockHead s then s\<lparr>mFragmentBlockHead := nextBlock b\<rparr> else s))))"

fun defrag_loop :: "nat \<Rightarrow> nat \<Rightarrow> nat \<Rightarrow> nat \<Rightarrow> nat option \<Rightarrow> copies \<Rightarrow> FragmentAllocator
    \<Rightarrow> (nat \<times> nat \<times> nat option \<times> copies \<times> FragmentAllocator) result" where
  "defrag_loop 0 a sumOffset sumFree lastA cs s = Inl NoReturn"
| "defrag_loop (Suc k) a sumOffset sumFree lastA cs s =
     rbind (deref (Some a) s) (\<lambda>b.
       if free b
       then rbind (drop_free a s) (\<lambda>s.
              case nextBlock b of None \<Rightarrow> Inr (sumOffset, sz_add sumFree (bsize b), lastA, cs, s)
              | Some n \<Rightarrow> defrag_loop k n sumOffset (sz_add sumFree (bsize b)) lastA cs s)
       else rbind (if sumFree > 0 then migrate a sumFree cs s else Inr (cs, s)) (\<lambda>(cs, s).
              case nextBlock b of None \<Rightarrow> Inr (sz_add sumOffset (bsize b), sumFree, Some a, cs, s)
              | Some n \<Rightarrow> defrag_loop k n (sz_add sumOffset (bsize b)) sumFree (Some a) cs s))"

definition FragmentFreeOperator :: "FragmentAllocator \<Rightarrow> (copies \<times> FragmentAllocator) result" where
  "FragmentFreeOperator s =
     (case mFragmentBlockHead s of None \<Rightarrow> Inr ([], s)
      | Some h \<Rightarrow>
          rbind (defrag_loop (nextAddr s) h 0 0 None [] s) (\<lambda>(sumOffset, sumFree, lastA, cs, s).
            if sumFree > 0
            then let (f, s) = new_block (FragmentBlock_new\<lparr>free := True, offset := sumOffset, bsize := sumFree,
                                prevBlock := lastA\<rparr>) s in
                 rbind (modify lastA (\<lambda>b. b\<lparr>nextBlock := Some f\<rparr>) s) (\<lambda>s.
                   Inr (cs, s\<lparr>mFragmentBlockHeadFree := Some f\<rparr>))
            else Inr (cs, s\<lparr>mFragmentBlockHeadFree := None\<rparr>)))"

end
