(* ===== verification/Fragment_Links.thy ===== *)
theory Fragment_Links
  imports Fragment
begin

text \<open>
  Doubly linked lists of blocks. The heap of an allocator is determined by the list of its
  blocks in address order: \<open>heap_of L\<close> holds, for every block of \<open>L\<close>, its data and the four links that
  its position in \<open>L\<close> (and among the free blocks of \<open>L\<close>) prescribes. The lemmas say how inserting,
  removing or changing an element of \<open>L\<close> changes the heap: at most the neighbours' links.
\<close>

section \<open>Neighbours in a list\<close>

definition head_opt :: "'a list \<Rightarrow> 'a option" where
  "head_opt xs = (case xs of [] \<Rightarrow> None | x # _ \<Rightarrow> Some x)"

definition last_opt :: "'a list \<Rightarrow> 'a option" where
  "last_opt xs = (if xs = [] then None else Some (last xs))"

fun succ_in :: "'a list \<Rightarrow> 'a \<Rightarrow> 'a option" where
  "succ_in [] x = None"
| "succ_in (a # xs) x = (if x = a then head_opt xs else succ_in xs x)"

definition pred_in :: "'a list \<Rightarrow> 'a \<Rightarrow> 'a option" where
  "pred_in xs x = succ_in (rev xs) x"

lemma head_opt_simps [simp]: "head_opt [] = None" "head_opt (x # xs) = Some x"
  by (simp_all add: head_opt_def)

lemma last_opt_simps [simp]: "last_opt [] = None" "last_opt (xs @ [x]) = Some x"
  by (simp_all add: last_opt_def)

lemma last_opt_eq_None [simp]: "last_opt xs = None \<longleftrightarrow> xs = []"
  by (simp add: last_opt_def)

lemma head_opt_eq_None [simp]: "head_opt xs = None \<longleftrightarrow> xs = []"
  by (cases xs) simp_all

lemma head_opt_rev [simp]: "head_opt (rev xs) = last_opt xs"
  by (cases xs rule: rev_cases) simp_all

lemma last_opt_rev [simp]: "last_opt (rev xs) = head_opt xs"
  by (cases xs) simp_all

lemma head_opt_mem: "head_opt xs = Some x \<Longrightarrow> x \<in> set xs"
  by (cases xs) auto

lemma last_opt_mem: "last_opt xs = Some x \<Longrightarrow> x \<in> set xs"
  by (auto simp: last_opt_def split: if_splits)

lemma last_opt_Cons: "last_opt (x # xs) = (if xs = [] then Some x else last_opt xs)"
  by (simp add: last_opt_def)

lemma head_opt_append: "head_opt (xs @ ys) = (if xs = [] then head_opt ys else head_opt xs)"
  by (cases xs) simp_all

lemma last_opt_append: "last_opt (xs @ ys) = (if ys = [] then last_opt xs else last_opt ys)"
  by (simp add: last_opt_def)

lemma succ_in_notin: "x \<notin> set xs \<Longrightarrow> succ_in xs x = None"
  by (induction xs) auto

lemma pred_in_notin: "x \<notin> set xs \<Longrightarrow> pred_in xs x = None"
  by (simp add: pred_in_def succ_in_notin)

lemma succ_in_here: "x \<notin> set xs \<Longrightarrow> succ_in (xs @ x # ys) x = head_opt ys"
  by (induction xs) auto

lemma pred_in_here: "x \<notin> set ys \<Longrightarrow> pred_in (xs @ x # ys) x = last_opt xs"
  using succ_in_here [of x "rev ys" "rev xs"] by (simp add: pred_in_def)

lemma succ_in_insert:
  "distinct (xs @ ys) \<Longrightarrow> n \<notin> set (xs @ ys) \<Longrightarrow> x \<noteq> n \<Longrightarrow>
     succ_in (xs @ n # ys) x = (if last_opt xs = Some x then Some n else succ_in (xs @ ys) x)"
proof (induction xs)
  case (Cons a xs)
  then show ?case
    by (cases "xs = []") (auto simp: last_opt_Cons head_opt_append dest: last_opt_mem)
qed auto

lemma pred_in_insert:
  "distinct (xs @ ys) \<Longrightarrow> n \<notin> set (xs @ ys) \<Longrightarrow> x \<noteq> n \<Longrightarrow>
     pred_in (xs @ n # ys) x = (if head_opt ys = Some x then Some n else pred_in (xs @ ys) x)"
  using succ_in_insert [of "rev ys" "rev xs" n x] by (simp add: pred_in_def Int_commute)

section \<open>Blocks as a list\<close>

record seg =
  sfree :: bool
  soff :: nat
  ssize :: nat
  sref :: "nat option"

type_synonym layout = "(nat \<times> seg) list"

definition addrs :: "layout \<Rightarrow> nat list" where
  "addrs L = map fst L"

definition frees :: "layout \<Rightarrow> nat list" where
  "frees L = map fst (filter (\<lambda>(a, g). sfree g) L)"

definition block_of :: "layout \<Rightarrow> nat \<Rightarrow> seg \<Rightarrow> FragmentBlock" where
  "block_of L a g =
     \<lparr>free = sfree g, offset = soff g, bsize = ssize g,
      nextFree = (if sfree g then succ_in (frees L) a else None),
      prevFree = (if sfree g then pred_in (frees L) a else None),
      nextBlock = succ_in (addrs L) a, prevBlock = pred_in (addrs L) a, pointerReference = sref g\<rparr>"

definition heap_of :: "layout \<Rightarrow> nat \<rightharpoonup> FragmentBlock" where
  "heap_of L a = map_option (block_of L a) (map_of L a)"

lemma addrs_simps [simp]:
  "addrs [] = []" "addrs ((a, g) # L) = a # addrs L" "addrs (L @ M) = addrs L @ addrs M"
  by (simp_all add: addrs_def)

lemma frees_simps [simp]:
  "frees [] = []" "frees ((a, g) # L) = (if sfree g then a # frees L else frees L)"
  "frees (L @ M) = frees L @ frees M"
  by (simp_all add: frees_def)

lemma frees_subset: "set (frees L) \<subseteq> set (addrs L)"
  by (auto simp: frees_def addrs_def)

lemma distinct_frees: "distinct (addrs L) \<Longrightarrow> distinct (frees L)"
  by (simp add: frees_def addrs_def distinct_map_filter)

lemma map_of_addrs: "map_of L a = None \<longleftrightarrow> a \<notin> set (addrs L)"
  by (simp add: map_of_eq_None_iff addrs_def)

lemma heap_of_dom: "heap_of L a = None \<longleftrightarrow> a \<notin> set (addrs L)"
  by (simp add: heap_of_def map_of_addrs)

lemma heap_of_here:
  "a \<notin> set (addrs X) \<Longrightarrow> heap_of (X @ (a, g) # Y) a = Some (block_of (X @ (a, g) # Y) a g)"
  by (simp add: heap_of_def map_of_addrs [symmetric] map_add_def split: option.splits)

text \<open>\<open>if(p) p->member = value\<close> on a heap.\<close>

definition hmod :: "nat option \<Rightarrow> (FragmentBlock \<Rightarrow> FragmentBlock) \<Rightarrow> (nat \<rightharpoonup> FragmentBlock) \<Rightarrow> (nat \<rightharpoonup> FragmentBlock)" where
  "hmod p f h = (case p of None \<Rightarrow> h | Some a \<Rightarrow> h(a := map_option f (h a)))"

lemma hmod_apply: "hmod p f h a = (if p = Some a then map_option f (h a) else h a)"
  by (auto simp: hmod_def split: option.splits)

text \<open>The four links, without a case distinction at each update.\<close>

lemma hmod_links:
  "hmod p (\<lambda>b. b\<lparr>nextBlock := v\<rparr>) h a = map_option (\<lambda>b. b\<lparr>nextBlock := if p = Some a then v else nextBlock b\<rparr>) (h a)"
  "hmod p (\<lambda>b. b\<lparr>prevBlock := v\<rparr>) h a = map_option (\<lambda>b. b\<lparr>prevBlock := if p = Some a then v else prevBlock b\<rparr>) (h a)"
  "hmod p (\<lambda>b. b\<lparr>nextFree := v\<rparr>) h a = map_option (\<lambda>b. b\<lparr>nextFree := if p = Some a then v else nextFree b\<rparr>) (h a)"
  "hmod p (\<lambda>b. b\<lparr>prevFree := v\<rparr>) h a = map_option (\<lambda>b. b\<lparr>prevFree := if p = Some a then v else prevFree b\<rparr>) (h a)"
  by (cases "h a"; simp add: hmod_apply)+

lemma modify_if_hmod:
  "(\<And>a. p = Some a \<Longrightarrow> heap s a \<noteq> None) \<Longrightarrow> modify_if p f s = Inr (s\<lparr>heap := hmod p f (heap s)\<rparr>)"
  by (cases p) (auto simp: modify_if_def modify_def deref_def put_block_def hmod_def)

lemma modify_hmod:
  "heap s a \<noteq> None \<Longrightarrow> modify (Some a) f s = Inr (s\<lparr>heap := hmod (Some a) f (heap s)\<rparr>)"
  by (auto simp: modify_def deref_def put_block_def hmod_def)

lemma deref_Some: "heap s a = Some b \<Longrightarrow> deref (Some a) s = Inr b"
  by (simp add: deref_def)

section \<open>Changing the list\<close>

lemma succ_in_last: "distinct (xs @ ys) \<Longrightarrow> last_opt xs = Some a \<Longrightarrow> succ_in (xs @ ys) a = head_opt ys"
  by (cases xs rule: rev_cases) (auto intro: succ_in_here)

lemma pred_in_head: "distinct (xs @ ys) \<Longrightarrow> head_opt ys = Some a \<Longrightarrow> pred_in (xs @ ys) a = last_opt xs"
  by (cases ys) (auto intro: pred_in_here)

lemma map_of_insert: "distinct (addrs (X @ (k, g) # Y)) \<Longrightarrow> a \<noteq> k \<Longrightarrow> map_of (X @ (k, g) # Y) a = map_of (X @ Y) a"
  by (simp add: map_add_def split: option.split)

lemma free_iff: "distinct (addrs L) \<Longrightarrow> map_of L a = Some g \<Longrightarrow> a \<in> set (frees L) \<longleftrightarrow> sfree g"
proof (induction L)
  case (Cons x L)
  obtain b h where x: "x = (b, h)" by force
  show ?case
  proof (cases "a = b")
    case True
    with Cons.prems x show ?thesis using frees_subset [of L] by auto
  next
    case False
    with Cons x show ?thesis by auto
  qed
qed simp

lemma heap_of_remove_used:
  assumes d: "distinct (addrs (X @ (k, g) # Y))" and "\<not> sfree g"
  shows "heap_of (X @ Y) =
    (hmod (last_opt (addrs X)) (\<lambda>b. b\<lparr>nextBlock := head_opt (addrs Y)\<rparr>)
      (hmod (head_opt (addrs Y)) (\<lambda>b. b\<lparr>prevBlock := last_opt (addrs X)\<rparr>) (heap_of (X @ (k, g) # Y))))(k := None)"
proof
  fix a
  have d': "distinct (addrs X @ addrs Y)" "k \<notin> set (addrs X @ addrs Y)" using d by auto
  show "heap_of (X @ Y) a =
    ((hmod (last_opt (addrs X)) (\<lambda>b. b\<lparr>nextBlock := head_opt (addrs Y)\<rparr>)
      (hmod (head_opt (addrs Y)) (\<lambda>b. b\<lparr>prevBlock := last_opt (addrs X)\<rparr>) (heap_of (X @ (k, g) # Y))))(k := None)) a"
  proof (cases "a = k")
    case True
    then show ?thesis using d' by (simp add: heap_of_dom)
  next
    case False
    then show ?thesis
      using assms d' succ_in_last [OF d'(1), of a] pred_in_head [OF d'(1), of a]
      by (cases "map_of (X @ Y) a")
        (auto simp: heap_of_def map_of_insert hmod_apply block_of_def succ_in_insert pred_in_insert
          simp del: map_of_append)
  qed
qed

lemma heap_of_insert_used:
  assumes d: "distinct (addrs (X @ (k, g) # Y))" and "\<not> sfree g"
  shows "heap_of (X @ (k, g) # Y) =
    (hmod (last_opt (addrs X)) (\<lambda>b. b\<lparr>nextBlock := Some k\<rparr>)
      (hmod (head_opt (addrs Y)) (\<lambda>b. b\<lparr>prevBlock := Some k\<rparr>) (heap_of (X @ Y))))(k \<mapsto> block_of (X @ (k, g) # Y) k g)"
proof
  fix a
  have d': "distinct (addrs X @ addrs Y)" "k \<notin> set (addrs X @ addrs Y)" using d by auto
  show "heap_of (X @ (k, g) # Y) a = 
    ((hmod (last_opt (addrs X)) (\<lambda>b. b\<lparr>nextBlock := Some k\<rparr>)
      (hmod (head_opt (addrs Y)) (\<lambda>b. b\<lparr>prevBlock := Some k\<rparr>) (heap_of (X @ Y))))(k \<mapsto> block_of (X @ (k, g) # Y) k g)) a"
  proof (cases "a = k")
    case True
    then show ?thesis using d' heap_of_here [of k X g Y] by simp
  next
    case False
    then show ?thesis
      using assms d'
      by (cases "map_of (X @ Y) a")
        (auto simp: heap_of_def map_of_insert hmod_apply block_of_def succ_in_insert pred_in_insert
          simp del: map_of_append)
  qed
qed

lemma frees_split:
  assumes "distinct (addrs (X @ Y))" "k \<notin> set (addrs (X @ Y))"
  shows "distinct (frees X @ frees Y)" "k \<notin> set (frees X @ frees Y)"
  using assms distinct_frees [of "X @ Y"] frees_subset [of "X @ Y"] by auto

lemma heap_of_remove_free:
  assumes d: "distinct (addrs (X @ (k, g) # Y))" and g: "sfree g"
  shows "heap_of (X @ Y) =
    (hmod (head_opt (addrs Y)) (\<lambda>b. b\<lparr>prevBlock := last_opt (addrs X)\<rparr>)
      (hmod (last_opt (addrs X)) (\<lambda>b. b\<lparr>nextBlock := head_opt (addrs Y)\<rparr>)
        (hmod (head_opt (frees Y)) (\<lambda>b. b\<lparr>prevFree := last_opt (frees X)\<rparr>)
          (hmod (last_opt (frees X)) (\<lambda>b. b\<lparr>nextFree := head_opt (frees Y)\<rparr>) (heap_of (X @ (k, g) # Y))))))(k := None)"
    (is "_ = ?h")
proof
  fix a
  have d': "distinct (addrs X @ addrs Y)" "k \<notin> set (addrs X @ addrs Y)" using d by auto
  then have f: "distinct (frees X @ frees Y)" "k \<notin> set (frees X @ frees Y)" using frees_split [of X Y k] by auto
  show "heap_of (X @ Y) a = ?h a"
  proof (cases "a = k \<or> map_of (X @ Y) a = None")
    case True
    moreover have "map_of (X @ Y) k = None" using d' by (simp only: map_of_addrs addrs_simps not_False_eq_True)
    ultimately show ?thesis using map_of_insert [OF d, of a]
      by (cases "a = k") (auto simp: hmod_apply heap_of_def simp del: map_of_append)
  next
    case False
    then obtain g' where g': "map_of (X @ Y) a = Some g'" by (auto simp del: map_of_append)
    have "last_opt (frees X) = Some a \<or> head_opt (frees Y) = Some a \<Longrightarrow> sfree g'"
      using free_iff [of "X @ Y" a g'] d' g' by (auto dest: last_opt_mem head_opt_mem)
    then show ?thesis
      using False g g' d d' f succ_in_last [OF d'(1), of a] pred_in_head [OF d'(1), of a]
        succ_in_last [OF f(1), of a] pred_in_head [OF f(1), of a]
      by (auto simp: heap_of_def map_of_insert hmod_apply block_of_def succ_in_insert pred_in_insert
          simp del: map_of_append)
  qed
qed

text \<open>Changing the data of a block, its state staying free or used.\<close>

lemma heap_of_update:
  assumes d: "distinct (addrs (X @ (c, g) # Y))" and g: "sfree g' = sfree g"
  shows "heap_of (X @ (c, g') # Y) =
    hmod (Some c) (\<lambda>b. b\<lparr>offset := soff g', bsize := ssize g', pointerReference := sref g'\<rparr>) (heap_of (X @ (c, g) # Y))"
proof
  fix a
  have same: "frees (X @ (c, g') # Y) = frees (X @ (c, g) # Y)" "addrs (X @ (c, g') # Y) = addrs (X @ (c, g) # Y)"
    using g by simp_all
  show "heap_of (X @ (c, g') # Y) a =
    hmod (Some c) (\<lambda>b. b\<lparr>offset := soff g', bsize := ssize g', pointerReference := sref g'\<rparr>) (heap_of (X @ (c, g) # Y)) a"
  proof (cases "a = c")
    case True
    then show ?thesis using d g heap_of_here [of c X g Y] heap_of_here [of c X g' Y]
      by (simp add: hmod_apply block_of_def)
  next
    case False
    then show ?thesis
      unfolding heap_of_def block_of_def same using map_of_insert [of X c g Y a] map_of_insert [of X c g' Y a] d
      by (simp add: hmod_apply heap_of_def block_of_def same del: map_of_append)
  qed
qed

text \<open>A used block becomes free: it is linked between the nearest free blocks on either side.\<close>

lemma heap_of_free_up:
  assumes d: "distinct (addrs (X @ (c, g) # Y))" and g: "\<not> sfree g"
  shows "heap_of (X @ (c, g\<lparr>sfree := True\<rparr>) # Y) =
    hmod (Some c) (\<lambda>b. b\<lparr>free := True, prevFree := last_opt (frees X), nextFree := head_opt (frees Y)\<rparr>)
      (hmod (last_opt (frees X)) (\<lambda>b. b\<lparr>nextFree := Some c\<rparr>)
        (hmod (head_opt (frees Y)) (\<lambda>b. b\<lparr>prevFree := Some c\<rparr>) (heap_of (X @ (c, g) # Y))))"
    (is "heap_of (X @ (c, ?g) # Y) = ?h")
proof
  fix a
  have d': "distinct (addrs X @ addrs Y)" "c \<notin> set (addrs X @ addrs Y)" using d by auto
  then have f: "distinct (frees X @ frees Y)" "c \<notin> set (frees X @ frees Y)" using frees_split [of X Y c] by auto
  have ne: "last_opt (frees X) \<noteq> Some c" "head_opt (frees Y) \<noteq> Some c"
    using f(2) last_opt_mem head_opt_mem by force+
  show "heap_of (X @ (c, ?g) # Y) a = ?h a"
  proof (cases "a = c")
    case True
    then show ?thesis
      using d' f ne g heap_of_here [of c X g Y] heap_of_here [of c X ?g Y]
      by (simp add: hmod_apply block_of_def succ_in_here pred_in_here)
  next
    case False
    show ?thesis
    proof (cases "map_of (X @ Y) a")
      case None
      then show ?thesis using False d map_of_insert [of X c g Y a] map_of_insert [of X c ?g Y a]
        by (simp add: heap_of_def hmod_apply del: map_of_append)
    next
      case (Some g')
      have "last_opt (frees X) = Some a \<or> head_opt (frees Y) = Some a \<Longrightarrow> sfree g'"
        using free_iff [of "X @ Y" a g'] d' Some by (auto dest: last_opt_mem head_opt_mem)
      then show ?thesis
        using False Some g d f map_of_insert [of X c g Y a] map_of_insert [of X c ?g Y a]
        by (auto simp: heap_of_def hmod_apply block_of_def succ_in_insert pred_in_insert simp del: map_of_append)
    qed
  qed
qed

end
