(* ===== verification/Fragment_Spec.thy ===== *)
theory Fragment_Spec
  imports Fragment_Links
begin

text \<open>
  The fragment allocator against its abstract specification: a list of segments that tile the
  pool, allocation by first fit, release by marking free and coalescing with the neighbours.
  \<open>frag_rep\<close> relates an allocator state to a layout; every operation on the linked blocks
  implements the operation on the layout, without touching memory it does not own.
\<close>

section \<open>The representation relation\<close>

definition frag_rep :: "FragmentAllocator \<Rightarrow> layout \<Rightarrow> bool" where
  "frag_rep s L \<longleftrightarrow>
     distinct (addrs L) \<and> heap s = heap_of L \<and> mFragmentBlockHead s = head_opt (addrs L) \<and>
     mFragmentBlockHeadFree s = head_opt (frees L) \<and> (\<forall>a\<in>set (addrs L). a < nextAddr s)"

lemma frag_rep_split:
  assumes "frag_rep s (X @ (c, g) # Y)"
  shows "distinct (addrs X @ addrs Y)" "c \<notin> set (addrs X @ addrs Y)" "c < nextAddr s"
    "distinct (frees X @ frees Y)" "c \<notin> set (frees X @ frees Y)"
    "heap s c = Some (block_of (X @ (c, g) # Y) c g)"
    "block_of (X @ (c, g) # Y) c g =
       \<lparr>free = sfree g, offset = soff g, bsize = ssize g,
        nextFree = (if sfree g then head_opt (frees Y) else None),
        prevFree = (if sfree g then last_opt (frees X) else None),
        nextBlock = head_opt (addrs Y), prevBlock = last_opt (addrs X), pointerReference = sref g\<rparr>"
proof -
  show d: "distinct (addrs X @ addrs Y)" "c \<notin> set (addrs X @ addrs Y)" and "c < nextAddr s"
    using assms by (auto simp: frag_rep_def)
  then show f: "distinct (frees X @ frees Y)" "c \<notin> set (frees X @ frees Y)" using frees_split [of X Y c] by auto
  show "heap s c = Some (block_of (X @ (c, g) # Y) c g)"
    using assms d heap_of_here [of c X g Y] by (simp add: frag_rep_def)
  show "block_of (X @ (c, g) # Y) c g =
       \<lparr>free = sfree g, offset = soff g, bsize = ssize g,
        nextFree = (if sfree g then head_opt (frees Y) else None),
        prevFree = (if sfree g then last_opt (frees X) else None),
        nextBlock = head_opt (addrs Y), prevBlock = last_opt (addrs X), pointerReference = sref g\<rparr>"
    using d f by (auto simp: block_of_def succ_in_here pred_in_here)
qed

lemma frag_rep_live: "frag_rep s L \<Longrightarrow> a \<in> set (addrs L) \<Longrightarrow> heap s a \<noteq> None"
  using heap_of_dom by (auto simp: frag_rep_def)

lemma neighbours_live:
  assumes "frag_rep s (X @ Z)"
  shows "last_opt (addrs X) = Some a \<Longrightarrow> heap s a \<noteq> None" "head_opt (addrs Z) = Some a \<Longrightarrow> heap s a \<noteq> None"
    "last_opt (frees X) = Some a \<Longrightarrow> heap s a \<noteq> None" "head_opt (frees Z) = Some a \<Longrightarrow> heap s a \<noteq> None"
  using frag_rep_live [OF assms, of a] frees_subset [of X] frees_subset [of Z]
  by (auto dest!: last_opt_mem head_opt_mem)

lemma block_head:
  assumes "frag_rep s (X @ (c, g) # Y)"
  shows "(Some c = mFragmentBlockHead s) = (X = [])" "sfree g \<Longrightarrow> (Some c = mFragmentBlockHeadFree s) = (frees X = [])"
    "sfree g \<Longrightarrow> mFragmentBlockHeadFree s \<noteq> None" "\<not> sfree g \<Longrightarrow> Some c \<noteq> mFragmentBlockHeadFree s"
proof -
  note c = frag_rep_split(2,5) [OF assms]
  show "(Some c = mFragmentBlockHead s) = (X = [])" using assms c(1) by (cases X) (auto simp: frag_rep_def)
  show "sfree g \<Longrightarrow> (Some c = mFragmentBlockHeadFree s) = (frees X = [])"
    using assms c(2) by (cases "frees X") (auto simp: frag_rep_def)
  show "sfree g \<Longrightarrow> mFragmentBlockHeadFree s \<noteq> None" using assms by (simp add: frag_rep_def del: not_None_eq)
  show "\<not> sfree g \<Longrightarrow> Some c \<noteq> mFragmentBlockHeadFree s"
    using assms c(2) by (auto simp: frag_rep_def dest: head_opt_mem [OF sym])
qed

section \<open>Cutting a used block off a free one\<close>

definition used_seg :: "nat \<Rightarrow> nat \<Rightarrow> seg" where
  "used_seg off n = \<lparr>sfree = False, soff = off, ssize = n, sref = None\<rparr>"

lemma insert_allocated_rep:
  assumes rep: "frag_rep s (X @ (c, g) # Y)"
  shows "insert_allocated c n s = Inr (nextAddr s,
      s\<lparr>heap := heap_of (X @ (nextAddr s, used_seg (soff g) n) # (c, g) # Y), nextAddr := nextAddr s + 1,
        mFragmentBlockHead := head_opt (addrs (X @ (nextAddr s, used_seg (soff g) n) # (c, g) # Y))\<rparr>)"
proof -
  let ?k = "nextAddr s" and ?u = "used_seg (soff g) n" and ?h = "heap s"
  let ?L = "X @ (?k, ?u) # (c, g) # Y" and ?lx = "last_opt (addrs X)"
  let ?nb = "FragmentBlock_new\<lparr>free := False, offset := soff g, bsize := n, prevFree := None, nextFree := None, prevBlock := ?lx\<rparr>"
  note c = frag_rep_split [OF rep]
  have fresh: "\<And>a. a \<in> set (addrs (X @ (c, g) # Y)) \<Longrightarrow> a \<noteq> ?k" using rep by (auto simp: frag_rep_def)
  have dL: "distinct (addrs ?L)" using c(1,2) fresh by (auto simp: frag_rep_def)
  have lx: "?lx = Some a \<Longrightarrow> a \<noteq> ?k \<and> a \<noteq> c \<and> ?h a \<noteq> None" for a
    using fresh c(2) neighbours_live(1) [OF rep, of a] by (auto dest: last_opt_mem)
  have head: "(Some c = mFragmentBlockHead s) = (X = [])"
    by (rule block_head(1) [OF rep])
  define h where "h = hmod (Some ?k) (\<lambda>b. b\<lparr>nextBlock := Some c\<rparr>)
    (hmod (Some c) (\<lambda>b. b\<lparr>prevBlock := Some ?k\<rparr>) (hmod ?lx (\<lambda>b. b\<lparr>nextBlock := Some ?k\<rparr>) (?h(?k \<mapsto> ?nb))))"
  have ck: "c \<noteq> ?k" using fresh by simp
  have blk: "block_of ?L ?k ?u = ?nb\<lparr>nextBlock := Some c\<rparr>"
    using dL by (simp add: block_of_def used_seg_def succ_in_here pred_in_here FragmentBlock_new_def)
  have "h = heap_of ?L"
    unfolding heap_of_insert_used [OF dL, unfolded used_seg_def seg.simps, simplified, folded used_seg_def] h_def blk
    using lx rep ck by (intro ext) (auto simp: hmod_apply frag_rep_def used_seg_def)
  moreover have "insert_allocated c n s = Inr (?k, s\<lparr>heap := h, nextAddr := ?k + 1,
      mFragmentBlockHead := if X = [] then Some ?k else mFragmentBlockHead s\<rparr>)"
    using c(6,7) lx ck head
    by (simp add: insert_allocated_def deref_Some new_block_def Let_def modify_if_hmod modify_hmod hmod_apply h_def)
  moreover have "head_opt (addrs ?L) = (if X = [] then Some ?k else mFragmentBlockHead s)"
    using rep by (cases X) (auto simp: frag_rep_def)
  ultimately show ?thesis by simp
qed

lemma shrink_free_exact:
  assumes rep: "frag_rep s (X @ (c, g) # Y)" and g: "sfree g" "ssize g = n" and X: "X \<noteq> []"
  shows "shrink_free c n s = Inr (s\<lparr>heap := heap_of (X @ Y), mFragmentBlockHeadFree := head_opt (frees (X @ Y))\<rparr>)"
    (is "_ = Inr ?s")
proof -
  note c = frag_rep_split [OF rep]
  have d: "distinct (addrs (X @ (c, g) # Y))" using rep by (simp add: frag_rep_def)
  have rep': "frag_rep s ((X @ [(c, g)]) @ Y)" using rep by simp
  have live: "last_opt (frees X) = Some a \<Longrightarrow> heap s a \<noteq> None" "head_opt (frees Y) = Some a \<Longrightarrow> heap s a \<noteq> None"
    "last_opt (addrs X) = Some a \<Longrightarrow> heap s a \<noteq> None" "head_opt (addrs Y) = Some a \<Longrightarrow> heap s a \<noteq> None" for a
    using neighbours_live [OF rep, of a] neighbours_live [OF rep', of a] by auto
  have head: "(Some c = mFragmentBlockHeadFree s) = (frees X = [])"
    by (rule block_head(2) [OF rep g(1)])
  define h where "h = hmod (head_opt (addrs Y)) (\<lambda>b. b\<lparr>prevBlock := last_opt (addrs X)\<rparr>)
      (hmod (last_opt (addrs X)) (\<lambda>b. b\<lparr>nextBlock := head_opt (addrs Y)\<rparr>)
        (hmod (head_opt (frees Y)) (\<lambda>b. b\<lparr>prevFree := last_opt (frees X)\<rparr>)
          (hmod (last_opt (frees X)) (\<lambda>b. b\<lparr>nextFree := head_opt (frees Y)\<rparr>) (heap s))))"
  have "shrink_free c n s = Inr (s\<lparr>heap := h(c := None),
      mFragmentBlockHeadFree := if frees X = [] then head_opt (frees Y) else mFragmentBlockHeadFree s\<rparr>)"
    using c(6,7) g live head
    by (simp add: shrink_free_def deref_Some modify_if_hmod hmod_apply delete_block_def h_def)
  moreover have "h(c := None) = heap_of (X @ Y)"
    using heap_of_remove_free [OF d g(1)] rep by (simp add: h_def frag_rep_def)
  moreover have "head_opt (frees (X @ Y)) = (if frees X = [] then head_opt (frees Y) else mFragmentBlockHeadFree s)"
    using rep by (auto simp: head_opt_append frag_rep_def)
  ultimately show ?thesis by simp
qed

lemma shrink_free_rest:
  assumes rep: "frag_rep s (X @ (c, g) # Y)" and g: "sfree g" "ssize g \<noteq> n"
  shows "shrink_free c n s = Inr (s\<lparr>heap := heap_of (X @ (c, g\<lparr>soff := sz_add (soff g) n, ssize := sz_sub (ssize g) n\<rparr>) # Y)\<rparr>)"
proof -
  note c = frag_rep_split [OF rep]
  let ?g = "g\<lparr>soff := sz_add (soff g) n, ssize := sz_sub (ssize g) n\<rparr>"
  have d: "distinct (addrs (X @ (c, g) # Y))" using rep by (simp add: frag_rep_def)
  have "hmod (Some c) (\<lambda>b. b\<lparr>offset := sz_add (offset b) n, bsize := sz_sub (bsize b) n\<rparr>) (heap s) = heap_of (X @ (c, ?g) # Y)"
    using heap_of_update [OF d, of ?g] c(6,7) rep by (intro ext) (auto simp: hmod_apply frag_rep_def)
  then show ?thesis
    using c(6,7) g by (simp add: shrink_free_def deref_Some modify_hmod)
qed

lemma register_rep:
  assumes rep: "frag_rep s (X @ (k, g) # Y)"
  shows "register k n s = Inr (nextAddr s + 1,
    s\<lparr>pointers := (pointers s)(nextAddr s \<mapsto> mDeviceBasePointer s + soff g),
      mutables := (mutables s)(nextAddr s + 1 \<mapsto> \<lparr>ptrReference = Some (nextAddr s), pointerOffset = 0, pointerOwner = True\<rparr>),
      nextAddr := nextAddr s + 2, heap := heap_of (X @ (k, g\<lparr>sref := Some (nextAddr s)\<rparr>) # Y),
      mPointerToBlockMap := (mPointerToBlockMap s)(nextAddr s \<mapsto> k), mAllocSize := sz_add (mAllocSize s) n\<rparr>)"
proof -
  note c = frag_rep_split [OF rep]
  let ?g = "g\<lparr>sref := Some (nextAddr s)\<rparr>"
  have d: "distinct (addrs (X @ (k, g) # Y))" using rep by (simp add: frag_rep_def)
  have "hmod (Some k) (\<lambda>b. b\<lparr>pointerReference := Some (nextAddr s)\<rparr>) (heap s) = heap_of (X @ (k, ?g) # Y)"
    using heap_of_update [OF d, of ?g] c(6,7) rep by (intro ext) (auto simp: hmod_apply frag_rep_def)
  then show ?thesis
    using c(6,7) by (simp add: register_def deref_Some modify_hmod Let_def)
qed

section \<open>Searching the free list\<close>

definition fits_seg :: "nat \<Rightarrow> nat \<times> seg \<Rightarrow> bool" where
  "fits_seg n x \<longleftrightarrow> sfree (snd x) \<and> n \<le> ssize (snd x)"

lemma no_frees_no_fit: "frees Z = [] \<Longrightarrow> find (fits_seg n) Z = None"
  by (induction Z) (auto simp: fits_seg_def split: if_splits)

lemma find_free_rep:
  assumes "frag_rep s (X @ Z)" "length (frees Z) \<le> fuel"
  shows "find_free fuel (head_opt (frees Z)) n s = Inr (map_option fst (find (fits_seg n) Z))"
  using assms
proof (induction Z arbitrary: X fuel)
  case (Cons x Z)
  obtain a g where x: "x = (a, g)" by force
  have rep: "frag_rep s (X @ (a, g) # Z)" "frag_rep s ((X @ [(a, g)]) @ Z)" using Cons.prems x by simp_all
  note c = frag_rep_split [OF rep(1)]
  show ?case
  proof (cases "sfree g")
    case False
    then show ?thesis using Cons.IH [OF rep(2), of fuel] Cons.prems x by (simp add: fits_seg_def)
  next
    case True
    then obtain k where k: "fuel = Suc k" "length (frees Z) \<le> k" using Cons.prems x by (cases fuel) auto
    show ?thesis
      using True k x c(6,7) Cons.IH [OF rep(2) k(2)] no_frees_no_fit [of Z n]
      by (auto simp: deref_Some fits_seg_def)
  qed
qed simp

lemma length_addrs_bound:
  assumes "frag_rep s L"
  shows "length (addrs L) \<le> nextAddr s" "length (frees L) \<le> nextAddr s"
proof -
  have "set (addrs L) \<subseteq> {..<nextAddr s}" "distinct (addrs L)" using assms by (auto simp: frag_rep_def)
  then show *: "length (addrs L) \<le> nextAddr s"
    using card_mono [of "{..<nextAddr s}" "set (addrs L)"] distinct_card [of "addrs L"] by simp
  have "length (frees L) \<le> length (addrs L)" by (simp add: frees_def addrs_def)
  with * show "length (frees L) \<le> nextAddr s" by simp
qed

section \<open>Releasing a block\<close>

lemma merge_left_rep:
  assumes rep: "frag_rep s (X @ (p, gp) # (c, g) # Y)" and g: "sfree gp" "\<not> sfree g"
  shows "merge_left p c (head_opt (addrs Y)) s =
    Inr (s\<lparr>heap := heap_of (X @ (p, gp\<lparr>ssize := sz_add (ssize gp) (ssize g)\<rparr>) # Y)\<rparr>)"
proof -
  let ?gp = "gp\<lparr>ssize := sz_add (ssize gp) (ssize g)\<rparr>"
  have rep': "frag_rep s ((X @ [(p, gp)]) @ (c, g) # Y)" "frag_rep s ((X @ [(p, gp), (c, g)]) @ Y)" using rep by simp_all
  note cp = frag_rep_split [OF rep] and cc = frag_rep_split [OF rep'(1)]
  have d: "distinct (addrs ((X @ [(p, gp)]) @ (c, g) # Y))" "distinct (addrs (X @ (p, gp) # Y))"
    using rep by (auto simp: frag_rep_def)
  have hY: "head_opt (addrs Y) = Some a \<Longrightarrow> heap s a \<noteq> None \<and> a \<noteq> p \<and> a \<noteq> c" for a
    using neighbours_live(2) [OF rep'(2), of a] d by (auto dest: head_opt_mem)
  have pc: "p \<noteq> c" using d by auto
  have heads: "mFragmentBlockHeadFree s \<noteq> None" "Some c \<noteq> mFragmentBlockHeadFree s" "Some c \<noteq> mFragmentBlockHead s"
    using block_head [OF rep] block_head [OF rep'(1)] g by auto
  define h where "h = hmod (Some p) (\<lambda>b. b\<lparr>bsize := sz_add (bsize b) (ssize g)\<rparr>)
    (hmod (head_opt (addrs Y)) (\<lambda>b. b\<lparr>prevBlock := Some p\<rparr>) (hmod (Some p) (\<lambda>b. b\<lparr>nextBlock := head_opt (addrs Y)\<rparr>) (heap s)))"
  have "merge_left p c (head_opt (addrs Y)) s = Inr (s\<lparr>heap := h(c := None)\<rparr>)"
    using cp(6) cc(6,7) hY heads pc
    by (simp add: merge_left_def deref_Some modify_hmod modify_if_hmod hmod_apply delete_block_def h_def)
  moreover have "h(c := None) = heap_of (X @ (p, ?gp) # Y)"
    using heap_of_update [OF d(2), of ?gp] heap_of_remove_used [OF d(1) g(2)] cp(6,7) rep hY pc
    by (intro ext) (auto simp: hmod_apply frag_rep_def h_def last_opt_append last_opt_Cons)
  ultimately show ?thesis by simp
qed

lemma merge_right_rep:
  assumes rep: "frag_rep s (X @ (c, g) # (n, gn) # Y)" and g: "\<not> sfree g" "sfree gn"
  shows "merge_right (last_opt (addrs X)) c n s =
    Inr (s\<lparr>heap := heap_of (X @ (n, gn\<lparr>soff := soff g, ssize := sz_add (ssize gn) (ssize g)\<rparr>) # Y),
           mFragmentBlockHead := head_opt (addrs (X @ (n, gn) # Y))\<rparr>)"
proof -
  let ?gn = "gn\<lparr>soff := soff g, ssize := sz_add (ssize gn) (ssize g)\<rparr>"
  have rep': "frag_rep s ((X @ [(c, g)]) @ (n, gn) # Y)" using rep by simp
  note cc = frag_rep_split [OF rep] and cn = frag_rep_split [OF rep']
  have d: "distinct (addrs (X @ (c, g) # (n, gn) # Y))" "distinct (addrs (X @ (n, gn) # Y))"
    using rep by (auto simp: frag_rep_def)
  have lX: "last_opt (addrs X) = Some a \<Longrightarrow> heap s a \<noteq> None \<and> a \<noteq> n \<and> a \<noteq> c" for a
    using neighbours_live(1) [OF rep, of a] d by (auto dest: last_opt_mem)
  have nc: "n \<noteq> c" using d by auto
  have heads: "mFragmentBlockHeadFree s \<noteq> None" "Some c \<noteq> mFragmentBlockHeadFree s" "(Some c = mFragmentBlockHead s) = (X = [])"
    using block_head [OF rep] block_head [OF rep'] g by auto
  define h where "h = hmod (Some n) (\<lambda>b. b\<lparr>offset := soff g, bsize := sz_add (bsize b) (ssize g)\<rparr>)
    (hmod (last_opt (addrs X)) (\<lambda>b. b\<lparr>nextBlock := Some n\<rparr>) (hmod (Some n) (\<lambda>b. b\<lparr>prevBlock := last_opt (addrs X)\<rparr>) (heap s)))"
  have "merge_right (last_opt (addrs X)) c n s = Inr (s\<lparr>heap := h(c := None),
      mFragmentBlockHead := if X = [] then Some n else mFragmentBlockHead s\<rparr>)"
    using cn(6) cc(6,7) lX heads nc
    by (simp add: merge_right_def deref_Some modify_hmod modify_if_hmod hmod_apply delete_block_def h_def)
  moreover have "h(c := None) = heap_of (X @ (n, ?gn) # Y)"
    using heap_of_update [OF d(2), of ?gn] heap_of_remove_used [OF d(1) g(1)] cn(6,7) rep lX nc
    by (intro ext) (auto simp: hmod_apply frag_rep_def h_def)
  moreover have "head_opt (addrs (X @ (n, gn) # Y)) = (if X = [] then Some n else mFragmentBlockHead s)"
    using rep by (auto simp: frag_rep_def head_opt_append addrs_def)
  ultimately show ?thesis by simp
qed

lemma merge_both_rep:
  assumes rep: "frag_rep s (X @ (p, gp) # (c, g) # (n, gn) # Y)" and g: "sfree gp" "\<not> sfree g" "sfree gn"
  shows "merge_both p c n s =
    Inr (s\<lparr>heap := heap_of (X @ (c, g\<lparr>sfree := True, soff := soff gp,
               ssize := sz_add (sz_add (ssize gp) (ssize g)) (ssize gn)\<rparr>) # Y),
           mFragmentBlockHead := head_opt (addrs (X @ (c, g) # Y)),
           mFragmentBlockHeadFree := head_opt (frees (X @ (c, g\<lparr>sfree := True\<rparr>) # Y))\<rparr>)"
proof -
  let ?gt = "g\<lparr>sfree := True\<rparr>" and ?n = "sz_add (sz_add (ssize gp) (ssize g)) (ssize gn)"
  let ?g = "g\<lparr>sfree := True, soff := soff gp, ssize := ?n\<rparr>"
  have rep': "frag_rep s ((X @ [(p, gp)]) @ (c, g) # (n, gn) # Y)" "frag_rep s ((X @ [(p, gp), (c, g)]) @ (n, gn) # Y)"
    "frag_rep s ((X @ [(p, gp), (c, g), (n, gn)]) @ Y)" using rep by simp_all
  note cp = frag_rep_split [OF rep] and cc = frag_rep_split [OF rep'(1)] and cn = frag_rep_split [OF rep'(2)]
  have d: "distinct (addrs (X @ (p, gp) # (c, g) # (n, gn) # Y))" "distinct (addrs ((X @ [(c, g)]) @ (n, gn) # Y))"
    "distinct (addrs (X @ (c, g) # Y))" "distinct (addrs (X @ (c, ?gt) # Y))"
    using rep by (auto simp: frag_rep_def)
  have ne: "p \<noteq> c" "p \<noteq> n" "c \<noteq> n" using d(1) by auto
  have sub: "set (frees X) \<subseteq> set (addrs X)" "set (frees Y) \<subseteq> set (addrs Y)" by (rule frees_subset)+
  have lX: "last_opt (addrs X) = Some a \<Longrightarrow> heap s a \<noteq> None \<and> a \<noteq> p \<and> a \<noteq> c \<and> a \<noteq> n"
    "last_opt (frees X) = Some a \<Longrightarrow> heap s a \<noteq> None \<and> a \<noteq> p \<and> a \<noteq> c \<and> a \<noteq> n" for a
    using neighbours_live(1,3) [OF rep, of a] d(1) sub by (auto dest!: last_opt_mem)
  have hY: "head_opt (addrs Y) = Some a \<Longrightarrow> heap s a \<noteq> None \<and> a \<noteq> p \<and> a \<noteq> c \<and> a \<noteq> n"
    "head_opt (frees Y) = Some a \<Longrightarrow> heap s a \<noteq> None \<and> a \<noteq> p \<and> a \<noteq> c \<and> a \<noteq> n" for a
    using neighbours_live(2,4) [OF rep'(3), of a] d(1) sub by (auto dest!: head_opt_mem)
  define h where "h = hmod (Some c) (\<lambda>b. b\<lparr>free := True, offset := soff gp, bsize := sz_add (sz_add (ssize gp) (bsize b)) (ssize gn)\<rparr>)
    (hmod (head_opt (addrs Y)) (\<lambda>b. b\<lparr>prevBlock := Some c\<rparr>)
    (hmod (last_opt (addrs X)) (\<lambda>b. b\<lparr>nextBlock := Some c\<rparr>)
    (hmod (head_opt (frees Y)) (\<lambda>b. b\<lparr>prevFree := Some c\<rparr>)
    (hmod (last_opt (frees X)) (\<lambda>b. b\<lparr>nextFree := Some c\<rparr>)
    (hmod (Some c) (\<lambda>b. b\<lparr>prevFree := last_opt (frees X), nextFree := head_opt (frees Y),
      prevBlock := last_opt (addrs X), nextBlock := head_opt (addrs Y)\<rparr>) (heap s))))))"
  have "merge_both p c n s = Inr (s\<lparr>heap := h(p := None, n := None),
      mFragmentBlockHead := if X = [] then Some c else mFragmentBlockHead s,
      mFragmentBlockHeadFree := if frees X = [] then Some c else mFragmentBlockHeadFree s\<rparr>)"
    using cp(6,7) cc(6,7) cn(6,7) g ne lX hY block_head [OF rep]
    by (simp add: merge_both_def deref_Some modify_hmod modify_if_hmod hmod_apply delete_block_def h_def fun_upd_twist)
  moreover have "h(p := None, n := None) = heap_of (X @ (c, ?g) # Y)"
  proof -
    have e1: "heap_of (X @ (c, g) # (n, gn) # Y) = (hmod (Some c) (\<lambda>b. b\<lparr>prevBlock := last_opt (addrs X)\<rparr>)
        (hmod (last_opt (addrs X)) (\<lambda>b. b\<lparr>nextBlock := Some c\<rparr>) (hmod (Some n) (\<lambda>b. b\<lparr>prevFree := last_opt (frees X)\<rparr>)
          (hmod (last_opt (frees X)) (\<lambda>b. b\<lparr>nextFree := Some n\<rparr>) (heap s)))))(p := None)"
      using heap_of_remove_free [OF d(1) g(1)] g rep by (simp add: frag_rep_def)
    have e2: "heap_of (X @ (c, g) # Y) = (hmod (head_opt (addrs Y)) (\<lambda>b. b\<lparr>prevBlock := Some c\<rparr>)
        (hmod (Some c) (\<lambda>b. b\<lparr>nextBlock := head_opt (addrs Y)\<rparr>) (hmod (head_opt (frees Y)) (\<lambda>b. b\<lparr>prevFree := last_opt (frees X)\<rparr>)
          (hmod (last_opt (frees X)) (\<lambda>b. b\<lparr>nextFree := head_opt (frees Y)\<rparr>) (heap_of (X @ (c, g) # (n, gn) # Y))))))(n := None)"
      using heap_of_remove_free [OF d(2) g(3)] g by (simp add: last_opt_append last_opt_Cons)
    have e3: "heap_of (X @ (c, ?gt) # Y) = hmod (Some c) (\<lambda>b. b\<lparr>free := True, prevFree := last_opt (frees X), nextFree := head_opt (frees Y)\<rparr>)
        (hmod (last_opt (frees X)) (\<lambda>b. b\<lparr>nextFree := Some c\<rparr>) (hmod (head_opt (frees Y)) (\<lambda>b. b\<lparr>prevFree := Some c\<rparr>) (heap_of (X @ (c, g) # Y))))"
      by (rule heap_of_free_up [OF d(3) g(2)])
    have e4: "heap_of (X @ (c, ?g) # Y) = hmod (Some c) (\<lambda>b. b\<lparr>offset := soff gp, bsize := ?n, pointerReference := sref g\<rparr>) (heap_of (X @ (c, ?gt) # Y))"
      using heap_of_update [OF d(4), of ?g] by simp
    have c0: "heap s c = Some (block_of (X @ (p, gp) # (c, g) # (n, gn) # Y) c g)" using cc(6) by simp
    have ends: "last_opt (addrs X) \<noteq> Some p" "last_opt (addrs X) \<noteq> Some c" "last_opt (addrs X) \<noteq> Some n"
      "last_opt (frees X) \<noteq> Some p" "last_opt (frees X) \<noteq> Some c" "last_opt (frees X) \<noteq> Some n"
      "head_opt (addrs Y) \<noteq> Some p" "head_opt (addrs Y) \<noteq> Some c" "head_opt (addrs Y) \<noteq> Some n"
      "head_opt (frees Y) \<noteq> Some p" "head_opt (frees Y) \<noteq> Some c" "head_opt (frees Y) \<noteq> Some n"
      using lX hY by blast+
    show ?thesis
    proof
      fix a
      have far: "hmod (Some c) f h' a = h' a" if "a \<noteq> c" for f h' using that by (simp add: hmod_apply)
      show "(h(p := None, n := None)) a = heap_of (X @ (c, ?g) # Y) a"
      proof (cases "a = p \<or> a = n \<or> a = c")
        case True
        then show ?thesis unfolding e4 e3 e2 e1 h_def using ne ends c0 by (auto simp: hmod_apply block_of_def)
      next
        case False
        then show ?thesis unfolding e4 e3 e2 e1 h_def
          by (cases "heap s a") (simp_all add: far hmod_links cong: if_cong)
      qed
    qed
  qed
  moreover have "head_opt (addrs (X @ (c, g) # Y)) = (if X = [] then Some c else mFragmentBlockHead s)"
    "head_opt (frees (X @ (c, ?gt) # Y)) = (if frees X = [] then Some c else mFragmentBlockHeadFree s)"
    using rep g by (cases X; auto simp: frag_rep_def head_opt_append)+
  ultimately show ?thesis by simp
qed

lemma search_left_rep:
  assumes "frag_rep s0 (X @ Z)" "\<And>a. a \<in> set (addrs X) \<Longrightarrow> heap s a = heap s0 a" "length (addrs X) \<le> fuel"
  shows "search_left fuel (last_opt (addrs X)) s = Inr (last_opt (frees X))"
  using assms
proof (induction X arbitrary: Z fuel rule: rev_induct)
  case (snoc x X)
  obtain a g where x: "x = (a, g)" by force
  have rep: "frag_rep s0 (X @ (a, g) # Z)" using snoc.prems x by simp
  obtain k where k: "fuel = Suc k" "length (addrs X) \<le> k" using snoc.prems(3) x by (cases fuel) auto
  have "heap s a = heap s0 a" using snoc.prems(2) x by simp
  then show ?case
    using k x frag_rep_split(6,7) [OF rep] snoc.IH [OF rep _ k(2)] snoc.prems(2)
    by (simp add: deref_Some)
qed simp

lemma search_right_rep:
  assumes "frag_rep s0 (X @ Z)" "\<And>a. a \<in> set (addrs Z) \<Longrightarrow> heap s a = heap s0 a" "length (addrs Z) \<le> fuel"
  shows "search_right fuel (head_opt (addrs Z)) s = Inr (head_opt (frees Z))"
  using assms
proof (induction Z arbitrary: X fuel)
  case (Cons x Z)
  obtain a g where x: "x = (a, g)" by force
  have rep: "frag_rep s0 (X @ (a, g) # Z)" "frag_rep s0 ((X @ [(a, g)]) @ Z)" using Cons.prems x by simp_all
  obtain k where k: "fuel = Suc k" "length (addrs Z) \<le> k" using Cons.prems(3) x by (cases fuel) auto
  have "heap s a = heap s0 a" using Cons.prems(2) x by simp
  then show ?case
    using k x frag_rep_split(6,7) [OF rep(1)] Cons.IH [OF rep(2) _ k(2)] Cons.prems(2)
    by (simp add: deref_Some)
qed simp

lemma free_neighbour_links:
  assumes rep: "frag_rep s (X @ Z)"
  shows "last_opt (frees X) = Some a \<Longrightarrow> \<exists>b. heap s a = Some b \<and> nextFree b = head_opt (frees Z)"
    "head_opt (frees Z) = Some a \<Longrightarrow> \<exists>b. heap s a = Some b \<and> prevFree b = last_opt (frees X)"
proof -
  have d: "distinct (addrs (X @ Z))" "heap s = heap_of (X @ Z)" using rep by (auto simp: frag_rep_def)
  have f: "distinct (frees X @ frees Z)" using distinct_frees [OF d(1)] by simp
  have block: "\<exists>g. map_of (X @ Z) a = Some g \<and> sfree g" if "a \<in> set (frees (X @ Z))"
  proof -
    have "map_of (X @ Z) a \<noteq> None" using that frees_subset [of "X @ Z"] by (auto simp: map_of_addrs simp del: map_of_append)
    then show ?thesis using free_iff [OF d(1)] that by blast
  qed
  {
    assume "last_opt (frees X) = Some a"
    moreover from this obtain g where "map_of (X @ Z) a = Some g" "sfree g" using block last_opt_mem [of "frees X" a] by (auto simp del: map_of_append)
    ultimately show "\<exists>b. heap s a = Some b \<and> nextFree b = head_opt (frees Z)"
      using succ_in_last [OF f, of a] by (simp add: d(2) heap_of_def block_of_def del: map_of_append)
  next
    assume "head_opt (frees Z) = Some a"
    moreover from this obtain g where "map_of (X @ Z) a = Some g" "sfree g" using block head_opt_mem [of "frees Z" a] by (auto simp del: map_of_append)
    ultimately show "\<exists>b. heap s a = Some b \<and> prevFree b = last_opt (frees X)"
      using pred_in_head [OF f, of a] by (simp add: d(2) heap_of_def block_of_def del: map_of_append)
  }
qed

lemma merge_none_rep:
  assumes rep: "frag_rep s (X @ (c, g) # Y)" and g: "\<not> sfree g"
  shows "merge_none (last_opt (addrs X)) c (head_opt (addrs Y)) s =
    Inr (s\<lparr>heap := heap_of (X @ (c, g\<lparr>sfree := True\<rparr>) # Y),
           mFragmentBlockHeadFree := head_opt (frees (X @ (c, g\<lparr>sfree := True\<rparr>) # Y))\<rparr>)"
proof -
  have rep': "frag_rep s ((X @ [(c, g)]) @ Y)" using rep by simp
  note c = frag_rep_split [OF rep]
  have d: "distinct (addrs (X @ (c, g) # Y))" using rep by (simp add: frag_rep_def)
  note up = heap_of_free_up [OF d g]
  have h: "heap s = heap_of (X @ (c, g) # Y)" using rep by (simp add: frag_rep_def)
  have len: "length (addrs X) \<le> nextAddr s" "length (addrs Y) \<le> nextAddr s"
    using length_addrs_bound(1) [OF rep] by simp_all
  let ?s1 = "s\<lparr>heap := hmod (Some c) (\<lambda>b. b\<lparr>free := True\<rparr>) (heap s)\<rparr>"
  have m1: "modify (Some c) (\<lambda>b. b\<lparr>free := True\<rparr>) s = Inr ?s1" using c(6) by (simp add: modify_hmod)
  have left: "search_left (nextAddr s) (last_opt (addrs X)) ?s1 = Inr (last_opt (frees X))"
    using c(2) len by (intro search_left_rep [OF rep]) (auto simp: hmod_apply)
  show ?thesis
  proof (cases "last_opt (frees X)")
    case (Some l)
    then have lc: "l \<noteq> c" using c(5) by (auto dest: last_opt_mem)
    obtain b where b: "heap s l = Some b" "nextFree b = head_opt (frees Y)"
      using free_neighbour_links(1) [OF rep Some] g by auto
    have hY: "head_opt (frees Y) = Some a \<Longrightarrow> heap s a \<noteq> None \<and> a \<noteq> c \<and> a \<noteq> l" for a
      using neighbours_live(4) [OF rep'] c(4,5) Some by (auto dest!: head_opt_mem last_opt_mem)
    have fX: "frees X \<noteq> []" using Some by auto
    have hf: "head_opt (frees (X @ (c, g\<lparr>sfree := True\<rparr>) # Y)) = mFragmentBlockHeadFree s"
      using rep fX by (simp add: frag_rep_def head_opt_append)
    let ?h = "hmod (head_opt (frees Y)) (\<lambda>b. b\<lparr>prevFree := Some c\<rparr>)
      (hmod (Some c) (\<lambda>b. b\<lparr>prevFree := Some l, nextFree := head_opt (frees Y)\<rparr>)
        (hmod (Some l) (\<lambda>b. b\<lparr>nextFree := Some c\<rparr>) (hmod (Some c) (\<lambda>b. b\<lparr>free := True\<rparr>) (heap s))))"
    have "merge_none (last_opt (addrs X)) c (head_opt (addrs Y)) s = Inr (s\<lparr>heap := ?h\<rparr>)"
      using m1 left Some b hY lc c(6)
      by (simp add: merge_none_def deref_def modify_hmod modify_if_hmod hmod_apply)
    moreover have "?h = heap_of (X @ (c, g\<lparr>sfree := True\<rparr>) # Y)"
      unfolding up h [symmetric] using Some hY lc c(6) by (intro ext) (auto simp: hmod_apply)
    ultimately show ?thesis using hf by simp
  next
    case None
    then have fX: "frees X = []" by simp
    let ?h2 = "hmod (Some c) (\<lambda>b. b\<lparr>prevFree := None\<rparr>) (hmod (Some c) (\<lambda>b. b\<lparr>free := True\<rparr>) (heap s))"
    let ?s2 = "s\<lparr>heap := ?h2, mFragmentBlockHeadFree := Some c\<rparr>"
    have m2: "modify (Some c) (\<lambda>b. b\<lparr>prevFree := None\<rparr>) ?s1 = Inr (s\<lparr>heap := ?h2\<rparr>)"
      using c(6) by (simp add: modify_hmod hmod_apply)
    have right: "search_right (nextAddr s) (head_opt (addrs Y)) ?s2 = Inr (head_opt (frees Y))"
      using c(2) len by (intro search_right_rep [OF rep']) (auto simp: hmod_apply)
    have hf: "head_opt (frees (X @ (c, g\<lparr>sfree := True\<rparr>) # Y)) = Some c" using fX by simp
    show ?thesis
    proof (cases "head_opt (frees Y)")
      case r: (Some r)
      then have rc: "r \<noteq> c" using c(5) by (auto dest: head_opt_mem)
      obtain b where b: "heap s r = Some b" "prevFree b = None"
        using free_neighbour_links(2) [OF rep' r] g fX by auto
      let ?h = "hmod (Some c) (\<lambda>b. b\<lparr>prevFree := None, nextFree := Some r\<rparr>) (hmod (Some r) (\<lambda>b. b\<lparr>prevFree := Some c\<rparr>) ?h2)"
      have "merge_none (last_opt (addrs X)) c (head_opt (addrs Y)) s = Inr (s\<lparr>heap := ?h, mFragmentBlockHeadFree := Some c\<rparr>)"
        using m1 m2 left None r b rc c(6) right
        by (simp add: merge_none_def deref_def modify_hmod modify_if_def hmod_apply Let_def)
      moreover have "?h = heap_of (X @ (c, g\<lparr>sfree := True\<rparr>) # Y)"
        unfolding up h [symmetric] using None r rc c(6) by (intro ext) (auto simp: hmod_apply)
      ultimately show ?thesis using hf by simp
    next
      case none: None
      let ?h = "hmod (Some c) (\<lambda>b. b\<lparr>nextFree := None\<rparr>) ?h2"
      have "merge_none (last_opt (addrs X)) c (head_opt (addrs Y)) s = Inr (s\<lparr>heap := ?h, mFragmentBlockHeadFree := Some c\<rparr>)"
        using m1 m2 left None none c(6) right
        by (simp add: merge_none_def modify_hmod hmod_apply Let_def)
      moreover have "?h = heap_of (X @ (c, g\<lparr>sfree := True\<rparr>) # Y)"
        unfolding up h [symmetric] using None none c(6) by (intro ext) (auto simp: hmod_apply)
      ultimately show ?thesis using hf by simp
    qed
  qed
qed

end
