(* ===== verification/Fragment_Refine.thy ===== *)
theory Fragment_Refine
  imports Fragment_Spec
begin

text \<open>
  The fragment allocator implements its specification on layouts: first-fit allocation and
  release with coalescing. The invariant \<open>frag_ok\<close> says that the segments tile the pool, that no two
  free segments are adjacent, that the bookkeeping is exact and that the pointer tables and the
  used segments correspond; every operation keeps it and finishes without a failed assertion
  or a dangling access.
\<close>

section \<open>Specification\<close>

definition alloc_spec :: "nat \<Rightarrow> nat \<Rightarrow> nat \<Rightarrow> layout \<Rightarrow> layout option" where
  "alloc_spec k r n L =
     (case List.extract (fits_seg n) L of
        None \<Rightarrow> None
      | Some (X, (c, g), Y) \<Rightarrow>
          Some (X @ (k, \<lparr>sfree = False, soff = soff g, ssize = n, sref = Some r\<rparr>) #
            (if ssize g = n then Y else (c, g\<lparr>soff := soff g + n, ssize := ssize g - n\<rparr>) # Y)))"

definition free_end :: "layout \<Rightarrow> bool" where
  "free_end X \<longleftrightarrow> X \<noteq> [] \<and> sfree (snd (last X))"

definition free_start :: "layout \<Rightarrow> bool" where
  "free_start Y \<longleftrightarrow> Y \<noteq> [] \<and> sfree (snd (hd Y))"

definition coalesce :: "layout \<Rightarrow> nat \<Rightarrow> seg \<Rightarrow> layout \<Rightarrow> layout" where
  "coalesce X c g Y =
     (if free_end X \<and> free_start Y
      then butlast X @ (c, g\<lparr>sfree := True, soff := soff (snd (last X)),
             ssize := ssize (snd (last X)) + ssize g + ssize (snd (hd Y))\<rparr>) # tl Y
      else if free_end X
      then butlast X @ (fst (last X), (snd (last X))\<lparr>ssize := ssize (snd (last X)) + ssize g\<rparr>) # Y
      else if free_start Y
      then X @ (fst (hd Y), (snd (hd Y))\<lparr>soff := soff g, ssize := ssize (snd (hd Y)) + ssize g\<rparr>) # tl Y
      else X @ (c, g\<lparr>sfree := True\<rparr>) # Y)"

fun tiles :: "nat \<Rightarrow> layout \<Rightarrow> bool" where
  "tiles p [] = True"
| "tiles p ((a, g) # L) = (soff g = p \<and> tiles (p + ssize g) L)"

definition total_size :: "layout \<Rightarrow> nat" where
  "total_size L = sum_list (map (ssize \<circ> snd) L)"

definition used_sum :: "layout \<Rightarrow> nat" where
  "used_sum L = sum_list (map (\<lambda>(a, g). if sfree g then 0 else ssize g) L)"

definition coalesced :: "layout \<Rightarrow> bool" where
  "coalesced L = successively (\<lambda>x y. \<not> (sfree (snd x) \<and> sfree (snd y))) L"

definition layout_ok :: "nat \<Rightarrow> layout \<Rightarrow> bool" where
  "layout_ok P L \<longleftrightarrow>
     tiles 0 L \<and> total_size L = P \<and> coalesced L \<and> (\<forall>(a, g)\<in>set L. \<not> sfree g \<longrightarrow> 1024 dvd ssize g)"

definition tables_ok :: "FragmentAllocator \<Rightarrow> layout \<Rightarrow> bool" where
  "tables_ok s L \<longleftrightarrow>
     (\<forall>(a, g)\<in>set L. \<not> sfree g \<longrightarrow>
        (\<exists>r. sref g = Some r \<and> mPointerToBlockMap s r = Some a \<and> pointers s r = Some (mDeviceBasePointer s + soff g))) \<and>
     (\<forall>r a. mPointerToBlockMap s r = Some a \<longrightarrow> r < nextAddr s \<and> (\<exists>g. (a, g) \<in> set L \<and> \<not> sfree g \<and> sref g = Some r))"

definition frag_ok :: "nat \<Rightarrow> FragmentAllocator \<Rightarrow> layout \<Rightarrow> bool" where
  "frag_ok P s L \<longleftrightarrow>
     frag_rep s L \<and> layout_ok P L \<and> tables_ok s L \<and> mAllocSize s = used_sum L \<and>
     P \<le> 4 * size_limit \<and> mConfiguredChunkSize s = 1024 \<and> mConfiguredNumChunks s = P div 1024"

lemma tables_okI:
  assumes "\<And>a g. (a, g) \<in> set L \<Longrightarrow> \<not> sfree g \<Longrightarrow>
      \<exists>r. sref g = Some r \<and> mPointerToBlockMap s r = Some a \<and> pointers s r = Some (mDeviceBasePointer s + soff g)"
    "\<And>r a. mPointerToBlockMap s r = Some a \<Longrightarrow> r < nextAddr s \<and> (\<exists>g. (a, g) \<in> set L \<and> \<not> sfree g \<and> sref g = Some r)"
  shows "tables_ok s L"
  using assms unfolding tables_ok_def by blast

lemma tables_okD:
  assumes "tables_ok s L"
  shows "(a, g) \<in> set L \<Longrightarrow> \<not> sfree g \<Longrightarrow>
      \<exists>r. sref g = Some r \<and> mPointerToBlockMap s r = Some a \<and> pointers s r = Some (mDeviceBasePointer s + soff g)"
    "mPointerToBlockMap s r = Some a \<Longrightarrow> r < nextAddr s \<and> (\<exists>g. (a, g) \<in> set L \<and> \<not> sfree g \<and> sref g = Some r)"
  using assms unfolding tables_ok_def by blast+

lemma tiles_append: "tiles p (X @ Y) \<longleftrightarrow> tiles p X \<and> tiles (p + total_size X) Y"
  by (induction X arbitrary: p) (auto simp: total_size_def add.assoc)

lemma total_size_simps [simp]:
  "total_size [] = 0" "total_size ((a, g) # L) = ssize g + total_size L" "total_size (X @ Y) = total_size X + total_size Y"
  by (simp_all add: total_size_def)

lemma used_sum_simps [simp]:
  "used_sum [] = 0" "used_sum ((a, g) # L) = (if sfree g then 0 else ssize g) + used_sum L"
  "used_sum (X @ Y) = used_sum X + used_sum Y"
  by (simp_all add: used_sum_def)

lemma used_le_total: "used_sum L \<le> total_size L"
  by (induction L) (auto simp: used_sum_def total_size_def)

lemma coalesced_simps:
  "coalesced []" "coalesced ((a, g) # L) \<longleftrightarrow> coalesced L \<and> \<not> (sfree g \<and> free_start L)"
  "coalesced (X @ Y) \<longleftrightarrow> coalesced X \<and> coalesced Y \<and> \<not> (free_end X \<and> free_start Y)"
  by (auto simp: coalesced_def free_start_def free_end_def successively_append_iff successively_Cons)

lemma free_ends [simp]:
  "\<not> free_end []" "free_end [(a, g)] = sfree g" "free_end (X @ [(a, g)]) = sfree g" "\<not> free_start []" "free_start ((a, g) # Y) = sfree g"
  "Z \<noteq> [] \<Longrightarrow> free_end (X @ Z) = free_end Z" "Z \<noteq> [] \<Longrightarrow> free_start (Z @ Y) = free_start Z"
  by (auto simp: free_end_def free_start_def)

lemma extract_split:
  "List.extract Q L = Some (X, x, Y) \<Longrightarrow> L = X @ x # Y \<and> Q x \<and> (\<forall>y\<in>set X. \<not> Q y)"
  by (auto simp: extract_Some_iff)

lemma find_extract: "find Q L = (case List.extract Q L of None \<Rightarrow> None | Some (X, x, Y) \<Rightarrow> Some x)"
  by (induction L) (auto simp: extract_Nil_code extract_Cons_code split: option.splits)

section \<open>Allocation\<close>

lemma layout_ok_alloc:
  assumes ok: "layout_ok P L" and n: "1024 dvd n" and L': "alloc_spec k r n L = Some L'"
  shows "layout_ok P L'"
proof -
  obtain X c g Y where e: "List.extract (fits_seg n) L = Some (X, (c, g), Y)"
    and L'_def: "L' = X @ (k, \<lparr>sfree = False, soff = soff g, ssize = n, sref = Some r\<rparr>) #
      (if ssize g = n then Y else (c, g\<lparr>soff := soff g + n, ssize := ssize g - n\<rparr>) # Y)"
    using L' by (auto simp: alloc_spec_def split: option.splits)
  have "L = X @ (c, g) # Y" "sfree g" "n \<le> ssize g" using extract_split [OF e] by (auto simp: fits_seg_def)
  then show ?thesis
    using ok n unfolding layout_ok_def L'_def
    by (auto simp: tiles_append coalesced_simps)
qed

lemma chunk_round_ok:
  assumes "n \<le> 4 * size_limit"
  shows "1024 dvd chunk_round 1024 n" "n \<le> chunk_round 1024 n" "chunk_round 1024 n < n + 1024"
proof -
  have small: "(n div 1024 + 1) * 1024 < size_mod"
    using assms by (simp add: size_mod_def size_limit_def)
  have "n mod 1024 > 0 \<Longrightarrow> n div 1024 * 1024 < n" "n \<le> n div 1024 * 1024 + 1024"
    using div_mult_mod_eq [of n 1024] mod_less_divisor [of 1024 n] by linarith+
  with small show "1024 dvd chunk_round 1024 n" "n \<le> chunk_round 1024 n" "chunk_round 1024 n < n + 1024"
    by (auto simp: chunk_round_def dvd_eq_mod_eq_0)
qed

lemma allocate_refines:
  assumes ok: "frag_ok P s L" and n: "n \<le> 4 * size_limit"
  shows "case alloc_spec (nextAddr s) (nextAddr s + 1) (chunk_round 1024 n) L of
      None \<Rightarrow> allocate n s = Inr (None, s)
    | Some L' \<Rightarrow> \<exists>s'. allocate n s = Inr (Some (nextAddr s + 2), s') \<and> frag_ok P s' L' \<and>
        mutables s' = (mutables s)(nextAddr s + 2 \<mapsto> \<lparr>ptrReference = Some (nextAddr s + 1), pointerOffset = 0, pointerOwner = True\<rparr>)"
proof -
  let ?n = "chunk_round 1024 n" and ?k = "nextAddr s" and ?r = "nextAddr s + 1"
  have rep: "frag_rep s L" "frag_rep s ([] @ L)" and chunk: "mConfiguredChunkSize s = 1024"
    and tab: "tables_ok s L" and lay: "layout_ok P L" and P: "P \<le> 4 * size_limit"
    using ok by (auto simp: frag_ok_def)
  have found: "find_free ?k (mFragmentBlockHeadFree s) ?n s = Inr (map_option fst (find (fits_seg ?n) L))"
    using find_free_rep [OF rep(2), of ?k ?n] length_addrs_bound [OF rep(1)] rep by (simp add: frag_rep_def)
  show ?thesis
  proof (cases "List.extract (fits_seg ?n) L")
    case None
    then show ?thesis using found chunk by (simp add: allocate_def alloc_spec_def find_extract Let_def)
  next
    case (Some e)
    then obtain X c g Y where e: "List.extract (fits_seg ?n) L = Some (X, (c, g), Y)" by (cases e) auto
    then have L: "L = X @ (c, g) # Y" and g: "sfree g" "?n \<le> ssize g"
      using extract_split [OF e] by (auto simp: fits_seg_def)
    let ?u = "used_seg (soff g) ?n" and ?ur = "\<lparr>sfree = False, soff = soff g, ssize = ?n, sref = Some ?r\<rparr>"
    let ?R = "if ssize g = ?n then Y else (c, g\<lparr>soff := soff g + ?n, ssize := ssize g - ?n\<rparr>) # Y"
    let ?L1 = "X @ (?k, ?u) # (c, g) # Y" and ?L2 = "X @ (?k, ?u) # ?R" and ?L3 = "X @ (?k, ?ur) # ?R"
    have repL: "frag_rep s (X @ (c, g) # Y)" using rep L by simp
    have small: "soff g + ?n \<le> 7 * size_limit" "ssize g \<le> 7 * size_limit"
      using lay P g L by (auto simp: layout_ok_def tiles_append)
    define s1 where "s1 = s\<lparr>heap := heap_of ?L1, nextAddr := ?k + 1, mFragmentBlockHead := head_opt (addrs ?L1)\<rparr>"
    have fresh: "\<And>a. a \<in> set (addrs L) \<Longrightarrow> a < ?k" using rep by (auto simp: frag_rep_def)
    have rep1: "frag_rep s1 ?L1" "frag_rep s1 ((X @ [(?k, ?u)]) @ (c, g) # Y)"
      using rep L fresh by (auto simp: frag_rep_def s1_def used_seg_def head_opt_append intro: less_SucI)
    define s2 where "s2 = s1\<lparr>heap := heap_of ?L2, mFragmentBlockHeadFree := head_opt (frees ?L2)\<rparr>"
    have shrink: "shrink_free c ?n s1 = Inr s2"
    proof (cases "ssize g = ?n")
      case True
      then show ?thesis using shrink_free_exact [OF rep1(2) g(1) True] by (simp add: s2_def)
    next
      case False
      have "head_opt (frees ?L2) = mFragmentBlockHeadFree s1"
        using rep1(1) False g by (simp add: frag_rep_def head_opt_append)
      then show ?thesis using shrink_free_rest [OF rep1(2) g(1) False] False small g by (simp add: s2_def size_simps)
    qed
    have rep2: "frag_rep s2 ?L2"
      using rep1(1) by (auto simp: frag_rep_def s2_def s1_def head_opt_append)
    define s3 where "s3 = s2\<lparr>pointers := (pointers s)(?r \<mapsto> mDeviceBasePointer s + soff g),
      mutables := (mutables s)(?k + 2 \<mapsto> \<lparr>ptrReference = Some ?r, pointerOffset = 0, pointerOwner = True\<rparr>),
      nextAddr := ?k + 3, heap := heap_of ?L3, mPointerToBlockMap := (mPointerToBlockMap s)(?r \<mapsto> ?k),
      mAllocSize := sz_add (mAllocSize s) ?n\<rparr>"
    have reg: "register ?k ?n s2 = Inr (?k + 2, s3)"
      using register_rep [OF rep2, of ?n] by (simp add: s3_def s2_def s1_def used_seg_def eval_nat_numeral)
    have "mFragmentBlockHeadFree s \<noteq> None" using block_head(3) [OF repL g(1)] .
    then have run: "allocate n s = Inr (Some (?k + 2), s3)"
      using found e chunk insert_allocated_rep [OF repL, of ?n] shrink reg
      by (simp add: allocate_def find_extract Let_def s1_def)
    have spec: "alloc_spec ?k ?r ?n L = Some ?L3" using e by (simp add: alloc_spec_def)
    have rep3: "frag_rep s3 ?L3"
    proof -
      have "\<forall>a\<in>set (addrs ?L3). a < ?k + 3"
        using fresh L by (auto intro: less_trans [OF fresh])
      then show ?thesis
        using rep2 by (auto simp: frag_rep_def s3_def s2_def s1_def used_seg_def split: if_splits)
    qed
    have tab3: "tables_ok s3 ?L3"
    proof -
      have "mPointerToBlockMap s ?r = None" "mPointerToBlockMap s ?k = None" using tab by (fastforce simp: tables_ok_def)+
      then show ?thesis
        using tab g(1) L unfolding tables_ok_def
        by (auto simp: s3_def s2_def s1_def split: if_splits; fastforce)
    qed
    have lay3: "layout_ok P ?L3" using layout_ok_alloc [OF lay chunk_round_ok(1) [OF n] spec] .
    have "used_sum ?L3 \<le> 4 * size_limit" using used_le_total [of ?L3] lay3 P by (simp add: layout_ok_def)
    then have "mAllocSize s3 = used_sum ?L3"
      using ok L g by (auto simp: frag_ok_def s3_def size_simps add.commute split: if_splits)
    then have "frag_ok P s3 ?L3"
      using ok rep3 tab3 lay3 by (simp add: frag_ok_def s3_def s2_def s1_def)
    then show ?thesis using run spec by (simp add: s3_def)
  qed
qed

section \<open>Release\<close>

lemma free_endE: "free_end X \<Longrightarrow> (\<And>X' p gp. X = X' @ [(p, gp)] \<Longrightarrow> sfree gp \<Longrightarrow> thesis) \<Longrightarrow> thesis"
  by (cases X rule: rev_cases) auto

lemma free_startE: "free_start Y \<Longrightarrow> (\<And>Y' n gn. Y = (n, gn) # Y' \<Longrightarrow> sfree gn \<Longrightarrow> thesis) \<Longrightarrow> thesis"
  by (cases Y) auto

lemma coalesce_cases:
  obtains (both) X' p gp n gn Y' where "X = X' @ [(p, gp)]" "Y = (n, gn) # Y'" "sfree gp" "sfree gn"
      "coalesce X c g Y = X' @ (c, g\<lparr>sfree := True, soff := soff gp, ssize := ssize gp + ssize g + ssize gn\<rparr>) # Y'"
  | (left) X' p gp where "X = X' @ [(p, gp)]" "\<not> free_start Y" "sfree gp"
      "coalesce X c g Y = X' @ (p, gp\<lparr>ssize := ssize gp + ssize g\<rparr>) # Y"
  | (right) n gn Y' where "Y = (n, gn) # Y'" "\<not> free_end X" "sfree gn"
      "coalesce X c g Y = X @ (n, gn\<lparr>soff := soff g, ssize := ssize gn + ssize g\<rparr>) # Y'"
  | (none) "\<not> free_end X" "\<not> free_start Y" "coalesce X c g Y = X @ (c, g\<lparr>sfree := True\<rparr>) # Y"
proof (cases "free_end X"; cases "free_start Y")
  assume "free_end X" "free_start Y"
  then show thesis by (elim free_endE free_startE) (auto intro!: both simp: coalesce_def)
next
  assume "free_end X" "\<not> free_start Y"
  then show thesis by (elim free_endE) (auto intro!: left simp: coalesce_def)
next
  assume "\<not> free_end X" "free_start Y"
  then show thesis by (elim free_startE) (auto intro!: right simp: coalesce_def)
next
  assume "\<not> free_end X" "\<not> free_start Y"
  then show thesis by (intro none) (auto simp: coalesce_def)
qed

lemma coalesce_used:
  assumes "\<not> sfree g"
  shows "\<not> sfree h \<Longrightarrow> (a, h) \<in> set (coalesce X c g Y) \<longleftrightarrow> (a, h) \<in> set (X @ Y)"
    "used_sum (coalesce X c g Y) = used_sum (X @ Y)" "total_size (coalesce X c g Y) = total_size (X @ (c, g) # Y)"
  by (cases rule: coalesce_cases [of X Y c g]; auto)+

lemma layout_ok_coalesce:
  assumes ok: "layout_ok P (X @ (c, g) # Y)" and g: "\<not> sfree g"
  shows "layout_ok P (coalesce X c g Y)"
proof -
  have "tiles 0 (coalesce X c g Y)"
    using ok by (cases rule: coalesce_cases [of X Y c g]) (auto simp: layout_ok_def tiles_append add.assoc add.commute add.left_commute)
  moreover have "coalesced (coalesce X c g Y)"
    using ok by (cases rule: coalesce_cases [of X Y c g]) (auto simp: layout_ok_def coalesced_simps)
  moreover have "\<forall>(a, h)\<in>set (coalesce X c g Y). \<not> sfree h \<longrightarrow> 1024 dvd ssize h"
    using ok coalesce_used(1) [OF g] by (fastforce simp: layout_ok_def)
  ultimately show ?thesis
    using ok coalesce_used(3) [OF g, of X c Y] by (simp add: layout_ok_def)
qed

lemma is_free_ends:
  assumes rep: "frag_rep s (X @ (c, g) # Y)"
  shows "is_free (last_opt (addrs X)) s = Inr (free_end X)" "is_free (head_opt (addrs Y)) s = Inr (free_start Y)"
proof -
  show "is_free (last_opt (addrs X)) s = Inr (free_end X)"
  proof (cases X rule: rev_cases)
    case (snoc X' x)
    then obtain a h where x: "x = (a, h)" by (cases x) auto
    have "frag_rep s (X' @ (a, h) # (c, g) # Y)" using rep snoc x by simp
    from frag_rep_split(6,7) [OF this] show ?thesis using snoc x by (simp add: is_free_def deref_Some)
  qed (simp add: is_free_def)
  show "is_free (head_opt (addrs Y)) s = Inr (free_start Y)"
  proof (cases Y)
    case (Cons y Y')
    then obtain a h where y: "y = (a, h)" by (cases y) auto
    have "frag_rep s ((X @ [(c, g)]) @ (a, h) # Y')" using rep Cons y by simp
    from frag_rep_split(6,7) [OF this] show ?thesis using Cons y by (simp add: is_free_def deref_Some)
  qed (simp add: is_free_def)
qed

lemma merge_rep:
  assumes rep: "frag_rep s (X @ (c, g) # Y)" and g: "\<not> sfree g" and small: "total_size (X @ (c, g) # Y) \<le> 4 * size_limit"
  shows "\<exists>s'. merge c (last_opt (addrs X)) (head_opt (addrs Y)) (free_end X) (free_start Y) s = Inr s' \<and>
    frag_rep s' (coalesce X c g Y) \<and>
    s' = s\<lparr>heap := heap s', mFragmentBlockHead := mFragmentBlockHead s', mFragmentBlockHeadFree := mFragmentBlockHeadFree s'\<rparr>"
proof (cases rule: coalesce_cases [of X Y c g])
  case (both X' p gp n gn Y')
  then have "frag_rep s (X' @ (p, gp) # (c, g) # (n, gn) # Y')" using rep by simp
  from merge_both_rep [OF this both(3) g both(4)] rep both small g show ?thesis
    by (auto simp: merge_def frag_rep_def size_simps)
next
  case (left X' p gp)
  then have "frag_rep s (X' @ (p, gp) # (c, g) # Y)" using rep by simp
  from merge_left_rep [OF this left(3) g] rep left small g show ?thesis
    by (auto simp: merge_def frag_rep_def size_simps head_opt_append)
next
  case (right n gn Y')
  then have "frag_rep s (X @ (c, g) # (n, gn) # Y')" using rep by simp
  from merge_right_rep [OF this g right(3)] rep right small g show ?thesis
    by (auto simp: merge_def frag_rep_def size_simps head_opt_append)
next
  case none
  from merge_none_rep [OF rep g] rep none g show ?thesis
    by (auto simp: merge_def frag_rep_def head_opt_append)
qed

lemma deallocate_refines:
  assumes ok: "frag_ok P s L" and m: "mutables s m = Some mp" "ptrReference mp = Some r" and r: "mPointerToBlockMap s r = Some c"
  shows "\<exists>X g Y s'. L = X @ (c, g) # Y \<and> \<not> sfree g \<and> deallocate (Some m) s = Inr (True, s') \<and>
    frag_ok P s' (coalesce X c g Y) \<and> mutables s' = (mutables s)(m := None)"
proof -
  have rep: "frag_rep s L" and tab: "tables_ok s L" and lay: "layout_ok P L" and P: "P \<le> 4 * size_limit"
    and used: "mAllocSize s = used_sum L"
    using ok by (auto simp: frag_ok_def)
  obtain g where g: "(c, g) \<in> set L" "\<not> sfree g" "sref g = Some r" using tables_okD(2) [OF tab r] by blast
  then obtain X Y where L: "L = X @ (c, g) # Y" by (meson split_list)
  define s0 where "s0 = s\<lparr>mPointerToBlockMap := (mPointerToBlockMap s)(r := None), mutables := (mutables s)(m := None),
    pointers := (if pointerOwner mp then (pointers s)(r := None) else pointers s)\<rparr>"
  define s1 where "s1 = s0\<lparr>mAllocSize := sz_sub (mAllocSize s0) (ssize g)\<rparr>"
  have rep1: "frag_rep s1 (X @ (c, g) # Y)" using rep L by (simp add: frag_rep_def s1_def s0_def)
  have small: "total_size (X @ (c, g) # Y) \<le> 4 * size_limit" using lay P L by (simp add: layout_ok_def)
  obtain s2 where s2: "merge c (last_opt (addrs X)) (head_opt (addrs Y)) (free_end X) (free_start Y) s1 = Inr s2"
    "frag_rep s2 (coalesce X c g Y)"
    "s2 = s1\<lparr>heap := heap s2, mFragmentBlockHead := mFragmentBlockHead s2, mFragmentBlockHeadFree := mFragmentBlockHeadFree s2\<rparr>"
    using merge_rep [OF rep1 g(2) small] by auto
  have fields: "mPointerToBlockMap s2 = (mPointerToBlockMap s)(r := None)" "mutables s2 = (mutables s)(m := None)"
    "pointers s2 = (if pointerOwner mp then (pointers s)(r := None) else pointers s)"
    "mAllocSize s2 = sz_sub (mAllocSize s) (ssize g)" "nextAddr s2 = nextAddr s" "mDeviceBasePointer s2 = mDeviceBasePointer s"
    "mConfiguredChunkSize s2 = mConfiguredChunkSize s" "mConfiguredNumChunks s2 = mConfiguredNumChunks s"
    by (subst s2(3), simp add: s1_def s0_def)+
  have blk: "heap s c = Some (block_of L c g)" "bsize (block_of L c g) = ssize g"
    "prevBlock (block_of L c g) = last_opt (addrs X)" "nextBlock (block_of L c g) = head_opt (addrs Y)"
    using frag_rep_split [of s X c g Y] rep L by (auto simp: block_of_def)
  have "delete_mutable m (s\<lparr>mPointerToBlockMap := (mPointerToBlockMap s)(r := None)\<rparr>) = Inr s0"
    using m by (simp add: delete_mutable_def s0_def)
  moreover have "deref (Some c) s0 = Inr (block_of L c g)" using blk by (simp add: deref_def s0_def)
  ultimately have "deallocate (Some m) s = Inr (True, s2)"
    using m r blk s2(1) is_free_ends [OF rep1]
    by (simp add: deallocate_def s1_def [symmetric])
  moreover have "tables_ok s2 (coalesce X c g Y)"
  proof -
    have c: "c \<notin> set (addrs X @ addrs Y)" using frag_rep_split(2) [OF rep1] .
    have other: "\<exists>q. q \<noteq> r \<and> sref h = Some q \<and> mPointerToBlockMap s q = Some a \<and> pointers s q = Some (mDeviceBasePointer s + soff h)"
      if "(a, h) \<in> set (X @ Y)" "\<not> sfree h" for a h
    proof -
      have "(a, h) \<in> set L" "a \<noteq> c" using that(1) c L by (auto simp: addrs_def image_iff)
      with tables_okD(1) [OF tab this(1) that(2)] r show ?thesis by auto
    qed
    show ?thesis
    proof (rule tables_okI)
      fix a h assume "(a, h) \<in> set (coalesce X c g Y)" "\<not> sfree h"
      then have "(a, h) \<in> set (X @ Y)" "\<not> sfree h" using coalesce_used(1) [OF g(2)] by auto
      from other [OF this] show "\<exists>r. sref h = Some r \<and> mPointerToBlockMap s2 r = Some a \<and>
          pointers s2 r = Some (mDeviceBasePointer s2 + soff h)"
        by (auto simp: fields)
    next
      fix q a assume "mPointerToBlockMap s2 q = Some a"
      then have q: "q \<noteq> r" "mPointerToBlockMap s q = Some a" by (auto simp: fields split: if_splits)
      from tables_okD(2) [OF tab q(2)] obtain h where h: "q < nextAddr s" "(a, h) \<in> set L" "\<not> sfree h" "sref h = Some q" by blast
      then have "(a, h) \<in> set (X @ Y)" using q g(3) L by auto
      then show "q < nextAddr s2 \<and> (\<exists>g'. (a, g') \<in> set (coalesce X c g Y) \<and> \<not> sfree g' \<and> sref g' = Some q)"
        using h coalesce_used(1) [OF g(2) h(3), of a X c Y] by (auto simp: fields intro!: exI [of _ h])
    qed
  qed
  moreover have "mAllocSize s2 = used_sum (coalesce X c g Y)"
    using used L g(2) coalesce_used(2) [OF g(2), of X c Y] used_le_total [of L] small
    by (simp add: fields size_simps)
  ultimately have "frag_ok P s2 (coalesce X c g Y)"
    using ok layout_ok_coalesce [of P X c g Y] lay L g(2) s2(2) by (simp add: frag_ok_def fields)
  then show ?thesis using \<open>deallocate (Some m) s = Inr (True, s2)\<close> L g fields by blast
qed

section \<open>Construction, and the states a program reaches\<close>

lemma FragmentAllocator_new_ok:
  assumes "pool \<noteq> 0" "0 < P" "P \<le> 4 * size_limit"
  shows "\<exists>s. FragmentAllocator_new pool P = Inr s \<and>
    frag_ok P s [(0, \<lparr>sfree = True, soff = 0, ssize = P, sref = None\<rparr>)]"
  using assms
  by (auto simp: FragmentAllocator_new_def new_block_def Let_def frag_ok_def frag_rep_def layout_ok_def tables_ok_def
      coalesced_simps heap_of_def block_of_def pred_in_def FragmentBlock_new_def fun_eq_iff)

text \<open>A program allocates, and releases what it holds; the answers are the allocator's.\<close>

inductive frag_reach :: "nat \<Rightarrow> nat \<Rightarrow> FragmentAllocator \<Rightarrow> bool" for pool P where
  create: "FragmentAllocator_new pool P = Inr s \<Longrightarrow> frag_reach pool P s"
| alloc: "frag_reach pool P s \<Longrightarrow> n \<le> 4 * size_limit \<Longrightarrow> allocate n s = Inr (r, s') \<Longrightarrow> frag_reach pool P s'"
| dealloc: "frag_reach pool P s \<Longrightarrow> mutables s m = Some mp \<Longrightarrow> deallocate (Some m) s = Inr (b, s') \<Longrightarrow> frag_reach pool P s'"

lemma frag_reach_ok:
  assumes "frag_reach pool P s" "0 < P" "P \<le> 4 * size_limit"
  shows "\<exists>L. frag_ok P s L"
  using assms(1)
proof induction
  case (create s)
  have "pool \<noteq> 0" using create by (cases "pool = 0") (simp_all add: FragmentAllocator_new_def)
  then show ?case using FragmentAllocator_new_ok [of pool P] assms create by auto
next
  case (alloc s n r s')
  then obtain L where "frag_ok P s L" by auto
  with allocate_refines [OF this alloc.hyps(2)] alloc show ?case by (auto split: option.splits)
next
  case (dealloc s m mp b s')
  then obtain L where ok: "frag_ok P s L" by auto
  show ?case
  proof (cases "\<exists>r c. ptrReference mp = Some r \<and> mPointerToBlockMap s r = Some c")
    case True
    then obtain r c where rc: "ptrReference mp = Some r" "mPointerToBlockMap s r = Some c" by auto
    from deallocate_refines [OF ok dealloc.hyps(2) rc] dealloc.hyps(3) show ?thesis by auto
  next
    case False
    then have "s' = s" using dealloc by (auto simp: deallocate_def split: option.splits)
    then show ?thesis using ok by auto
  qed
qed

section \<open>What the invariant gives\<close>

lemma tiles_bounds: "tiles p L \<Longrightarrow> (a, g) \<in> set L \<Longrightarrow> p \<le> soff g \<and> soff g + ssize g \<le> p + total_size L"
proof (induction L arbitrary: p)
  case (Cons x L)
  obtain b h where x: "x = (b, h)" by force
  show ?case
  proof (cases "(a, g) = x")
    case True
    then show ?thesis using Cons.prems x by auto
  next
    case False
    then show ?thesis using Cons.IH [of "p + ssize h"] Cons.prems x by auto
  qed
qed simp

lemma tiles_disjoint:
  assumes "tiles p L" "(a, g) \<in> set L" "(b, h) \<in> set L" "(a, g) \<noteq> (b, h)"
  shows "soff g + ssize g \<le> soff h \<or> soff h + ssize h \<le> soff g"
  using assms
proof (induction L arbitrary: p)
  case (Cons x L)
  obtain c k where x: "x = (c, k)" by force
  have rest: "tiles (p + ssize k) L" "soff k = p" using Cons.prems x by auto
  show ?case
    using Cons.IH [OF rest(1)] Cons.prems(2-4) x rest(2) tiles_bounds [OF rest(1), of a g] tiles_bounds [OF rest(1), of b h] by auto
qed simp

lemma used_sum_dvd: "\<forall>(a, g)\<in>set L. \<not> sfree g \<longrightarrow> 1024 dvd ssize g \<Longrightarrow> 1024 dvd used_sum L"
  by (induction L) auto

lemma used_within_total:
  assumes "frag_ok P s L"
  shows "used s \<le> total s" "available s = total s - used s"
proof -
  have u: "used s = used_sum L" "total s = 1024 * (P div 1024)" "used_sum L \<le> P" "1024 dvd used_sum L" "P \<le> 4 * size_limit"
    using assms used_le_total [of L] used_sum_dvd [of L] by (auto simp: frag_ok_def layout_ok_def used_def total_def)
  then obtain q where "used_sum L = 1024 * q" by blast
  then show "used s \<le> total s" using u(1-3) by (simp add: less_eq_div_iff_mult_less_eq mult.commute)
  then show "available s = total s - used s"
    using u(2,5) by (simp add: available_def size_simps)
qed

lemma rep_mem: "frag_rep s L \<Longrightarrow> heap s a = Some x \<Longrightarrow> \<exists>g. (a, g) \<in> set L \<and> offset x = soff g \<and> bsize x = ssize g \<and> free x = sfree g"
  by (auto simp: frag_rep_def heap_of_def block_of_def dest: map_of_SomeD)

text \<open>A pool of four chunks after one allocation of 1500 bytes.\<close>

lemma sample_allocator:
  obtains s0 s1 where "FragmentAllocator_new 4096 4096 = Inr s0" "nextAddr s0 = 1"
    "frag_ok 4096 s0 [(0, \<lparr>sfree = True, soff = 0, ssize = 4096, sref = None\<rparr>)]"
    "allocate 1500 s0 = Inr (Some 3, s1)"
    "frag_ok 4096 s1 [(1, \<lparr>sfree = False, soff = 0, ssize = 2048, sref = Some 2\<rparr>),
                      (0, \<lparr>sfree = True, soff = 2048, ssize = 2048, sref = None\<rparr>)]"
    "mutables s1 3 = Some \<lparr>ptrReference = Some 2, pointerOffset = 0, pointerOwner = True\<rparr>"
    "mPointerToBlockMap s1 2 = Some 1"
proof -
  let ?L = "[(0, \<lparr>sfree = True, soff = 0, ssize = 4096, sref = None\<rparr>)]"
  let ?g = "\<lparr>sfree = False, soff = 0, ssize = 2048, sref = Some 2\<rparr>"
  let ?L1 = "[(1, ?g), (0, \<lparr>sfree = True, soff = 2048, ssize = 2048, sref = None\<rparr>)]"
  obtain s0 where s0: "FragmentAllocator_new 4096 4096 = Inr s0" "frag_ok 4096 s0 ?L"
    using FragmentAllocator_new_ok [of 4096 4096] by (auto simp: size_limit_def)
  have n: "nextAddr s0 = 1" using s0(1) by (auto simp: FragmentAllocator_new_def new_block_def Let_def)
  have "alloc_spec 1 2 (chunk_round 1024 1500) ?L = Some ?L1"
    by (simp add: alloc_spec_def chunk_round_def size_mod_def extract_Cons_code fits_seg_def)
  with allocate_refines [OF s0(2), of 1500] n obtain s1 where s1: "allocate 1500 s0 = Inr (Some 3, s1)" "frag_ok 4096 s1 ?L1"
    "mutables s1 3 = Some \<lparr>ptrReference = Some 2, pointerOffset = 0, pointerOwner = True\<rparr>"
    by (auto simp: size_limit_def numeral_3_eq_3 numeral_2_eq_2)
  have "mPointerToBlockMap s1 2 = Some 1"
    using tables_okD(1) [of s1 ?L1 1 ?g] s1(2) by (auto simp: frag_ok_def)
  then show thesis using that [of s0 s1] s0 n s1 by simp
qed

section \<open>Properties\<close>

text \<open>
  C3. Allocation implements first fit: the request is rounded up to whole chunks; if no free segment is
  large enough the call fails and nothing changes; otherwise the first such segment gives up its
  front, and the invariant holds in the new state (exact tiling of the pool, no adjacent free
  segments, exact bookkeeping, one table entry per used block).
\<close>

theorem allocate_first_fit:
  assumes "frag_ok P s L" "n \<le> 4 * size_limit"
  shows "case alloc_spec (nextAddr s) (nextAddr s + 1) (chunk_round 1024 n) L of
      None \<Rightarrow> allocate n s = Inr (None, s)
    | Some L' \<Rightarrow> \<exists>s'. allocate n s = Inr (Some (nextAddr s + 2), s') \<and> frag_ok P s' L' \<and>
        mutables s' (nextAddr s + 2) = Some \<lparr>ptrReference = Some (nextAddr s + 1), pointerOffset = 0, pointerOwner = True\<rparr>"
  using allocate_refines [OF assms] by (auto split: option.splits)

theorem allocate_first_fit_witness:
  "\<exists>s s' L'. FragmentAllocator_new 4096 4096 = Inr s \<and> allocate 1000 s = Inr (Some (nextAddr s + 2), s') \<and> frag_ok 4096 s' L'"
proof -
  let ?L = "[(0, \<lparr>sfree = True, soff = 0, ssize = 4096, sref = None\<rparr>)]"
  obtain s where s: "FragmentAllocator_new 4096 4096 = Inr s" "frag_ok 4096 s ?L" by (rule sample_allocator)
  obtain L' where L': "alloc_spec (nextAddr s) (nextAddr s + 1) (chunk_round 1024 1000) ?L = Some L'"
    by (auto simp: alloc_spec_def chunk_round_def size_mod_def extract_Cons_code fits_seg_def)
  have "1000 \<le> 4 * size_limit" by (simp add: size_limit_def)
  from allocate_first_fit [OF s(2) this, unfolded L' option.case] s(1) show ?thesis by blast
qed

text \<open>
  C4. Release implements marking free with coalescing: releasing the pointer of a used block merges it
  with the free neighbours on either side, removes its pointer and its table entry, and keeps the
  invariant; the assertions in the four cases hold.
\<close>

theorem deallocate_coalesces:
  assumes "frag_ok P s L" "mutables s m = Some mp" "ptrReference mp = Some r" "mPointerToBlockMap s r = Some c"
  shows "\<exists>X g Y s'. L = X @ (c, g) # Y \<and> \<not> sfree g \<and> deallocate (Some m) s = Inr (True, s') \<and>
    frag_ok P s' (coalesce X c g Y) \<and> mutables s' m = None \<and> used s' = used_sum X + used_sum Y"
proof -
  obtain X g Y s' where d: "L = X @ (c, g) # Y" "\<not> sfree g" "deallocate (Some m) s = Inr (True, s')"
    "frag_ok P s' (coalesce X c g Y)" "mutables s' = (mutables s)(m := None)"
    using deallocate_refines [OF assms] by blast
  then have "used s' = used_sum X + used_sum Y"
    using coalesce_used(2) [OF d(2), of X c Y] by (simp add: frag_ok_def used_def)
  with d show ?thesis by auto
qed

theorem deallocate_coalesces_witness:
  "\<exists>s s'. used s = 2048 \<and> deallocate (Some 3) s = Inr (True, s') \<and> used s' = 0"
proof -
  obtain s1 where s1: "frag_ok 4096 s1 [(1, \<lparr>sfree = False, soff = 0, ssize = 2048, sref = Some 2\<rparr>),
      (0, \<lparr>sfree = True, soff = 2048, ssize = 2048, sref = None\<rparr>)]"
    "mutables s1 3 = Some \<lparr>ptrReference = Some 2, pointerOffset = 0, pointerOwner = True\<rparr>" "mPointerToBlockMap s1 2 = Some 1"
    by (rule sample_allocator)
  from deallocate_coalesces [OF s1(1,2) _ s1(3)] obtain X g Y s' where
    d: "[(1, \<lparr>sfree = False, soff = 0, ssize = 2048, sref = Some 2\<rparr>), (0, \<lparr>sfree = True, soff = 2048, ssize = 2048, sref = None\<rparr>)] = X @ (1, g) # Y"
      "deallocate (Some 3) s1 = Inr (True, s')" "used s' = used_sum X + used_sum Y"
    by auto
  have "used_sum X + used_sum Y = 0" using d(1) by (cases X) (auto simp: Cons_eq_append_conv)
  moreover have "used s1 = 2048" using s1(1) by (simp add: frag_ok_def used_def)
  ultimately show ?thesis using d by auto
qed



text \<open>
  Rounding a request up to whole chunks wraps for requests in the last 1023 bytes of the range of
  \<open>size_t\<close>: the rounded size is zero, so a new allocator of any size reports success for such a
  request and hands out an empty block.
\<close>

theorem huge_request_succeeds:
  assumes "FragmentAllocator_new pool P = Inr s" "size_mod - 1024 < n" "n < size_mod"
  shows "chunk_round (mConfiguredChunkSize s) n = 0 \<and>
    (\<exists>m s'. allocate n s = Inr (Some m, s') \<and> infoSize m s' = Inr 0)"
proof -
  have "n div 1024 = 18014398509481983" using assms(2,3) by (simp add: size_mod_def)
  then have "n mod 1024 \<noteq> 0" using assms(2) div_mult_mod_eq [of n 1024] by (simp add: size_mod_def)
  then have r: "chunk_round 1024 n = 0"
    using \<open>n div 1024 = _\<close> by (simp add: chunk_round_def size_mod_def)
  have "0 < P" "pool \<noteq> 0" using assms(1) by (auto simp: FragmentAllocator_new_def rbind_simps)
  with assms(1) r show ?thesis
    by (auto simp: FragmentAllocator_new_def new_block_def Let_def allocate_def deref_def FragmentBlock_new_def
        insert_allocated_def modify_if_def modify_def put_block_def shrink_free_def register_def infoSize_def)
qed

theorem huge_request_succeeds_witness:
  "\<exists>s m s'. FragmentAllocator_new 4096 4096 = Inr s \<and> allocate 18446744073709551615 s = Inr (Some m, s') \<and> infoSize m s' = Inr 0"
proof -
  obtain s where s: "FragmentAllocator_new 4096 4096 = Inr s" by (rule sample_allocator)
  from huge_request_succeeds [OF s, of 18446744073709551615] s show ?thesis by (auto simp: size_mod_def)
qed

text \<open>
  Defragmenting an allocator with no used block dereferences a null pointer: the loop deletes
  every block, and the new free block is linked behind \<open>lastAllocatedBlock\<close>, which is still \<open>NULL\<close>.
\<close>

theorem defragment_empty_faults:
  assumes "FragmentAllocator_new pool P = Inr s" "P \<le> 4 * size_limit"
  shows "FragmentFreeOperator s = Inl MemFault"
proof -
  have "0 < P" "pool \<noteq> 0" using assms(1) by (auto simp: FragmentAllocator_new_def rbind_simps)
  with assms show ?thesis
    by (auto simp: FragmentAllocator_new_def new_block_def Let_def FragmentFreeOperator_def deref_def FragmentBlock_new_def
        drop_free_def modify_if_def delete_block_def modify_def size_simps)
qed

theorem defragment_empty_faults_witness:
  "\<exists>s. FragmentAllocator_new 4096 4096 = Inr s \<and> FragmentFreeOperator s = Inl MemFault"
proof -
  obtain s where s: "FragmentAllocator_new 4096 4096 = Inr s" by (rule sample_allocator)
  from defragment_empty_faults [OF s] s show ?thesis by (auto simp: size_limit_def)
qed

end
