(* ===== verification/Pool.thy ===== *)
theory Pool
  imports Prelude
begin

text \<open>
  The pool allocator of \<open>include/core/ScalablePoolAllocator.h\<close> and
  \<open>src/libzillians-common-core/core/ScalablePoolAllocator.cpp\<close>: blocks of 16 KB cut into chunks of
  one size class, kept in bins of the thread that owns them, and large chunks taken from the other
  end of the pool. Pointers are addresses (0 is \<open>NULL\<close>); the objects the allocator lays over the pool
  are typed views of it, and an access outside the pool is \<open>MemFault\<close>. A public operation takes the
  calling thread as its argument and runs as one step: interleavings inside an operation, which the
  spin locks guard, are left out, and so are the statistics counters, which nothing reads back. A
  pointer-chasing loop carries a bound on its iterations; the end address of the pool exceeds the
  number of objects in it.
\<close>

section \<open>State\<close>

record Block =
  mNext :: nat
  mOwnerID :: nat
  mPrev :: nat
  mChunkSize :: nat
  bBumpPtr :: nat
  mFreeList :: nat
  mAllocationCount :: nat
  mIsFull :: bool
  mPublicFreeList :: nat
  mNextPrivatizable :: nat

record Bin =
  mActiveBlock :: nat
  mMailBox :: nat

text \<open>The first word of a large chunk is \<open>mNext\<close> while it is free and its size while it is in use.\<close>

record LargeChunk =
  lNext :: nat
  lSize :: nat
  lPrev :: nat

record ScalablePoolAllocator =
  MIN_LARGE_CHUNK_SIZE :: nat
  BIN_COUNT :: nat
  mPool :: nat
  mPoolEnd :: nat
  mBlockAllocPtr :: nat
  mFreeBlockStack :: nat
  mBumpPtr :: nat
  mLargeFreeList :: nat
  mThreadCount :: nat
  mTLSChunkList :: nat
  mTLSUsedBlocks :: nat
  mTLSAllocBlock :: nat
  mThreadID :: "nat \<Rightarrow> nat"
  mBins :: "nat \<Rightarrow> nat"
  mBinSizes :: "nat \<Rightarrow> nat"
  mGlobalBins :: "nat \<Rightarrow> nat"
  blocks :: "nat \<Rightarrow> Block"
  bins :: "nat \<Rightarrow> Bin"
  links :: "nat \<Rightarrow> nat"
  larges :: "nat \<Rightarrow> LargeChunk"

abbreviation BLOCK_SIZE :: nat where "BLOCK_SIZE \<equiv> 16384"
abbreviation BIG_BLOCK_SIZE :: nat where "BIG_BLOCK_SIZE \<equiv> 262144"
abbreviation INVALID :: nat where "INVALID \<equiv> 1"
abbreviation OWNER_ID_NULL :: nat where "OWNER_ID_NULL \<equiv> 18446744073709551615"
abbreviation EMPTY_ENOUGH_THRESHOLD :: nat where "EMPTY_ENOUGH_THRESHOLD \<equiv> 12228"
abbreviation sizeof_Block :: nat where "sizeof_Block \<equiv> 80"
abbreviation sizeof_Bin :: nat where "sizeof_Bin \<equiv> 24"
abbreviation sizeof_LargeChunk :: nat where "sizeof_LargeChunk \<equiv> 24"
abbreviation sizeof_Stack :: nat where "sizeof_Stack \<equiv> 16"
abbreviation sizeof_size_t :: nat where "sizeof_size_t \<equiv> 8"

definition TLS_SIZE :: "ScalablePoolAllocator \<Rightarrow> nat" where
  "TLS_SIZE s = sizeof_Bin * (BIN_COUNT s + 1)"

definition isInvalid :: "nat \<Rightarrow> bool" where
  "isInvalid ptr \<longleftrightarrow> ptr = 0 \<or> ptr = INVALID"

definition alignUp :: "nat \<Rightarrow> nat \<Rightarrow> nat" where
  "alignUp ptr alignTo = (ptr + (alignTo - 1)) div alignTo * alignTo"

definition alignDown :: "nat \<Rightarrow> nat \<Rightarrow> nat" where
  "alignDown ptr alignTo = ptr div alignTo * alignTo"

section \<open>Memory\<close>

definition in_pool :: "nat \<Rightarrow> nat \<Rightarrow> ScalablePoolAllocator \<Rightarrow> bool" where
  "in_pool p n s \<longleftrightarrow> mPool s \<le> p \<and> p + n \<le> mPoolEnd s"

definition pool_access :: "nat \<Rightarrow> nat \<Rightarrow> ScalablePoolAllocator \<Rightarrow> unit result" where
  "pool_access p n s = (if in_pool p n s then Inr () else Inl MemFault)"

definition get_block :: "nat \<Rightarrow> ScalablePoolAllocator \<Rightarrow> Block result" where
  "get_block p s = rbind (pool_access p sizeof_Block s) (\<lambda>_. Inr (blocks s p))"

definition mod_block :: "nat \<Rightarrow> (Block \<Rightarrow> Block) \<Rightarrow> ScalablePoolAllocator \<Rightarrow> ScalablePoolAllocator result" where
  "mod_block p f s =
     rbind (pool_access p sizeof_Block s) (\<lambda>_. Inr (s\<lparr>blocks := (blocks s)(p := f (blocks s p))\<rparr>))"

definition get_bin :: "nat \<Rightarrow> ScalablePoolAllocator \<Rightarrow> Bin result" where
  "get_bin p s = rbind (pool_access p sizeof_Bin s) (\<lambda>_. Inr (bins s p))"

definition mod_bin :: "nat \<Rightarrow> (Bin \<Rightarrow> Bin) \<Rightarrow> ScalablePoolAllocator \<Rightarrow> ScalablePoolAllocator result" where
  "mod_bin p f s =
     rbind (pool_access p sizeof_Bin s) (\<lambda>_. Inr (s\<lparr>bins := (bins s)(p := f (bins s p))\<rparr>))"

definition get_link :: "nat \<Rightarrow> ScalablePoolAllocator \<Rightarrow> nat result" where
  "get_link p s = rbind (pool_access p sizeof_size_t s) (\<lambda>_. Inr (links s p))"

definition set_link :: "nat \<Rightarrow> nat \<Rightarrow> ScalablePoolAllocator \<Rightarrow> ScalablePoolAllocator result" where
  "set_link p v s =
     rbind (pool_access p sizeof_size_t s) (\<lambda>_. Inr (s\<lparr>links := (links s)(p := v)\<rparr>))"

definition get_large :: "nat \<Rightarrow> ScalablePoolAllocator \<Rightarrow> LargeChunk result" where
  "get_large p s = rbind (pool_access p sizeof_LargeChunk s) (\<lambda>_. Inr (larges s p))"

definition mod_large :: "nat \<Rightarrow> (LargeChunk \<Rightarrow> LargeChunk) \<Rightarrow> ScalablePoolAllocator \<Rightarrow> ScalablePoolAllocator result" where
  "mod_large p f s =
     rbind (pool_access p sizeof_LargeChunk s) (\<lambda>_. Inr (s\<lparr>larges := (larges s)(p := f (larges s p))\<rparr>))"

definition get_psz :: "nat \<Rightarrow> ScalablePoolAllocator \<Rightarrow> nat result" where
  "get_psz p s = rbind (pool_access p sizeof_size_t s) (\<lambda>_. Inr (lNext (larges s p)))"

definition set_psz :: "nat \<Rightarrow> nat \<Rightarrow> ScalablePoolAllocator \<Rightarrow> ScalablePoolAllocator result" where
  "set_psz p v s =
     rbind (pool_access p sizeof_size_t s) (\<lambda>_. Inr (s\<lparr>larges := (larges s)(p := (larges s p)\<lparr>lNext := v\<rparr>)\<rparr>))"

section \<open>Construction\<close>

definition default_bin_sizes :: "nat list" where
  "default_bin_sizes =
     [8, 16, 32, 64, 80, 96, 112, 128, 160, 192, 224, 256, 320, 384, 448, 512,
      640, 768, 896, 1024, 1280, 1536, 1792, 2048, 2560, 3072, 3584, 4096, 5120, 6144, 7168, 8192]"

definition zero_block :: Block where
  "zero_block = \<lparr>mNext = 0, mOwnerID = 0, mPrev = 0, mChunkSize = 0, bBumpPtr = 0, mFreeList = 0,
     mAllocationCount = 0, mIsFull = False, mPublicFreeList = 0, mNextPrivatizable = 0\<rparr>"

definition zero_bin :: Bin where "zero_bin = \<lparr>mActiveBlock = 0, mMailBox = 0\<rparr>"

text \<open>\<open>bs\<close> is the table the caller passes, \<open>None\<close> for the null pointer.\<close>

definition ScalablePoolAllocator_new :: "nat \<Rightarrow> nat \<Rightarrow> nat list option \<Rightarrow> nat \<Rightarrow> ScalablePoolAllocator result" where
  "ScalablePoolAllocator_new pMemory sz bs binCount =
     rbind (case bs of None \<Rightarrow> Inr 8193
            | Some t \<Rightarrow> if 0 < binCount \<and> binCount \<le> length t then Inr (sz_add (t ! (binCount - 1)) 1) else Inl MemFault)
     (\<lambda>minLarge.
       let count = (if binCount \<noteq> 0 then binCount else 32) in
       if sz < BLOCK_SIZE * 17 then Inl LengthError
       else
         let start = pMemory + count * sizeof_Stack;
             end = start + sz - count * sizeof_Stack;
             table = alignDown (end - sizeof_size_t * count) 128 in
         rbind (if bs = None \<and> end < table + sizeof_size_t * 32 then Inl MemFault else Inr ()) (\<lambda>_.
           Inr \<lparr>MIN_LARGE_CHUNK_SIZE = minLarge, BIN_COUNT = count, mPool = alignUp start BLOCK_SIZE, mPoolEnd = end,
                mBlockAllocPtr = alignUp start BLOCK_SIZE, mFreeBlockStack = 0, mBumpPtr = table, mLargeFreeList = 0,
                mThreadCount = 0, mTLSChunkList = 0, mTLSUsedBlocks = 0, mTLSAllocBlock = 0,
                mThreadID = (\<lambda>_. 0), mBins = (\<lambda>_. 0),
                mBinSizes = (\<lambda>i. case bs of None \<Rightarrow> if i < 32 then default_bin_sizes ! i else 0
                                 | Some t \<Rightarrow> if i < count then t ! i else 0),
                mGlobalBins = (\<lambda>_. 0), blocks = (\<lambda>_. zero_block), bins = (\<lambda>_. zero_bin), links = (\<lambda>_. 0),
                larges = (\<lambda>_. \<lparr>lNext = 0, lSize = 0, lPrev = 0\<rparr>)\<rparr>))"

section \<open>Size classes\<close>

text \<open>The comparison tree of \<open>getIndexOrChunkSize\<close>; \<open>pick\<close> decides between two neighbouring bins.\<close>

definition getIndexOrChunkSize :: "bool \<Rightarrow> nat \<Rightarrow> ScalablePoolAllocator \<Rightarrow> nat" where
  "getIndexOrChunkSize asIndex sz s =
     (let B = mBinSizes s; n = BIN_COUNT s;
          pick = (\<lambda>i j. if sz \<le> B i then (if asIndex then i else B i) else (if asIndex then j else B j)) in
      if n < 17 \<or> sz \<le> B 15 then
        if n < 9 \<or> sz \<le> B 7 then
          if n < 5 \<or> sz \<le> B 3 then
            if n < 3 \<or> sz \<le> B 1 then pick 0 1 else pick 2 3
          else
            if n < 7 \<or> sz \<le> B 5 then pick 4 5 else pick 6 7
        else
          if n < 13 \<or> sz \<le> B 11 then
            if n < 11 \<or> sz \<le> B 9 then pick 8 9 else pick 10 11
          else
            if n < 15 \<or> sz \<le> B 13 then pick 12 13 else pick 14 15
      else
        if n < 25 \<or> sz \<le> B 23 then
          if n < 21 \<or> sz \<le> B 19 then
            if n < 19 \<or> sz \<le> B 17 then pick 16 17 else pick 18 19
          else
            if n < 23 \<or> sz \<le> B 21 then pick 20 21 else pick 22 23
        else
          if n < 29 \<or> sz \<le> B 27 then
            if n < 27 \<or> sz \<le> B 25 then pick 24 25 else pick 26 27
          else
            if n < 31 \<or> sz \<le> B 29 then pick 28 29 else pick 30 31)"

definition getIndex :: "nat \<Rightarrow> ScalablePoolAllocator \<Rightarrow> nat" where
  "getIndex sz s = getIndexOrChunkSize True sz s"

definition getChunkSize :: "nat \<Rightarrow> ScalablePoolAllocator \<Rightarrow> nat" where
  "getChunkSize sz s = getIndexOrChunkSize False sz s"

section \<open>Large chunks\<close>

definition isLargeChunk :: "nat \<Rightarrow> ScalablePoolAllocator \<Rightarrow> bool" where
  "isLargeChunk mem s \<longleftrightarrow> mem > mBlockAllocPtr s"

text \<open>\<open>if(p) p->mNext = v; else mLargeFreeList = v;\<close> and \<open>if(n) n->mPrev = v;\<close>\<close>

definition set_large_next :: "nat \<Rightarrow> nat \<Rightarrow> ScalablePoolAllocator \<Rightarrow> ScalablePoolAllocator result" where
  "set_large_next p v s =
     (if p \<noteq> 0 then mod_large p (\<lambda>c. c\<lparr>lNext := v\<rparr>) s else Inr (s\<lparr>mLargeFreeList := v\<rparr>))"

definition set_large_prev :: "nat \<Rightarrow> nat \<Rightarrow> ScalablePoolAllocator \<Rightarrow> ScalablePoolAllocator result" where
  "set_large_prev n v s = (if n \<noteq> 0 then mod_large n (\<lambda>c. c\<lparr>lPrev := v\<rparr>) s else Inr s)"

fun find_large :: "nat \<Rightarrow> nat \<Rightarrow> nat \<Rightarrow> ScalablePoolAllocator \<Rightarrow> nat result" where
  "find_large 0 chunk sz s = (if chunk = 0 then Inr 0 else Inl NoReturn)"
| "find_large (Suc k) chunk sz s =
     (if chunk = 0 then Inr 0
      else rbind (get_large chunk s) (\<lambda>c.
        if lSize c \<ge> sz then Inr chunk else find_large k (lNext c) sz s))"

definition take_large :: "nat \<Rightarrow> nat \<Rightarrow> ScalablePoolAllocator \<Rightarrow> ScalablePoolAllocator result" where
  "take_large chunk sz s =
     rbind (get_large chunk s) (\<lambda>c.
       if lSize c \<noteq> sz \<and> lSize c - sz > sizeof_LargeChunk
       then let newchunk = chunk + sz + sizeof_size_t in
            rbind (mod_large newchunk (\<lambda>_. \<lparr>lNext = lNext c, lSize = lSize c - sz - sizeof_size_t, lPrev = lPrev c\<rparr>) s) (\<lambda>s.
            rbind (set_large_next (lPrev c) newchunk s) (\<lambda>s.
            rbind (set_large_prev (lNext c) newchunk s) (\<lambda>s. set_psz chunk sz s)))
       else rbind (set_large_next (lPrev c) (lNext c) s) (\<lambda>s.
            rbind (set_large_prev (lNext c) (lPrev c) s) (\<lambda>s. set_psz chunk sz s)))"

definition allocateLarge :: "nat \<Rightarrow> ScalablePoolAllocator \<Rightarrow> (nat \<times> ScalablePoolAllocator) result" where
  "allocateLarge sz s =
     rbind (find_large (mPoolEnd s) (mLargeFreeList s) sz s) (\<lambda>chunk.
       if chunk \<noteq> 0
       then rbind (take_large chunk sz s) (\<lambda>s. Inr (chunk + sizeof_size_t, s))
       else
         let bump = sz_sub (sz_sub (mBumpPtr s) sz) sizeof_size_t in
         if bump < mBlockAllocPtr s then Inr (0, s)
         else rbind (set_psz bump sz (s\<lparr>mBumpPtr := bump\<rparr>)) (\<lambda>s. Inr (bump + sizeof_size_t, s)))"

fun large_position :: "nat \<Rightarrow> nat \<Rightarrow> nat \<Rightarrow> ScalablePoolAllocator \<Rightarrow> nat result" where
  "large_position 0 l lc s = Inl NoReturn"
| "large_position (Suc k) l lc s =
     rbind (get_large l s) (\<lambda>c.
       if lNext c \<noteq> 0 \<and> l < lc then large_position k (lNext c) lc s else Inr l)"

definition link_large :: "nat \<Rightarrow> nat \<Rightarrow> ScalablePoolAllocator \<Rightarrow> ScalablePoolAllocator result" where
  "link_large l lc s =
     rbind (get_large l s) (\<lambda>c.
       if lNext c = 0 \<and> l < lc
       then rbind (mod_large lc (\<lambda>x. x\<lparr>lNext := 0, lPrev := l\<rparr>) s) (mod_large l (\<lambda>x. x\<lparr>lNext := lc\<rparr>))
       else rbind (mod_large lc (\<lambda>x. x\<lparr>lNext := l, lPrev := lPrev c\<rparr>) s) (\<lambda>s.
            rbind (mod_large l (\<lambda>x. x\<lparr>lPrev := lc\<rparr>) s) (set_large_next (lPrev c) lc)))"

text \<open>The two merges; the first returns the chunk that \<open>lc\<close> has become.\<close>

definition merge_prev :: "nat \<Rightarrow> ScalablePoolAllocator \<Rightarrow> (nat \<times> ScalablePoolAllocator) result" where
  "merge_prev lc s =
     rbind (get_large lc s) (\<lambda>c.
       if lPrev c = 0 then Inr (lc, s)
       else rbind (get_large (lPrev c) s) (\<lambda>p.
         if lPrev c + lSize p + sizeof_size_t = lc
         then rbind (mod_large (lPrev c) (\<lambda>x. x\<lparr>lSize := lSize x + (lSize c + sizeof_size_t), lNext := lNext c\<rparr>) s) (\<lambda>s.
              rbind (set_large_prev (lNext c) (lPrev c) s) (\<lambda>s. Inr (lPrev c, s)))
         else Inr (lc, s)))"

definition merge_next :: "nat \<Rightarrow> ScalablePoolAllocator \<Rightarrow> ScalablePoolAllocator result" where
  "merge_next lc s =
     rbind (get_large lc s) (\<lambda>c.
       if lNext c \<noteq> 0 \<and> lc + lSize c + sizeof_size_t = lNext c
       then rbind (get_large (lNext c) s) (\<lambda>n.
            rbind (mod_large lc (\<lambda>x. x\<lparr>lSize := lSize x + (lSize n + sizeof_size_t), lNext := lNext n\<rparr>) s) (\<lambda>s.
              set_large_prev (lNext n) lc s))
       else Inr s)"

definition deallocateLarge :: "nat \<Rightarrow> ScalablePoolAllocator \<Rightarrow> ScalablePoolAllocator result" where
  "deallocateLarge mem s =
     (let psz = mem - sizeof_size_t in
      rbind (get_psz psz s) (\<lambda>sz.
        if mem = mBumpPtr s + sizeof_size_t
        then Inr (s\<lparr>mBumpPtr := mBumpPtr s + sz + sizeof_size_t\<rparr>)
        else rbind (mod_large psz (\<lambda>c. c\<lparr>lSize := sz\<rparr>) s) (\<lambda>s.
          if mLargeFreeList s = 0
          then rbind (mod_large psz (\<lambda>c. c\<lparr>lPrev := 0, lNext := 0\<rparr>) s) (\<lambda>s. Inr (s\<lparr>mLargeFreeList := psz\<rparr>))
          else rbind (large_position (mPoolEnd s) (mLargeFreeList s) psz s) (\<lambda>l.
               rbind (link_large l psz s) (\<lambda>s.
               rbind (merge_prev psz s) (\<lambda>(lc, s). merge_next lc s))))))"

end
