(* ===== verification/Pool_Large.thy ===== *)
theory Pool_Large
  imports Pool
begin

text \<open>
  Large chunks of the pool allocator against their specification: a list of free chunks in address
  order without neighbours, and a table of the chunks in use. \<open>large_ok\<close> relates an allocator state to
  the two; allocation takes the first chunk that fits or lowers the bump pointer, release inserts the
  chunk at its place and joins it with its neighbours.
\<close>

section \<open>Linked segments\<close>

type_synonym chunks = "(nat \<times> nat) list"

fun hptr :: "chunks \<Rightarrow> nat \<Rightarrow> nat" where
  "hptr [] n = n"
| "hptr ((a, m) # X) n = a"

definition lptr :: "nat \<Rightarrow> chunks \<Rightarrow> nat" where
  "lptr p X = (if X = [] then p else fst (last X))"

fun lseg :: "nat \<Rightarrow> chunks \<Rightarrow> nat \<Rightarrow> (nat \<Rightarrow> LargeChunk) \<Rightarrow> bool" where
  "lseg p [] n h \<longleftrightarrow> True"
| "lseg p ((a, m) # X) n h \<longleftrightarrow> h a = \<lparr>lNext = hptr X n, lSize = m, lPrev = p\<rparr> \<and> lseg a X n h"

lemma hptr_append: "hptr (X @ Y) n = hptr X (hptr Y n)"
  by (cases X) auto

lemma lptr_simps [simp]: "lptr p [] = p" "lptr p (X @ [(a, m)]) = a" "lptr p ((a, m) # X) = lptr a X"
  by (auto simp: lptr_def)

lemma lptr_append: "lptr p (X @ Y) = lptr (lptr p X) Y"
  by (auto simp: lptr_def)

lemma lseg_append: "lseg p (X @ Y) n h \<longleftrightarrow> lseg p X (hptr Y n) h \<and> lseg (lptr p X) Y n h"
  by (induction X arbitrary: p) (auto simp: hptr_append)

lemma lseg_cong: "\<forall>a\<in>fst ` set X. h a = h' a \<Longrightarrow> lseg p X n h = lseg p X n h'"
  by (induction X arbitrary: p) auto

lemma fst_mem: "(a, m) \<in> set X \<Longrightarrow> a \<in> fst ` set X"
  by force

lemma lseg_frame: "b \<notin> fst ` set X \<Longrightarrow> lseg p X n (h(b := v)) = lseg p X n h"
  by (rule lseg_cong) auto

lemma hptr_mem: "X \<noteq> [] \<Longrightarrow> hptr X n \<in> fst ` set X"
  by (cases X) auto

lemma lptr_mem: "X \<noteq> [] \<Longrightarrow> lptr p X \<in> fst ` set X"
  by (simp add: lptr_def)

lemma lseg_set_next:
  assumes "lseg p X n h" "distinct (map fst X)" "X \<noteq> []"
  shows "lseg p X n' (h(lptr p X := (h (lptr p X))\<lparr>lNext := n'\<rparr>))"
proof -
  obtain X' a m where X: "X = X' @ [(a, m)]" using assms(3) by (metis rev_exhaust surj_pair)
  with assms show ?thesis by (auto simp: lseg_append lseg_frame)
qed

lemma lseg_set_prev:
  assumes "lseg p X n h" "distinct (map fst X)" "X \<noteq> []"
  shows "lseg p' X n (h(hptr X k := (h (hptr X k))\<lparr>lPrev := p'\<rparr>))"
proof -
  obtain X' a m where X: "X = (a, m) # X'" using assms(3) by (metis list.exhaust surj_pair)
  with assms show ?thesis by (auto simp: lseg_frame)
qed

section \<open>Specification and invariant\<close>

definition fit_spec :: "nat \<Rightarrow> chunks \<Rightarrow> (nat \<times> chunks) option" where
  "fit_spec sz F =
     (case List.extract (\<lambda>c. sz \<le> snd c) F of None \<Rightarrow> None
      | Some (X, (a, m), Y) \<Rightarrow> Some (a, X @ (if m - sz > 24 then [(a + sz + 8, m - sz - 8)] else []) @ Y))"

definition join_next :: "nat \<times> nat \<Rightarrow> chunks \<Rightarrow> chunks" where
  "join_next c Y =
     (case Y of [] \<Rightarrow> [c]
      | d # Y' \<Rightarrow> if fst c + snd c + 8 = fst d then (fst c, snd c + (snd d + 8)) # Y' else c # Y)"

definition join_prev :: "chunks \<Rightarrow> nat \<times> nat \<Rightarrow> chunks \<times> (nat \<times> nat)" where
  "join_prev X c =
     (if X \<noteq> [] \<and> fst (last X) + snd (last X) + 8 = fst c
      then (butlast X, (fst (last X), snd (last X) + (snd c + 8))) else (X, c))"

definition release_spec :: "nat \<times> nat \<Rightarrow> chunks \<Rightarrow> chunks" where
  "release_spec c F =
     (let X = takeWhile (\<lambda>d. fst d < fst c) F; Y = dropWhile (\<lambda>d. fst d < fst c) F;
          (X', c') = join_prev X c in X' @ join_next c' Y)"

text \<open>\<open>before c d\<close>: the chunk \<open>c\<close> with its size word ends at or before the start of \<open>d\<close>.\<close>

definition before :: "nat \<times> nat \<Rightarrow> nat \<times> nat \<Rightarrow> bool" where
  "before c d \<longleftrightarrow> fst c + snd c + 8 \<le> fst d"

definition apart :: "nat \<times> nat \<Rightarrow> nat \<times> nat \<Rightarrow> bool" where
  "apart c d \<longleftrightarrow> before c d \<or> before d c"

definition gaps :: "chunks \<Rightarrow> bool" where
  "gaps = sorted_wrt (\<lambda>c d. fst c + snd c + 8 < fst d)"

definition placed :: "nat \<Rightarrow> nat \<Rightarrow> nat \<times> nat \<Rightarrow> bool" where
  "placed lo hi c \<longleftrightarrow> lo \<le> fst c \<and> fst c + snd c + 8 \<le> hi \<and> 16 \<le> snd c"

definition large_geom :: "nat \<Rightarrow> nat \<Rightarrow> chunks \<Rightarrow> (nat \<rightharpoonup> nat) \<Rightarrow> bool" where
  "large_geom lo hi F used \<longleftrightarrow>
     gaps F \<and> (\<forall>c\<in>set F. placed lo hi c) \<and>
     (\<forall>a m. used a = Some m \<longrightarrow> placed lo hi (a, m) \<and> (\<forall>c\<in>set F. apart (a, m) c) \<and>
        (\<forall>b k. used b = Some k \<longrightarrow> a \<noteq> b \<longrightarrow> apart (a, m) (b, k)))"

definition pool_geom :: "nat \<Rightarrow> ScalablePoolAllocator \<Rightarrow> bool" where
  "pool_geom hi s \<longleftrightarrow> 0 < mPool s \<and> mPool s \<le> mBlockAllocPtr s \<and> mBlockAllocPtr s \<le> mBumpPtr s \<and>
     mBumpPtr s \<le> hi \<and> hi \<le> mPoolEnd s \<and> mPoolEnd s < size_mod"

definition large_ok :: "nat \<Rightarrow> chunks \<Rightarrow> (nat \<rightharpoonup> nat) \<Rightarrow> ScalablePoolAllocator \<Rightarrow> bool" where
  "large_ok hi F used s \<longleftrightarrow>
     pool_geom hi s \<and> large_geom (mBumpPtr s) hi F used \<and>
     lseg 0 F 0 (larges s) \<and> mLargeFreeList s = hptr F 0 \<and>
     (\<forall>a m. used a = Some m \<longrightarrow> lNext (larges s a) = m)"

section \<open>Geometry\<close>

lemma gaps_append: "gaps (X @ Y) \<longleftrightarrow> gaps X \<and> gaps Y \<and> (\<forall>c\<in>set X. \<forall>d\<in>set Y. fst c + snd c + 8 < fst d)"
  by (simp add: gaps_def sorted_wrt_append)

lemma gaps_Cons: "gaps (c # Y) \<longleftrightarrow> gaps Y \<and> (\<forall>d\<in>set Y. fst c + snd c + 8 < fst d)"
  by (auto simp: gaps_def)

lemma gaps_Nil [simp]: "gaps []"
  by (simp add: gaps_def)

lemma gaps_distinct: "gaps F \<Longrightarrow> distinct (map fst F)"
  by (induction F) (auto simp: gaps_Cons)

lemma extract_fit:
  "fit_spec sz F = None \<longleftrightarrow> (\<forall>c\<in>set F. snd c < sz)"
  by (auto simp: fit_spec_def extract_None_iff extract_Some_iff not_le split: option.splits)

lemma fit_spec_Some:
  assumes "fit_spec sz F = Some (a, F')"
  obtains X m Y where "F = X @ (a, m) # Y" "sz \<le> m" "\<forall>c\<in>set X. snd c < sz"
    "F' = X @ (if m - sz > 24 then [(a + sz + 8, m - sz - 8)] else []) @ Y"
proof -
  obtain X m Y where e: "List.extract (\<lambda>c. sz \<le> snd c) F = Some (X, (a, m), Y)"
      "F' = X @ (if m - sz > 24 then [(a + sz + 8, m - sz - 8)] else []) @ Y"
    using assms by (auto simp: fit_spec_def split: option.splits)
  then have "F = X @ (a, m) # Y" "sz \<le> m" "\<forall>c\<in>set X. snd c < sz" by (auto simp: extract_Some_iff not_le)
  with e(2) that show thesis by blast
qed

lemma geom_free_fresh: "large_geom lo hi (X @ (a, m) # Y) used \<Longrightarrow> used a = None"
proof (rule ccontr)
  assume g: "large_geom lo hi (X @ (a, m) # Y) used" and "used a \<noteq> None"
  then obtain k where k: "used a = Some k" by auto
  have "\<forall>c\<in>set (X @ (a, m) # Y). apart (a, k) c" using g k by (simp add: large_geom_def)
  then show False by (simp add: apart_def before_def)
qed

lemma geom_fit:
  assumes g: "large_geom lo hi F used" and f: "fit_spec sz F = Some (a, F')" and sz: "16 \<le> sz"
  shows "large_geom lo hi F' (used(a \<mapsto> sz)) \<and> used a = None"
proof -
  obtain X m Y where F: "F = X @ (a, m) # Y" "sz \<le> m"
    "F' = X @ (if m - sz > 24 then [(a + sz + 8, m - sz - 8)] else []) @ Y"
    using f by (rule fit_spec_Some)
  have fresh: "used a = None" using g F(1) geom_free_fresh by blast
  have gap: "gaps F'" using g F by (auto simp: large_geom_def gaps_append gaps_Cons)
  have pl: "\<forall>c\<in>set F'. placed lo hi c" using g F by (auto simp: large_geom_def placed_def)
  have pa: "placed lo hi (a, sz)" using g F sz by (auto simp: large_geom_def placed_def)
  have ap: "\<forall>c\<in>set F'. apart (a, sz) c"
    using g F by (fastforce simp: large_geom_def gaps_append gaps_Cons apart_def before_def)
  have old: "\<forall>c\<in>set F'. apart (b, k) c" "apart (a, sz) (b, k)" "apart (b, k) (a, sz)" if "used b = Some k" for b k
  proof -
    have *: "\<forall>c\<in>set F. apart (b, k) c" using g that by (auto simp: large_geom_def)
    then show "\<forall>c\<in>set F'. apart (b, k) c" using F by (auto simp: apart_def before_def)
    show "apart (a, sz) (b, k)" "apart (b, k) (a, sz)" using * F by (auto simp: apart_def before_def)
  qed
  show ?thesis
    using g gap pl pa ap old fresh by (auto simp: large_geom_def)
qed

lemma geom_bump:
  assumes g: "large_geom lo hi F used" and a: "a + sz + 8 \<le> lo" "lo \<le> hi" "16 \<le> sz"
  shows "large_geom a hi F (used(a \<mapsto> sz)) \<and> used a = None"
proof -
  have fr: "lo \<le> fst c" if "c \<in> set F" for c using g that by (simp add: large_geom_def placed_def)
  have us: "lo \<le> b" if "used b = Some k" for b k using g that by (auto simp: large_geom_def placed_def)
  have "used a = None" using us [of a] a by (cases "used a") auto
  moreover have "apart (a, sz) c" if "c \<in> set F" for c using fr [OF that] a by (simp add: apart_def before_def)
  moreover have "apart (a, sz) (b, k)" "apart (b, k) (a, sz)" if "used b = Some k" for b k
    using us [OF that] a by (simp_all add: apart_def before_def)
  moreover have "placed a hi c" if "placed lo hi c" for c using that a by (simp add: placed_def)
  moreover have "placed a hi (a, sz)" using a by (simp add: placed_def)
  ultimately show ?thesis using g by (simp add: large_geom_def)
qed

lemma geom_raise:
  assumes g: "large_geom lo hi F used" and u: "used lo = Some m"
  shows "large_geom (lo + m + 8) hi F (used(lo := None))"
proof -
  have "lo + m + 8 \<le> fst c" if "c \<in> set F" for c
    using g u that by (fastforce simp: large_geom_def placed_def apart_def before_def)
  moreover have "lo + m + 8 \<le> b" if "used b = Some k" "b \<noteq> lo" for b k
    using g u that by (fastforce simp: large_geom_def placed_def apart_def before_def)
  ultimately show ?thesis using g by (auto simp: large_geom_def placed_def)
qed

lemma gaps_less: "gaps (X @ Y) \<Longrightarrow> c \<in> set X \<Longrightarrow> d \<in> set Y \<Longrightarrow> fst c < fst d"
  by (fastforce simp: gaps_append)

text \<open>The place of a chunk that lies apart from all free ones.\<close>

lemma place_split:
  assumes "gaps F" "\<forall>c\<in>set F. apart (a, m) c"
  defines "X \<equiv> takeWhile (\<lambda>d. fst d < a) F" and "Y \<equiv> dropWhile (\<lambda>d. fst d < a) F"
  shows "F = X @ Y" "\<forall>c\<in>set X. before c (a, m)" "\<forall>c\<in>set Y. before (a, m) c"
proof -
  show F: "F = X @ Y" by (simp add: X_def Y_def)
  have lt: "\<forall>c\<in>set X. fst c < a" unfolding X_def using set_takeWhileD by fast
  have ge: "\<forall>c\<in>set Y. \<not> fst c < a"
  proof (cases Y)
    case (Cons d Y')
    then have "\<not> fst d < a" using hd_dropWhile [of "\<lambda>d. fst d < a" F] by (simp add: Y_def)
    with Cons assms(1) F show ?thesis by (auto simp: gaps_append gaps_Cons)
  qed simp
  have ap: "apart (a, m) c" if "c \<in> set X \<union> set Y" for c using assms(2) F that by (metis set_append)
  show "\<forall>c\<in>set X. before c (a, m)"
  proof
    fix c assume "c \<in> set X"
    with lt ap [of c] show "before c (a, m)" by (auto simp: apart_def before_def)
  qed
  show "\<forall>c\<in>set Y. before (a, m) c"
  proof
    fix c assume "c \<in> set Y"
    with ge ap [of c] show "before (a, m) c" by (auto simp: apart_def before_def)
  qed
qed

text \<open>Two chunks that touch can be seen as one.\<close>

lemma apart_join: "apart u c \<Longrightarrow> apart u d \<Longrightarrow> fst c + snd c + 8 = fst d \<Longrightarrow> apart u (fst c, snd c + (snd d + 8))"
  by (auto simp: apart_def before_def)

lemma placed_join:
  "placed lo hi c \<Longrightarrow> placed lo hi d \<Longrightarrow> fst c + snd c + 8 = fst d \<Longrightarrow> placed lo hi (fst c, snd c + (snd d + 8))"
  by (auto simp: placed_def)

lemma join_prev_cases:
  assumes "join_prev X c = (X', c')"
  obtains (join) d where "X = X' @ [d]" "fst d + snd d + 8 = fst c" "c' = (fst d, snd d + (snd c + 8))"
    | (keep) "X' = X" "c' = c" "X \<noteq> [] \<Longrightarrow> fst (last X) + snd (last X) + 8 \<noteq> fst c"
proof (cases "X \<noteq> [] \<and> fst (last X) + snd (last X) + 8 = fst c")
  case True
  with assms have "X = X' @ [last X]" "c' = (fst (last X), snd (last X) + (snd c + 8))"
    by (auto simp: join_prev_def)
  with True that(1) show ?thesis by blast
next
  case False
  with assms that(2) show ?thesis by (auto simp: join_prev_def)
qed

lemma join_prev_gaps:
  assumes "join_prev X c = (X', c')" "gaps X" "\<forall>d\<in>set X. before d c"
  shows "gaps X'" "\<forall>d\<in>set X'. fst d + snd d + 8 < fst c'" "fst c' + snd c' = fst c + snd c"
proof -
  have last: "fst d + snd d + 8 < fst c" if "X \<noteq> [] \<Longrightarrow> fst (last X) + snd (last X) + 8 \<noteq> fst c" "d \<in> set X" for d
  proof -
    from that(2) have ne: "X \<noteq> []" by auto
    then have l: "before (last X) c" "fst (last X) + snd (last X) + 8 \<noteq> fst c" using assms(3) that(1) by auto
    from ne have "X = butlast X @ [last X]" by simp
    with that(2) assms(2) have "d = last X \<or> fst d + snd d + 8 < fst (last X)"
      by (metis (no_types, lifting) gaps_append Un_iff list.set_intros(1) set_ConsD set_append empty_iff list.set(1))
    with l show ?thesis by (auto simp: before_def)
  qed
  from assms(1) show "gaps X'" by (rule join_prev_cases) (use assms(2) in \<open>auto simp: gaps_append\<close>)
  from assms(1) show "\<forall>d\<in>set X'. fst d + snd d + 8 < fst c'"
    by (rule join_prev_cases) (use assms(2) last in \<open>auto simp: gaps_append\<close>)
  from assms(1) show "fst c' + snd c' = fst c + snd c" by (rule join_prev_cases) auto
qed

lemma join_next_cases:
  obtains (join) d Y' where "Y = d # Y'" "fst c + snd c + 8 = fst d" "join_next c Y = (fst c, snd c + (snd d + 8)) # Y'"
    | (keep) "join_next c Y = c # Y" "Y \<noteq> [] \<Longrightarrow> fst c + snd c + 8 \<noteq> fst (hd Y)"
  by (cases Y) (auto simp: join_next_def split: if_splits)

lemma join_next_gaps:
  assumes "gaps Y" "\<forall>d\<in>set Y. before c d"
  shows "gaps (join_next c Y)" "\<forall>d\<in>set (join_next c Y). fst c \<le> fst d"
proof -
  have first: "fst c + snd c + 8 < fst d" if "Y \<noteq> [] \<Longrightarrow> fst c + snd c + 8 \<noteq> fst (hd Y)" "d \<in> set Y" for d
    using that assms by (cases Y) (auto simp: gaps_Cons before_def)
  show "gaps (join_next c Y)"
    by (rule join_next_cases [of Y c]) (use assms first in \<open>auto simp: gaps_Cons\<close>)
  show "\<forall>d\<in>set (join_next c Y). fst c \<le> fst d"
    by (rule join_next_cases [of Y c]) (use assms in \<open>auto simp: before_def\<close>)
qed

text \<open>What holds of all the parts and is kept by joining holds of the list after a release.\<close>

lemma release_all:
  assumes "\<And>c d. P c \<Longrightarrow> P d \<Longrightarrow> fst c + snd c + 8 = fst d \<Longrightarrow> P (fst c, snd c + (snd d + 8))"
    and "\<forall>c\<in>set F. P c" "P x"
  shows "\<forall>c\<in>set (release_spec x F). P c"
proof -
  obtain X' c' where j: "join_prev (takeWhile (\<lambda>d. fst d < fst x) F) x = (X', c')" by (metis surj_pair)
  let ?Y = "dropWhile (\<lambda>d. fst d < fst x) F"
  have X: "\<forall>c\<in>set (takeWhile (\<lambda>d. fst d < fst x) F). P c" using assms(2) by (auto dest: set_takeWhileD)
  have Y: "\<forall>c\<in>set ?Y. P c" using assms(2) by (auto dest: set_dropWhileD)
  from j have "(\<forall>c\<in>set X'. P c) \<and> P c'" by (rule join_prev_cases) (use assms X in auto)
  moreover from this have "\<forall>c\<in>set (join_next c' ?Y). P c"
    by (cases rule: join_next_cases [of ?Y c']) (use assms(1) Y in auto)
  ultimately show ?thesis using j by (auto simp: release_spec_def)
qed

lemma release_gaps:
  assumes "gaps F" "\<forall>c\<in>set F. apart (a, m) c"
  shows "gaps (release_spec (a, m) F)"
proof -
  define X where "X = takeWhile (\<lambda>d. fst d < a) F"
  define Y where "Y = dropWhile (\<lambda>d. fst d < a) F"
  note sp = place_split [OF assms, folded X_def Y_def]
  obtain X' c' where j: "join_prev X (a, m) = (X', c')" by (metis surj_pair)
  have g: "gaps X" "gaps Y" using assms(1) sp(1) by (auto simp: gaps_append)
  note jp = join_prev_gaps [OF j g(1) sp(2)]
  have "\<forall>d\<in>set Y. before c' d" using sp(3) jp(3) by (auto simp: before_def)
  note jn = join_next_gaps [OF g(2) this]
  have "gaps (X' @ join_next c' Y)" using jp jn by (fastforce simp: gaps_append)
  with j show ?thesis by (simp add: release_spec_def X_def Y_def)
qed

lemma geom_release:
  assumes g: "large_geom lo hi F used" and u: "used a = Some m"
  shows "large_geom lo hi (release_spec (a, m) F) (used(a := None))"
proof -
  have F: "gaps F" "\<forall>c\<in>set F. placed lo hi c" "\<forall>c\<in>set F. apart (a, m) c" "placed lo hi (a, m)"
    using g u by (auto simp: large_geom_def)
  have pl: "\<forall>c\<in>set (release_spec (a, m) F). placed lo hi c"
    using placed_join F(2,4) by (rule release_all)
  have ap: "\<forall>c\<in>set (release_spec (a, m) F). apart (b, k) c" if "used b = Some k" "b \<noteq> a" for b k
    by (rule release_all, rule apart_join) (use g u that in \<open>auto simp: large_geom_def\<close>)
  show ?thesis using g pl ap release_gaps [OF F(1,3)] by (auto simp: large_geom_def)
qed

section \<open>Operations on the list of free chunks\<close>

text \<open>The headers of a list of chunks can be accessed.\<close>

definition accessible :: "chunks \<Rightarrow> ScalablePoolAllocator \<Rightarrow> bool" where
  "accessible X s \<longleftrightarrow> (\<forall>a\<in>fst ` set X. a \<noteq> 0 \<and> in_pool a 24 s)"

definition relink :: "(nat \<Rightarrow> LargeChunk) \<Rightarrow> nat \<Rightarrow> ScalablePoolAllocator \<Rightarrow> ScalablePoolAllocator" where
  "relink h l s = s\<lparr>larges := h, mLargeFreeList := l\<rparr>"

lemma relink_simps [simp]:
  "larges (relink h l s) = h" "mLargeFreeList (relink h l s) = l" "relink h' l' (relink h l s) = relink h' l' s"
  "mPool (relink h l s) = mPool s" "mPoolEnd (relink h l s) = mPoolEnd s" "mBumpPtr (relink h l s) = mBumpPtr s"
  "mBlockAllocPtr (relink h l s) = mBlockAllocPtr s" "accessible X (relink h l s) = accessible X s"
  "in_pool a n (relink h l s) = in_pool a n s"
  by (simp_all add: relink_def accessible_def in_pool_def)

lemma relink_self: "relink (larges s) (mLargeFreeList s) s = s"
  by (simp add: relink_def)

lemma accessible_simps [simp]:
  "accessible [] s" "accessible ((a, m) # X) s \<longleftrightarrow> a \<noteq> 0 \<and> in_pool a 24 s \<and> accessible X s"
  "accessible (X @ Y) s \<longleftrightarrow> accessible X s \<and> accessible Y s"
  by (auto simp: accessible_def)

lemma large_access:
  assumes "in_pool a 24 s"
  shows "get_large a s = Inr (larges s a)"
    "mod_large a f s = Inr (relink ((larges s)(a := f (larges s a))) (mLargeFreeList s) s)"
    "get_psz a s = Inr (lNext (larges s a))"
    "set_psz a v s = Inr (relink ((larges s)(a := (larges s a)\<lparr>lNext := v\<rparr>)) (mLargeFreeList s) s)"
  using assms by (simp_all add: get_large_def mod_large_def get_psz_def set_psz_def pool_access_def in_pool_def relink_def)

lemma accessible_lptr: "accessible X s \<Longrightarrow> X \<noteq> [] \<Longrightarrow> lptr p X \<noteq> 0 \<and> in_pool (lptr p X) 24 s"
  using lptr_mem unfolding accessible_def by metis

lemma accessible_hptr: "accessible X s \<Longrightarrow> X \<noteq> [] \<Longrightarrow> hptr X n \<noteq> 0 \<and> in_pool (hptr X n) 24 s"
  using hptr_mem unfolding accessible_def by metis

lemma set_large_next_seg:
  assumes "lseg 0 X n (larges s)" "distinct (map fst X)" "accessible X s" "mLargeFreeList s = hptr X n"
  obtains h where "set_large_next (lptr 0 X) v s = Inr (relink h (hptr X v) s)" "lseg 0 X v h"
    "\<forall>b. b \<notin> fst ` set X \<longrightarrow> h b = larges s b"
proof (cases "X = []")
  case True
  with that [of "larges s"] show ?thesis by (simp add: set_large_next_def relink_def)
next
  case False
  let ?h = "(larges s)(lptr 0 X := (larges s (lptr 0 X))\<lparr>lNext := v\<rparr>)"
  have "hptr X v = hptr X n" using False by (cases X) auto
  with False assms accessible_lptr have "set_large_next (lptr 0 X) v s = Inr (relink ?h (hptr X v) s)"
    by (simp add: set_large_next_def large_access)
  moreover have "\<forall>b. b \<notin> fst ` set X \<longrightarrow> ?h b = larges s b" using lptr_mem [OF False] by auto
  ultimately show ?thesis using that lseg_set_next assms(1,2) False by blast
qed

lemma set_large_prev_seg:
  assumes "lseg p Y 0 (larges s)" "distinct (map fst Y)" "accessible Y s"
  obtains h where "set_large_prev (hptr Y 0) v s = Inr (relink h (mLargeFreeList s) s)" "lseg v Y 0 h"
    "\<forall>b. b \<notin> fst ` set Y \<longrightarrow> h b = larges s b"
proof (cases "Y = []")
  case True
  with that [of "larges s"] show ?thesis by (simp add: set_large_prev_def relink_self)
next
  case False
  let ?h = "(larges s)(hptr Y 0 := (larges s (hptr Y 0))\<lparr>lPrev := v\<rparr>)"
  have "set_large_prev (hptr Y 0) v s = Inr (relink ?h (mLargeFreeList s) s)"
    using False assms accessible_hptr by (simp add: set_large_prev_def large_access)
  moreover have "\<forall>b. b \<notin> fst ` set Y \<longrightarrow> ?h b = larges s b" using hptr_mem [OF False] by auto
  ultimately show ?thesis using that lseg_set_prev assms(1,2) False by blast
qed

lemma find_large_first:
  assumes "lseg p F 0 (larges s)" "accessible F s" "length F \<le> fuel"
  shows "find_large fuel (hptr F 0) sz s = Inr (case fit_spec sz F of None \<Rightarrow> 0 | Some (a, _) \<Rightarrow> a)"
  using assms
proof (induction F arbitrary: p fuel)
  case Nil
  then show ?case by (cases fuel) (auto simp: fit_spec_def extract_Nil_code)
next
  case (Cons c F)
  obtain a m where c: "c = (a, m)" by force
  with Cons obtain k where k: "fuel = Suc k" by (cases fuel) auto
  from Cons c have a: "larges s a = \<lparr>lNext = hptr F 0, lSize = m, lPrev = p\<rparr>" "a \<noteq> 0" "in_pool a 24 s" by auto
  have "find_large k (hptr F 0) sz s = Inr (case fit_spec sz F of None \<Rightarrow> 0 | Some (a, _) \<Rightarrow> a)"
    using Cons.IH [of a k] Cons.prems c k by auto
  with a show ?case
    by (auto simp: c k large_access fit_spec_def extract_Cons_code split: option.splits)
qed

lemma large_position_place:
  assumes "lseg p (X @ Y) 0 (larges s)" "accessible (X @ Y) s" "X @ Y \<noteq> []" "length (X @ Y) \<le> fuel"
    "\<forall>c\<in>set X. fst c < lc" "\<forall>c\<in>set Y. lc < fst c"
  shows "large_position fuel (hptr (X @ Y) 0) lc s = Inr (if Y = [] then lptr p X else hptr Y 0)"
  using assms
proof (induction X arbitrary: p fuel)
  case Nil
  then obtain a m Y' k where Y: "Y = (a, m) # Y'" "fuel = Suc k"
    by (metis append_Nil length_0_conv le_zero_eq list.exhaust nat.exhaust surj_pair)
  with Nil show ?case by (auto simp: large_access)
next
  case (Cons c X)
  obtain a m where c: "c = (a, m)" by force
  with Cons obtain k where k: "fuel = Suc k" by (cases fuel) auto
  from Cons c have a: "larges s a = \<lparr>lNext = hptr (X @ Y) 0, lSize = m, lPrev = p\<rparr>" "a \<noteq> 0" "in_pool a 24 s" "a < lc"
    by auto
  show ?case
  proof (cases "X @ Y = []")
    case True
    with a show ?thesis by (simp add: c k large_access)
  next
    case False
    with Cons.prems c have "hptr (X @ Y) 0 \<noteq> 0" using accessible_hptr [of "X @ Y" s 0] by auto
    moreover have "large_position k (hptr (X @ Y) 0) lc s = Inr (if Y = [] then lptr a X else hptr Y 0)"
      using Cons.IH [of a k] Cons.prems c k False by auto
    ultimately show ?thesis using a by (simp add: c k large_access)
  qed
qed

text \<open>An allocator whose list of free chunks is \<open>F\<close>.\<close>

definition large_list :: "chunks \<Rightarrow> ScalablePoolAllocator \<Rightarrow> bool" where
  "large_list F s \<longleftrightarrow> lseg 0 F 0 (larges s) \<and> mLargeFreeList s = hptr F 0 \<and> distinct (map fst F) \<and> accessible F s"

lemma large_list_split:
  assumes "large_list (X @ (a, m) # Y) s"
  shows "lseg 0 X a (larges s)" "larges s a = \<lparr>lNext = hptr Y 0, lSize = m, lPrev = lptr 0 X\<rparr>" "lseg a Y 0 (larges s)"
    "distinct (map fst X)" "distinct (map fst Y)" "accessible X s" "accessible Y s" "mLargeFreeList s = hptr X a"
    "a \<notin> fst ` set X" "a \<notin> fst ` set Y" "fst ` set X \<inter> fst ` set Y = {}" "a \<noteq> 0" "in_pool a 24 s"
  using assms by (auto simp: large_list_def lseg_append hptr_append)

text \<open>Replacing the middle of the list by at most one chunk, whose header holds the links of its place.\<close>

lemma relink_middle:
  assumes X: "lseg 0 X n (larges s)" "distinct (map fst X)" "accessible X s" "mLargeFreeList s = hptr X n"
    and Y: "lseg p Y 0 (larges s)" "distinct (map fst Y)" "accessible Y s" "fst ` set X \<inter> fst ` set Y = {}"
    and M: "M = [] \<and> v = hptr Y 0 \<and> w = lptr 0 X \<or>
      (\<exists>c k. M = [(c, k)] \<and> v = c \<and> w = c \<and> c \<notin> fst ` set X \<and> c \<notin> fst ` set Y \<and>
        larges s c = \<lparr>lNext = hptr Y 0, lSize = k, lPrev = lptr 0 X\<rparr> \<and> c \<noteq> 0 \<and> in_pool c 24 s)"
  obtains h where "rbind (set_large_next (lptr 0 X) v s) (set_large_prev (hptr Y 0) w) = Inr (relink h (hptr (X @ M @ Y) 0) s)"
    "large_list (X @ M @ Y) (relink h (hptr (X @ M @ Y) 0) s)"
    "\<forall>b. b \<notin> fst ` set (X @ Y) \<longrightarrow> h b = larges s b"
proof -
  obtain h1 where h1: "set_large_next (lptr 0 X) v s = Inr (relink h1 (hptr X v) s)" "lseg 0 X v h1"
    "\<forall>b. b \<notin> fst ` set X \<longrightarrow> h1 b = larges s b"
    using X by (rule set_large_next_seg)
  have "lseg p Y 0 h1 = lseg p Y 0 (larges s)"
    by (rule lseg_cong) (use h1(3) Y(4) in auto)
  then obtain h2 where h2: "set_large_prev (hptr Y 0) w (relink h1 (hptr X v) s) = Inr (relink h2 (hptr X v) s)"
    "lseg w Y 0 h2" "\<forall>b. b \<notin> fst ` set Y \<longrightarrow> h2 b = h1 b"
    using set_large_prev_seg [of p Y "relink h1 (hptr X v) s" w] Y(1-3) by auto
  have "\<forall>a\<in>fst ` set X. h2 a = h1 a" using h2(3) Y(4) by blast
  then have X2: "lseg 0 X v h2" using h1(2) lseg_cong by blast
  have keep: "\<forall>b. b \<notin> fst ` set (X @ Y) \<longrightarrow> h2 b = larges s b" using h1(3) h2(3) by (simp add: image_Un)
  have hd: "hptr X v = hptr (X @ M @ Y) 0" using M by (auto simp: hptr_append)
  have "lseg 0 (X @ M @ Y) 0 h2" "distinct (map fst (X @ M @ Y))" "accessible (X @ M @ Y) s"
    using M X X2 Y h2(2) keep by (auto simp: lseg_append dest: fst_mem)
  with h1(1) h2(1) hd keep that show ?thesis by (simp add: large_list_def)
qed

lemma take_large_ok:
  assumes F: "large_list (X @ (a, m) # Y) s" and sz: "sz \<le> m"
    and new: "m - sz > 24 \<Longrightarrow> a + sz + 8 \<notin> fst ` set (X @ (a, m) # Y) \<and> in_pool (a + sz + 8) 24 s"
  defines "M \<equiv> if m - sz > 24 then [(a + sz + 8, m - sz - 8)] else []"
  obtains h where "take_large a sz s = Inr (relink h (hptr (X @ M @ Y) 0) s)"
    "large_list (X @ M @ Y) (relink h (hptr (X @ M @ Y) 0) s)" "lNext (h a) = sz"
    "\<forall>b. b \<notin> fst ` set (X @ (a, m) # M @ Y) \<longrightarrow> h b = larges s b"
proof -
  note result = that
  note sp = large_list_split [OF F]
  have finish: thesis
    if d: "take_large a sz s = rbind (rbind (set_large_next (lptr 0 X) v t) (set_large_prev (hptr Y 0) w)) (set_psz a sz)"
      and h: "rbind (set_large_next (lptr 0 X) v t) (set_large_prev (hptr Y 0) w) = Inr (relink h (hptr (X @ M @ Y) 0) t)"
        "large_list (X @ M @ Y) (relink h (hptr (X @ M @ Y) 0) t)" "\<forall>b. b \<notin> fst ` set (X @ Y) \<longrightarrow> h b = larges t b"
      and t: "t = relink h0 l s" "\<forall>b. b \<notin> fst ` set M \<longrightarrow> h0 b = larges s b" for v w t h h0 l
  proof -
    let ?h = "h(a := (h a)\<lparr>lNext := sz\<rparr>)"
    have aM: "a \<notin> fst ` set (X @ M @ Y)" using sp new by (auto simp: M_def)
    then have "large_list (X @ M @ Y) (relink ?h (hptr (X @ M @ Y) 0) s)"
      using h(2) t(1) by (simp add: large_list_def lseg_frame)
    moreover have "\<forall>b. b \<notin> fst ` set (X @ (a, m) # M @ Y) \<longrightarrow> ?h b = larges s b"
      using h(3) t by (simp add: image_Un)
    moreover have "take_large a sz s = Inr (relink ?h (hptr (X @ M @ Y) 0) s)"
      using d h(1) sp(13) t(1) by (simp add: large_access)
    ultimately show thesis using result [of ?h] by simp
  qed
  show thesis
  proof (cases "m - sz > 24")
    case False
    then have M: "M = []" by (simp add: M_def)
    obtain h where h: "rbind (set_large_next (lptr 0 X) (hptr Y 0) s) (set_large_prev (hptr Y 0) (lptr 0 X))
        = Inr (relink h (hptr (X @ M @ Y) 0) s)"
      "large_list (X @ M @ Y) (relink h (hptr (X @ M @ Y) 0) s)" "\<forall>b. b \<notin> fst ` set (X @ Y) \<longrightarrow> h b = larges s b"
      by (rule relink_middle [of X a s a Y M "hptr Y 0" "lptr 0 X"]) (use sp M in auto)
    show thesis
      by (rule finish [OF _ h relink_self [symmetric]])
         (use False sp in \<open>auto simp: take_large_def large_access rbind_assoc M\<close>)
  next
    case True
    let ?n = "a + sz + 8" and ?k = "m - sz - 8"
    define t where "t = relink ((larges s)(?n := \<lparr>lNext = hptr Y 0, lSize = ?k, lPrev = lptr 0 X\<rparr>)) (mLargeFreeList s) s"
    from True have M: "M = [(?n, ?k)]" by (simp add: M_def)
    have n: "?n \<notin> fst ` set X" "?n \<notin> fst ` set Y" "in_pool ?n 24 s" using new True by auto
    obtain h where h: "rbind (set_large_next (lptr 0 X) ?n t) (set_large_prev (hptr Y 0) ?n)
        = Inr (relink h (hptr (X @ M @ Y) 0) t)"
      "large_list (X @ M @ Y) (relink h (hptr (X @ M @ Y) 0) t)" "\<forall>b. b \<notin> fst ` set (X @ Y) \<longrightarrow> h b = larges t b"
      by (rule relink_middle [of X a t a Y M ?n ?n]) (use sp M n in \<open>auto simp: t_def lseg_frame\<close>)
    show thesis
      by (rule finish [OF _ h t_def]) (use True sp n in \<open>auto simp: take_large_def large_access rbind_assoc t_def M Let_def\<close>)
  qed
qed

lemma header_updates:
  "(c :: LargeChunk)\<lparr>lPrev := w, lNext := v\<rparr> = \<lparr>lNext = v, lSize = lSize c, lPrev = w\<rparr>"
  "c\<lparr>lNext := v, lPrev := w\<rparr> = \<lparr>lNext = v, lSize = lSize c, lPrev = w\<rparr>"
  by (cases c; simp)+

lemma set_links_commute:
  "rbind (set_large_prev q w s) (set_large_next p v) = rbind (set_large_next p v s) (set_large_prev q w)"
  by (cases "p = q") (auto simp: set_large_prev_def set_large_next_def mod_large_def pool_access_def in_pool_def fun_upd_twist
      header_updates)

lemma set_large_next_same:
  assumes "lseg 0 X n (larges s)" "accessible X s" "mLargeFreeList s = hptr X n"
  shows "set_large_next (lptr 0 X) n s = Inr s"
proof (cases X rule: rev_cases)
  case Nil
  with assms show ?thesis by (simp add: set_large_next_def)
next
  case (snoc X' c)
  obtain a m where c: "c = (a, m)" by force
  with snoc assms have "larges s a = \<lparr>lNext = n, lSize = m, lPrev = lptr 0 X'\<rparr>" "a \<noteq> 0" "in_pool a 24 s"
    by (auto simp: lseg_append)
  then show ?thesis using snoc c by (simp add: set_large_next_def large_access relink_def fun_upd_idem)
qed

lemma link_large_ok:
  assumes F: "large_list (X @ Y) s" "X @ Y \<noteq> []" and a: "a \<notin> fst ` set (X @ Y)" "a \<noteq> 0" "in_pool a 24 s"
    and m: "lSize (larges s a) = m" and ord: "\<forall>c\<in>set X. fst c < a" "\<forall>c\<in>set Y. a < fst c"
  obtains h where "link_large (if Y = [] then lptr 0 X else hptr Y 0) a s = Inr (relink h (hptr (X @ [(a, m)] @ Y) 0) s)"
    "large_list (X @ [(a, m)] @ Y) (relink h (hptr (X @ [(a, m)] @ Y) 0) s)"
    "\<forall>b. b \<notin> fst ` set (X @ (a, m) # Y) \<longrightarrow> h b = larges s b"
proof -
  define t where "t = relink ((larges s)(a := \<lparr>lNext = hptr Y 0, lSize = m, lPrev = lptr 0 X\<rparr>)) (mLargeFreeList s) s"
  have sp: "lseg 0 X (hptr Y 0) (larges s)" "lseg (lptr 0 X) Y 0 (larges s)" "distinct (map fst X)" "distinct (map fst Y)"
    "accessible X s" "accessible Y s" "mLargeFreeList s = hptr X (hptr Y 0)" "fst ` set X \<inter> fst ` set Y = {}"
    "a \<notin> fst ` set X" "a \<notin> fst ` set Y"
    using F a by (auto simp: large_list_def lseg_append hptr_append image_Un)
  obtain h where h: "rbind (set_large_next (lptr 0 X) a t) (set_large_prev (hptr Y 0) a)
      = Inr (relink h (hptr (X @ [(a, m)] @ Y) 0) t)"
    "large_list (X @ [(a, m)] @ Y) (relink h (hptr (X @ [(a, m)] @ Y) 0) t)"
    "\<forall>b. b \<notin> fst ` set (X @ Y) \<longrightarrow> h b = larges t b"
    by (rule relink_middle [of X "hptr Y 0" t "lptr 0 X" Y "[(a, m)]" a a]) (use sp a in \<open>auto simp: t_def lseg_frame\<close>)
  have "link_large (if Y = [] then lptr 0 X else hptr Y 0) a s
      = rbind (set_large_next (lptr 0 X) a t) (set_large_prev (hptr Y 0) a)"
  proof (cases "Y = []")
    case True
    with F(2) have X: "X \<noteq> []" by simp
    then obtain X' l k where l: "X = X' @ [(l, k)]" by (metis rev_exhaust surj_pair)
    with sp ord have "larges s l = \<lparr>lNext = hptr Y 0, lSize = k, lPrev = lptr 0 X'\<rparr>" "l \<noteq> 0" "in_pool l 24 s" "l < a"
      by (auto simp: lseg_append)
    then show ?thesis using True l m a
      by (auto simp: link_large_def large_access t_def set_large_next_def set_large_prev_def header_updates)
  next
    case False
    then obtain l k Y' where l: "Y = (l, k) # Y'" by (metis list.exhaust surj_pair)
    with sp ord have "larges s l = \<lparr>lNext = hptr Y' 0, lSize = k, lPrev = lptr 0 X\<rparr>" "l \<noteq> 0" "in_pool l 24 s" "a < l"
      by auto
    then show ?thesis using False l m a
      by (simp add: link_large_def large_access t_def set_large_prev_def header_updates flip: set_links_commute)
  qed
  with h that show ?thesis by (simp add: t_def image_Un)
qed

lemma merge_prev_ok:
  assumes F: "large_list (X @ (a, m) # Y) s" and j: "join_prev X (a, m) = (X', c)"
  obtains h where "merge_prev a s = Inr (fst c, relink h (hptr (X' @ [c] @ Y) 0) s)"
    "large_list (X' @ [c] @ Y) (relink h (hptr (X' @ [c] @ Y) 0) s)"
    "\<forall>b. b \<notin> fst ` set (X @ (a, m) # Y) \<longrightarrow> h b = larges s b"
proof -
  note result = that
  note sp = large_list_split [OF F]
  from j show thesis
  proof (cases rule: join_prev_cases)
    case keep
    have "merge_prev a s = Inr (a, s)"
    proof (cases X rule: rev_cases)
      case Nil
      with sp show ?thesis by (simp add: merge_prev_def large_access)
    next
      case (snoc X1 d)
      obtain p k where d: "d = (p, k)" by force
      with snoc sp have "larges s p = \<lparr>lNext = a, lSize = k, lPrev = lptr 0 X1\<rparr>" "p \<noteq> 0" "in_pool p 24 s"
        by (auto simp: lseg_append)
      with snoc d sp keep(3) show ?thesis by (simp add: merge_prev_def large_access)
    qed
    moreover have "relink (larges s) (hptr (X @ (a, m) # Y) 0) s = s"
      using F relink_self [of s] by (simp add: large_list_def)
    ultimately show thesis using result [of "larges s"] F keep by simp
  next
    case (join d)
    obtain p k where d: "d = (p, k)" by force
    define t where "t = relink ((larges s)(p := \<lparr>lNext = hptr Y 0, lSize = k + (m + 8), lPrev = lptr 0 X'\<rparr>)) (mLargeFreeList s) s"
    have X': "lseg 0 X' p (larges s)" "larges s p = \<lparr>lNext = a, lSize = k, lPrev = lptr 0 X'\<rparr>" "p \<noteq> 0" "in_pool p 24 s"
      "p \<notin> fst ` set X'" "p \<notin> fst ` set Y" "p \<noteq> a" "mLargeFreeList s = hptr X' p" "accessible X' s" "distinct (map fst X')"
      using sp join(1) d by (auto simp: lseg_append hptr_append)
    obtain h where h: "rbind (set_large_next (lptr 0 X') p t) (set_large_prev (hptr Y 0) p)
        = Inr (relink h (hptr (X' @ [(p, k + (m + 8))] @ Y) 0) t)"
      "large_list (X' @ [(p, k + (m + 8))] @ Y) (relink h (hptr (X' @ [(p, k + (m + 8))] @ Y) 0) t)"
      "\<forall>b. b \<notin> fst ` set (X' @ Y) \<longrightarrow> h b = larges t b"
      by (rule relink_middle [of X' p t a Y "[(p, k + (m + 8))]" p p]) (use sp X' join(1) in \<open>auto simp: t_def lseg_frame\<close>)
    have "set_large_next (lptr 0 X') p t = Inr t"
      by (rule set_large_next_same) (use X' in \<open>auto simp: t_def lseg_frame\<close>)
    with h(1) sp X' join d have "merge_prev a s = Inr (fst c, relink h (hptr (X' @ [(p, k + (m + 8))] @ Y) 0) t)"
      by (simp add: merge_prev_def large_access t_def)
    with h result [of h] join d show thesis by (simp add: t_def image_Un)
  qed
qed

lemma merge_next_ok:
  assumes F: "large_list (X @ (a, m) # Y) s"
  obtains h where "merge_next a s = Inr (relink h (hptr (X @ join_next (a, m) Y) 0) s)"
    "large_list (X @ join_next (a, m) Y) (relink h (hptr (X @ join_next (a, m) Y) 0) s)"
    "\<forall>b. b \<notin> fst ` set (X @ (a, m) # Y) \<longrightarrow> h b = larges s b"
proof -
  note result = that
  note sp = large_list_split [OF F]
  show thesis
  proof (cases rule: join_next_cases [of Y "(a, m)"])
    case keep
    have "merge_next a s = Inr s"
    proof (cases Y)
      case Nil
      with sp show ?thesis by (simp add: merge_next_def large_access)
    next
      case (Cons d Y')
      obtain b k where d: "d = (b, k)" by force
      with Cons sp keep(2) show ?thesis by (simp add: merge_next_def large_access)
    qed
    moreover have "relink (larges s) (hptr (X @ (a, m) # Y) 0) s = s"
      using F relink_self [of s] by (simp add: large_list_def)
    ultimately show thesis using result [of "larges s"] F keep by simp
  next
    case (join d Y')
    obtain b k where d: "d = (b, k)" by force
    define t where "t = relink ((larges s)(a := \<lparr>lNext = hptr Y' 0, lSize = m + (k + 8), lPrev = lptr 0 X\<rparr>)) (mLargeFreeList s) s"
    have Y': "lseg b Y' 0 (larges s)" "larges s b = \<lparr>lNext = hptr Y' 0, lSize = k, lPrev = a\<rparr>" "b \<noteq> 0" "in_pool b 24 s"
      "a \<notin> fst ` set Y'" "accessible Y' s" "distinct (map fst Y')"
      using sp join(1) d by auto
    obtain h where h: "rbind (set_large_next (lptr 0 X) a t) (set_large_prev (hptr Y' 0) a)
        = Inr (relink h (hptr (X @ [(a, m + (k + 8))] @ Y') 0) t)"
      "large_list (X @ [(a, m + (k + 8))] @ Y') (relink h (hptr (X @ [(a, m + (k + 8))] @ Y') 0) t)"
      "\<forall>b. b \<notin> fst ` set (X @ Y') \<longrightarrow> h b = larges t b"
      by (rule relink_middle [of X a t b Y' "[(a, m + (k + 8))]" a a]) (use sp Y' join(1) in \<open>auto simp: t_def lseg_frame\<close>)
    have "set_large_next (lptr 0 X) a t = Inr t"
      by (rule set_large_next_same) (use sp in \<open>auto simp: t_def lseg_frame\<close>)
    with h(1) sp Y' join d have "merge_next a s = Inr (relink h (hptr (X @ [(a, m + (k + 8))] @ Y') 0) t)"
      by (simp add: merge_next_def large_access t_def)
    with h result [of h] join d show thesis by (simp add: t_def image_Un)
  qed
qed

section \<open>Allocation and release\<close>

text \<open>The operations on large chunks change three members only.\<close>

definition same_small :: "ScalablePoolAllocator \<Rightarrow> ScalablePoolAllocator \<Rightarrow> bool" where
  "same_small s s' \<longleftrightarrow> s' = s\<lparr>mBumpPtr := mBumpPtr s', larges := larges s', mLargeFreeList := mLargeFreeList s'\<rparr>"

lemma same_small_relink [simp]: "same_small s (relink h l s)" "same_small s s"
  by (simp_all add: same_small_def relink_def)

lemma large_ok_list:
  assumes "large_ok hi F used s"
  shows "large_list F s" "length F \<le> mPoolEnd s" "gaps F"
proof -
  have geom: "pool_geom hi s" "large_geom (mBumpPtr s) hi F used" "lseg 0 F 0 (larges s)" "mLargeFreeList s = hptr F 0"
    using assms by (auto simp: large_ok_def)
  show gaps: "gaps F" using geom(2) by (simp add: large_geom_def)
  have pl: "placed (mBumpPtr s) hi c" if "c \<in> set F" for c using geom(2) that by (auto simp: large_geom_def)
  have acc: "fst c \<noteq> 0 \<and> in_pool (fst c) 24 s" "fst c < mPoolEnd s" if "c \<in> set F" for c
    using pl [OF that] geom(1) by (auto simp: placed_def pool_geom_def in_pool_def)
  then show "large_list F s" using geom gaps_distinct [OF gaps] by (auto simp: large_list_def accessible_def)
  have "length F = card (fst ` set F)" using gaps_distinct [OF gaps] by (metis distinct_card length_map set_map)
  also have "\<dots> \<le> card {..<mPoolEnd s}" using acc(2) by (intro card_mono) auto
  finally show "length F \<le> mPoolEnd s" by simp
qed

lemma used_access:
  assumes "large_ok hi F used s" "used a = Some m"
  shows "in_pool a 24 s" "a \<noteq> 0" "a \<notin> fst ` set F" "mBumpPtr s \<le> a"
proof -
  have "placed (mBumpPtr s) hi (a, m)" "pool_geom hi s" using assms by (auto simp: large_ok_def large_geom_def)
  then show "in_pool a 24 s" "a \<noteq> 0" "mBumpPtr s \<le> a" by (auto simp: placed_def pool_geom_def in_pool_def)
  have "apart (a, m) c" if "c \<in> set F" for c using assms that by (auto simp: large_ok_def large_geom_def)
  then show "a \<notin> fst ` set F" by (force simp: apart_def before_def)
qed

lemma large_ok_relink:
  assumes "large_ok hi F used s" "large_list F' (relink h (hptr F' 0) s)" "large_geom (mBumpPtr s) hi F' used'"
    "\<forall>a m. used' a = Some m \<longrightarrow> lNext (h a) = m"
  shows "large_ok hi F' used' (relink h (hptr F' 0) s)"
  using assms by (simp add: large_ok_def large_list_def pool_geom_def)

lemma allocateLarge_fit:
  assumes ok: "large_ok hi F used s" and sz: "16 \<le> sz" and fit: "fit_spec sz F = Some (a, F')"
  obtains s' where "allocateLarge sz s = Inr (a + 8, s')" "large_ok hi F' (used(a \<mapsto> sz)) s'" "used a = None"
    "mBumpPtr s' = mBumpPtr s" "same_small s s'"
proof -
  note l = large_ok_list [OF ok]
  obtain X m Y where F: "F = X @ (a, m) # Y" "sz \<le> m" "\<forall>c\<in>set X. snd c < sz"
    "F' = X @ (if m - sz > 24 then [(a + sz + 8, m - sz - 8)] else []) @ Y"
    using fit by (rule fit_spec_Some)
  have geom: "large_geom (mBumpPtr s) hi F used" "pool_geom hi s" using ok by (auto simp: large_ok_def)
  note g = geom_fit [OF geom(1) fit sz]
  have pa: "placed (mBumpPtr s) hi (a, m)" using geom(1) F(1) by (simp add: large_geom_def)
  have new: "a + sz + 8 \<notin> fst ` set (X @ (a, m) # Y) \<and> in_pool (a + sz + 8) 24 s" if "m - sz > 24"
  proof
    have "fst c < a + sz + 8" if "c \<in> set X" for c using l(3) F(1) that by (auto simp: gaps_append)
    moreover have "a + sz + 8 < fst c" if "c \<in> set Y" for c using l(3) F(1,2) that by (auto simp: gaps_append gaps_Cons)
    ultimately show "a + sz + 8 \<notin> fst ` set (X @ (a, m) # Y)" by force
    show "in_pool (a + sz + 8) 24 s" using pa geom(2) that by (auto simp: placed_def pool_geom_def in_pool_def)
  qed
  from l(1) F(1) have ll: "large_list (X @ (a, m) # Y) s" by simp
  define M where "M = (if m - sz > 24 then [(a + sz + 8, m - sz - 8)] else [])"
  have F': "F' = X @ M @ Y" using F(4) by (simp add: M_def)
  obtain h where h: "take_large a sz s = Inr (relink h (hptr F' 0) s)" "large_list F' (relink h (hptr F' 0) s)"
    "lNext (h a) = sz" and frame: "\<forall>b. b \<notin> fst ` set (X @ (a, m) # M @ Y) \<longrightarrow> h b = larges s b"
    using take_large_ok [OF ll F(2) new, folded M_def, folded F'] by blast
  have keep: "h b = larges s b" if "b \<notin> fst ` set F" "b \<notin> fst ` set F'" for b
    using frame that by (auto simp: F(1) F' image_Un)
  have used': "\<forall>b k. (used(a \<mapsto> sz)) b = Some k \<longrightarrow> lNext (h b) = k"
  proof (intro allI impI)
    fix b k assume b: "(used(a \<mapsto> sz)) b = Some k"
    show "lNext (h b) = k"
    proof (cases "b = a")
      case False
      then have ub: "used b = Some k" using b by simp
      have "b \<notin> fst ` set F" using used_access [OF ok ub] by simp
      moreover have "b \<notin> fst ` set F'"
      proof
        assume "b \<in> fst ` set F'"
        then obtain c where "c \<in> set F'" "fst c = b" by auto
        moreover from this(1) have "apart (b, k) c" using g b by (auto simp: large_geom_def)
        ultimately show False by (auto simp: apart_def before_def)
      qed
      ultimately show ?thesis using keep ok ub by (auto simp: large_ok_def)
    qed (use b h(3) in simp)
  qed
  have "allocateLarge sz s = Inr (a + 8, relink h (hptr F' 0) s)"
    using h(1) find_large_first [of 0 F s "mPoolEnd s" sz] l fit ll F(1)
    by (auto simp: allocateLarge_def large_list_def)
  moreover have "large_ok hi F' (used(a \<mapsto> sz)) (relink h (hptr F' 0) s)"
    using ok h(2) g used' by (intro large_ok_relink [OF ok]) auto
  ultimately show thesis using that g by simp
qed

lemma allocateLarge_bump:
  assumes ok: "large_ok hi F used s" and sz: "16 \<le> sz" "sz + 8 \<le> mBumpPtr s" and fit: "fit_spec sz F = None"
  defines "bump \<equiv> mBumpPtr s - sz - 8"
  shows "bump < mBlockAllocPtr s \<Longrightarrow> allocateLarge sz s = Inr (0, s)"
    and "mBlockAllocPtr s \<le> bump \<Longrightarrow> \<exists>s'. allocateLarge sz s = Inr (bump + 8, s') \<and>
      large_ok hi F (used(bump \<mapsto> sz)) s' \<and> used bump = None \<and> mBumpPtr s' = bump \<and> same_small s s'"
proof -
  note l = large_ok_list [OF ok]
  have geom: "large_geom (mBumpPtr s) hi F used" "pool_geom hi s" using ok by (auto simp: large_ok_def)
  have find: "find_large (mPoolEnd s) (mLargeFreeList s) sz s = Inr 0"
    using find_large_first [of 0 F s "mPoolEnd s" sz] l fit by (auto simp: large_list_def)
  have b: "sz_sub (sz_sub (mBumpPtr s) sz) 8 = bump"
  proof -
    have lt: "mBumpPtr s < size_mod" "mBumpPtr s - sz < size_mod" using geom(2) by (auto simp: pool_geom_def)
    have "sz_sub (mBumpPtr s) sz = mBumpPtr s - sz" by (rule sz_sub_exact) (use sz lt in auto)
    moreover have "sz_sub (mBumpPtr s - sz) 8 = mBumpPtr s - sz - 8" by (rule sz_sub_exact) (use sz lt in auto)
    ultimately show ?thesis by (simp add: bump_def)
  qed
  show "allocateLarge sz s = Inr (0, s)" if "bump < mBlockAllocPtr s"
    using find b that by (simp add: allocateLarge_def Let_def)
  show "\<exists>s'. allocateLarge sz s = Inr (bump + 8, s') \<and> large_ok hi F (used(bump \<mapsto> sz)) s' \<and> used bump = None \<and>
      mBumpPtr s' = bump \<and> same_small s s'" if room: "mBlockAllocPtr s \<le> bump"
  proof -
    let ?s = "s\<lparr>mBumpPtr := bump, larges := (larges s)(bump := (larges s bump)\<lparr>lNext := sz\<rparr>)\<rparr>"
    have below: "bump + sz + 8 = mBumpPtr s" using sz by (simp add: bump_def)
    have acc: "in_pool bump 8 s" using geom(2) room below by (auto simp: pool_geom_def in_pool_def)
    have alloc: "allocateLarge sz s = Inr (bump + 8, ?s)"
      using find b room acc by (simp add: allocateLarge_def Let_def set_psz_def pool_access_def in_pool_def)
    have g: "large_geom bump hi F (used(bump \<mapsto> sz)) \<and> used bump = None"
      by (rule geom_bump [OF geom(1)]) (use below geom(2) sz in \<open>auto simp: pool_geom_def\<close>)
    have "bump \<notin> fst ` set F"
      using geom(1) below by (fastforce simp: large_geom_def placed_def)
    then have "large_ok hi F (used(bump \<mapsto> sz)) ?s"
      using ok g room below by (auto simp: large_ok_def pool_geom_def lseg_frame)
    with alloc g show ?thesis by (auto simp: same_small_def)
  qed
qed

lemma deallocateLarge_bump:
  assumes ok: "large_ok hi F used s" and u: "used (mBumpPtr s) = Some m"
  obtains s' where "deallocateLarge (mBumpPtr s + 8) s = Inr s'" "large_ok hi F (used(mBumpPtr s := None)) s'"
    "mBumpPtr s' = mBumpPtr s + m + 8" "same_small s s'"
proof -
  let ?s = "s\<lparr>mBumpPtr := mBumpPtr s + m + 8\<rparr>"
  have geom: "large_geom (mBumpPtr s) hi F used" "pool_geom hi s" "lNext (larges s (mBumpPtr s)) = m"
    using ok u by (auto simp: large_ok_def)
  have "placed (mBumpPtr s) hi (mBumpPtr s, m)" using geom(1) u by (simp add: large_geom_def)
  then have "pool_geom hi ?s" using geom(2) by (auto simp: pool_geom_def placed_def)
  with geom_raise [OF geom(1) u] ok have "large_ok hi F (used(mBumpPtr s := None)) ?s" by (auto simp: large_ok_def)
  moreover have "deallocateLarge (mBumpPtr s + 8) s = Inr ?s"
    using used_access [OF ok u] geom(3) by (simp add: deallocateLarge_def large_access)
  ultimately show thesis using that by (simp add: same_small_def)
qed

lemma release_code:
  assumes F: "large_list F s" "length F \<le> mPoolEnd s" "gaps F" "\<forall>c\<in>set F. apart (a, m) c"
    and a: "a \<notin> fst ` set F" "a \<noteq> 0" "in_pool a 24 s" "lSize (larges s a) = m" and ne: "F \<noteq> []"
  obtains h where "rbind (large_position (mPoolEnd s) (mLargeFreeList s) a s) (\<lambda>l.
      rbind (link_large l a s) (\<lambda>s. rbind (merge_prev a s) (\<lambda>(lc, s). merge_next lc s)))
      = Inr (relink h (hptr (release_spec (a, m) F) 0) s)"
    "large_list (release_spec (a, m) F) (relink h (hptr (release_spec (a, m) F) 0) s)"
    "\<forall>b. b \<notin> fst ` set F \<and> b \<noteq> a \<longrightarrow> h b = larges s b"
proof -
  define X where "X = takeWhile (\<lambda>d. fst d < a) F"
  define Y where "Y = dropWhile (\<lambda>d. fst d < a) F"
  note sp = place_split [OF F(3,4), folded X_def Y_def]
  have ord: "\<forall>c\<in>set X. fst c < a" "\<forall>c\<in>set Y. a < fst c" using sp(2,3) by (auto simp: before_def)
  obtain X' c where j: "join_prev X (a, m) = (X', c)" by (metis surj_pair)
  have spec: "release_spec (a, m) F = X' @ join_next c Y" using j by (simp add: release_spec_def X_def Y_def)
  have pos: "large_position (mPoolEnd s) (mLargeFreeList s) a s = Inr (if Y = [] then lptr 0 X else hptr Y 0)"
    using large_position_place [of 0 X Y s "mPoolEnd s" a] F(1,2) ord ne sp(1) by (simp add: large_list_def)
  obtain h1 where h1: "link_large (if Y = [] then lptr 0 X else hptr Y 0) a s = Inr (relink h1 (hptr (X @ [(a, m)] @ Y) 0) s)"
    "large_list (X @ [(a, m)] @ Y) (relink h1 (hptr (X @ [(a, m)] @ Y) 0) s)"
    "\<forall>b. b \<notin> fst ` set (X @ (a, m) # Y) \<longrightarrow> h1 b = larges s b"
    by (rule link_large_ok [of X Y s a m]) (use F(1) a ne ord sp(1) in auto)
  have l1: "large_list (X @ (a, m) # Y) (relink h1 (hptr (X @ [(a, m)] @ Y) 0) s)" using h1(2) by simp
  obtain h2 where h2: "merge_prev a (relink h1 (hptr (X @ [(a, m)] @ Y) 0) s) = Inr (fst c, relink h2 (hptr (X' @ [c] @ Y) 0) s)"
    "large_list (X' @ [c] @ Y) (relink h2 (hptr (X' @ [c] @ Y) 0) s)"
    "\<forall>b. b \<notin> fst ` set (X @ (a, m) # Y) \<longrightarrow> h2 b = h1 b"
    using merge_prev_ok [OF l1 j] by auto
  obtain p k where c: "c = (p, k)" by force
  have l2: "large_list (X' @ (p, k) # Y) (relink h2 (hptr (X' @ [c] @ Y) 0) s)" using h2(2) c by simp
  obtain h3 where h3: "merge_next p (relink h2 (hptr (X' @ [c] @ Y) 0) s) = Inr (relink h3 (hptr (X' @ join_next c Y) 0) s)"
    "large_list (X' @ join_next c Y) (relink h3 (hptr (X' @ join_next c Y) 0) s)"
    "\<forall>b. b \<notin> fst ` set (X' @ (p, k) # Y) \<longrightarrow> h3 b = h2 b"
    using merge_next_ok [OF l2] c by auto
  have sub: "fst ` set (X' @ (p, k) # Y) \<subseteq> fst ` set (X @ (a, m) # Y)"
    using j by (rule join_prev_cases) (auto simp: c)
  have "\<forall>b. b \<notin> fst ` set F \<and> b \<noteq> a \<longrightarrow> h3 b = larges s b"
  proof (intro allI impI)
    fix b assume "b \<notin> fst ` set F \<and> b \<noteq> a"
    then have b: "b \<notin> fst ` set (X @ (a, m) # Y)" using sp(1) by (auto simp: image_Un)
    then have "b \<notin> fst ` set (X' @ (p, k) # Y)" using sub by blast
    then have "h3 b = h2 b" using h3(3) by blast
    also have "\<dots> = h1 b" using h2(3) b by blast
    also have "\<dots> = larges s b" using h1(3) b by blast
    finally show "h3 b = larges s b" .
  qed
  moreover have "rbind (large_position (mPoolEnd s) (mLargeFreeList s) a s) (\<lambda>l.
      rbind (link_large l a s) (\<lambda>s. rbind (merge_prev a s) (\<lambda>(lc, s). merge_next lc s)))
      = Inr (relink h3 (hptr (release_spec (a, m) F) 0) s)"
    unfolding pos spec rbind.simps h1(1) h2(1) split h3(1) using h3(1) c by simp
  ultimately show thesis using that [of h3] h3(2) spec by simp
qed

lemma deallocateLarge_list:
  assumes ok: "large_ok hi F used s" and u: "used a = Some m" and a: "a \<noteq> mBumpPtr s"
  obtains s' where "deallocateLarge (a + 8) s = Inr s'" "large_ok hi (release_spec (a, m) F) (used(a := None)) s'"
    "mBumpPtr s' = mBumpPtr s" "same_small s s'"
proof -
  note l = large_ok_list [OF ok] and acc = used_access [OF ok u]
  define s1 where "s1 = relink ((larges s)(a := (larges s a)\<lparr>lSize := m\<rparr>)) (mLargeFreeList s) s"
  have geom: "large_geom (mBumpPtr s) hi F used" "lNext (larges s a) = m" using ok u by (auto simp: large_ok_def)
  have apart: "\<forall>c\<in>set F. apart (a, m) c" using geom(1) u by (auto simp: large_geom_def)
  have l1: "large_list F s1" using l(1) acc(3) by (simp add: large_list_def s1_def lseg_frame)
  obtain h where h: "deallocateLarge (a + 8) s = Inr (relink h (hptr (release_spec (a, m) F) 0) s)"
    "large_list (release_spec (a, m) F) (relink h (hptr (release_spec (a, m) F) 0) s)"
    "\<forall>b. b \<notin> fst ` set F \<and> b \<noteq> a \<longrightarrow> h b = larges s b"
  proof (cases "F = []")
    case True
    have F': "release_spec (a, m) F = [(a, m)]" by (simp add: True release_spec_def join_prev_def join_next_def)
    have "mLargeFreeList s = 0" using l(1) True by (simp add: large_list_def)
    then have "deallocateLarge (a + 8) s = Inr (relink ((larges s)(a := \<lparr>lNext = 0, lSize = m, lPrev = 0\<rparr>)) a s)"
      using a acc geom(2) by (simp add: deallocateLarge_def large_access header_updates) (simp add: relink_def)
    with that F' acc show thesis by (simp add: large_list_def)
  next
    case False
    with l1 have ne: "mLargeFreeList s1 \<noteq> 0" using accessible_hptr [of F s1 0] by (simp add: large_list_def)
    obtain h where h: "rbind (large_position (mPoolEnd s1) (mLargeFreeList s1) a s1) (\<lambda>l.
        rbind (link_large l a s1) (\<lambda>s. rbind (merge_prev a s) (\<lambda>(lc, s). merge_next lc s)))
        = Inr (relink h (hptr (release_spec (a, m) F) 0) s1)"
      "large_list (release_spec (a, m) F) (relink h (hptr (release_spec (a, m) F) 0) s1)"
      "\<forall>b. b \<notin> fst ` set F \<and> b \<noteq> a \<longrightarrow> h b = larges s1 b"
      by (rule release_code [of F s1 a m]) (use l1 l acc apart False in \<open>auto simp: s1_def\<close>)
    have "deallocateLarge (a + 8) s = Inr (relink h (hptr (release_spec (a, m) F) 0) s1)"
    proof -
      have "mLargeFreeList s \<noteq> 0" "mLargeFreeList s1 = mLargeFreeList s" "mPoolEnd s1 = mPoolEnd s"
        using ne by (simp_all add: s1_def)
      then show ?thesis using a acc geom(2) h(1) by (simp add: deallocateLarge_def large_access flip: s1_def)
    qed
    with h that show thesis by (simp add: s1_def)
  qed
  have "\<forall>b k. (used(a := None)) b = Some k \<longrightarrow> lNext (h b) = k"
  proof (intro allI impI)
    fix b k assume "(used(a := None)) b = Some k"
    then have b: "used b = Some k" "b \<noteq> a" by (auto split: if_splits)
    with h(3) used_access(3) [OF ok b(1)] ok show "lNext (h b) = k" by (auto simp: large_ok_def)
  qed
  with h(2) geom_release [OF geom(1) u] have "large_ok hi (release_spec (a, m) F) (used(a := None))
      (relink h (hptr (release_spec (a, m) F) 0) s)" by (intro large_ok_relink [OF ok]) auto
  with h(1) that show thesis by simp
qed

lemma alignUp_bounds: "0 < n \<Longrightarrow> p \<le> alignUp p n \<and> alignUp p n < p + n"
proof -
  assume n: "0 < n"
  have "(p + (n - 1)) div n * n = (p + (n - 1)) - (p + (n - 1)) mod n" by (rule minus_mod_eq_div_mult [symmetric])
  moreover have "(p + (n - 1)) mod n < n" using n by simp
  moreover have "(p + (n - 1)) mod n \<le> p + (n - 1)" by simp
  ultimately show ?thesis unfolding alignUp_def using n by linarith
qed

lemma alignDown_bounds: "0 < n \<Longrightarrow> alignDown p n \<le> p \<and> p < alignDown p n + n"
proof -
  assume n: "0 < n"
  have "p div n * n = p - p mod n" by (rule minus_mod_eq_div_mult [symmetric])
  moreover have "p mod n < n" "p mod n \<le> p" using n by simp_all
  ultimately show ?thesis unfolding alignDown_def using n by linarith
qed

lemma new_large_ok:
  assumes "ScalablePoolAllocator_new p sz bs n = Inr s" "p + sz < size_mod" "n \<le> 32" "0 < p"
  shows "large_ok (mBumpPtr s) [] Map.empty s" "mBlockAllocPtr s = mPool s" "mBlockAllocPtr s + 200000 \<le> mBumpPtr s"
proof -
  let ?c = "if n \<noteq> 0 then n else 32"
  have big: "278528 \<le> sz" and s: "mPool s = alignUp (p + ?c * 16) 16384" "mBlockAllocPtr s = mPool s"
    "mPoolEnd s = p + ?c * 16 + sz - ?c * 16" "mBumpPtr s = alignDown (mPoolEnd s - 8 * ?c) 128" "mLargeFreeList s = 0"
    using assms(1) by (auto simp: ScalablePoolAllocator_new_def Let_def rbind_simps split: if_splits)
  have c: "0 < ?c" "?c \<le> 32" using assms(3) by auto
  have "alignUp (p + ?c * 16) 16384 < p + ?c * 16 + 16384" "p + ?c * 16 \<le> alignUp (p + ?c * 16) 16384"
    using alignUp_bounds [of 16384] by auto
  moreover have "alignDown (mPoolEnd s - 8 * ?c) 128 \<le> mPoolEnd s - 8 * ?c"
    "mPoolEnd s - 8 * ?c < alignDown (mPoolEnd s - 8 * ?c) 128 + 128"
    using alignDown_bounds [of 128] by auto
  ultimately have "0 < mPool s" "mBlockAllocPtr s + 200000 \<le> mBumpPtr s" "mBumpPtr s \<le> mPoolEnd s" "mPoolEnd s < size_mod"
    using s big c assms(2,4) by linarith+
  then show "large_ok (mBumpPtr s) [] Map.empty s" "mBlockAllocPtr s = mPool s" "mBlockAllocPtr s + 200000 \<le> mBumpPtr s"
    using s by (auto simp: large_ok_def pool_geom_def large_geom_def)
qed

definition sample_pool :: ScalablePoolAllocator where
  "sample_pool = (case ScalablePoolAllocator_new 65536 1048576 None 0 of Inr s \<Rightarrow> s | Inl _ \<Rightarrow> undefined)"

lemma sample_pool_new: "ScalablePoolAllocator_new 65536 1048576 None 0 = Inr sample_pool"
  by (simp add: sample_pool_def ScalablePoolAllocator_new_def alignUp_def alignDown_def Let_def)

lemma sample_pool_values:
  "mBumpPtr sample_pool = 1113856" "mPoolEnd sample_pool = 1114112" "mPool sample_pool = 81920"
  "mBlockAllocPtr sample_pool = 81920" "BIN_COUNT sample_pool = 32"
  "mBinSizes sample_pool = (\<lambda>i. if i < 32 then default_bin_sizes ! i else 0)"
  by (simp_all add: sample_pool_def ScalablePoolAllocator_new_def alignUp_def alignDown_def Let_def)

lemma sample_pool_ok:
  "large_ok (mBumpPtr sample_pool) [] Map.empty sample_pool" "mBlockAllocPtr sample_pool + 200000 \<le> mBumpPtr sample_pool"
  using new_large_ok [OF sample_pool_new] by (simp_all add: size_mod_def)

section \<open>Properties\<close>

definition alloc_large_spec :: "nat \<Rightarrow> nat \<Rightarrow> nat \<Rightarrow> chunks \<Rightarrow> (nat \<times> nat \<times> chunks) option" where
  "alloc_large_spec lo bump sz F =
     (case fit_spec sz F of Some (a, F') \<Rightarrow> Some (a, bump, F')
      | None \<Rightarrow> if lo + sz + 8 \<le> bump then Some (bump - sz - 8, bump - sz - 8, F) else None)"

text \<open>
  C9. Large chunks are allocated by first fit: the linked list of free chunks is searched in address order,
  a chunk that is at least 25 bytes too large is split, and if none fits the bump pointer is
  lowered; only if that would run into the blocks is \<open>NULL\<close> returned, with nothing changed. The chunk
  handed out overlaps no other chunk, free or in use, and lies inside the pool.
\<close>

theorem allocateLarge_first_fit:
  assumes "large_ok hi F used s" "16 \<le> sz" "sz + 8 \<le> mBumpPtr s"
  shows "case alloc_large_spec (mBlockAllocPtr s) (mBumpPtr s) sz F of
      None \<Rightarrow> allocateLarge sz s = Inr (0, s)
    | Some (a, bump, F') \<Rightarrow> \<exists>s'. allocateLarge sz s = Inr (a + 8, s') \<and> used a = None \<and>
        large_ok hi F' (used(a \<mapsto> sz)) s' \<and> mBumpPtr s' = bump \<and> same_small s s'"
proof (cases "fit_spec sz F")
  case None
  note bump = allocateLarge_bump [OF assms None]
  have "mBlockAllocPtr s + sz + 8 \<le> mBumpPtr s \<longleftrightarrow> mBlockAllocPtr s \<le> mBumpPtr s - sz - 8" using assms(3) by linarith
  then show ?thesis using bump None by (cases "mBlockAllocPtr s \<le> mBumpPtr s - sz - 8") (auto simp: alloc_large_spec_def)
next
  case (Some r)
  obtain a F' where r: "r = (a, F')" by force
  with Some show ?thesis using allocateLarge_fit [OF assms(1,2), of a F'] by (auto simp: alloc_large_spec_def)
qed

theorem allocateLarge_first_fit_witness:
  "\<exists>s'. allocateLarge 10000 sample_pool = Inr (mBumpPtr sample_pool - 10000, s') \<and>
     mBumpPtr s' = mBumpPtr sample_pool - 10008"
  using allocateLarge_first_fit [OF sample_pool_ok(1), of 10000] sample_pool_ok(2)
  by (auto simp: alloc_large_spec_def fit_spec_def extract_Nil_code)

text \<open>
  C10. Releasing a large chunk: the lowest chunk raises the bump pointer, any other is inserted into the free list
  at its address and joined with the free chunk that ends where it starts and the one that starts
  where it ends. The remaining chunks in use keep their extents and their size words.
\<close>

theorem deallocateLarge_joins:
  assumes "large_ok hi F used s" "used a = Some m"
  shows "\<exists>s'. deallocateLarge (a + 8) s = Inr s' \<and> same_small s s' \<and>
    (if a = mBumpPtr s then mBumpPtr s' = a + m + 8 \<and> large_ok hi F (used(a := None)) s'
     else mBumpPtr s' = mBumpPtr s \<and> large_ok hi (release_spec (a, m) F) (used(a := None)) s')"
  using deallocateLarge_bump [OF assms(1)] deallocateLarge_list [OF assms] assms(2) by metis

theorem deallocateLarge_joins_witness:
  "\<exists>a s s'. deallocateLarge (a + 8) s = Inr s' \<and> mBumpPtr s' = mBumpPtr s + 10008"
proof -
  let ?s = sample_pool and ?a = "mBumpPtr sample_pool - 10008"
  have "mBlockAllocPtr ?s \<le> ?a" "10000 + 8 \<le> mBumpPtr ?s" using sample_pool_ok(2) by linarith+
  then obtain s where s: "large_ok (mBumpPtr ?s) [] [?a \<mapsto> 10000] s" "mBumpPtr s = ?a"
    using allocateLarge_bump(2) [OF sample_pool_ok(1), of 10000] by (auto simp: fit_spec_def extract_Nil_code)
  from deallocateLarge_joins [OF s(1), of ?a 10000] s(2)
  obtain s' where "deallocateLarge (?a + 8) s = Inr s'" "mBumpPtr s' = mBumpPtr s + 10008" by auto
  then show ?thesis by blast
qed

text \<open>
  A request within \<open>mPoolEnd - mBumpPtr\<close> bytes of the range of \<open>size_t\<close> is not refused: the subtraction from the bump
  pointer wraps around, the bump pointer moves up by \<open>k\<close> bytes into memory that is already handed
  out, and a pointer into it is returned.
\<close>

theorem huge_large_request_wraps:
  assumes ok: "large_ok hi F used s" and k: "0 < k" "mBumpPtr s + k + 8 \<le> mPoolEnd s" and small: "2 * mPoolEnd s < size_mod"
  shows "\<exists>s'. allocateLarge (size_mod - 8 - k) s = Inr (mBumpPtr s + k + 8, s') \<and> mBumpPtr s' = mBumpPtr s + k"
proof -
  note l = large_ok_list [OF ok]
  have geom: "large_geom (mBumpPtr s) hi F used" "pool_geom hi s" using ok by (auto simp: large_ok_def)
  have "snd c < size_mod - 8 - k" if "c \<in> set F" for c
  proof -
    have "placed (mBumpPtr s) hi c" using geom(1) that by (simp add: large_geom_def)
    then show ?thesis using geom(2) k small by (auto simp: placed_def pool_geom_def)
  qed
  then have "fit_spec (size_mod - 8 - k) F = None" by (simp add: extract_fit)
  then have find: "find_large (mPoolEnd s) (mLargeFreeList s) (size_mod - 8 - k) s = Inr 0"
    using find_large_first [of 0 F s "mPoolEnd s" "size_mod - 8 - k"] l by (simp add: large_list_def)
  have lt: "mBumpPtr s + k + 8 < size_mod" using k small by linarith
  have "sz_sub (mBumpPtr s) (size_mod - 8 - k) = mBumpPtr s + k + 8"
  proof -
    have "mBumpPtr s + size_mod - (size_mod - 8 - k) = mBumpPtr s + k + 8" using lt by linarith
    then show ?thesis using lt unfolding sz_sub_def by simp
  qed
  moreover have "sz_sub (mBumpPtr s + k + 8) 8 = mBumpPtr s + k" using lt by (subst sz_sub_exact) auto
  ultimately have "allocateLarge (size_mod - 8 - k) s = Inr (mBumpPtr s + k + 8,
      s\<lparr>mBumpPtr := mBumpPtr s + k, larges := (larges s)(mBumpPtr s + k := (larges s (mBumpPtr s + k))\<lparr>lNext := size_mod - 8 - k\<rparr>)\<rparr>)"
    using find geom(2) k by (simp add: allocateLarge_def Let_def set_psz_def pool_access_def in_pool_def pool_geom_def)
  then show ?thesis by auto
qed

theorem huge_large_request_wraps_witness:
  "\<exists>s'. allocateLarge (size_mod - 16) sample_pool = Inr (16 + mBumpPtr sample_pool, s') \<and> mBumpPtr s' = mBumpPtr sample_pool + 8"
proof -
  have "mBumpPtr sample_pool + 8 + 8 \<le> mPoolEnd sample_pool" "2 * mPoolEnd sample_pool < size_mod"
    by (simp_all add: sample_pool_values size_mod_def)
  with huge_large_request_wraps [OF sample_pool_ok(1), of 8] show ?thesis by (simp add: size_mod_def)
qed

section \<open>Size classes\<close>

text \<open>The specification of the comparison tree: the number of bins that are too small.\<close>

definition linear_index :: "nat \<Rightarrow> ScalablePoolAllocator \<Rightarrow> nat" where
  "linear_index sz s = length (takeWhile (\<lambda>i. mBinSizes s i < sz) [0..<BIN_COUNT s])"

definition bins_sorted :: "ScalablePoolAllocator \<Rightarrow> bool" where
  "bins_sorted s \<longleftrightarrow> (\<forall>j<BIN_COUNT s. \<forall>i<j. mBinSizes s i < mBinSizes s j)"

lemma linear_index_eq:
  assumes "bins_sorted s" "i < BIN_COUNT s" "sz \<le> mBinSizes s i" "i = 0 \<or> mBinSizes s (i - 1) < sz"
  shows "linear_index sz s = i"
proof -
  have "mBinSizes s j < sz" if "j < i" for j
  proof (cases "j = i - 1")
    case False
    with that assms have "mBinSizes s j < mBinSizes s (i - 1)" by (auto simp: bins_sorted_def)
    with that assms show ?thesis by auto
  qed (use that assms in auto)
  then have "takeWhile (\<lambda>i. mBinSizes s i < sz) ([0..<i] @ i # [Suc i..<BIN_COUNT s]) = [0..<i]"
    using assms(3) by (subst takeWhile_append2) auto
  moreover have "[0..<BIN_COUNT s] = [0..<i] @ i # [Suc i..<BIN_COUNT s]"
    using assms(2) upt_add_eq_append [of 0 i "BIN_COUNT s - i"] by (simp add: upt_conv_Cons)
  ultimately show ?thesis by (simp add: linear_index_def)
qed

lemma pick_is_linear:
  assumes "bins_sorted s" "sz \<le> mBinSizes s (BIN_COUNT s - 1)" "i < BIN_COUNT s" "i = 0 \<or> mBinSizes s (i - 1) < sz"
    "BIN_COUNT s < i + 3 \<or> sz \<le> mBinSizes s (Suc i)"
  shows "(if sz \<le> mBinSizes s i then i else Suc i) = linear_index sz s"
proof (cases "sz \<le> mBinSizes s i")
  case True
  with assms show ?thesis by (simp add: linear_index_eq)
next
  case False
  have "BIN_COUNT s - 1 \<noteq> i" using False assms(2) by metis
  then have lt: "Suc i < BIN_COUNT s" using assms(3) by linarith
  then have "sz \<le> mBinSizes s (Suc i)"
  proof (cases "BIN_COUNT s < i + 3")
    case True
    with lt have "BIN_COUNT s - 1 = Suc i" by linarith
    with assms(2) show ?thesis by simp
  qed (use assms(5) in simp)
  with False lt assms(1) show ?thesis using linear_index_eq [of s "Suc i" sz] by simp
qed

definition leaf :: "ScalablePoolAllocator \<Rightarrow> nat \<Rightarrow> nat \<Rightarrow> nat" where
  "leaf s sz i = (if sz \<le> mBinSizes s i then i else Suc i)"

lemma if_both: "(c \<or> d \<Longrightarrow> a = x) \<Longrightarrow> (\<not> c \<Longrightarrow> \<not> d \<Longrightarrow> b = x) \<Longrightarrow> (if c \<or> d then a else b) = x"
  by simp

lemma tree_is_linear:
  assumes "bins_sorted s" "BIN_COUNT s \<le> 32" "0 < BIN_COUNT s" "sz \<le> mBinSizes s (BIN_COUNT s - 1)"
  shows "getIndexOrChunkSize True sz s = linear_index sz s"
    "getIndexOrChunkSize False sz s = mBinSizes s (getIndexOrChunkSize True sz s)"
proof -
  have pick: "leaf s sz i = linear_index sz s"
    if "i < BIN_COUNT s" "i = 0 \<or> mBinSizes s (i - 1) < sz" "BIN_COUNT s < i + 3 \<or> sz \<le> mBinSizes s (i + 1)" for i
    using pick_is_linear [OF assms(1,4) that(1,2)] that(3) by (simp add: leaf_def)
  have "getIndexOrChunkSize True sz s =
     (if BIN_COUNT s < 17 \<or> sz \<le> mBinSizes s 15 then
        if BIN_COUNT s < 9 \<or> sz \<le> mBinSizes s 7 then
          if BIN_COUNT s < 5 \<or> sz \<le> mBinSizes s 3 then
            if BIN_COUNT s < 3 \<or> sz \<le> mBinSizes s 1 then leaf s sz 0 else leaf s sz 2
          else
            if BIN_COUNT s < 7 \<or> sz \<le> mBinSizes s 5 then leaf s sz 4 else leaf s sz 6
        else
          if BIN_COUNT s < 13 \<or> sz \<le> mBinSizes s 11 then
            if BIN_COUNT s < 11 \<or> sz \<le> mBinSizes s 9 then leaf s sz 8 else leaf s sz 10
          else
            if BIN_COUNT s < 15 \<or> sz \<le> mBinSizes s 13 then leaf s sz 12 else leaf s sz 14
      else
        if BIN_COUNT s < 25 \<or> sz \<le> mBinSizes s 23 then
          if BIN_COUNT s < 21 \<or> sz \<le> mBinSizes s 19 then
            if BIN_COUNT s < 19 \<or> sz \<le> mBinSizes s 17 then leaf s sz 16 else leaf s sz 18
          else
            if BIN_COUNT s < 23 \<or> sz \<le> mBinSizes s 21 then leaf s sz 20 else leaf s sz 22
        else
          if BIN_COUNT s < 29 \<or> sz \<le> mBinSizes s 27 then
            if BIN_COUNT s < 27 \<or> sz \<le> mBinSizes s 25 then leaf s sz 24 else leaf s sz 26
          else
            if BIN_COUNT s < 31 \<or> sz \<le> mBinSizes s 29 then leaf s sz 28 else leaf s sz 30)"
    unfolding getIndexOrChunkSize_def Let_def if_True leaf_def
    by (simp only: Suc_numeral add_num_simps One_nat_def)
  also have "\<dots> = linear_index sz s"
    by (intro if_both; rule pick) (simp | use assms(2,3) in linarith)+
  finally show "getIndexOrChunkSize True sz s = linear_index sz s" .
  show "getIndexOrChunkSize False sz s = mBinSizes s (getIndexOrChunkSize True sz s)"
    by (simp only: getIndexOrChunkSize_def Let_def if_True if_False if_distrib [of "mBinSizes s"])
qed

text \<open>
  The comparison tree of \<open>getIndexOrChunkSize\<close> is equivalent to a linear search: for a table of at most 32 ascending bin
  sizes and a request that fits the last bin it returns the first bin that is large enough, and
  \<open>getChunkSize\<close> the size of that bin.
\<close>

theorem size_class_is_first_fit:
  assumes "bins_sorted s" "BIN_COUNT s \<le> 32" "0 < BIN_COUNT s" "sz \<le> mBinSizes s (BIN_COUNT s - 1)"
  shows "getIndex sz s = linear_index sz s \<and> getChunkSize sz s = mBinSizes s (linear_index sz s) \<and>
    linear_index sz s < BIN_COUNT s \<and> sz \<le> mBinSizes s (linear_index sz s)"
proof -
  obtain i where i: "i < BIN_COUNT s" "sz \<le> mBinSizes s i" "\<forall>j<i. \<not> sz \<le> mBinSizes s j"
    using exists_least_iff [of "\<lambda>i. i < BIN_COUNT s \<and> sz \<le> mBinSizes s i"] assms(3,4)
    by (metis diff_less less_trans zero_less_one)
  have "linear_index sz s = i" using i assms(1) by (cases i) (auto intro!: linear_index_eq simp: not_le)
  with i tree_is_linear [OF assms] show ?thesis by (simp add: getIndex_def getChunkSize_def)
qed

lemma default_sorted: "bins_sorted sample_pool"
proof -
  have "sorted_wrt (<) default_bin_sizes" by (simp add: default_bin_sizes_def)
  then show ?thesis
    by (auto simp: bins_sorted_def sample_pool_values sorted_wrt_iff_nth_less default_bin_sizes_def)
qed

theorem size_class_is_first_fit_witness:
  "getIndex 100 sample_pool = linear_index 100 sample_pool \<and> 100 \<le> mBinSizes sample_pool (linear_index 100 sample_pool)"
proof -
  have "100 \<le> mBinSizes sample_pool (BIN_COUNT sample_pool - 1)" by (simp add: sample_pool_values default_bin_sizes_def)
  with size_class_is_first_fit [OF default_sorted, of 100] show ?thesis by (simp add: sample_pool_values(5))
qed

end
