(* ===== verification/Pool_Blocks.thy ===== *)
theory Pool_Blocks
  imports Pool
begin

text \<open>
  The small-object half of \<open>ScalablePoolAllocator.cpp\<close>: blocks of 16 KB from the bottom of the pool,
  stacks of free and of orphaned blocks, the bins of each thread, the private and public free lists
  of a block, and the two public operations \<open>allocate\<close> and \<open>deallocate\<close>. \<open>t\<close> is the calling thread.
\<close>

section \<open>Stacks of blocks\<close>

text \<open>A stack is the address of its tp; the link is the first word of the block, its \<open>mNext\<close>.\<close>

definition Stack_push :: "nat \<Rightarrow> nat \<Rightarrow> ScalablePoolAllocator \<Rightarrow> (nat \<times> ScalablePoolAllocator) result" where
  "Stack_push p tp s = rbind (mod_block p (\<lambda>b. b\<lparr>mNext := tp\<rparr>) s) (\<lambda>s. Inr (p, s))"

definition Stack_pop :: "nat \<Rightarrow> ScalablePoolAllocator \<Rightarrow> (nat \<times> nat \<times> ScalablePoolAllocator) result" where
  "Stack_pop tp s =
     (if tp = 0 then Inr (0, 0, s)
      else rbind (get_block tp s) (\<lambda>b.
           rbind (mod_block tp (\<lambda>b. b\<lparr>mNext := 0\<rparr>) s) (\<lambda>s. Inr (tp, mNext b, s))))"

definition push_free :: "nat \<Rightarrow> ScalablePoolAllocator \<Rightarrow> ScalablePoolAllocator result" where
  "push_free p s = rbind (Stack_push p (mFreeBlockStack s) s) (\<lambda>(tp, s). Inr (s\<lparr>mFreeBlockStack := tp\<rparr>))"

definition pop_free :: "ScalablePoolAllocator \<Rightarrow> (nat \<times> ScalablePoolAllocator) result" where
  "pop_free s = rbind (Stack_pop (mFreeBlockStack s) s) (\<lambda>(p, tp, s). Inr (p, s\<lparr>mFreeBlockStack := tp\<rparr>))"

definition push_global :: "nat \<Rightarrow> nat \<Rightarrow> ScalablePoolAllocator \<Rightarrow> ScalablePoolAllocator result" where
  "push_global idx p s =
     rbind (Stack_push p (mGlobalBins s idx) s) (\<lambda>(tp, s). Inr (s\<lparr>mGlobalBins := (mGlobalBins s)(idx := tp)\<rparr>))"

definition pop_global :: "nat \<Rightarrow> ScalablePoolAllocator \<Rightarrow> (nat \<times> ScalablePoolAllocator) result" where
  "pop_global idx s =
     rbind (Stack_pop (mGlobalBins s idx) s) (\<lambda>(p, tp, s). Inr (p, s\<lparr>mGlobalBins := (mGlobalBins s)(idx := tp)\<rparr>))"

section \<open>Threads and empty blocks\<close>

definition getThreadID :: "nat \<Rightarrow> ScalablePoolAllocator \<Rightarrow> nat \<times> ScalablePoolAllocator" where
  "getThreadID t s =
     (if mThreadID s t = 0
      then let ret = sz_add (mThreadCount s) 1 in (ret, s\<lparr>mThreadCount := ret, mThreadID := (mThreadID s)(t := ret)\<rparr>)
      else (mThreadID s t, s))"

definition allocateBlocks :: "ScalablePoolAllocator \<Rightarrow> (bool \<times> ScalablePoolAllocator) result" where
  "allocateBlocks s =
     (let blk = mBlockAllocPtr s; s = s\<lparr>mBlockAllocPtr := blk + BIG_BLOCK_SIZE\<rparr> in
      if mBlockAllocPtr s > mBumpPtr s then Inr (False, s)
      else rbind (mod_block blk (\<lambda>b. b\<lparr>bBumpPtr := blk + BIG_BLOCK_SIZE\<rparr>) s) (\<lambda>s.
           rbind (push_free blk s) (\<lambda>s. Inr (True, s))))"

definition initEmptyBlock :: "nat \<Rightarrow> nat \<Rightarrow> nat \<Rightarrow> ScalablePoolAllocator \<Rightarrow> ScalablePoolAllocator result" where
  "initEmptyBlock t block sz s =
     (let idx = getIndex sz s; chunkSize = getChunkSize sz s; tls = mBins s t; (tid, s) = getThreadID t s in
      mod_block block (\<lambda>b. \<lparr>mNext = 0, mOwnerID = tid, mPrev = 0, mChunkSize = chunkSize,
        bBumpPtr = block + BLOCK_SIZE - chunkSize, mFreeList = 0, mAllocationCount = 0, mIsFull = False,
        mPublicFreeList = 0, mNextPrivatizable = (if tls \<noteq> 0 then tls + idx * sizeof_Bin else 0)\<rparr>) s)"

text \<open>The loop that asks for more blocks until the stack gives one; \<open>0\<close> when the pool is exhausted.\<close>

fun pop_big_block :: "nat \<Rightarrow> ScalablePoolAllocator \<Rightarrow> (nat \<times> ScalablePoolAllocator) result" where
  "pop_big_block 0 s = Inl NoReturn"
| "pop_big_block (Suc k) s =
     rbind (pop_free s) (\<lambda>(bigBlock, s).
       if bigBlock \<noteq> 0 then Inr (bigBlock, s)
       else rbind (allocateBlocks s) (\<lambda>(ok, s). if ok then pop_big_block k s else Inr (0, s)))"

definition getEmptyBlock :: "nat \<Rightarrow> nat \<Rightarrow> ScalablePoolAllocator \<Rightarrow> (nat \<times> ScalablePoolAllocator) result" where
  "getEmptyBlock t sz s =
     rbind (pop_big_block (mPoolEnd s) s) (\<lambda>(bigBlock, s).
       if bigBlock = 0 then Inr (0, s)
       else rbind (mod_block bigBlock (\<lambda>b. b\<lparr>bBumpPtr := sz_sub (bBumpPtr b) BLOCK_SIZE\<rparr>) s) (\<lambda>s.
            rbind (get_block bigBlock s) (\<lambda>b.
            let ret = bBumpPtr b in
            rbind (if ret \<noteq> bigBlock then push_free bigBlock s else Inr s) (\<lambda>s.
            rbind (initEmptyBlock t ret sz s) (\<lambda>s. Inr (ret, s))))))"

definition returnEmptyBlock :: "nat \<Rightarrow> ScalablePoolAllocator \<Rightarrow> ScalablePoolAllocator result" where
  "returnEmptyBlock block s =
     rbind (mod_block block (\<lambda>b. \<lparr>mNext = 0, mOwnerID = OWNER_ID_NULL, mPrev = 0, mChunkSize = 0,
        bBumpPtr = block + BLOCK_SIZE, mFreeList = 0, mAllocationCount = 0, mIsFull = False,
        mPublicFreeList = 0, mNextPrivatizable = 0\<rparr>) s) (push_free block)"

section \<open>Thread-local bins\<close>

text \<open>\<open>memset(p, 0, n)\<close> on every view of the pool.\<close>

definition pool_memset :: "nat \<Rightarrow> nat \<Rightarrow> ScalablePoolAllocator \<Rightarrow> ScalablePoolAllocator result" where
  "pool_memset p n s =
     rbind (pool_access p n s) (\<lambda>_.
       Inr (s\<lparr>bins := (\<lambda>a. if p \<le> a \<and> a < p + n then zero_bin else bins s a),
              blocks := (\<lambda>a. if p \<le> a \<and> a < p + n then zero_block else blocks s a),
              links := (\<lambda>a. if p \<le> a \<and> a < p + n then 0 else links s a)\<rparr>))"

text \<open>The chunk a new set of bins is put into: a released one, or the next one of the block for bins.\<close>

definition tls_chunk :: "nat \<Rightarrow> nat \<Rightarrow> ScalablePoolAllocator \<Rightarrow> (nat \<times> ScalablePoolAllocator) result" where
  "tls_chunk t sz s =
     (if mTLSChunkList s \<noteq> 0
      then rbind (get_link (mTLSChunkList s) s) (\<lambda>n. Inr (mTLSChunkList s, s\<lparr>mTLSChunkList := n\<rparr>))
      else
        rbind (if mTLSAllocBlock s = 0
               then rbind (getEmptyBlock t sz s) (\<lambda>(b, s). Inr (s\<lparr>mTLSAllocBlock := b\<rparr>)) else Inr s) (\<lambda>s.
        let ab = mTLSAllocBlock s in
        if ab = 0 then Inr (0, s)
        else rbind (get_block ab s) (\<lambda>b.
          let bump = sz_sub (bBumpPtr b) (mChunkSize b) in
          if bump < ab + sizeof_Block
          then rbind (mod_block ab (\<lambda>x. x\<lparr>bBumpPtr := 0, mNext := mTLSUsedBlocks s\<rparr>) s) (\<lambda>s.
               Inr (bBumpPtr b, s\<lparr>mTLSUsedBlocks := ab, mTLSAllocBlock := 0\<rparr>))
          else rbind (mod_block ab (\<lambda>x. x\<lparr>bBumpPtr := bump\<rparr>) s) (\<lambda>s. Inr (bBumpPtr b, s)))))"

definition allocateTLS :: "nat \<Rightarrow> nat \<Rightarrow> ScalablePoolAllocator \<Rightarrow> (nat \<times> ScalablePoolAllocator) result" where
  "allocateTLS t sz s =
     rbind (tls_chunk t sz s) (\<lambda>(ret, s).
       if ret = 0 then Inr (0, s) else rbind (pool_memset ret sz s) (\<lambda>s. Inr (ret, s)))"

definition deallocateTLS :: "nat \<Rightarrow> ScalablePoolAllocator \<Rightarrow> ScalablePoolAllocator result" where
  "deallocateTLS p s = rbind (set_link p (mTLSChunkList s) s) (\<lambda>s. Inr (s\<lparr>mTLSChunkList := p\<rparr>))"

text \<open>The pointer to the allocator in front of the bins is not stored: there is one allocator.\<close>

definition getBin :: "nat \<Rightarrow> nat \<Rightarrow> ScalablePoolAllocator \<Rightarrow> (nat \<times> ScalablePoolAllocator) result" where
  "getBin t sz s =
     (if mBins s t \<noteq> 0 then Inr (mBins s t + getIndex sz s * sizeof_Bin, s)
      else rbind (allocateTLS t (TLS_SIZE s) s) (\<lambda>(b, s).
        if b = 0 then Inr (0, s)
        else let s = s\<lparr>mBins := (mBins s)(t := b + sizeof_Bin)\<rparr> in
             Inr (b + sizeof_Bin + getIndex sz s * sizeof_Bin, s)))"

section \<open>Chunks of a block\<close>

definition restoreBumpPtr :: "nat \<Rightarrow> ScalablePoolAllocator \<Rightarrow> ScalablePoolAllocator result" where
  "restoreBumpPtr block s =
     mod_block block (\<lambda>b. b\<lparr>bBumpPtr := block + BLOCK_SIZE - mChunkSize b, mFreeList := 0, mIsFull := False\<rparr>) s"

definition allocateFromFreeList :: "nat \<Rightarrow> ScalablePoolAllocator \<Rightarrow> (nat \<times> ScalablePoolAllocator) result" where
  "allocateFromFreeList block s =
     rbind (get_block block s) (\<lambda>b.
       if mFreeList b = 0 then Inr (0, s)
       else rbind (get_link (mFreeList b) s) (\<lambda>n.
            rbind (mod_block block (\<lambda>b. b\<lparr>mFreeList := n, mAllocationCount := sz_add (mAllocationCount b) 1\<rparr>) s) (\<lambda>s.
              Inr (mFreeList b, s))))"

definition allocateFromBumpPtr :: "nat \<Rightarrow> ScalablePoolAllocator \<Rightarrow> (nat \<times> ScalablePoolAllocator) result" where
  "allocateFromBumpPtr block s =
     rbind (get_block block s) (\<lambda>b.
       let ret = bBumpPtr b in
       if ret = 0 then Inr (0, s)
       else let bump = sz_sub ret (mChunkSize b) in
            rbind (mod_block block (\<lambda>b. b\<lparr>bBumpPtr := (if bump < block + sizeof_Block then 0 else bump),
                     mAllocationCount := sz_add (mAllocationCount b) 1\<rparr>) s) (\<lambda>s. Inr (ret, s)))"

definition allocateFromBlock :: "nat \<Rightarrow> ScalablePoolAllocator \<Rightarrow> (nat \<times> ScalablePoolAllocator) result" where
  "allocateFromBlock block s =
     rbind (allocateFromFreeList block s) (\<lambda>(ret, s).
       if ret \<noteq> 0 then Inr (ret, s)
       else rbind (allocateFromBumpPtr block s) (\<lambda>(ret, s).
         if ret \<noteq> 0 then Inr (ret, s)
         else rbind (mod_block block (\<lambda>b. b\<lparr>mIsFull := True\<rparr>) s) (\<lambda>s. Inr (0, s))))"

text \<open>The owner's half of \<open>deallocate\<close>: the chunk goes to the front of the private free list.\<close>

definition free_private :: "nat \<Rightarrow> nat \<Rightarrow> ScalablePoolAllocator \<Rightarrow> ScalablePoolAllocator result" where
  "free_private block chunk s =
     rbind (get_block block s) (\<lambda>b.
     rbind (set_link chunk (mFreeList b) s) (\<lambda>s.
       mod_block block (\<lambda>b. b\<lparr>mFreeList := chunk, mAllocationCount := sz_sub (mAllocationCount b) 1\<rparr>) s))"

text \<open>
  The walk of \<open>privatizePublicFreeList\<close> to the last chunk of the public list, which counts the chunks
  after the first one.
\<close>

fun last_chunk :: "nat \<Rightarrow> nat \<Rightarrow> nat \<Rightarrow> ScalablePoolAllocator \<Rightarrow> (nat \<times> nat) result" where
  "last_chunk 0 tmp n s = Inl NoReturn"
| "last_chunk (Suc k) tmp n s =
     rbind (get_link tmp s) (\<lambda>nx. if isInvalid nx then Inr (tmp, n) else last_chunk k nx (n + 1) s)"

definition privatizePublicFreeList :: "nat \<Rightarrow> ScalablePoolAllocator \<Rightarrow> ScalablePoolAllocator result" where
  "privatizePublicFreeList block s =
     rbind (get_block block s) (\<lambda>b.
     rbind (mod_block block (\<lambda>b. b\<lparr>mPublicFreeList := 0\<rparr>) s) (\<lambda>s.
       if isInvalid (mPublicFreeList b) then Inr s
       else rbind (last_chunk (mPoolEnd s) (mPublicFreeList b) 1 s) (\<lambda>(tmp, n).
            rbind (set_link tmp (mFreeList b) s) (\<lambda>s.
              mod_block block (\<lambda>b'. b'\<lparr>mFreeList := mPublicFreeList b,
                mAllocationCount := sz_sub (mAllocationCount b') n\<rparr>) s))))"

definition freePublicChunk :: "nat \<Rightarrow> nat \<Rightarrow> ScalablePoolAllocator \<Rightarrow> ScalablePoolAllocator result" where
  "freePublicChunk block chunk s =
     rbind (get_block block s) (\<lambda>b.
     rbind (set_link chunk (mPublicFreeList b) s) (\<lambda>s.
     rbind (mod_block block (\<lambda>b. b\<lparr>mPublicFreeList := chunk\<rparr>) s) (\<lambda>s.
       if mPublicFreeList b = 0 \<and> \<not> isInvalid (mNextPrivatizable b)
       then let bin = mNextPrivatizable b in
            rbind (get_bin bin s) (\<lambda>bi.
            rbind (mod_block block (\<lambda>b. b\<lparr>mNextPrivatizable := mMailBox bi\<rparr>) s) (\<lambda>s.
              mod_bin bin (\<lambda>bi. bi\<lparr>mMailBox := block\<rparr>) s))
       else Inr s)))"

definition emptyEnoughToUse :: "nat \<Rightarrow> ScalablePoolAllocator \<Rightarrow> (bool \<times> ScalablePoolAllocator) result" where
  "emptyEnoughToUse block s =
     rbind (get_block block s) (\<lambda>b.
       let full = (bBumpPtr b = 0 \<and> mAllocationCount b * mChunkSize b > EMPTY_ENOUGH_THRESHOLD) in
       rbind (mod_block block (\<lambda>b. b\<lparr>mIsFull := full\<rparr>) s) (\<lambda>s. Inr (\<not> full, s)))"

section \<open>Blocks of a bin\<close>

definition getPublicFreeListBlock :: "nat \<Rightarrow> ScalablePoolAllocator \<Rightarrow> (nat \<times> ScalablePoolAllocator) result" where
  "getPublicFreeListBlock bin s =
     rbind (get_bin bin s) (\<lambda>bi.
       let ret = mMailBox bi in
       if ret = 0 then Inr (0, s)
       else rbind (get_block ret s) (\<lambda>b.
            rbind (mod_bin bin (\<lambda>bi. bi\<lparr>mMailBox := mNextPrivatizable b\<rparr>) s) (\<lambda>s.
            rbind (mod_block ret (\<lambda>b. b\<lparr>mNextPrivatizable := bin\<rparr>) s) (\<lambda>s.
            rbind (privatizePublicFreeList ret s) (\<lambda>s. Inr (ret, s))))))"

definition getPartialBlock :: "nat \<Rightarrow> nat \<Rightarrow> nat \<Rightarrow> ScalablePoolAllocator \<Rightarrow> (nat \<times> ScalablePoolAllocator) result" where
  "getPartialBlock t bin sz s =
     rbind (pop_global (getIndex sz s) s) (\<lambda>(ret, s).
       if ret = 0 then Inr (0, s)
       else let (tid, s) = getThreadID t s in
            rbind (mod_block ret (\<lambda>b. b\<lparr>mNext := 0, mPrev := 0, mOwnerID := tid, mNextPrivatizable := bin\<rparr>) s) (\<lambda>s.
            rbind (privatizePublicFreeList ret s) (\<lambda>s.
            rbind (get_block ret s) (\<lambda>b.
            rbind (if mAllocationCount b \<noteq> 0
                   then rbind (emptyEnoughToUse ret s) (\<lambda>(_, s). Inr s)
                   else restoreBumpPtr ret s) (\<lambda>s. Inr (ret, s))))))"

text \<open>The wait of \<open>returnPartialBlock\<close> for a thread in the middle of \<open>freePublicChunk\<close> cannot end when
  no other thread runs.\<close>

definition returnPartialBlock :: "nat \<Rightarrow> nat \<Rightarrow> ScalablePoolAllocator \<Rightarrow> ScalablePoolAllocator result" where
  "returnPartialBlock bin block s =
     rbind (get_block block s) (\<lambda>b.
     rbind (if mNextPrivatizable b = bin
            then if mPublicFreeList b = 0 then mod_block block (\<lambda>b. b\<lparr>mPublicFreeList := INVALID\<rparr>) s else Inl NoReturn
            else Inr s) (\<lambda>s.
     rbind (mod_block block (\<lambda>b. b\<lparr>mPrev := 0, mOwnerID := 0, mNextPrivatizable := INVALID\<rparr>) s) (\<lambda>s.
       push_global (getIndex (mChunkSize b) s) block s)))"

definition set_block_next :: "nat \<Rightarrow> nat \<Rightarrow> ScalablePoolAllocator \<Rightarrow> ScalablePoolAllocator result" where
  "set_block_next p v s = (if p \<noteq> 0 then mod_block p (\<lambda>b. b\<lparr>mNext := v\<rparr>) s else Inr s)"

definition set_block_prev :: "nat \<Rightarrow> nat \<Rightarrow> ScalablePoolAllocator \<Rightarrow> ScalablePoolAllocator result" where
  "set_block_prev p v s = (if p \<noteq> 0 then mod_block p (\<lambda>b. b\<lparr>mPrev := v\<rparr>) s else Inr s)"

definition removeBlock :: "nat \<Rightarrow> nat \<Rightarrow> ScalablePoolAllocator \<Rightarrow> ScalablePoolAllocator result" where
  "removeBlock bin block s =
     rbind (get_bin bin s) (\<lambda>bi.
     rbind (get_block block s) (\<lambda>b.
     rbind (if block = mActiveBlock bi
            then mod_bin bin (\<lambda>bi. bi\<lparr>mActiveBlock := (if mPrev b \<noteq> 0 then mPrev b else mNext b)\<rparr>) s else Inr s) (\<lambda>s.
     rbind (set_block_next (mPrev b) (mNext b) s) (\<lambda>s.
     rbind (set_block_prev (mNext b) (mPrev b) s) (\<lambda>s.
       mod_block block (\<lambda>b. b\<lparr>mNext := 0, mPrev := 0\<rparr>) s)))))"

definition prependBlock :: "nat \<Rightarrow> nat \<Rightarrow> ScalablePoolAllocator \<Rightarrow> ScalablePoolAllocator result" where
  "prependBlock bin block s =
     rbind (get_bin bin s) (\<lambda>bi.
       let active = mActiveBlock bi in
       rbind (mod_block block (\<lambda>b. b\<lparr>mNext := active\<rparr>) s) (\<lambda>s.
         if active \<noteq> 0
         then rbind (get_block active s) (\<lambda>a.
              rbind (mod_block block (\<lambda>b. b\<lparr>mPrev := mPrev a\<rparr>) s) (\<lambda>s.
              rbind (mod_block active (\<lambda>b. b\<lparr>mPrev := block\<rparr>) s) (\<lambda>s.
                set_block_next (mPrev a) block s)))
         else mod_bin bin (\<lambda>bi. bi\<lparr>mActiveBlock := block\<rparr>) s))"

text \<open>\<open>getBin\<close> can fail here only for a thread without bins; its null result is dereferenced.\<close>

definition moveBlockToBinFront :: "nat \<Rightarrow> nat \<Rightarrow> ScalablePoolAllocator \<Rightarrow> ScalablePoolAllocator result" where
  "moveBlockToBinFront t block s =
     rbind (get_block block s) (\<lambda>b.
     rbind (getBin t (mChunkSize b) s) (\<lambda>(bin, s).
     rbind (removeBlock bin block s) (\<lambda>s. prependBlock bin block s)))"

definition processLessUsedBlock :: "nat \<Rightarrow> nat \<Rightarrow> ScalablePoolAllocator \<Rightarrow> ScalablePoolAllocator result" where
  "processLessUsedBlock t block s =
     rbind (get_block block s) (\<lambda>b.
     rbind (getBin t (mChunkSize b) s) (\<lambda>(bin, s).
     rbind (get_bin bin s) (\<lambda>bi.
       if block = mActiveBlock bi then restoreBumpPtr block s
       else rbind (get_block (mActiveBlock bi) s) (\<lambda>a.
            if block = mPrev a then restoreBumpPtr block s
            else rbind (removeBlock bin block s) (returnEmptyBlock block)))))"

definition setPreviousBlockActive :: "nat \<Rightarrow> ScalablePoolAllocator \<Rightarrow> (nat \<times> ScalablePoolAllocator) result" where
  "setPreviousBlockActive bin s =
     rbind (get_bin bin s) (\<lambda>bi.
     rbind (get_block (mActiveBlock bi) s) (\<lambda>a.
       if mPrev a \<noteq> 0 then rbind (mod_bin bin (\<lambda>bi. bi\<lparr>mActiveBlock := mPrev a\<rparr>) s) (\<lambda>s. Inr (mPrev a, s))
       else Inr (0, s)))"

section \<open>Allocation\<close>

text \<open>The first loop of \<open>allocate\<close>: the active block and the blocks before it.\<close>

fun try_active :: "nat \<Rightarrow> nat \<Rightarrow> nat \<Rightarrow> ScalablePoolAllocator \<Rightarrow> (nat \<times> ScalablePoolAllocator) result" where
  "try_active 0 bin block s = Inl NoReturn"
| "try_active (Suc k) bin block s =
     rbind (allocateFromBlock block s) (\<lambda>(ret, s).
       if ret \<noteq> 0 then Inr (ret, s)
       else rbind (setPreviousBlockActive bin s) (\<lambda>(block, s).
         if block \<noteq> 0 then try_active k bin block s else Inr (0, s)))"

text \<open>\<open>prependBlock\<close>, \<open>setActiveBlock\<close> and an allocation from the block, as after both block sources.\<close>

definition adopt_block :: "nat \<Rightarrow> nat \<Rightarrow> ScalablePoolAllocator \<Rightarrow> (nat \<times> ScalablePoolAllocator) result" where
  "adopt_block bin block s =
     rbind (prependBlock bin block s) (\<lambda>s.
     rbind (mod_bin bin (\<lambda>bi. bi\<lparr>mActiveBlock := block\<rparr>) s) (\<lambda>s. allocateFromBlock block s))"

fun try_partial :: "nat \<Rightarrow> nat \<Rightarrow> nat \<Rightarrow> nat \<Rightarrow> ScalablePoolAllocator \<Rightarrow> (nat \<times> ScalablePoolAllocator) result" where
  "try_partial 0 t bin sz s = Inl NoReturn"
| "try_partial (Suc k) t bin sz s =
     rbind (getPartialBlock t bin sz s) (\<lambda>(block, s).
       if block = 0 then Inr (0, s)
       else rbind (adopt_block bin block s) (\<lambda>(ret, s). if ret \<noteq> 0 then Inr (ret, s) else try_partial k t bin sz s))"

fun pool_allocate :: "nat \<Rightarrow> nat \<Rightarrow> nat \<Rightarrow> ScalablePoolAllocator \<Rightarrow> (nat \<times> ScalablePoolAllocator) result" where
  "pool_allocate 0 t sz s = Inl NoReturn"
| "pool_allocate (Suc k) t sz s =
     (if sz \<ge> MIN_LARGE_CHUNK_SIZE s then allocateLarge sz s
      else rbind (getBin t sz s) (\<lambda>(bin, s).
        if bin = 0 then Inr (0, s)
        else rbind (get_bin bin s) (\<lambda>bi.
        rbind (if mActiveBlock bi \<noteq> 0 then try_active (mPoolEnd s) bin (mActiveBlock bi) s else Inr (0, s)) (\<lambda>(ret, s).
        if ret \<noteq> 0 then Inr (ret, s)
        else rbind (getPublicFreeListBlock bin s) (\<lambda>(block, s).
        if block \<noteq> 0
        then rbind (emptyEnoughToUse block s) (\<lambda>(e, s).
             rbind (if e then rbind (removeBlock bin block s) (\<lambda>s. prependBlock bin block s) else Inr s) (\<lambda>s.
             rbind (allocateFromFreeList block s) (\<lambda>(ret, s).
               if ret \<noteq> 0 then Inr (ret, s) else pool_allocate k t sz s)))
        else rbind (try_partial (mPoolEnd s) t bin sz s) (\<lambda>(ret, s).
        if ret \<noteq> 0 then Inr (ret, s)
        else rbind (getEmptyBlock t sz s) (\<lambda>(block, s).
        if block \<noteq> 0
        then rbind (adopt_block bin block s) (\<lambda>(ret, s). if ret \<noteq> 0 then Inr (ret, s) else pool_allocate k t sz s)
        else Inr (0, s))))))))"

definition pool_deallocate :: "nat \<Rightarrow> nat \<Rightarrow> ScalablePoolAllocator \<Rightarrow> ScalablePoolAllocator result" where
  "pool_deallocate t mem s =
     (if mem = 0 then Inr s
      else if mem < mPool s \<or> mem > mPoolEnd s then Inl AssertFailed
      else if isLargeChunk mem s then deallocateLarge mem s
      else
        let (tid, s) = getThreadID t s; block = alignDown mem BLOCK_SIZE in
        rbind (get_block block s) (\<lambda>b.
          if tid = mOwnerID b
          then rbind (free_private block mem s) (\<lambda>s.
               rbind (get_block block s) (\<lambda>b.
                 if mIsFull b
                 then rbind (emptyEnoughToUse block s) (\<lambda>(e, s). if e then moveBlockToBinFront t block s else Inr s)
                 else if mAllocationCount b = 0 \<and> mPublicFreeList b = 0 then processLessUsedBlock t block s
                 else Inr s))
          else freePublicChunk block mem s))"

section \<open>Thread exit\<close>

definition return_block :: "nat \<Rightarrow> nat \<Rightarrow> ScalablePoolAllocator \<Rightarrow> ScalablePoolAllocator result" where
  "return_block bin block s =
     rbind (get_block block s) (\<lambda>b.
       if mAllocationCount b = 0 \<and> mPublicFreeList b = 0 then returnEmptyBlock block s else returnPartialBlock bin block s)"

fun return_blocks :: "nat \<Rightarrow> (Block \<Rightarrow> nat) \<Rightarrow> nat \<Rightarrow> nat \<Rightarrow> ScalablePoolAllocator \<Rightarrow> ScalablePoolAllocator result" where
  "return_blocks 0 follow bin block s = Inl NoReturn"
| "return_blocks (Suc k) follow bin block s =
     (if block = 0 then Inr s
      else rbind (get_block block s) (\<lambda>b. rbind (return_block bin block s) (return_blocks k follow bin (follow b))))"

definition clean_bin :: "nat \<Rightarrow> ScalablePoolAllocator \<Rightarrow> ScalablePoolAllocator result" where
  "clean_bin bin s =
     rbind (get_bin bin s) (\<lambda>bi.
       if mActiveBlock bi = 0 then Inr s
       else rbind (get_block (mActiveBlock bi) s) (\<lambda>a.
            rbind (return_blocks (mPoolEnd s) mPrev bin (mPrev a) s) (\<lambda>s.
            rbind (return_blocks (mPoolEnd s) mNext bin (mActiveBlock bi) s) (\<lambda>s.
              mod_bin bin (\<lambda>bi. bi\<lparr>mActiveBlock := 0\<rparr>) s))))"

fun clean_bins :: "nat \<Rightarrow> nat \<Rightarrow> nat \<Rightarrow> ScalablePoolAllocator \<Rightarrow> ScalablePoolAllocator result" where
  "clean_bins tls idx 0 s = Inr s"
| "clean_bins tls idx (Suc k) s = rbind (clean_bin (tls + idx * sizeof_Bin) s) (clean_bins tls (idx + 1) k)"

definition BinTLSCleanUpFunction :: "nat \<Rightarrow> ScalablePoolAllocator \<Rightarrow> ScalablePoolAllocator result" where
  "BinTLSCleanUpFunction tls s =
     rbind (clean_bins tls 0 (BIN_COUNT s) s) (\<lambda>s. deallocateTLS (tls - sizeof_Bin) s)"

text \<open>\<open>boost::thread_specific_ptr\<close> runs the clean-up functions and drops the pointers when a thread ends.\<close>

definition thread_exit :: "nat \<Rightarrow> ScalablePoolAllocator \<Rightarrow> ScalablePoolAllocator result" where
  "thread_exit t s =
     rbind (if mBins s t \<noteq> 0 then BinTLSCleanUpFunction (mBins s t) s else Inr s) (\<lambda>s.
       Inr (s\<lparr>mBins := (mBins s)(t := 0), mThreadID := (mThreadID s)(t := 0)\<rparr>))"

end
