(* ===== verification/Pool_Block_Spec.thy ===== *)
theory Pool_Block_Spec
  imports Pool_Blocks
begin

text \<open>
  The chunks of one block. A block at address \<open>a\<close> with chunks of \<open>c\<close> bytes has room for
  \<open>chunk_count c\<close> of them above its header, cut off from the top; each is in use, on the private free
  list, on the public one, or not cut off yet. \<open>block_ok\<close> states this partition with the counter that
  goes with it, and every operation on a block moves chunks between its parts. The properties say
  that a block never hands out a chunk that is in use, and what goes wrong at the edges of the pool.
\<close>

section \<open>The chunks of a block\<close>

definition chunk_count :: "nat \<Rightarrow> nat" where
  "chunk_count c = (BLOCK_SIZE - sizeof_Block) div c"

definition chunk_at :: "nat \<Rightarrow> nat \<Rightarrow> nat \<Rightarrow> nat" where
  "chunk_at a c k = a + BLOCK_SIZE - Suc k * c"

lemma chunk_space: "k < chunk_count c \<Longrightarrow> Suc k * c \<le> BLOCK_SIZE - sizeof_Block"
proof -
  assume "k < chunk_count c"
  then have "Suc k * c \<le> (BLOCK_SIZE - sizeof_Block) div c * c" unfolding chunk_count_def by (intro mult_le_mono1) simp
  also have "\<dots> \<le> BLOCK_SIZE - sizeof_Block" by simp
  finally show ?thesis .
qed

lemma chunk_inside: "k < chunk_count c \<Longrightarrow> a + sizeof_Block \<le> chunk_at a c k \<and> chunk_at a c k + c \<le> a + BLOCK_SIZE"
  using chunk_space [of k c] by (simp add: chunk_at_def)

lemma chunk_pos: "k < chunk_count c \<Longrightarrow> chunk_at a c k \<noteq> 0"
  using chunk_inside [of k c a] by simp

lemma chunks_apart: "i < j \<Longrightarrow> j < chunk_count c \<Longrightarrow> chunk_at a c j + c \<le> chunk_at a c i"
proof -
  assume "i < j" "j < chunk_count c"
  then have "Suc i * c + c \<le> Suc j * c" using mult_le_mono1 [of "Suc (Suc i)" "Suc j" c] by simp
  with chunk_space [OF \<open>j < chunk_count c\<close>] show ?thesis by (simp add: chunk_at_def)
qed

lemma chunk_at_inj: "0 < c \<Longrightarrow> inj_on (chunk_at a c) {..<chunk_count c}"
  using chunks_apart [of _ _ c a] by (intro linorder_inj_onI) (auto, fastforce)

lemma chunk_next: "Suc k * c \<le> a + BLOCK_SIZE \<Longrightarrow> a + BLOCK_SIZE < size_mod \<Longrightarrow> Suc (Suc k) * c \<le> a + BLOCK_SIZE \<Longrightarrow>
    sz_sub (chunk_at a c k) c = chunk_at a c (Suc k)"
  unfolding chunk_at_def by (subst sz_sub_exact) auto

lemma chunk_full: "0 < c \<Longrightarrow> sizeof_Block \<le> BLOCK_SIZE \<Longrightarrow> Suc k * c \<le> a + BLOCK_SIZE \<Longrightarrow>
    chunk_at a c k < a + sizeof_Block \<longleftrightarrow> chunk_count c \<le> k"
proof -
  assume c: "0 < c" and le: "Suc k * c \<le> a + BLOCK_SIZE"
  have "chunk_at a c k < a + sizeof_Block \<longleftrightarrow> BLOCK_SIZE - sizeof_Block < Suc k * c" using le by (simp add: chunk_at_def) linarith
  also have "\<dots> \<longleftrightarrow> chunk_count c < Suc k" using c unfolding chunk_count_def by (rule div_less_iff_less_mult [symmetric])
  finally show ?thesis by (simp add: less_Suc_eq_le)
qed

section \<open>Free lists\<close>

fun lchain :: "nat \<Rightarrow> nat list \<Rightarrow> (nat \<Rightarrow> nat) \<Rightarrow> nat \<Rightarrow> bool" where
  "lchain p [] h e \<longleftrightarrow> p = e"
| "lchain p (x # xs) h e \<longleftrightarrow> p = x \<and> lchain (h x) xs h e"

lemma lchain_cong: "(\<And>x. x \<in> set xs \<Longrightarrow> h' x = h x) \<Longrightarrow> lchain p xs h' e = lchain p xs h e"
  by (induction xs arbitrary: p) auto

lemma lchain_append: "lchain p (xs @ [x]) h e \<Longrightarrow> distinct (xs @ [x]) \<Longrightarrow> lchain q ys (h(x := q)) e' \<Longrightarrow>
   lchain p ((xs @ [x]) @ ys) (h(x := q)) e'"
  by (induction xs arbitrary: p) auto

definition block_ok :: "nat \<Rightarrow> nat set \<Rightarrow> nat list \<Rightarrow> nat list \<Rightarrow> nat \<Rightarrow> ScalablePoolAllocator \<Rightarrow> bool" where
  "block_ok a U F P m s \<longleftrightarrow>
     (let b = blocks s a; c = mChunkSize b in
      BLOCK_SIZE \<le> a \<and> in_pool a BLOCK_SIZE s \<and> mPoolEnd s < size_mod \<and> 8 \<le> c \<and> c \<le> BLOCK_SIZE - sizeof_Block \<and>
      m \<le> chunk_count c \<and> bBumpPtr b = (if m = chunk_count c then 0 else chunk_at a c m) \<and>
      lchain (mFreeList b) F (links s) 0 \<and> (\<exists>e. isInvalid e \<and> lchain (mPublicFreeList b) P (links s) e) \<and>
      distinct (F @ P) \<and> U \<inter> set (F @ P) = {} \<and> U \<union> set (F @ P) = chunk_at a c ` {..<m} \<and>
      mAllocationCount b = card U + length P)"

definition mail_ok :: "nat \<Rightarrow> ScalablePoolAllocator \<Rightarrow> bool" where
  "mail_ok a s \<longleftrightarrow> mPublicFreeList (blocks s a) = 0 \<longrightarrow> isInvalid (mNextPrivatizable (blocks s a)) \<or>
     in_pool (mNextPrivatizable (blocks s a)) sizeof_Bin s"

lemma block_okD:
  assumes "block_ok a U F P m s"
  shows "BLOCK_SIZE \<le> a" "in_pool a sizeof_Block s" "mPoolEnd s < size_mod" "a + BLOCK_SIZE \<le> mPoolEnd s"
    "0 < mChunkSize (blocks s a)" "mChunkSize (blocks s a) \<le> BLOCK_SIZE - sizeof_Block" "m \<le> chunk_count (mChunkSize (blocks s a))"
  using assms by (auto simp: block_ok_def Let_def in_pool_def)

lemma block_chunk:
  assumes "block_ok a U F P m s" "x \<in> U \<union> set F \<union> set P"
  shows "\<exists>k<m. x = chunk_at a (mChunkSize (blocks s a)) k" "a + sizeof_Block \<le> x" "x + mChunkSize (blocks s a) \<le> a + BLOCK_SIZE"
    "in_pool x sizeof_size_t s"
proof -
  have ok: "8 \<le> mChunkSize (blocks s a)" "U \<union> set (F @ P) = chunk_at a (mChunkSize (blocks s a)) ` {..<m}"
    "in_pool a BLOCK_SIZE s"
    using assms(1) by (auto simp: block_ok_def Let_def)
  then obtain k where k: "k < m" "x = chunk_at a (mChunkSize (blocks s a)) k" using assms(2) by auto
  then show "\<exists>k<m. x = chunk_at a (mChunkSize (blocks s a)) k" by blast
  have "k < chunk_count (mChunkSize (blocks s a))" using k block_okD(7) [OF assms(1)] by simp
  then show "a + sizeof_Block \<le> x" "x + mChunkSize (blocks s a) \<le> a + BLOCK_SIZE"
    using chunk_inside k(2) by blast+
  with ok show "in_pool x sizeof_size_t s" by (auto simp: in_pool_def)
qed

lemma block_finite: "block_ok a U F P m s \<Longrightarrow> finite U"
  by (metis (no_types, lifting) block_ok_def finite_Un finite_imageI finite_lessThan)

lemma block_count_less:
  assumes "block_ok a U F P m s"
  shows "mAllocationCount (blocks s a) \<le> chunk_count (mChunkSize (blocks s a))"
proof -
  let ?c = "mChunkSize (blocks s a)"
  have ok: "U \<inter> set (F @ P) = {}" "U \<union> set (F @ P) = chunk_at a ?c ` {..<m}" "distinct (F @ P)"
     "mAllocationCount (blocks s a) = card U + length P" using assms by (auto simp: block_ok_def Let_def)
  have "card U + length P \<le> card U + card (set (F @ P))" using distinct_card [OF ok(3)] by simp
  also have "\<dots> = card (chunk_at a ?c ` {..<m})" using card_Un_disjoint [OF block_finite [OF assms] finite_set ok(1)] ok(2) by simp
  also have "\<dots> \<le> m" using card_image_le [of "{..<m}" "chunk_at a ?c"] by simp
  finally show ?thesis using ok(4) block_okD(7) [OF assms] by simp
qed

lemma chunk_count_bound: "chunk_count c \<le> BLOCK_SIZE"
  unfolding chunk_count_def by (metis diff_le_self div_le_dividend le_trans)

section \<open>Operations on a block\<close>

lemmas block_access = get_block_def mod_block_def get_link_def set_link_def get_bin_def mod_bin_def pool_access_def

lemma block_pool [simp]: "in_pool p n (s\<lparr>blocks := B\<rparr>) = in_pool p n s" "in_pool p n (s\<lparr>links := L\<rparr>) = in_pool p n s"
  "in_pool p n (s\<lparr>bins := C\<rparr>) = in_pool p n s"
  by (simp_all add: in_pool_def)

text \<open>A chunk taken from the private free list, cut off the rest, or none: the block is full.\<close>

lemma take_law:
  assumes "block_ok a U F P m s"
  obtains x s' F' m' where "allocateFromBlock a s = Inr (x, s')" "x \<noteq> 0" "x \<notin> U" "block_ok a (insert x U) F' P m' s'"
      "mNextPrivatizable (blocks s' a) = mNextPrivatizable (blocks s a)" "mPublicFreeList (blocks s' a) = mPublicFreeList (blocks s a)"
      "mChunkSize (blocks s' a) = mChunkSize (blocks s a)" "mPool s' = mPool s" "mPoolEnd s' = mPoolEnd s"
  | s' where "allocateFromBlock a s = Inr (0, s')" "s' = s\<lparr>blocks := (blocks s)(a := (blocks s a)\<lparr>mIsFull := True\<rparr>)\<rparr>"
      "F = []" "m = chunk_count (mChunkSize (blocks s a))" "block_ok a U F P m s'"
proof -
  let ?b = "blocks s a"
  let ?c = "mChunkSize ?b"
  note D = block_okD [OF assms]
  have cnt: "sz_add (mAllocationCount ?b) 1 = mAllocationCount ?b + 1"
    using block_count_less [OF assms] chunk_count_bound [of ?c] by (intro sz_add_exact) (simp add: size_mod_def)
  show thesis
  proof (cases F)
    case (Cons x F')
    have x: "in_pool x sizeof_size_t s" "x \<noteq> 0" using block_chunk(2,4) [OF assms, of x] Cons by auto
    let ?s = "s\<lparr>blocks := (blocks s)(a := ?b\<lparr>mFreeList := links s x, mAllocationCount := mAllocationCount ?b + 1\<rparr>)\<rparr>"
    have fl: "mFreeList ?b = x" using assms Cons by (simp add: block_ok_def Let_def)
    have "allocateFromBlock a s = Inr (x, ?s)"
      using D(2) x fl cnt by (simp add: allocateFromBlock_def allocateFromFreeList_def block_access)
    moreover have "block_ok a (insert x U) F' P m ?s" using assms Cons block_finite [OF assms]
      by (auto simp: block_ok_def Let_def)
    moreover have "x \<notin> U" using assms Cons by (auto simp: block_ok_def Let_def)
    ultimately show thesis using that(1) [of x ?s F' m] x by simp
  next
    case Nil
    then have fl: "mFreeList ?b = 0" using assms by (simp add: block_ok_def Let_def)
    show thesis
    proof (cases "m = chunk_count ?c")
      case True
      then have "bBumpPtr ?b = 0" using assms by (simp add: block_ok_def Let_def)
      then have "allocateFromBlock a s = Inr (0, s\<lparr>blocks := (blocks s)(a := ?b\<lparr>mIsFull := True\<rparr>)\<rparr>)"
        using D(2) fl by (simp add: allocateFromBlock_def allocateFromFreeList_def allocateFromBumpPtr_def block_access)
      moreover have "block_ok a U F P m (s\<lparr>blocks := (blocks s)(a := ?b\<lparr>mIsFull := True\<rparr>)\<rparr>)"
        using assms by (simp add: block_ok_def Let_def)
      ultimately show thesis using that(2) Nil True by blast
    next
      case False
      let ?x = "chunk_at a ?c m"
      have m: "m < chunk_count ?c" using False D(7) by simp
      have bp: "bBumpPtr ?b = ?x" using assms False by (simp add: block_ok_def Let_def)
      have sp: "Suc m * ?c \<le> BLOCK_SIZE - sizeof_Block" by (rule chunk_space [OF m])
      have sp2: "Suc (Suc m) * ?c \<le> a + BLOCK_SIZE" using sp D(1,6) by simp
      have nx: "sz_sub ?x ?c = chunk_at a ?c (Suc m)"
        by (rule chunk_next) (use sp sp2 D in auto)
      have full: "chunk_at a ?c (Suc m) < a + sizeof_Block \<longleftrightarrow> chunk_count ?c \<le> Suc m"
        by (rule chunk_full) (use D sp2 in auto)
      have inj: "?x \<notin> chunk_at a ?c ` {..<m}" using chunks_apart [of _ m ?c a] m D(5) by fastforce
      let ?s = "s\<lparr>blocks := (blocks s)(a := ?b\<lparr>bBumpPtr := (if chunk_count ?c \<le> Suc m then 0 else chunk_at a ?c (Suc m)),
         mAllocationCount := mAllocationCount ?b + 1\<rparr>)\<rparr>"
      have "allocateFromBlock a s = Inr (?x, ?s)"
        using D(2) fl bp nx full cnt chunk_pos [OF m, of a]
        by (simp add: allocateFromBlock_def allocateFromFreeList_def allocateFromBumpPtr_def block_access)
      moreover have U: "?x \<notin> U" using inj assms by (auto simp: block_ok_def Let_def)
      moreover have "block_ok a (insert ?x U) [] P (Suc m) ?s"
        using assms Nil m U inj block_finite [OF assms] by (auto simp: block_ok_def Let_def lessThan_Suc)
      ultimately show thesis using that(1) [of ?x ?s "[]" "Suc m"] chunk_pos [OF m, of a] by simp
    qed
  qed
qed

lemma give_back_law:
  assumes "block_ok a U F P m s" "x \<in> U"
  shows "\<exists>s'. free_private a x s = Inr s' \<and> block_ok a (U - {x}) (x # F) P m s' \<and>
    mNextPrivatizable (blocks s' a) = mNextPrivatizable (blocks s a) \<and> mPublicFreeList (blocks s' a) = mPublicFreeList (blocks s a) \<and>
    mChunkSize (blocks s' a) = mChunkSize (blocks s a) \<and> mPool s' = mPool s \<and> mPoolEnd s' = mPoolEnd s"
proof -
  let ?b = "blocks s a"
  note D = block_okD [OF assms(1)]
  have x: "in_pool x sizeof_size_t s" "x \<notin> set F" "x \<notin> set P"
    using block_chunk(4) [OF assms(1), of x] assms by (auto simp: block_ok_def Let_def)
  have "0 < card U" using assms(2) block_finite [OF assms(1)] card_gt_0_iff by blast
  then have cnt: "sz_sub (mAllocationCount ?b) 1 = card U - 1 + length P" "mAllocationCount ?b = card U + length P"
    using assms(1) block_count_less [OF assms(1)] chunk_count_bound [of "mChunkSize ?b"]
    by (auto simp: block_ok_def Let_def sz_sub_exact size_mod_def)
  let ?s = "s\<lparr>links := (links s)(x := mFreeList ?b), blocks := (blocks s)(a := ?b\<lparr>mFreeList := x, mAllocationCount := card U - 1 + length P\<rparr>)\<rparr>"
  have "free_private a x s = Inr ?s" using D(2) x cnt by (simp add: free_private_def block_access)
  moreover have "lchain p F ((links s)(x := v)) e = lchain p F (links s) e" "lchain p P ((links s)(x := v)) e = lchain p P (links s) e" for p v e
    using x by (auto intro!: lchain_cong)
  then have "block_ok a (U - {x}) (x # F) P m ?s"
    using assms x block_finite [OF assms(1)] by (auto simp: block_ok_def Let_def)
  ultimately show ?thesis by simp
qed

lemma give_away_law:
  assumes "block_ok a U F P m s" "x \<in> U" "mail_ok a s"
  shows "\<exists>s'. freePublicChunk a x s = Inr s' \<and> block_ok a (U - {x}) F (x # P) m s' \<and> mail_ok a s' \<and>
    mChunkSize (blocks s' a) = mChunkSize (blocks s a) \<and> mPool s' = mPool s \<and> mPoolEnd s' = mPoolEnd s"
proof -
  let ?b = "blocks s a"
  note D = block_okD [OF assms(1)]
  have x: "in_pool x sizeof_size_t s" "x \<notin> set F" "x \<notin> set P" "x \<noteq> 0"
    using block_chunk(2,4) [OF assms(1), of x] assms by (auto simp: block_ok_def Let_def)
  have "0 < card U" using assms(2) block_finite [OF assms(1)] card_gt_0_iff by blast
  then have cnt: "card U + length P = card (U - {x}) + length (x # P)" using assms(2) by simp
  let ?s1 = "s\<lparr>links := (links s)(x := mPublicFreeList ?b), blocks := (blocks s)(a := ?b\<lparr>mPublicFreeList := x\<rparr>)\<rparr>"
  let ?bin = "mNextPrivatizable ?b"
  let ?s2 = "?s1\<lparr>blocks := (blocks s)(a := ?b\<lparr>mPublicFreeList := x, mNextPrivatizable := mMailBox (bins s ?bin)\<rparr>),
     bins := (bins s)(?bin := (bins s ?bin)\<lparr>mMailBox := a\<rparr>)\<rparr>"
  have "lchain p F ((links s)(x := v)) e = lchain p F (links s) e" "lchain p P ((links s)(x := v)) e = lchain p P (links s) e" for p v e
    using x by (auto intro!: lchain_cong)
  then have ok: "block_ok a (U - {x}) F (x # P) m ?s1" "block_ok a (U - {x}) F (x # P) m ?s2"
    using assms(1,2) x cnt by (auto simp: block_ok_def Let_def)
  have mail: "mail_ok a ?s1" "mail_ok a ?s2" using x by (simp_all add: mail_ok_def)
  show ?thesis
  proof (cases "mPublicFreeList ?b = 0 \<and> \<not> isInvalid ?bin")
    case True
    then have "in_pool ?bin sizeof_Bin s" using assms(3) by (auto simp: mail_ok_def)
    with True have "freePublicChunk a x s = Inr ?s2" using D(2) x by (simp add: freePublicChunk_def block_access Let_def)
    with ok mail show ?thesis by simp
  next
    case False
    then have "freePublicChunk a x s = Inr ?s1" using D(2) x by (auto simp: freePublicChunk_def block_access)
    with ok mail show ?thesis by simp
  qed
qed

text \<open>The public list becomes the front of the private one; its chunks no longer count as allocated.\<close>

lemma last_chunk_law:
  "lchain p (x # xs) (links s) e \<Longrightarrow> isInvalid e \<Longrightarrow> \<forall>y\<in>set (x # xs). \<not> isInvalid y \<and> in_pool y sizeof_size_t s \<Longrightarrow>
   length xs < k \<Longrightarrow> last_chunk k p n s = Inr (last (x # xs), n + length xs)"
proof (induction xs arbitrary: p x n k)
  case Nil
  then show ?case by (cases k) (auto simp: get_link_def pool_access_def)
next
  case (Cons y ys)
  then show ?case by (cases k) (auto simp: get_link_def pool_access_def)
qed

lemma collect_law:
  assumes "block_ok a U F P m s"
  shows "\<exists>s'. privatizePublicFreeList a s = Inr s' \<and> block_ok a U (P @ F) [] m s' \<and>
    mNextPrivatizable (blocks s' a) = mNextPrivatizable (blocks s a) \<and> mPublicFreeList (blocks s' a) = 0 \<and>
    mChunkSize (blocks s' a) = mChunkSize (blocks s a) \<and> mPool s' = mPool s \<and> mPoolEnd s' = mPoolEnd s"
proof -
  let ?b = "blocks s a"
  note D = block_okD [OF assms]
  obtain e where e: "isInvalid e" "lchain (mPublicFreeList ?b) P (links s) e" and fl: "lchain (mFreeList ?b) F (links s) 0"
    and dist: "distinct (F @ P)" and cnt: "mAllocationCount ?b = card U + length P"
    using assms by (auto simp: block_ok_def Let_def)
  show ?thesis
  proof (cases P rule: rev_cases)
    case Nil
    with e have inv: "isInvalid (mPublicFreeList ?b)" by simp
    let ?s = "s\<lparr>blocks := (blocks s)(a := ?b\<lparr>mPublicFreeList := 0\<rparr>)\<rparr>"
    have "privatizePublicFreeList a s = Inr ?s" using D(2) inv by (simp add: privatizePublicFreeList_def block_access)
    moreover have "block_ok a U (P @ F) [] m ?s" using assms Nil by (auto simp: block_ok_def Let_def isInvalid_def)
    ultimately show ?thesis by simp
  next
    case (snoc Q z)
    let ?s1 = "s\<lparr>blocks := (blocks s)(a := ?b\<lparr>mPublicFreeList := 0\<rparr>)\<rparr>"
    let ?L = "(links s)(z := mFreeList ?b)"
    let ?s = "s\<lparr>links := ?L, blocks := (blocks s)(a := ?b\<lparr>mPublicFreeList := 0, mFreeList := mPublicFreeList ?b, mAllocationCount := card U\<rparr>)\<rparr>"
    obtain x xs where P: "P = x # xs" using snoc neq_Nil_conv [of P] by auto
    have els: "\<not> isInvalid y \<and> in_pool y sizeof_size_t s" if "y \<in> set P" for y
      using that block_chunk(2,4) [OF assms, of y] by (auto simp: isInvalid_def)
    have "length P \<le> chunk_count (mChunkSize ?b)" using block_count_less [OF assms] cnt by simp
    then have len: "length xs < mPoolEnd s" using chunk_count_bound [of "mChunkSize ?b"] D(4) P by simp
    have "mPublicFreeList ?b = x" using e(2) P by simp
    moreover have "z \<in> set P" "last P = z" using snoc by simp_all
    ultimately have hd: "mPublicFreeList ?b = x" "z \<in> set P" "last P = z" by simp_all
    have lc: "last_chunk (mPoolEnd s) (mPublicFreeList ?b) 1 ?s1 = Inr (z, length P)"
      using last_chunk_law [of "mPublicFreeList ?b" x xs ?s1 e "mPoolEnd s" 1] e P els len hd by simp
    have sub: "sz_sub (card U + length P) (length P) = card U"
      using cnt block_count_less [OF assms] chunk_count_bound [of "mChunkSize ?b"] by (simp add: sz_sub_exact size_mod_def)
    have "\<not> isInvalid (mPublicFreeList ?b)" using els hd(1) P by simp
    then have "privatizePublicFreeList a s = Inr ?s"
      using D(2) hd els lc sub cnt by (auto simp: privatizePublicFreeList_def block_access)
    moreover have "lchain (mPublicFreeList ?b) (P @ F) ?L 0"
    proof -
      have "lchain (mFreeList ?b) F ?L 0" using fl hd dist by (subst lchain_cong [of F _ "links s"]) auto
      then show ?thesis using lchain_append [of "mPublicFreeList ?b" Q z "links s" e] e snoc dist by auto
    qed
    then have "block_ok a U (P @ F) [] m ?s" using assms by (auto simp: block_ok_def Let_def isInvalid_def)
    ultimately show ?thesis by simp
  qed
qed

text \<open>A block without chunks in use starts over.\<close>

lemma recycle_law:
  assumes "block_ok a U F [] m s" "mAllocationCount (blocks s a) = 0"
  shows "\<exists>s'. restoreBumpPtr a s = Inr s' \<and> block_ok a {} [] [] 0 s' \<and> U = {} \<and>
    mNextPrivatizable (blocks s' a) = mNextPrivatizable (blocks s a) \<and> mPublicFreeList (blocks s' a) = mPublicFreeList (blocks s a) \<and>
    mChunkSize (blocks s' a) = mChunkSize (blocks s a) \<and> mPool s' = mPool s \<and> mPoolEnd s' = mPoolEnd s"
proof -
  let ?b = "blocks s a"
  have "U = {}" using assms block_finite [OF assms(1)] by (auto simp: block_ok_def Let_def)
  have c: "8 \<le> mChunkSize ?b" "mChunkSize ?b \<le> BLOCK_SIZE - sizeof_Block" using assms(1) by (auto simp: block_ok_def Let_def)
  then have "0 < chunk_count (mChunkSize ?b)" by (simp add: chunk_count_def div_greater_zero_iff)
  let ?s = "s\<lparr>blocks := (blocks s)(a := ?b\<lparr>bBumpPtr := a + BLOCK_SIZE - mChunkSize ?b, mFreeList := 0, mIsFull := False\<rparr>)\<rparr>"
  have "restoreBumpPtr a s = Inr ?s" using block_okD(2) [OF assms(1)] by (simp add: restoreBumpPtr_def block_access)
  moreover have "block_ok a {} [] [] 0 ?s"
    using assms \<open>0 < chunk_count (mChunkSize ?b)\<close> by (auto simp: block_ok_def Let_def chunk_at_def)
  ultimately show ?thesis using \<open>U = {}\<close> by simp
qed

section \<open>Runs of a block\<close>

text \<open>
  What the allocator does to a block between \<open>initEmptyBlock\<close> and \<open>returnEmptyBlock\<close>: the owner allocates and
  frees, other threads free, the owner collects what they freed into the block of a bin, and an empty
  block starts over. \<open>U\<close> are the chunks the users hold; handing out one of them again is a failure.
\<close>

datatype block_act = Take | GiveBack nat | GiveAway nat | Collect nat | Recycle

primrec block_exec :: "nat \<Rightarrow> block_act \<Rightarrow> nat set \<times> ScalablePoolAllocator \<Rightarrow> (nat set \<times> ScalablePoolAllocator) result" where
  "block_exec a Take r = (let (U, s) = r in
     rbind (allocateFromBlock a s) (\<lambda>(x, s). if x = 0 then Inr (U, s) else if x \<in> U then Inl AssertFailed else Inr (insert x U, s)))"
| "block_exec a (GiveBack x) r = (let (U, s) = r in
     if x \<in> U then rbind (free_private a x s) (\<lambda>s. Inr (U - {x}, s)) else Inr (U, s))"
| "block_exec a (GiveAway x) r = (let (U, s) = r in
     if x \<in> U then rbind (freePublicChunk a x s) (\<lambda>s. Inr (U - {x}, s)) else Inr (U, s))"
| "block_exec a (Collect bin) r = (let (U, s) = r in
     if in_pool bin sizeof_Bin s
     then rbind (mod_block a (\<lambda>b. b\<lparr>mNextPrivatizable := bin\<rparr>) s) (\<lambda>s. rbind (privatizePublicFreeList a s) (\<lambda>s. Inr (U, s)))
     else Inr (U, s))"
| "block_exec a Recycle r = (let (U, s) = r in
     rbind (get_block a s) (\<lambda>b. if mAllocationCount b = 0 \<and> mPublicFreeList b = 0
       then rbind (restoreBumpPtr a s) (\<lambda>s. Inr (U, s)) else Inr (U, s)))"

fun block_run :: "nat \<Rightarrow> block_act list \<Rightarrow> nat set \<times> ScalablePoolAllocator \<Rightarrow> (nat set \<times> ScalablePoolAllocator) result" where
  "block_run a [] r = Inr r"
| "block_run a (act # acts) r = rbind (block_exec a act r) (block_run a acts)"

definition block_inv :: "nat \<Rightarrow> nat \<Rightarrow> nat set \<Rightarrow> ScalablePoolAllocator \<Rightarrow> bool" where
  "block_inv a c U s \<longleftrightarrow> mChunkSize (blocks s a) = c \<and> mail_ok a s \<and> (\<exists>F P m. block_ok a U F P m s)"

lemma mail_ok_keep:
  "mail_ok a s \<Longrightarrow> mNextPrivatizable (blocks s' a) = mNextPrivatizable (blocks s a) \<Longrightarrow> mPool s' = mPool s \<Longrightarrow> mPoolEnd s' = mPoolEnd s \<Longrightarrow>
   mPublicFreeList (blocks s' a) = mPublicFreeList (blocks s a) \<Longrightarrow> mail_ok a s'"
  by (simp add: mail_ok_def in_pool_def)

lemma take_inv:
  assumes "block_inv a c U s"
  shows "\<exists>x s'. allocateFromBlock a s = Inr (x, s') \<and> x \<notin> U - {0} \<and> block_inv a c (if x = 0 then U else insert x U) s' \<and>
    (x = 0 \<longleftrightarrow> mAllocationCount (blocks s a) = chunk_count c)"
proof -
  obtain F P m where ok: "block_ok a U F P m s" and c: "mChunkSize (blocks s a) = c" and mail: "mail_ok a s"
    using assms by (auto simp: block_inv_def)
  have cnt: "mAllocationCount (blocks s a) = card U + length P" using ok by (simp add: block_ok_def Let_def)
  from ok show ?thesis
  proof (cases rule: take_law)
    case (1 x s' F' m')
    have "mAllocationCount (blocks s' a) = card (insert x U) + length P" using 1(4) by (simp add: block_ok_def Let_def)
    then have "mAllocationCount (blocks s a) \<noteq> chunk_count c"
      using block_count_less [OF 1(4)] 1(3,7) block_finite [OF ok] cnt c by simp
    with 1 c mail_ok_keep [OF mail] show ?thesis by (auto simp: block_inv_def)
  next
    case (2 s')
    have inj: "inj_on (chunk_at a c) {..<chunk_count c}" by (rule chunk_at_inj) (use block_okD(5) [OF ok] c in simp)
    have "U \<inter> set P = {}" "U \<union> set P = chunk_at a c ` {..<chunk_count c}" "distinct P"
      using ok 2 c by (auto simp: block_ok_def Let_def)
    then have "card U + length P = chunk_count c"
      using card_Un_disjoint [OF block_finite [OF ok] finite_set, of P] distinct_card [of P] card_image [OF inj] by simp
    with 2 c mail cnt show ?thesis by (auto simp: block_inv_def mail_ok_def)
  qed
qed

lemma block_exec_inv:
  assumes "block_inv a c U s"
  shows "\<exists>U' s'. block_exec a act (U, s) = Inr (U', s') \<and> block_inv a c U' s'"
proof -
  obtain F P m where ok: "block_ok a U F P m s" and c: "mChunkSize (blocks s a) = c" and mail: "mail_ok a s"
    using assms by (auto simp: block_inv_def)
  show ?thesis
  proof (cases act)
    case Take
    with take_inv [OF assms] show ?thesis by auto
  next
    case (GiveBack x)
    show ?thesis
    proof (cases "x \<in> U")
      case True
      with give_back_law [OF ok] obtain s' where "free_private a x s = Inr s'" "block_ok a (U - {x}) (x # F) P m s'"
        "mChunkSize (blocks s' a) = c" "mail_ok a s'" using c mail_ok_keep [OF mail] by metis
      with True GiveBack show ?thesis by (auto simp: block_inv_def)
    qed (use GiveBack assms in simp)
  next
    case (GiveAway x)
    show ?thesis
    proof (cases "x \<in> U")
      case True
      with give_away_law [OF ok _ mail] GiveAway c show ?thesis by (fastforce simp: block_inv_def)
    qed (use GiveAway assms in simp)
  next
    case (Collect bin)
    show ?thesis
    proof (cases "in_pool bin sizeof_Bin s")
      case True
      let ?s = "s\<lparr>blocks := (blocks s)(a := (blocks s a)\<lparr>mNextPrivatizable := bin\<rparr>)\<rparr>"
      have "block_ok a U F P m ?s" using ok by (simp add: block_ok_def Let_def)
      from collect_law [OF this] obtain s' where s': "privatizePublicFreeList a ?s = Inr s'" "block_ok a U (P @ F) [] m s'"
        "mNextPrivatizable (blocks s' a) = bin" "mChunkSize (blocks s' a) = c" "mPool s' = mPool s" "mPoolEnd s' = mPoolEnd s"
        using c by auto
      moreover have "mail_ok a s'" using s' True by (auto simp: mail_ok_def in_pool_def)
      ultimately show ?thesis using True Collect block_okD(2) [OF ok] by (auto simp: block_inv_def mod_block_def pool_access_def)
    qed (use Collect assms in simp)
  next
    case Recycle
    show ?thesis
    proof (cases "mAllocationCount (blocks s a) = 0 \<and> mPublicFreeList (blocks s a) = 0")
      case True
      then have "P = []" using ok by (auto simp: block_ok_def Let_def)
      with ok True recycle_law [of a U F m s] obtain s' where "restoreBumpPtr a s = Inr s'" "block_ok a {} [] [] 0 s'" "U = {}"
        "mChunkSize (blocks s' a) = c" "mail_ok a s'" using c mail_ok_keep [OF mail] by metis
      with True Recycle block_okD(2) [OF ok] show ?thesis by (auto simp: block_inv_def get_block_def pool_access_def)
    qed (use Recycle assms block_okD(2) [OF ok] in \<open>auto simp: get_block_def pool_access_def\<close>)
  qed
qed

lemma block_run_inv: "block_inv a c U s \<Longrightarrow> \<exists>U' s'. block_run a acts (U, s) = Inr (U', s') \<and> block_inv a c U' s'"
proof (induction acts arbitrary: U s)
  case (Cons act acts)
  obtain U1 s1 where "block_exec a act (U, s) = Inr (U1, s1)" "block_inv a c U1 s1" using block_exec_inv [OF Cons.prems] by blast
  with Cons.IH show ?case by simp
qed simp

definition fresh_block :: "nat \<Rightarrow> nat \<Rightarrow> nat \<Rightarrow> ScalablePoolAllocator \<Rightarrow> bool" where
  "fresh_block t a sz s \<longleftrightarrow> BLOCK_SIZE \<le> a \<and> in_pool a BLOCK_SIZE s \<and> mPoolEnd s < size_mod \<and>
     8 \<le> getChunkSize sz s \<and> getChunkSize sz s \<le> BLOCK_SIZE - sizeof_Block \<and>
     (mBins s t = 0 \<or> in_pool (mBins s t + getIndex sz s * sizeof_Bin) sizeof_Bin s)"

lemma init_inv:
  assumes "fresh_block t a sz s"
  shows "\<exists>s'. initEmptyBlock t a sz s = Inr s' \<and> block_inv a (getChunkSize sz s) {} s'"
proof -
  let ?c = "getChunkSize sz s"
  have "0 < chunk_count ?c" using assms by (simp add: chunk_count_def fresh_block_def div_greater_zero_iff)
  moreover have "in_pool a sizeof_Block s" using assms by (simp add: fresh_block_def in_pool_def)
  ultimately show ?thesis using assms
    by (auto simp: initEmptyBlock_def getThreadID_def Let_def mod_block_def pool_access_def block_inv_def block_ok_def mail_ok_def
        fresh_block_def chunk_at_def isInvalid_def in_pool_def intro!: exI [of _ "[]"] exI [of _ 0])
qed

section \<open>Properties\<close>

text \<open>
  C11. Whatever the owner and the other threads do with a block after \<open>initEmptyBlock\<close>, no access leaves the pool,
  no chunk is handed out while it is in use, the chunks in use lie behind the header inside the block and
  do not overlap, and an allocation is refused exactly when all chunks of the block are counted as allocated
  (in use or waiting on the public list).
\<close>

theorem block_chunks_safe:
  assumes "fresh_block t a sz s0" "initEmptyBlock t a sz s0 = Inr s"
  shows "\<exists>U s'. block_run a acts ({}, s) = Inr (U, s') \<and>
    (\<forall>x\<in>U. a + sizeof_Block \<le> x \<and> x + getChunkSize sz s0 \<le> a + BLOCK_SIZE) \<and>
    (\<forall>x\<in>U. \<forall>y\<in>U. x < y \<longrightarrow> x + getChunkSize sz s0 \<le> y) \<and>
    (\<exists>r s''. allocateFromBlock a s' = Inr (r, s'') \<and> (r = 0 \<longleftrightarrow> mAllocationCount (blocks s' a) = chunk_count (getChunkSize sz s0)))"
proof -
  let ?c = "getChunkSize sz s0"
  have "block_inv a ?c {} s" using init_inv [OF assms(1)] assms(2) by auto
  then obtain U s' where U: "block_run a acts ({}, s) = Inr (U, s')" "block_inv a ?c U s'" using block_run_inv by blast
  obtain F P m where ok: "block_ok a U F P m s'" and c: "mChunkSize (blocks s' a) = ?c" using U(2) by (auto simp: block_inv_def)
  have "x + ?c \<le> y" if xy: "x \<in> U" "y \<in> U" "x < y" for x y
  proof -
    obtain i where i: "i < m" "x = chunk_at a ?c i" using block_chunk(1) [OF ok, of x] xy(1) c by auto
    obtain j where j: "j < m" "y = chunk_at a ?c j" using block_chunk(1) [OF ok, of y] xy(2) c by auto
    note ij = i j
    have "\<not> i \<le> j"
    proof
      assume "i \<le> j"
      then consider "i = j" | "i < j" by linarith
      then show False using xy(3) ij chunks_apart [of i j ?c a] block_okD(7) [OF ok] c by cases auto
    qed
    then have "j < i" by simp
    with ij show ?thesis using chunks_apart [of j i ?c a] block_okD(7) [OF ok] c by simp
  qed
  moreover have "a + sizeof_Block \<le> x \<and> x + ?c \<le> a + BLOCK_SIZE" if "x \<in> U" for x
    using block_chunk(2,3) [OF ok, of x] that c by simp
  moreover obtain r s'' where "allocateFromBlock a s' = Inr (r, s'')" "r = 0 \<longleftrightarrow> mAllocationCount (blocks s' a) = chunk_count ?c"
    using take_inv [OF U(2)] by blast
  ultimately show ?thesis using U(1) by auto
qed


text \<open>A pool with two size classes, of the smallest size the constructor accepts.\<close>

definition small_pool :: ScalablePoolAllocator where
  "small_pool =
     \<lparr>MIN_LARGE_CHUNK_SIZE = 17, BIN_COUNT = 2, mPool = 81920, mPoolEnd = 344064, mBlockAllocPtr = 81920, mFreeBlockStack = 0,
      mBumpPtr = 343936, mLargeFreeList = 0, mThreadCount = 0, mTLSChunkList = 0, mTLSUsedBlocks = 0, mTLSAllocBlock = 0,
      mThreadID = (\<lambda>_. 0), mBins = (\<lambda>_. 0), mBinSizes = (\<lambda>i. if i < 2 then [8, 16] ! i else 0), mGlobalBins = (\<lambda>_. 0),
      blocks = (\<lambda>_. zero_block), bins = (\<lambda>_. zero_bin), links = (\<lambda>_. 0), larges = (\<lambda>_. \<lparr>lNext = 0, lSize = 0, lPrev = 0\<rparr>)\<rparr>"

lemma small_pool_new: "ScalablePoolAllocator_new 65536 278528 (Some [8, 16]) 2 = Inr small_pool"
  by (simp add: ScalablePoolAllocator_new_def small_pool_def sz_add_def size_mod_def alignUp_def alignDown_def)

theorem block_chunks_safe_witness:
  "\<exists>s U s'. initEmptyBlock 1 81920 10 small_pool = Inr s \<and>
     block_run 81920 [Take, Take, GiveBack 98272, Take] ({}, s) = Inr (U, s') \<and> U = {98272, 98288} \<and>
     (\<forall>x\<in>U. 82000 \<le> x \<and> x + 16 \<le> 98304)"
proof -
  have c: "getChunkSize 10 small_pool = 16" "getIndex 10 small_pool = 1"
    by (simp_all add: getChunkSize_def getIndex_def getIndexOrChunkSize_def small_pool_def)
  have f: "fresh_block 1 81920 10 small_pool"
    unfolding fresh_block_def c by (simp add: small_pool_def in_pool_def size_mod_def)
  let ?b = "\<lparr>mNext = 0, mOwnerID = 1, mPrev = 0, mChunkSize = 16, bBumpPtr = 98288, mFreeList = 0, mAllocationCount = 0,
     mIsFull = False, mPublicFreeList = 0, mNextPrivatizable = 0\<rparr>"
  let ?s = "small_pool\<lparr>mThreadCount := 1, mThreadID := (mThreadID small_pool)(1 := 1), blocks := (blocks small_pool)(81920 := ?b)\<rparr>"
  have pool: "mPool small_pool = 81920" "mPoolEnd small_pool = 344064" "mThreadID small_pool 1 = 0" "mThreadCount small_pool = 0"
    "mBins small_pool 1 = 0" by (simp_all add: small_pool_def)
  have s: "initEmptyBlock 1 81920 10 small_pool = Inr ?s"
    using c pool by (simp add: initEmptyBlock_def getThreadID_def block_access in_pool_def Let_def sz_add_def size_mod_def)
  from block_chunks_safe [OF f s, of "[Take, Take, GiveBack 98272, Take]"] obtain U s' where
    r: "block_run 81920 [Take, Take, GiveBack 98272, Take] ({}, ?s) = Inr (U, s')"
    "\<forall>x\<in>U. 82000 \<le> x \<and> x + 16 \<le> 98304" unfolding c by auto
  have "U = {98272, 98288}"
    using r(1) pool by (simp add: block_access in_pool_def allocateFromBlock_def allocateFromFreeList_def allocateFromBumpPtr_def
        free_private_def sz_sub_def sz_add_def size_mod_def)
  with s r show ?thesis by blast
qed

text \<open>
  A small allocation that finds no room for 16 more blocks returns null, but leaves the boundary between blocks and
  large chunks 256 KB higher: large chunks that are in use and lie below the new boundary are then taken for small ones
  when they are freed, and memory that was free for a large chunk is refused from then on.
\<close>

theorem failed_growth_moves_boundary:
  assumes "allocateBlocks s = Inr (False, s')" "mBlockAllocPtr s < mem" "mem \<le> mBlockAllocPtr s + BIG_BLOCK_SIZE"
    and "mPool s \<le> mBlockAllocPtr s" "mBumpPtr s \<le> mPoolEnd s" "mPoolEnd s < size_mod" "mLargeFreeList s = 0"
    and "sz + sizeof_size_t + mBlockAllocPtr s \<le> mBumpPtr s"
  shows "isLargeChunk mem s \<and> \<not> isLargeChunk mem s' \<and> (\<exists>p s1. allocateLarge sz s = Inr (p, s1) \<and> p \<noteq> 0) \<and>
    allocateLarge sz s' = Inr (0, s')"
proof -
  have s': "s' = s\<lparr>mBlockAllocPtr := mBlockAllocPtr s + BIG_BLOCK_SIZE\<rparr>" "mBumpPtr s < mBlockAllocPtr s + BIG_BLOCK_SIZE"
    using assms(1) by (auto simp: allocateBlocks_def Let_def rbind_simps split: if_splits)
  let ?bump = "mBumpPtr s - sz - sizeof_size_t"
  have bump: "sz_sub (sz_sub (mBumpPtr s) sz) sizeof_size_t = ?bump" using assms by (simp add: sz_sub_exact)
  have none: "find_large k 0 sz x = Inr 0" for k x by (cases k) auto
  have "in_pool ?bump sizeof_size_t (s\<lparr>mBumpPtr := ?bump\<rparr>)" using assms by (simp add: in_pool_def) linarith
  then have "allocateLarge sz s = Inr (?bump + sizeof_size_t, s\<lparr>mBumpPtr := ?bump, larges := (larges s)(?bump := (larges s ?bump)\<lparr>lNext := sz\<rparr>)\<rparr>)"
    using assms bump none by (simp add: allocateLarge_def set_psz_def pool_access_def Let_def)
  moreover have "?bump < mBlockAllocPtr s + BIG_BLOCK_SIZE" using s'(2) by linarith
  then have "allocateLarge sz s' = Inr (0, s')"
    using assms bump none s' by (simp add: allocateLarge_def Let_def)
  ultimately show ?thesis using assms s' by (auto simp: isLargeChunk_def)
qed

theorem failed_growth_moves_boundary_witness:
  "\<exists>mem s1 s2. allocateLarge 100 small_pool = Inr (mem, s1) \<and> allocateBlocks s1 = Inr (False, s2) \<and>
     isLargeChunk mem s1 \<and> \<not> isLargeChunk mem s2 \<and> allocateLarge 100 s2 = Inr (0, s2)"
proof -
  have none: "find_large k 0 sz x = Inr 0" for k sz x by (cases k) auto
  let ?s1 = "small_pool\<lparr>mBumpPtr := 343828, larges := (larges small_pool)(343828 := (larges small_pool 343828)\<lparr>lNext := 100\<rparr>)\<rparr>"
  let ?s2 = "?s1\<lparr>mBlockAllocPtr := 344064\<rparr>"
  have "allocateLarge 100 small_pool = Inr (343836, ?s1)"
    by (simp add: allocateLarge_def none small_pool_def sz_sub_def size_mod_def set_psz_def pool_access_def in_pool_def Let_def)
  moreover have "allocateBlocks ?s1 = Inr (False, ?s2)" by (simp add: allocateBlocks_def small_pool_def Let_def)
  moreover from failed_growth_moves_boundary [OF this, of 343836 100]
  have "isLargeChunk 343836 ?s1 \<and> \<not> isLargeChunk 343836 ?s2 \<and> allocateLarge 100 ?s2 = Inr (0, ?s2)"
    by (simp add: small_pool_def size_mod_def)
  ultimately show ?thesis by blast
qed

end
