(* ===== verification/Encoding.thy ===== *)
theory Encoding
  imports Prelude
begin

text \<open>
  Text encodings of \<open>src/libzillians-common-utility/utility/crypto\<close>: \<open>base64_encode\<close> and \<open>base64_decode\<close>
  of \<open>base64.cpp\<close> with their byte buffers, and the letter rotation of \<open>Crypto.cpp\<close>
  (\<open>encryptStringBasic\<close>, \<open>decryptStringBasic\<close>) on top of them. Strings are lists of bytes; the
  classification of characters is that of the C locale.
\<close>

section \<open>Characters\<close>

type_synonym bytes = "u8 list"

definition isupper :: "u8 \<Rightarrow> bool" where "isupper c \<longleftrightarrow> 65 \<le> c \<and> c \<le> 90"
definition islower :: "u8 \<Rightarrow> bool" where "islower c \<longleftrightarrow> 97 \<le> c \<and> c \<le> 122"
definition isalpha :: "u8 \<Rightarrow> bool" where "isalpha c \<longleftrightarrow> isupper c \<or> islower c"
definition isalnum :: "u8 \<Rightarrow> bool" where "isalnum c \<longleftrightarrow> isalpha c \<or> 48 \<le> c \<and> c \<le> 57"
definition toupper :: "u8 \<Rightarrow> u8" where "toupper c = (if islower c then c - 32 else c)"
definition tolower :: "u8 \<Rightarrow> u8" where "tolower c = (if isupper c then c + 32 else c)"

section \<open>base64\<close>

definition base64_chars :: bytes where
  "base64_chars = map of_char ''ABCDEFGHIJKLMNOPQRSTUVWXYZabcdefghijklmnopqrstuvwxyz0123456789+/''"

definition is_base64 :: "u8 \<Rightarrow> bool" where
  "is_base64 c \<longleftrightarrow> isalnum c \<or> c = 43 \<or> c = 47"

text \<open>\<open>base64_chars.find(c)\<close>, cut to a byte: \<open>npos\<close> becomes 255.\<close>

fun find_from :: "nat \<Rightarrow> u8 \<Rightarrow> bytes \<Rightarrow> u8" where
  "find_from i c [] = 255"
| "find_from i c (x # xs) = (if x = c then of_nat i else find_from (i + 1) c xs)"

definition base64_find :: "u8 \<Rightarrow> u8" where
  "base64_find c = find_from 0 c base64_chars"

text \<open>\<open>char_array_4\<close> from \<open>char_array_3\<close> and back.\<close>

definition sextets :: "u8 \<Rightarrow> u8 \<Rightarrow> u8 \<Rightarrow> bytes" where
  "sextets a b c =
     [drop_bit 2 (a AND 0xfc), push_bit 4 (a AND 0x03) + drop_bit 4 (b AND 0xf0),
      push_bit 2 (b AND 0x0f) + drop_bit 6 (c AND 0xc0), c AND 0x3f]"

definition octets :: "u8 \<Rightarrow> u8 \<Rightarrow> u8 \<Rightarrow> u8 \<Rightarrow> bytes" where
  "octets p q r s =
     [push_bit 2 p + drop_bit 4 (q AND 0x30), push_bit 4 (q AND 0xf) + drop_bit 2 (r AND 0x3c),
      push_bit 6 (r AND 0x3) + s]"

text \<open>\<open>buf\<close> are the first \<open>i\<close> bytes of the array the loop fills.\<close>

definition encode_array :: "bytes \<Rightarrow> bytes" where
  "encode_array buf = (case buf of [a, b, c] \<Rightarrow> sextets a b c | _ \<Rightarrow> [])"

definition encode_tail :: "bytes \<Rightarrow> bytes" where
  "encode_tail buf =
     (if buf = [] then []
      else let i = length buf; arr = encode_array (buf @ replicate (3 - i) 0) in
           map (\<lambda>k. base64_chars ! unat k) (take (i + 1) arr) @ replicate (3 - i) 61)"

fun encode_loop :: "bytes \<Rightarrow> bytes \<Rightarrow> bytes" where
  "encode_loop buf [] = encode_tail buf"
| "encode_loop buf (x # xs) =
     (let buf = buf @ [x] in
      if length buf = 3 then map (\<lambda>k. base64_chars ! unat k) (encode_array buf) @ encode_loop [] xs
      else encode_loop buf xs)"

definition base64_encode :: "bytes \<Rightarrow> bytes" where
  "base64_encode bs = encode_loop [] bs"

definition decode_array :: "bytes \<Rightarrow> bytes" where
  "decode_array buf = (case map base64_find buf of [p, q, r, s] \<Rightarrow> octets p q r s | _ \<Rightarrow> [])"

definition decode_tail :: "bytes \<Rightarrow> bytes" where
  "decode_tail buf =
     (if buf = [] then []
      else let i = length buf in take (i - 1) (decode_array (buf @ replicate (4 - i) 0)))"

fun decode_loop :: "bytes \<Rightarrow> bytes \<Rightarrow> bytes" where
  "decode_loop buf [] = decode_tail buf"
| "decode_loop buf (x # xs) =
     (if x = 61 \<or> \<not> is_base64 x then decode_tail buf
      else let buf = buf @ [x] in
           if length buf = 4 then decode_array buf @ decode_loop [] xs else decode_loop buf xs)"

definition base64_decode :: "bytes \<Rightarrow> bytes" where
  "base64_decode s = decode_loop [] s"

section \<open>Letter rotation\<close>

definition encode_char_rolling_offset :: "u8 \<Rightarrow> u8 \<Rightarrow> u8" where
  "encode_char_rolling_offset data_char key_char =
     (if \<not> isalpha data_char \<or> \<not> isalpha key_char then data_char
      else if isupper data_char then 65 + of_nat ((unat (data_char - 65) + unat (toupper key_char - 65)) mod 26)
      else if islower data_char then 97 + of_nat ((unat (data_char - 97) + unat (tolower key_char - 97)) mod 26)
      else 65)"

definition decode_char_rolling_offset :: "u8 \<Rightarrow> u8 \<Rightarrow> u8" where
  "decode_char_rolling_offset data_char key_char =
     (if \<not> isalpha data_char \<or> \<not> isalpha key_char then data_char
      else if isupper data_char then 65 + of_nat ((26 + unat (data_char - 65) - unat (toupper key_char - 65)) mod 26)
      else if islower data_char then 97 + of_nat ((26 + unat (data_char - 97) - unat (tolower key_char - 97)) mod 26)
      else 65)"

text \<open>
  The loop over the data; \<open>i % Key.length()\<close> with an empty key divides by zero, which is undefined behaviour
  like an access outside memory.
\<close>

fun roll :: "(u8 \<Rightarrow> u8 \<Rightarrow> u8) \<Rightarrow> nat \<Rightarrow> bytes \<Rightarrow> bytes \<Rightarrow> bytes result" where
  "roll f i [] key = Inr []"
| "roll f i (x # xs) key =
     (if key = [] then Inl MemFault
      else rbind (roll f (i + 1) xs key) (\<lambda>ys. Inr (f x (key ! (i mod length key)) # ys)))"

definition encryptStringBasic :: "bytes \<Rightarrow> bytes \<Rightarrow> bool \<Rightarrow> bytes result" where
  "encryptStringBasic dat key PostBase64Encode =
     rbind (roll encode_char_rolling_offset 0 dat key) (\<lambda>e.
       Inr (if PostBase64Encode then base64_encode e else e))"

definition decryptStringBasic :: "bytes \<Rightarrow> bytes \<Rightarrow> bool \<Rightarrow> bytes result" where
  "decryptStringBasic dat key PreBase64Decode =
     roll decode_char_rolling_offset 0 (if PreBase64Decode then base64_decode dat else dat) key"

section \<open>Bits\<close>

lemma less8: "n < (8::nat) \<Longrightarrow> n = 0 \<or> n = 1 \<or> n = 2 \<or> n = 3 \<or> n = 4 \<or> n = 5 \<or> n = 6 \<or> n = 7"
  by auto

lemma byte_eqI: "(\<And>n. n < 8 \<Longrightarrow> bit (a :: u8) n = bit b n) \<Longrightarrow> a = b"
  by (rule bit_word_eqI) auto

lemma sextet_or:
  "push_bit 4 (a AND 0x03) + drop_bit 4 (b AND 0xf0) = (push_bit 4 (a AND 0x03) OR drop_bit 4 (b AND 0xf0) :: u8)"
  "push_bit 2 (b AND 0x0f) + drop_bit 6 (c AND 0xc0) = (push_bit 2 (b AND 0x0f) OR drop_bit 6 (c AND 0xc0) :: u8)"
  by (rule disjunctive_add; auto simp: bit_simps dest!: less8)+

lemma octet_or:
  "push_bit 2 p + drop_bit 4 (q AND 0x30) = (push_bit 2 p OR drop_bit 4 (q AND 0x30) :: u8)"
  "push_bit 4 (q AND 0xf) + drop_bit 2 (r AND 0x3c) = (push_bit 4 (q AND 0xf) OR drop_bit 2 (r AND 0x3c) :: u8)"
  "push_bit 6 (r AND 0x3) + (c AND 0x3f) = (push_bit 6 (r AND 0x3) OR (c AND 0x3f) :: u8)"
  by (rule disjunctive_add; auto simp: bit_simps dest!: less8)+

lemmas suc_numerals = numeral_2_eq_2 numeral_3_eq_3

lemma sextets_or:
  "sextets a b c =
     [drop_bit 2 (a AND 0xfc), push_bit 4 (a AND 0x03) OR drop_bit 4 (b AND 0xf0),
      push_bit 2 (b AND 0x0f) OR drop_bit 6 (c AND 0xc0), c AND 0x3f]"
  unfolding sextets_def sextet_or by (rule refl)

lemma octet_sextets:
  "push_bit 2 (drop_bit 2 (a AND 0xfc)) OR drop_bit 4 ((push_bit 4 (a AND 0x03) OR drop_bit 4 (b AND 0xf0)) AND 0x30) = (a :: u8)"
  "push_bit 4 ((push_bit 4 (a AND 0x03) OR drop_bit 4 (b AND 0xf0)) AND 0xf) OR
     drop_bit 2 ((push_bit 2 (b AND 0x0f) OR drop_bit 6 (c AND 0xc0)) AND 0x3c) = (b :: u8)"
  "push_bit 6 ((push_bit 2 (b AND 0x0f) OR drop_bit 6 (c AND 0xc0)) AND 0x3) OR (c AND 0x3f) = (c :: u8)"
  by (rule byte_eqI; drule less8; elim disjE; simp add: bit_simps; simp add: suc_numerals)+

lemma octets_sextets: "sextets a b c = [p, q, r, s] \<Longrightarrow> octets p q r s = [a, b, c]"
proof -
  assume "sextets a b c = [p, q, r, s]"
  then have e: "p = drop_bit 2 (a AND 0xfc)" "q = push_bit 4 (a AND 0x03) OR drop_bit 4 (b AND 0xf0)"
    "r = push_bit 2 (b AND 0x0f) OR drop_bit 6 (c AND 0xc0)" "s = c AND 0x3f"
    unfolding sextets_or by blast+
  show ?thesis unfolding octets_def e octet_or octet_sextets by (rule refl)
qed

text \<open>The first bytes do not depend on the last sextets, as needed for the padded tail.\<close>

lemma octets_tail:
  "sextets a b 0 = [p, q, r, s] \<Longrightarrow> take 2 (octets p q r t) = [a, b]"
  "sextets a 0 0 = [p, q, r, s] \<Longrightarrow> take 1 (octets p q u t) = [a]"
  using octets_sextets [of a b 0 p q r s] octets_sextets [of a 0 0 p q r s] by (simp_all add: octets_def)

lemma sextet_less: "x \<in> set (sextets a b c) \<Longrightarrow> unat x < 64"
proof -
  assume "x \<in> set (sextets a b c)"
  then have "\<not> bit x 6 \<and> \<not> bit x 7" unfolding sextets_or by (auto simp: bit_simps)
  then have "x = take_bit 6 x" by (intro byte_eqI) (auto simp: bit_simps suc_numerals dest!: less8)
  then have "unat x = unat (take_bit 6 x)" by simp
  also have "\<dots> = take_bit 6 (unat x)" by (simp add: unsigned_take_bit_eq)
  also have "\<dots> < 64" using take_bit_nat_less_exp [of 6 "unat x"] by simp
  finally show ?thesis .
qed

section \<open>The alphabet\<close>

lemma chars_eval:
  "base64_chars = [65, 66, 67, 68, 69, 70, 71, 72, 73, 74, 75, 76, 77, 78, 79, 80, 81, 82, 83, 84, 85, 86, 87, 88, 89, 90,
     97, 98, 99, 100, 101, 102, 103, 104, 105, 106, 107, 108, 109, 110, 111, 112, 113, 114, 115, 116, 117, 118, 119, 120, 121, 122,
     48, 49, 50, 51, 52, 53, 54, 55, 56, 57, 43, 47]"
  by (simp add: base64_chars_def of_char_def)

lemma chars_distinct: "distinct base64_chars"
  unfolding chars_eval by simp

lemma chars_length: "length base64_chars = 64"
  unfolding chars_eval by simp

lemma chars_valid: "k < 64 \<Longrightarrow> is_base64 (base64_chars ! k) \<and> base64_chars ! k \<noteq> 61"
proof -
  assume "k < 64"
  then have "base64_chars ! k \<in> set base64_chars" using chars_length by simp
  moreover have "\<forall>c\<in>set base64_chars. is_base64 c \<and> c \<noteq> 61"
    unfolding chars_eval by (simp add: is_base64_def isalnum_def isalpha_def isupper_def islower_def)
  ultimately show ?thesis by blast
qed

lemma find_from_nth: "distinct xs \<Longrightarrow> k < length xs \<Longrightarrow> find_from i (xs ! k) xs = of_nat (i + k)"
proof (induction xs arbitrary: i k)
  case (Cons x xs)
  then show ?case by (cases k) (auto simp: nth_Cons')
qed simp

lemma find_sextet: "x \<in> set (sextets a b c) \<Longrightarrow> base64_find (base64_chars ! unat x) = x"
  using find_from_nth [OF chars_distinct, of "unat x" 0] sextet_less [of x a b c] chars_length by (simp add: base64_find_def)

section \<open>Round trips\<close>

abbreviation to_chars :: "bytes \<Rightarrow> bytes" where
  "to_chars xs \<equiv> map (\<lambda>k. base64_chars ! unat k) xs"

lemma sextets_cases: obtains p q r s where "sextets a b c = [p, q, r, s]"
  by (simp add: sextets_def)

lemma encode_step: "encode_loop [] (a # b # c # xs) = to_chars (sextets a b c) @ encode_loop [] xs"
  by (simp add: encode_array_def Let_def)

lemma encode_ends:
  "encode_loop [] [] = []"
  "sextets a 0 0 = [p, q, r, s] \<Longrightarrow> encode_loop [] [a] = to_chars [p, q] @ [61, 61]"
  "sextets a b 0 = [p, q, r, s] \<Longrightarrow> encode_loop [] [a, b] = to_chars [p, q, r] @ [61]"
  by (simp_all add: encode_tail_def encode_array_def Let_def numeral_2_eq_2)

text \<open>The decoder collects valid characters and hands four of them on.\<close>

lemma decode_step:
  "x \<in> set (sextets a b c) \<Longrightarrow> length buf < 3 \<Longrightarrow> decode_loop buf (base64_chars ! unat x # ys) = decode_loop (buf @ [base64_chars ! unat x]) ys"
  "x \<in> set (sextets a b c) \<Longrightarrow> length buf = 3 \<Longrightarrow>
     decode_loop buf (base64_chars ! unat x # ys) = decode_array (buf @ [base64_chars ! unat x]) @ decode_loop [] ys"
  using chars_valid [OF sextet_less, of x a b c] by (simp_all add: Let_def)

lemma decode_quad: "decode_loop [] (to_chars (sextets a b c) @ ys) = [a, b, c] @ decode_loop [] ys"
proof -
  obtain p q r s where e: "sextets a b c = [p, q, r, s]" by (rule sextets_cases)
  have m: "p \<in> set (sextets a b c)" "q \<in> set (sextets a b c)" "r \<in> set (sextets a b c)" "s \<in> set (sextets a b c)"
    by (simp_all add: e)
  then show ?thesis
    using octets_sextets [OF e] by (simp add: e decode_step [OF m(1)] decode_step [OF m(2)] decode_step [OF m(3)] decode_step [OF m(4)]
      decode_array_def find_sextet [OF m(1)] find_sextet [OF m(2)] find_sextet [OF m(3)] find_sextet [OF m(4)] del: decode_loop.simps(2))
qed

lemma decode_pad: "decode_loop buf (61 # ys) = decode_tail buf"
  by simp

lemma decode_ends:
  "decode_loop [] (encode_loop [] [a]) = [a]" "decode_loop [] (encode_loop [] [a, b]) = [a, b]"
proof -
  obtain p q r s where e: "sextets a 0 0 = [p, q, r, s]" by (rule sextets_cases)
  have m: "p \<in> set (sextets a 0 0)" "q \<in> set (sextets a 0 0)" by (simp_all add: e)
  then show "decode_loop [] (encode_loop [] [a]) = [a]"
    using octets_tail(2) [OF e] unfolding encode_ends(2) [OF e]
    by (simp add: decode_step [OF m(1)] decode_step [OF m(2)] decode_pad decode_tail_def decode_array_def find_sextet [OF m(1)] find_sextet [OF m(2)]
        numeral_2_eq_2 del: decode_loop.simps(2))
next
  obtain p q r s where e: "sextets a b 0 = [p, q, r, s]" by (rule sextets_cases)
  have m: "p \<in> set (sextets a b 0)" "q \<in> set (sextets a b 0)" "r \<in> set (sextets a b 0)" by (simp_all add: e)
  then show "decode_loop [] (encode_loop [] [a, b]) = [a, b]"
    using octets_tail(1) [OF e] unfolding encode_ends(3) [OF e]
    by (simp add: decode_step [OF m(1)] decode_step [OF m(2)] decode_step [OF m(3)] decode_pad decode_tail_def decode_array_def
        find_sextet [OF m(1)] find_sextet [OF m(2)] find_sextet [OF m(3)] numeral_2_eq_2 del: decode_loop.simps(2))
qed

lemma threes_induct [case_names Nil One Two Three]:
  assumes "P []" "\<And>a. P [a]" "\<And>a b. P [a, b]" "\<And>a b c xs. P xs \<Longrightarrow> P (a # b # c # xs)"
  shows "P (xs :: 'a list)"
proof (induction xs rule: length_induct)
  case (1 xs)
  consider "xs = []" | a where "xs = [a]" | a b where "xs = [a, b]" | a b c ys where "xs = a # b # c # ys"
    by (metis neq_Nil_conv)
  then show ?case by cases (use assms 1 in auto)
qed

lemma decode_encode: "decode_loop [] (encode_loop [] bs) = bs"
proof (induction bs rule: threes_induct)
  case Nil
  then show ?case by (simp add: encode_tail_def decode_tail_def)
next
  case (Three a b c xs)
  then show ?case unfolding encode_step decode_quad by simp
qed (rule decode_ends)+

lemma encode_shape:
  "length (encode_loop [] bs) = 4 * ((length bs + 2) div 3) \<and> set (encode_loop [] bs) \<subseteq> insert 61 (set base64_chars)"
proof -
  have c: "base64_chars ! unat x \<in> set base64_chars" if "x \<in> set (sextets a b c)" for x a b c
    using sextet_less [OF that] chars_length by simp
  show ?thesis
  proof (induction bs rule: threes_induct)
    case (One a)
    obtain p q r s where e: "sextets a 0 0 = [p, q, r, s]" by (rule sextets_cases)
    then show ?case using c [of _ a 0 0] unfolding encode_ends(2) [OF e] by simp
  next
    case (Two a b)
    obtain p q r s where e: "sextets a b 0 = [p, q, r, s]" by (rule sextets_cases)
    then show ?case using c [of _ a b 0] unfolding encode_ends(3) [OF e] by simp
  next
    case (Three a b d xs)
    obtain p q r s where e: "sextets a b d = [p, q, r, s]" by (rule sextets_cases)
    have "(length (a # b # d # xs) + 2) div 3 = Suc ((length xs + 2) div 3)" by simp
    then show ?case using Three c [of _ a b d] unfolding encode_step e by simp
  qed (simp add: encode_tail_def)
qed

lemma letter_index:
  "65 \<le> c \<Longrightarrow> c \<le> (90 :: u8) \<Longrightarrow> unat (c - 65) < 26" "97 \<le> c \<Longrightarrow> c \<le> (122 :: u8) \<Longrightarrow> unat (c - 97) < 26"
  by (simp_all add: word_le_nat_alt unat_sub)

lemma key_index: "isalpha k \<Longrightarrow> unat (toupper k - 65) < 26" "isalpha k \<Longrightarrow> unat (tolower k - 97) < 26"
  by (auto simp: isalpha_def toupper_def tolower_def isupper_def islower_def word_le_nat_alt unat_sub unat_word_ariths word_less_nat_alt)

lemma index_letter:
  assumes "i < 26"
  shows "isupper (65 + of_nat i)" "islower (97 + of_nat i)" "\<not> isupper (97 + of_nat i)" "unat ((65 + of_nat i :: u8) - 65) = i"
    "unat ((97 + of_nat i :: u8) - 97) = i"
  using assms by (simp_all add: isupper_def islower_def word_le_nat_alt unat_word_ariths unat_of_nat)

lemma unroll: "D < 26 \<Longrightarrow> K < 26 \<Longrightarrow> (26 + (D + K) mod 26 - K) mod 26 = (D :: nat)"
  by (cases "D + K < 26") (auto simp: mod_if)

lemma decode_encode_char: "decode_char_rolling_offset (encode_char_rolling_offset d k) k = d"
proof -
  consider "\<not> isalpha d \<or> \<not> isalpha k" | "isupper d" "isalpha k" | "islower d" "\<not> isupper d" "isalpha k"
    by (auto simp: isalpha_def)
  then show ?thesis
  proof cases
    case 1
    then show ?thesis by (simp add: decode_char_rolling_offset_def encode_char_rolling_offset_def)
  next
    case 2
    then show ?thesis
      using index_letter [of "(unat (d - 65) + unat (toupper k - 65)) mod 26"] letter_index(1) [of d] key_index(1) [of k]
      by (simp add: decode_char_rolling_offset_def encode_char_rolling_offset_def isalpha_def isupper_def [of d] unroll)
  next
    case 3
    then show ?thesis
      using index_letter [of "(unat (d - 97) + unat (tolower k - 97)) mod 26"] letter_index(2) [of d] key_index(2) [of k]
      by (simp add: decode_char_rolling_offset_def encode_char_rolling_offset_def isalpha_def islower_def [of d] unroll)
  qed
qed

lemma roll_back: "key \<noteq> [] \<Longrightarrow> \<exists>e. roll encode_char_rolling_offset i xs key = Inr e \<and> roll decode_char_rolling_offset i e key = Inr xs"
proof (induction xs arbitrary: i)
  case (Cons x xs)
  then obtain e where "roll encode_char_rolling_offset (i + 1) xs key = Inr e" "roll decode_char_rolling_offset (i + 1) e key = Inr xs"
    by blast
  with Cons.prems show ?case by (simp add: decode_encode_char)
qed simp

section \<open>Properties\<close>

text \<open>
  C13. Decoding what \<open>base64_encode\<close> produced gives the bytes back, whatever they are and whatever their number modulo three;
  the encoding has four characters per started group of three bytes, all of the alphabet or the padding sign.
\<close>

theorem base64_roundtrip:
  "base64_decode (base64_encode bs) = bs \<and> length (base64_encode bs) = 4 * ((length bs + 2) div 3) \<and>
   set (base64_encode bs) \<subseteq> insert 61 (set base64_chars)"
  using decode_encode encode_shape by (simp add: base64_decode_def base64_encode_def)

text \<open>
  With a non-empty key \<open>decryptStringBasic\<close> undoes \<open>encryptStringBasic\<close>, with and without base64; with an empty key
  encrypting a non-empty text divides by zero.
\<close>

theorem encrypt_roundtrip:
  "(key \<noteq> [] \<longrightarrow> (\<exists>e. encryptStringBasic dat key b = Inr e \<and> decryptStringBasic e key b = Inr dat)) \<and>
   (dat \<noteq> [] \<longrightarrow> encryptStringBasic dat [] b = Inl MemFault)"
proof -
  have "\<exists>e. encryptStringBasic dat key b = Inr e \<and> decryptStringBasic e key b = Inr dat" if k: "key \<noteq> []"
  proof -
    obtain e where "roll encode_char_rolling_offset 0 dat key = Inr e" "roll decode_char_rolling_offset 0 e key = Inr dat"
      using roll_back [OF k] by blast
    then show ?thesis using decode_encode [of e]
      by (auto simp: encryptStringBasic_def decryptStringBasic_def base64_decode_def base64_encode_def)
  qed
  moreover have "encryptStringBasic dat [] b = Inl MemFault" if "dat \<noteq> []"
    using that by (cases dat) (auto simp: encryptStringBasic_def)
  ultimately show ?thesis by blast
qed

theorem encrypt_roundtrip_witness:
  "encryptStringBasic [72, 105, 33] [98] False = Inr [73, 106, 33] \<and> decryptStringBasic [73, 106, 33] [98] False = Inr [72, 105, 33]"
proof -
  have "encryptStringBasic [72, 105, 33] [98] False = Inr [73, 106, 33]"
    by (simp add: encryptStringBasic_def encode_char_rolling_offset_def isalpha_def isupper_def islower_def toupper_def tolower_def)
  with encrypt_roundtrip [of "[98]" "[72, 105, 33]" False] show ?thesis by auto
qed

end
