(* ===== verification/Transaction.thy ===== *)
theory Transaction
  imports Prelude
begin

text \<open>
  The transaction of \<open>include/core/Transaction.h\<close>: a list of actions with their rollback routines, run one after the
  other until one pauses or throws. The routines are the caller's: an action takes the transaction state
  to a new one and returns whether to go on, or throws (\<open>None\<close>) after having changed the state; a rollback
  routine changes the state and may throw (\<open>False\<close>). \<open>run\<close> holds the lock for its whole duration, so it is one
  step; \<open>next\<close> starts it asynchronously, and \<open>pending\<close> counts the runs that were started and have not run yet.
\<close>

section \<open>State and operations\<close>

type_synonym 's action = "'s \<Rightarrow> 's \<times> bool option"
type_synonym 's rollback = "'s \<Rightarrow> 's \<times> bool"

record 's transaction =
  mTransactions :: "('s action \<times> 's rollback) list"
  mTransactionState :: 's
  mProgramCounter :: int
  pending :: nat

definition Transaction_new :: "'s \<Rightarrow> 's transaction" where
  "Transaction_new st = \<lparr>mTransactions = [], mTransactionState = st, mProgramCounter = 0, pending = 0\<rparr>"

definition add_step :: "'s action \<Rightarrow> 's rollback \<Rightarrow> 's transaction \<Rightarrow> 's transaction" where
  "add_step action rollback tr = tr\<lparr>mTransactions := mTransactions tr @ [(action, rollback)]\<rparr>"

text \<open>The rollback loop of \<open>run\<close>, which swallows exceptions, from index \<open>n - 1\<close> down.\<close>

fun undo_all :: "nat \<Rightarrow> ('s action \<times> 's rollback) list \<Rightarrow> 's \<Rightarrow> 's" where
  "undo_all 0 ts st = st"
| "undo_all (Suc k) ts st = undo_all k ts (fst (snd (ts ! k) st))"

text \<open>
  The loop of \<open>run\<close> from program counter \<open>pc\<close> on: the state, the counter, and whether an exception is rethrown.
  \<open>k\<close> bounds the iterations; the number of actions is enough.
\<close>

fun run_loop :: "nat \<Rightarrow> ('s action \<times> 's rollback) list \<Rightarrow> nat \<Rightarrow> 's \<Rightarrow> 's \<times> nat \<times> bool" where
  "run_loop 0 ts pc st = (st, pc, False)"
| "run_loop (Suc k) ts pc st =
     (if pc < length ts
      then case fst (ts ! pc) st of
          (st', Some True) \<Rightarrow> run_loop k ts (pc + 1) st'
        | (st', Some False) \<Rightarrow> (st', pc + 1, False)
        | (st', None) \<Rightarrow> (undo_all (pc + 1) ts st', 0, True)
      else (st, pc, False))"

text \<open>\<open>Inl ActionThrew\<close> is the exception of the action, which \<open>run\<close> rethrows.\<close>

definition run :: "'s transaction \<Rightarrow> bool result \<times> 's transaction" where
  "run tr =
     (if mProgramCounter tr < 0 then (Inr True, tr)
      else let (st, pc, threw) = run_loop (length (mTransactions tr)) (mTransactions tr) (nat (mProgramCounter tr)) (mTransactionState tr);
               tr = tr\<lparr>mTransactionState := st, mProgramCounter := int pc\<rparr> in
           if threw then (Inl ActionThrew, tr)
           else if pc = length (mTransactions tr) then (Inr True, tr\<lparr>mProgramCounter := -1\<rparr>)
           else (Inr False, tr))"

definition next_step :: "bool \<Rightarrow> 's transaction \<Rightarrow> bool result \<times> 's transaction" where
  "next_step blocking tr =
     (if mProgramCounter tr = -1 then (Inr True, tr)
      else if mProgramCounter tr < int (length (mTransactions tr))
      then if blocking then run tr else (Inr False, tr\<lparr>pending := pending tr + 1\<rparr>)
      else (Inr True, tr\<lparr>mProgramCounter := -1\<rparr>))"

definition run_pending :: "'s transaction \<Rightarrow> bool result \<times> 's transaction" where
  "run_pending tr = (if pending tr = 0 then (Inr False, tr) else run (tr\<lparr>pending := pending tr - 1\<rparr>))"

text \<open>The loop of \<open>rollback\<close>: an exception leaves it, an index outside the vector is undefined.\<close>

fun rollback_loop :: "nat \<Rightarrow> ('s action \<times> 's rollback) list \<Rightarrow> 's \<Rightarrow> 's result" where
  "rollback_loop 0 ts st = Inr st"
| "rollback_loop (Suc k) ts st =
     (if length ts \<le> k then Inl MemFault
      else let (st', ok) = snd (ts ! k) st in if ok then rollback_loop k ts st' else Inl ActionThrew)"

definition rollback :: "'s transaction \<Rightarrow> 's transaction result" where
  "rollback tr =
     (let n = (if mProgramCounter tr = -1 then length (mTransactions tr) else nat (mProgramCounter tr + 1)) in
      rbind (rollback_loop n (mTransactions tr) (mTransactionState tr)) (\<lambda>st.
        Inr (tr\<lparr>mTransactionState := st, mProgramCounter := 0\<rparr>)))"

definition reset_transaction :: "'s transaction \<Rightarrow> 's transaction" where
  "reset_transaction tr = tr\<lparr>mProgramCounter := 0\<rparr>"

section \<open>Well-behaved routines\<close>

text \<open>
  The contract of the header: a rollback routine takes back all changes of its action, also those of an action that
  threw half-way.
\<close>

definition undoes :: "('s action \<times> 's rollback) list \<Rightarrow> bool" where
  "undoes ts \<longleftrightarrow> (\<forall>(a, r)\<in>set ts. \<forall>st. r (fst (a st)) = (st, True))"

text \<open>The state after the first \<open>k\<close> actions, all of which returned.\<close>

fun forward :: "nat \<Rightarrow> ('s action \<times> 's rollback) list \<Rightarrow> 's \<Rightarrow> 's option" where
  "forward 0 ts st = Some st"
| "forward (Suc k) ts st = (case forward k ts st of None \<Rightarrow> None | Some st' \<Rightarrow>
     (case fst (ts ! k) st' of (st'', None) \<Rightarrow> None | (st'', Some _) \<Rightarrow> Some st''))"

lemma undo_step: "undoes ts \<Longrightarrow> k < length ts \<Longrightarrow> snd (ts ! k) (fst (fst (ts ! k) st)) = (st, True)"
  using nth_mem [of k ts] by (fastforce simp: undoes_def split_beta)

lemma undo_forward: "undoes ts \<Longrightarrow> k \<le> length ts \<Longrightarrow> forward k ts st = Some st' \<Longrightarrow> undo_all k ts st' = st"
proof (induction k arbitrary: st')
  case (Suc k)
  then obtain s1 where s1: "forward k ts st = Some s1" "fst (fst (ts ! k) s1) = st'"
    by (auto split: option.splits prod.splits)
  then have "snd (ts ! k) st' = (s1, True)" using undo_step [OF Suc.prems(1), of k s1] Suc.prems(2) by simp
  with Suc s1 show ?case by simp
qed simp

lemma rollback_forward: "undoes ts \<Longrightarrow> k \<le> length ts \<Longrightarrow> forward k ts st = Some st' \<Longrightarrow> rollback_loop k ts st' = Inr st"
proof (induction k arbitrary: st')
  case (Suc k)
  then obtain s1 where s1: "forward k ts st = Some s1" "fst (fst (ts ! k) s1) = st'"
    by (auto split: option.splits prod.splits)
  then have "snd (ts ! k) st' = (s1, True)" using undo_step [OF Suc.prems(1), of k s1] Suc.prems(2) by simp
  with Suc s1 show ?case by simp
qed simp

lemma run_loop_forward:
  assumes "undoes ts" "pc \<le> length ts" "forward pc ts st0 = Some st" "length ts - pc \<le> k" "run_loop k ts pc st = (st', pc', threw)"
  shows "pc' \<le> length ts \<and> forward pc' ts st0 = Some st' \<and> (threw \<longrightarrow> pc' = 0 \<and> st' = st0) \<and>
    (\<not> threw \<longrightarrow> pc \<le> pc' \<and> (pc < length ts \<longrightarrow> pc < pc'))"
  using assms(2-)
proof (induction k arbitrary: pc st)
  case 0
  then show ?case by simp
next
  case (Suc k)
  show ?case
  proof (cases "pc < length ts")
    case False
    with Suc.prems show ?thesis by auto
  next
    case True
    obtain s1 o1 where a: "fst (ts ! pc) st = (s1, o1)" by (cases "fst (ts ! pc) st")
    show ?thesis
    proof (cases o1)
      case None
      have "snd (ts ! pc) s1 = (st, True)" using undo_step [OF assms(1) True, of st] a by simp
      then have "undo_all (pc + 1) ts s1 = st0" using undo_forward [OF assms(1) _ Suc.prems(2)] Suc.prems(1) by simp
      with Suc.prems(4) True a None show ?thesis by simp
    next
      case (Some go)
      have f: "forward (pc + 1) ts st0 = Some s1" using Suc.prems(2) a Some by simp
      show ?thesis
      proof (cases go)
        case True
        have "run_loop k ts (pc + 1) s1 = (st', pc', threw)" using Suc.prems(4) \<open>pc < length ts\<close> a Some True by simp
        moreover have "pc + 1 \<le> length ts" "length ts - (pc + 1) \<le> k" using \<open>pc < length ts\<close> Suc.prems(3) by auto
        ultimately show ?thesis using Suc.IH [of "pc + 1" s1] f by auto
      next
        case False
        with Suc.prems(4) \<open>pc < length ts\<close> a Some f show ?thesis by auto
      qed
    qed
  qed
qed

text \<open>What holds between the calls: the state is that after as many actions as the counter says.\<close>

definition consistent :: "'s \<Rightarrow> 's transaction \<Rightarrow> bool" where
  "consistent st0 tr \<longleftrightarrow>
     -1 \<le> mProgramCounter tr \<and> mProgramCounter tr \<le> int (length (mTransactions tr)) \<and>
     forward (if mProgramCounter tr = -1 then length (mTransactions tr) else nat (mProgramCounter tr)) (mTransactions tr) st0 =
       Some (mTransactionState tr)"

lemma run_consistent:
  assumes "undoes (mTransactions tr)" "consistent st0 tr"
  shows "consistent st0 (snd (run tr)) \<and> mTransactions (snd (run tr)) = mTransactions tr \<and>
    (fst (run tr) = Inl ActionThrew \<longrightarrow> mTransactionState (snd (run tr)) = st0 \<and> mProgramCounter (snd (run tr)) = 0)"
proof (cases "mProgramCounter tr < 0")
  case True
  with assms show ?thesis by (simp add: run_def)
next
  case False
  let ?ts = "mTransactions tr"
  let ?pc = "nat (mProgramCounter tr)"
  obtain st pc threw where l: "run_loop (length ?ts) ?ts ?pc (mTransactionState tr) = (st, pc, threw)"
    by (cases "run_loop (length ?ts) ?ts ?pc (mTransactionState tr)")
  have "?pc \<le> length ?ts" "forward ?pc ?ts st0 = Some (mTransactionState tr)"
    using assms(2) False by (auto simp: consistent_def split: if_splits)
  from run_loop_forward [OF assms(1) this _ l]
  show ?thesis using False l by (auto simp: run_def consistent_def Let_def)
qed

datatype tr_act = Next bool | RunPending

primrec tr_exec :: "tr_act \<Rightarrow> 's transaction \<Rightarrow> 's transaction" where
  "tr_exec (Next blocking) tr = snd (next_step blocking tr)"
| "tr_exec RunPending tr = snd (run_pending tr)"

lemma tr_exec_consistent:
  assumes "undoes (mTransactions tr)" "consistent st0 tr"
  shows "consistent st0 (tr_exec a tr) \<and> mTransactions (tr_exec a tr) = mTransactions tr"
proof (cases a)
  case (Next b)
  have "consistent st0 (tr\<lparr>pending := n\<rparr>)" for n using assms(2) by (auto simp: consistent_def)
  moreover have "consistent st0 (tr\<lparr>mProgramCounter := -1\<rparr>)" if "mProgramCounter tr \<ge> int (length (mTransactions tr))"
    using assms(2) that by (auto simp: consistent_def split: if_splits)
  ultimately show ?thesis using Next assms run_consistent [OF assms] by (auto simp: next_step_def)
next
  case RunPending
  have "consistent st0 (tr\<lparr>pending := pending tr - 1\<rparr>)" using assms(2) by (auto simp: consistent_def)
  with RunPending assms run_consistent [of "tr\<lparr>pending := pending tr - 1\<rparr>" st0] show ?thesis by (auto simp: run_pending_def)
qed

lemma tr_run_consistent:
  "undoes (mTransactions tr) \<Longrightarrow> consistent st0 tr \<Longrightarrow>
   consistent st0 (fold tr_exec as tr) \<and> mTransactions (fold tr_exec as tr) = mTransactions tr"
proof (induction as arbitrary: tr)
  case (Cons a as)
  then show ?case using tr_exec_consistent [OF Cons.prems, of a] by simp
qed simp

section \<open>Properties\<close>

text \<open>
  C12. If the rollback routines take back what their actions did, a transaction is all or nothing: after any sequence of
  blocking and asynchronous \<open>next\<close> calls the state is the one after exactly as many actions as the program counter
  says; a run in which an action throws rethrows the exception with the state and the counter as they were at the
  beginning of the transaction; and rolling back a completed transaction restores the original state.
\<close>

theorem transaction_all_or_nothing:
  assumes "undoes ts" and tr: "tr = fold tr_exec as (Transaction_new st0\<lparr>mTransactions := ts\<rparr>)"
  shows "forward (if mProgramCounter tr = -1 then length ts else nat (mProgramCounter tr)) ts st0 = Some (mTransactionState tr) \<and>
    (fst (run tr) = Inl ActionThrew \<longrightarrow> mTransactionState (snd (run tr)) = st0 \<and> mProgramCounter (snd (run tr)) = 0) \<and>
    (mProgramCounter tr = -1 \<longrightarrow> rollback tr = Inr (tr\<lparr>mTransactionState := st0, mProgramCounter := 0\<rparr>))"
proof -
  have "consistent st0 (Transaction_new st0\<lparr>mTransactions := ts\<rparr>)" by (simp add: consistent_def Transaction_new_def)
  then have c: "consistent st0 tr" "mTransactions tr = ts" using tr_run_consistent [of "Transaction_new st0\<lparr>mTransactions := ts\<rparr>"] assms
    by (auto simp: Transaction_new_def)
  then have f: "forward (if mProgramCounter tr = -1 then length ts else nat (mProgramCounter tr)) ts st0 = Some (mTransactionState tr)"
    by (auto simp: consistent_def)
  have "rollback tr = Inr (tr\<lparr>mTransactionState := st0, mProgramCounter := 0\<rparr>)" if "mProgramCounter tr = -1"
    using rollback_forward [OF assms(1), of "length ts" st0 "mTransactionState tr"] f that c(2) by (simp add: rollback_def)
  with f run_consistent [of tr st0] assms(1) c show ?thesis by blast
qed

text \<open>Three routines on a counter: add one, add one and pause, add one and throw; each is undone by subtracting one.\<close>

definition sample_steps :: "(int action \<times> int rollback) list" where
  "sample_steps = [(\<lambda>x. (x + 1, Some True), \<lambda>x. (x - 1, True)), (\<lambda>x. (x + 1, Some False), \<lambda>x. (x - 1, True)),
     (\<lambda>x. (x + 1, None), \<lambda>x. (x - 1, True))]"

lemma sample_undoes: "undoes sample_steps"
  by (simp add: undoes_def sample_steps_def)

theorem transaction_all_or_nothing_witness:
  "let tr = fold tr_exec [Next True] (Transaction_new 5\<lparr>mTransactions := sample_steps\<rparr>) in
     mTransactionState tr = 7 \<and> mProgramCounter tr = 2 \<and> fst (run tr) = Inl ActionThrew \<and> mTransactionState (snd (run tr)) = 5"
proof -
  let ?tr = "fold tr_exec [Next True] (Transaction_new 5\<lparr>mTransactions := sample_steps\<rparr>)"
  have e: "mTransactionState ?tr = 7" "mProgramCounter ?tr = 2" "fst (run ?tr) = Inl ActionThrew"
    by (simp_all add: Transaction_new_def sample_steps_def next_step_def run_def numeral_eq_Suc)
  with transaction_all_or_nothing [OF sample_undoes refl, of "[Next True]" 5] show ?thesis by (simp add: Let_def)
qed

text \<open>
  \<open>rollback\<close> of a paused transaction undoes one action too many: it starts at the program counter, the index of the next
  action, which has not run, so a paused transaction whose routines undo exactly their own action does not get its
  original state back; on a transaction without actions it reads past the end of the empty vector.
\<close>

theorem rollback_undoes_too_much:
  "undoes sample_steps \<and>
   (\<exists>tr. next_step True (Transaction_new 5\<lparr>mTransactions := sample_steps\<rparr>) = (Inr False, tr) \<and> mTransactionState tr = 7 \<and>
      (\<exists>tr'. rollback tr = Inr tr' \<and> mTransactionState tr' = 4)) \<and>
   rollback (Transaction_new (5::int)) = Inl MemFault"
proof -
  have "\<exists>tr. next_step True (Transaction_new 5\<lparr>mTransactions := sample_steps\<rparr>) = (Inr False, tr) \<and> mTransactionState tr = 7 \<and>
      (\<exists>tr'. rollback tr = Inr tr' \<and> mTransactionState tr' = 4)"
    by (simp add: Transaction_new_def sample_steps_def next_step_def run_def rollback_def numeral_eq_Suc)
  moreover have "rollback (Transaction_new (5::int)) = Inl MemFault" by (simp add: Transaction_new_def rollback_def)
  ultimately show ?thesis using sample_undoes by blast
qed

end
