(* ===== verification/Bounded_Queue.thy ===== *)
theory Bounded_Queue
  imports Prelude
begin

text \<open>
  The lock-free bounded queue of \<open>include/core/AtomicBoundedQueue.h\<close>, for any number of producers and
  consumers. An operation is a program over the atomic accesses it makes: \<open>thread_step\<close> executes one
  of them, and a run interleaves the steps of all threads arbitrarily. Memory is sequentially
  consistent (the release and acquire orders of the source are not distinguished), positions and
  sequence numbers are natural numbers (they do not wrap around before \<open>2 ^ 63\<close> operations), and
  \<open>compare_exchange_weak\<close> may fail spuriously.
\<close>

section \<open>State and operations\<close>

record 'a cell_t =
  sequence :: nat
  cdata :: 'a

record 'a bqueue =
  buffer :: "nat \<Rightarrow> 'a cell_t"
  buffer_mask :: nat
  enqueue_pos :: nat
  dequeue_pos :: nat

definition AtomicBoundedQueue_new :: "(nat \<Rightarrow> 'a) \<Rightarrow> nat \<Rightarrow> 'a bqueue result" where
  "AtomicBoundedQueue_new raw buffer_size =
     rbind (assert_that (buffer_size \<ge> 2 \<and> buffer_size AND (buffer_size - 1) = 0)) (\<lambda>_.
       Inr \<lparr>buffer = (\<lambda>i. \<lparr>sequence = i, cdata = raw i\<rparr>), buffer_mask = buffer_size - 1,
            enqueue_pos = 0, dequeue_pos = 0\<rparr>)"

text \<open>Where a thread stands in \<open>push\<close> or \<open>pop\<close>: before the next access to shared memory.\<close>

datatype 'a pc =
    Idle
  | PushStart 'a | PushAt 'a nat | PushCas 'a nat | PushStore 'a nat | PushPublish nat | PushReturn bool
  | PopStart | PopAt nat | PopCas nat | PopLoad nat | PopRelease nat 'a | PopReturn "'a option"

definition cell :: "nat \<Rightarrow> 'a bqueue \<Rightarrow> 'a cell_t" where
  "cell pos q = buffer q (pos AND buffer_mask q)"

definition set_cell :: "nat \<Rightarrow> 'a cell_t \<Rightarrow> 'a bqueue \<Rightarrow> 'a bqueue" where
  "set_cell pos c q = q\<lparr>buffer := (buffer q)(pos AND buffer_mask q := c)\<rparr>"

definition push_test :: "'a \<Rightarrow> nat \<Rightarrow> 'a bqueue \<Rightarrow> 'a pc" where
  "push_test v pos q =
     (let dif = int (sequence (cell pos q)) - int pos in
      if dif = 0 then PushCas v pos else if dif < 0 then PushReturn False else PushStart v)"

definition pop_test :: "nat \<Rightarrow> 'a bqueue \<Rightarrow> 'a pc" where
  "pop_test pos q =
     (let dif = int (sequence (cell pos q)) - int (pos + 1) in
      if dif = 0 then PopCas pos else if dif < 0 then PopReturn None else PopStart)"

text \<open>The boolean is a spurious failure of the weak compare-and-exchange.\<close>

fun thread_step :: "bool \<Rightarrow> 'a pc \<Rightarrow> 'a bqueue \<Rightarrow> 'a pc \<times> 'a bqueue" where
  "thread_step sp (PushStart v) q = (PushAt v (enqueue_pos q), q)"
| "thread_step sp (PushAt v pos) q = (push_test v pos q, q)"
| "thread_step sp (PushCas v pos) q =
     (if enqueue_pos q = pos \<and> \<not> sp then (PushStore v pos, q\<lparr>enqueue_pos := pos + 1\<rparr>)
      else (PushAt v (enqueue_pos q), q))"
| "thread_step sp (PushStore v pos) q = (PushPublish pos, set_cell pos ((cell pos q)\<lparr>cdata := v\<rparr>) q)"
| "thread_step sp (PushPublish pos) q = (PushReturn True, set_cell pos ((cell pos q)\<lparr>sequence := pos + 1\<rparr>) q)"
| "thread_step sp PopStart q = (PopAt (dequeue_pos q), q)"
| "thread_step sp (PopAt pos) q = (pop_test pos q, q)"
| "thread_step sp (PopCas pos) q =
     (if dequeue_pos q = pos \<and> \<not> sp then (PopLoad pos, q\<lparr>dequeue_pos := pos + 1\<rparr>)
      else (PopAt (dequeue_pos q), q))"
| "thread_step sp (PopLoad pos) q = (PopRelease pos (cdata (cell pos q)), q)"
| "thread_step sp (PopRelease pos v) q =
     (PopReturn (Some v), set_cell pos ((cell pos q)\<lparr>sequence := pos + buffer_mask q + 1\<rparr>) q)"
| "thread_step sp Idle q = (Idle, q)"
| "thread_step sp (PushReturn r) q = (Idle, q)"
| "thread_step sp (PopReturn r) q = (Idle, q)"

section \<open>Interleaved runs\<close>

text \<open>
  \<open>pushed\<close> and \<open>results\<close> are history variables: the values in the order in which their producers won
  the compare-and-exchange, and the positions consumers won with the values they took there.
\<close>

record 'a bq_sys =
  queue :: "'a bqueue"
  pcs :: "nat \<Rightarrow> 'a pc"
  pushed :: "'a list"
  results :: "(nat \<times> 'a) list"

definition log_push :: "'a pc \<Rightarrow> 'a pc \<Rightarrow> 'a list" where
  "log_push p p' = (case (p, p') of (PushCas v pos, PushStore _ _) \<Rightarrow> [v] | _ \<Rightarrow> [])"

definition log_pop :: "'a pc \<Rightarrow> (nat \<times> 'a) list" where
  "log_pop p = (case p of PopRelease pos v \<Rightarrow> [(pos, v)] | _ \<Rightarrow> [])"

definition run_thread :: "bool \<Rightarrow> nat \<Rightarrow> 'a bq_sys \<Rightarrow> 'a bq_sys" where
  "run_thread sp t s =
     (let (p', q') = thread_step sp (pcs s t) (queue s) in
      s\<lparr>queue := q', pcs := (pcs s)(t := p'), pushed := pushed s @ log_push (pcs s t) p',
        results := results s @ log_pop (pcs s t)\<rparr>)"

definition bq_init :: "'a bqueue \<Rightarrow> 'a bq_sys" where
  "bq_init q = \<lparr>queue = q, pcs = (\<lambda>_. Idle), pushed = [], results = []\<rparr>"

inductive bq_step :: "'a bq_sys \<Rightarrow> 'a bq_sys \<Rightarrow> bool" where
  call_push: "pcs s t = Idle \<Longrightarrow> bq_step s (s\<lparr>pcs := (pcs s)(t := PushStart v)\<rparr>)"
| call_pop: "pcs s t = Idle \<Longrightarrow> bq_step s (s\<lparr>pcs := (pcs s)(t := PopStart)\<rparr>)"
| run: "bq_step s (run_thread sp t s)"

inductive bq_reach :: "'a bqueue \<Rightarrow> 'a bq_sys \<Rightarrow> bool" for q where
  start: "bq_reach q (bq_init q)"
| step: "bq_reach q s \<Longrightarrow> bq_step s s' \<Longrightarrow> bq_reach q s'"

inductive_cases bq_step_cases: "bq_step s s'"

section \<open>Power-of-two sizes\<close>

lemma and_pred_even: "0 < m \<Longrightarrow> (2 * m) AND (2 * m - 1) = 2 * (m AND (m - 1 :: nat))"
proof -
  assume "0 < m"
  then have "2 * m - 1 = 1 + 2 * (m - 1)" by simp
  moreover have "(2 * m) AND (1 + 2 * k) = 2 * (m AND k)" for k :: nat
    by (subst and_rec) simp
  ultimately show ?thesis by metis
qed

lemma and_pred_odd: "(Suc (2 * m)) AND (2 * m) = 2 * (m :: nat)"
  by (subst and_rec) simp

lemma power_of_two: "0 < n \<Longrightarrow> n AND (n - 1) = (0 :: nat) \<Longrightarrow> \<exists>k. n = 2 ^ k"
proof (induction n rule: less_induct)
  case (less n)
  show ?case
  proof (cases "even n")
    case True
    then obtain m where m: "n = 2 * m" by blast
    with less.prems have "0 < m" "m < n" "m AND (m - 1) = 0" using and_pred_even [of m] by auto
    then obtain k where "m = 2 ^ k" using less.IH by blast
    with m show ?thesis by (intro exI [of _ "Suc k"]) simp
  next
    case False
    then obtain m where m: "n = Suc (2 * m)" using oddE by (metis Suc_eq_plus1)
    with less.prems(2) and_pred_odd [of m] show ?thesis by (intro exI [of _ 0]) simp
  qed
qed

lemma mask_is_mod: "0 < n \<Longrightarrow> n AND (n - 1) = (0 :: nat) \<Longrightarrow> pos AND (n - 1) = pos mod n"
proof -
  assume "0 < n" "n AND (n - 1) = 0"
  then obtain k where "n = 2 ^ k" using power_of_two by blast
  then show ?thesis using take_bit_eq_mask [of k pos] by (simp add: mask_eq_exp_minus_1 take_bit_eq_mod)
qed

section \<open>Invariant\<close>

definition ring_ok :: "nat \<Rightarrow> 'a bqueue \<Rightarrow> bool" where
  "ring_ok N q \<longleftrightarrow> 2 \<le> N \<and> N AND (N - 1) = 0 \<and> buffer_mask q = N - 1"

definition seq :: "'a bqueue \<Rightarrow> nat \<Rightarrow> nat" where
  "seq q i = sequence (cell i q)"

definition val :: "'a bqueue \<Rightarrow> nat \<Rightarrow> 'a" where
  "val q i = cdata (cell i q)"

fun pushing :: "'a pc \<Rightarrow> nat option" where
  "pushing (PushStore v i) = Some i" | "pushing (PushPublish i) = Some i" | "pushing _ = None"

fun popping :: "'a pc \<Rightarrow> nat option" where
  "popping (PopLoad i) = Some i" | "popping (PopRelease i v) = Some i" | "popping _ = None"

text \<open>
  Positions from \<open>dequeue_pos\<close> up to \<open>enqueue_pos\<close> are claimed: their sequence number says whether the value is
  there. The following ones, up to a full buffer, are free or wait for a consumer of the previous round.
\<close>

definition shared_ok :: "nat \<Rightarrow> 'a bqueue \<Rightarrow> 'a list \<Rightarrow> bool" where
  "shared_ok N q L \<longleftrightarrow>
     ring_ok N q \<and> dequeue_pos q \<le> enqueue_pos q \<and> enqueue_pos q \<le> dequeue_pos q + N \<and> length L = enqueue_pos q \<and>
     (\<forall>i. dequeue_pos q \<le> i \<and> i < enqueue_pos q \<longrightarrow> seq q i = i \<or> seq q i = i + 1 \<and> val q i = L ! i) \<and>
     (\<forall>i. enqueue_pos q \<le> i \<and> i < dequeue_pos q + N \<longrightarrow> seq q i = i \<or> N \<le> i \<and> seq q i = i - N + 1)"

text \<open>What a thread may rely on where it stands.\<close>

definition pushing_ok :: "'a bqueue \<Rightarrow> nat \<Rightarrow> bool" where
  "pushing_ok q i \<longleftrightarrow> dequeue_pos q \<le> i \<and> i < enqueue_pos q \<and> seq q i = i"

definition popping_ok :: "nat \<Rightarrow> 'a bqueue \<Rightarrow> nat \<Rightarrow> bool" where
  "popping_ok N q i \<longleftrightarrow> i < dequeue_pos q \<and> enqueue_pos q \<le> i + N \<and> seq q i = i + 1"

fun pc_ok :: "nat \<Rightarrow> 'a bqueue \<Rightarrow> 'a list \<Rightarrow> 'a pc \<Rightarrow> bool" where
  "pc_ok N q L (PushAt v i) \<longleftrightarrow> i \<le> enqueue_pos q"
| "pc_ok N q L (PushCas v i) \<longleftrightarrow>
     i \<le> enqueue_pos q \<and> (i = enqueue_pos q \<longrightarrow> seq q i = i \<and> i < dequeue_pos q + N)"
| "pc_ok N q L (PushStore v i) \<longleftrightarrow> pushing_ok q i \<and> v = L ! i"
| "pc_ok N q L (PushPublish i) \<longleftrightarrow> pushing_ok q i \<and> val q i = L ! i"
| "pc_ok N q L (PopAt i) \<longleftrightarrow> i \<le> dequeue_pos q"
| "pc_ok N q L (PopCas i) \<longleftrightarrow>
     i \<le> dequeue_pos q \<and> (i = dequeue_pos q \<longrightarrow> i < enqueue_pos q \<and> seq q i = i + 1)"
| "pc_ok N q L (PopLoad i) \<longleftrightarrow> popping_ok N q i \<and> val q i = L ! i"
| "pc_ok N q L (PopRelease i v) \<longleftrightarrow> popping_ok N q i \<and> v = L ! i"
| "pc_ok N q L _ \<longleftrightarrow> True"

lemma cell_mod: "ring_ok N q \<Longrightarrow> cell i q = buffer q (i mod N)"
  using mask_is_mod [of N i] by (simp add: ring_ok_def cell_def)

lemma set_cell_mod: "ring_ok N q \<Longrightarrow> set_cell i c q = q\<lparr>buffer := (buffer q)(i mod N := c)\<rparr>"
  using mask_is_mod [of N i] by (simp add: ring_ok_def set_cell_def)

lemma mod_window: "i < j \<Longrightarrow> j < i + N \<Longrightarrow> i mod N \<noteq> j mod (N :: nat)"
proof
  assume ij: "i < j" "j < i + N" and "i mod N = j mod N"
  then have "N dvd j - i" by (metis mod_eq_dvd_iff_nat order.strict_implies_order)
  with ij show False by (auto dest: dvd_imp_le)
qed

lemma mod_window': "j < i \<Longrightarrow> i < j + N \<Longrightarrow> i mod N \<noteq> j mod (N :: nat)"
  using mod_window by metis

lemma seq_update:
  assumes "ring_ok N q"
  shows "seq (set_cell i c q) j = (if j mod N = i mod N then sequence c else seq q j)"
    "val (set_cell i c q) j = (if j mod N = i mod N then cdata c else val q j)"
proof -
  have "ring_ok N (set_cell i c q)" using assms by (simp add: ring_ok_def set_cell_def)
  then show "seq (set_cell i c q) j = (if j mod N = i mod N then sequence c else seq q j)"
    "val (set_cell i c q) j = (if j mod N = i mod N then cdata c else val q j)"
    using assms by (simp_all add: seq_def val_def cell_mod) (simp_all add: set_cell_mod)
qed

lemma seq_mod: "ring_ok N q \<Longrightarrow> i mod N = j mod N \<Longrightarrow> seq q i = seq q j"
  by (simp add: seq_def cell_mod)

lemma shared_ring: "shared_ok N q L \<Longrightarrow> ring_ok N q"
  by (simp add: shared_ok_def)

lemma shared_claimed:
  "shared_ok N q L \<Longrightarrow> dequeue_pos q \<le> i \<Longrightarrow> i < enqueue_pos q \<Longrightarrow> seq q i = i \<or> seq q i = i + 1 \<and> val q i = L ! i"
  by (simp add: shared_ok_def)

lemma shared_free:
  "shared_ok N q L \<Longrightarrow> enqueue_pos q \<le> i \<Longrightarrow> i < dequeue_pos q + N \<Longrightarrow> seq q i = i \<or> N \<le> i \<and> seq q i = i - N + 1"
  by (simp add: shared_ok_def)

lemma set_cell_simps [simp]:
  "enqueue_pos (set_cell i c q) = enqueue_pos q" "dequeue_pos (set_cell i c q) = dequeue_pos q"
  "buffer_mask (set_cell i c q) = buffer_mask q" "ring_ok N (set_cell i c q) = ring_ok N q"
  by (simp_all add: set_cell_def ring_ok_def)

lemma seq_positions [simp]:
  "seq (q\<lparr>enqueue_pos := e\<rparr>) i = seq q i" "val (q\<lparr>enqueue_pos := e\<rparr>) i = val q i"
  "seq (q\<lparr>dequeue_pos := e\<rparr>) i = seq q i" "val (q\<lparr>dequeue_pos := e\<rparr>) i = val q i"
  "ring_ok N (q\<lparr>enqueue_pos := e\<rparr>) = ring_ok N q" "ring_ok N (q\<lparr>dequeue_pos := e\<rparr>) = ring_ok N q"
  by (simp_all add: seq_def val_def cell_def ring_ok_def)

lemma cell_fields: "sequence (cell i q) = seq q i" "cdata (cell i q) = val q i"
  by (simp_all add: seq_def val_def)

section \<open>Every step keeps the invariant\<close>

text \<open>\<open>r\<close> is where another thread stands; two threads never hold the same position.\<close>

definition no_conflict :: "'a pc \<Rightarrow> 'a pc \<Rightarrow> bool" where
  "no_conflict p r \<longleftrightarrow> (pushing p \<noteq> None \<longrightarrow> pushing p \<noteq> pushing r) \<and> (popping p \<noteq> None \<longrightarrow> popping p \<noteq> popping r)"

lemma store_step:
  assumes sh: "shared_ok N q L" and p: "pushing_ok q i" and v: "v = L ! i"
  defines "q' \<equiv> set_cell i ((cell i q)\<lparr>cdata := v\<rparr>) q"
  shows "shared_ok N q' L" "pc_ok N q' L (PushPublish i)"
    "pc_ok N q L r \<Longrightarrow> no_conflict (PushStore v i) r \<Longrightarrow> pc_ok N q' L r"
proof -
  have ring: "ring_ok N q" using sh by (simp add: shared_ok_def)
  have sq: "seq q' j = seq q j" for j
    using ring by (auto simp: q'_def seq_update cell_fields) (auto simp: seq_def cell_mod)
  have vl: "val q' j = (if j mod N = i mod N then v else val q j)" for j using ring by (simp add: q'_def seq_update)
  have pos: "enqueue_pos q' = enqueue_pos q" "dequeue_pos q' = dequeue_pos q" "ring_ok N q'" using ring by (simp_all add: q'_def)
  have full: "enqueue_pos q \<le> dequeue_pos q + N" using sh by (simp add: shared_ok_def)
  have same: "j = i" if "j mod N = i mod N" "dequeue_pos q \<le> j" "j < enqueue_pos q" for j
    using that p full mod_window [of i j N] mod_window' [of j i N] by (cases i j rule: linorder_cases) (auto simp: pushing_ok_def)
  show "shared_ok N q' L" using sh same v pos(3) unfolding shared_ok_def pos(1,2) sq vl by auto
  show "pc_ok N q' L (PushPublish i)" using p v by (simp add: pushing_ok_def pos sq vl)
  show "pc_ok N q' L r" if "pc_ok N q L r" "no_conflict (PushStore v i) r"
  proof (cases r)
    case (PushPublish j)
    with that same show ?thesis by (auto simp: pushing_ok_def pos sq vl no_conflict_def)
  next
    case (PopLoad j)
    with that have "j < dequeue_pos q" "enqueue_pos q \<le> j + N" by (auto simp: popping_ok_def)
    with p have "j mod N \<noteq> i mod N" by (intro mod_window) (auto simp: pushing_ok_def)
    with PopLoad that show ?thesis by (simp add: popping_ok_def pos sq vl)
  qed (use that in \<open>auto simp: pushing_ok_def popping_ok_def pos sq\<close>)
qed

lemma publish_step:
  assumes sh: "shared_ok N q L" and p: "pushing_ok q i" and v: "val q i = L ! i"
  defines "q' \<equiv> set_cell i ((cell i q)\<lparr>sequence := i + 1\<rparr>) q"
  shows "shared_ok N q' L"
    "pc_ok N q L r \<Longrightarrow> no_conflict (PushPublish i) r \<Longrightarrow> pc_ok N q' L r"
proof -
  have ring: "ring_ok N q" and N: "2 \<le> N" using sh by (auto simp: shared_ok_def ring_ok_def)
  have vl: "val q' j = val q j" for j
    using ring by (auto simp: q'_def seq_update cell_fields) (auto simp: val_def cell_mod)
  have sq: "seq q' j = (if j mod N = i mod N then i + 1 else seq q j)" for j using ring by (simp add: q'_def seq_update)
  have pos: "enqueue_pos q' = enqueue_pos q" "dequeue_pos q' = dequeue_pos q" and ring': "ring_ok N q'"
    using ring by (simp_all add: q'_def)
  have full: "enqueue_pos q \<le> dequeue_pos q + N" using sh by (simp add: shared_ok_def)
  have i: "dequeue_pos q \<le> i" "i < enqueue_pos q" "seq q i = i" using p by (auto simp: pushing_ok_def)
  have same: "j mod N = i mod N \<longleftrightarrow> j = i" if "dequeue_pos q \<le> j" "j < dequeue_pos q + N" for j
    using that i full mod_window [of i j N] mod_window' [of j i N] by (cases i j rule: linorder_cases) auto
  show "shared_ok N q' L" unfolding shared_ok_def pos sq vl
    using sh ring' same v i full by (auto simp: shared_ok_def)
  show "pc_ok N q' L r" if r: "pc_ok N q L r" "no_conflict (PushPublish i) r"
  proof -
    have other: "j mod N \<noteq> i mod N" if "popping_ok N q j" for j
      using that i by (intro mod_window) (auto simp: popping_ok_def)
    show ?thesis
    proof (cases r)
      case (PopCas j)
      with r i same [of j] full show ?thesis by (auto simp: pos sq)
    qed (use r same i full other in \<open>auto simp: pushing_ok_def popping_ok_def pos sq vl no_conflict_def\<close>)
  qed
qed

lemma release_step:
  assumes sh: "shared_ok N q L" and p: "popping_ok N q i"
  defines "q' \<equiv> set_cell i ((cell i q)\<lparr>sequence := i + buffer_mask q + 1\<rparr>) q"
  shows "shared_ok N q' L"
    "pc_ok N q L r \<Longrightarrow> no_conflict (PopRelease i v) r \<Longrightarrow> pc_ok N q' L r"
proof -
  have ring: "ring_ok N q" and N: "2 \<le> N" "i + buffer_mask q + 1 = i + N"
    using sh by (auto simp: shared_ok_def ring_ok_def)
  have vl: "val q' j = val q j" for j
    using ring by (auto simp: q'_def seq_update cell_fields) (auto simp: val_def cell_mod)
  have sq: "seq q' j = (if j mod N = i mod N then i + N else seq q j)" for j
    using ring N by (simp add: q'_def seq_update)
  have pos: "enqueue_pos q' = enqueue_pos q" "dequeue_pos q' = dequeue_pos q" and ring': "ring_ok N q'"
    using ring by (simp_all add: q'_def)
  have full: "enqueue_pos q \<le> dequeue_pos q + N" "dequeue_pos q \<le> enqueue_pos q" using sh by (auto simp: shared_ok_def)
  have i: "i < dequeue_pos q" "enqueue_pos q \<le> i + N" "seq q i = i + 1" using p by (auto simp: popping_ok_def)
  have claimed: "j mod N \<noteq> i mod N" if "dequeue_pos q \<le> j" "j < enqueue_pos q" for j
    using that i by (intro mod_window') auto
  have same: "j mod N = i mod N \<longleftrightarrow> j = i + N" if "enqueue_pos q \<le> j" "j < dequeue_pos q + N" for j
  proof -
    have "j mod N = (i + N) mod N \<longleftrightarrow> j = i + N"
      using that i full mod_window [of j "i + N" N] mod_window' [of "i + N" j N]
      by (cases j "i + N" rule: linorder_cases) auto
    then show ?thesis by simp
  qed
  show "shared_ok N q' L" unfolding shared_ok_def pos sq vl
    using sh ring' same claimed i full by (auto simp: shared_ok_def)
  show "pc_ok N q' L r" if r: "pc_ok N q L r" "no_conflict (PopRelease i v) r"
  proof -
    have other: "j mod N \<noteq> i mod N" if "popping_ok N q j" "j \<noteq> i" for j
      using that i full mod_window [of j i N] mod_window' [of i j N] mod_window [of i j N]
      by (cases j i rule: linorder_cases) (auto simp: popping_ok_def)
    have cas: "j mod N \<noteq> i mod N" if "j = enqueue_pos q" "seq q j = j" "j < dequeue_pos q + N" for j
    proof
      assume j: "j mod N = i mod N"
      with that have "j = i + N" using same by simp
      moreover have "seq q j = seq q i" using j ring by (simp add: seq_def cell_mod)
      ultimately show False using that(2) i(3) N by simp
    qed
    show ?thesis
    proof (cases r)
      case (PushCas w j)
      with r cas show ?thesis by (auto simp: pos sq)
    qed (use r claimed i full other in \<open>auto simp: pushing_ok_def popping_ok_def pos sq vl no_conflict_def\<close>)
  qed
qed

lemma push_cas_step:
  assumes sh: "shared_ok N q L" and p: "pc_ok N q L (PushCas v (enqueue_pos q))"
  defines "q' \<equiv> q\<lparr>enqueue_pos := enqueue_pos q + 1\<rparr>"
  shows "shared_ok N q' (L @ [v])" "pc_ok N q' (L @ [v]) (PushStore v (enqueue_pos q))"
    "pc_ok N q L r \<Longrightarrow> pc_ok N q' (L @ [v]) r"
proof -
  have len: "length L = enqueue_pos q" and ord: "dequeue_pos q \<le> enqueue_pos q" using sh by (auto simp: shared_ok_def)
  have e: "seq q (enqueue_pos q) = enqueue_pos q" "enqueue_pos q < dequeue_pos q + N" using p by auto
  have old: "(L @ [v]) ! i = L ! i" if "i < enqueue_pos q" for i using that len by (simp add: nth_append)
  show "shared_ok N q' (L @ [v])"
    using sh e old by (auto simp: shared_ok_def q'_def less_Suc_eq)
  show "pc_ok N q' (L @ [v]) (PushStore v (enqueue_pos q))"
    using e ord len by (auto simp: pushing_ok_def q'_def nth_append)
  show "pc_ok N q' (L @ [v]) r" if r: "pc_ok N q L r"
  proof -
    have below: "i + N \<noteq> enqueue_pos q" if "popping_ok N q i" for i
    proof
      assume i: "i + N = enqueue_pos q"
      have "i mod N = enqueue_pos q mod N" using i by (metis mod_add_self2)
      then have "seq q i = seq q (enqueue_pos q)" using seq_mod [OF shared_ring [OF sh]] by blast
      then show False using that e i sh by (auto simp: popping_ok_def shared_ok_def ring_ok_def)
    qed
    show ?thesis
    proof (cases r)
      case (PopLoad i)
      with r below [of i] show ?thesis
        by (auto simp: popping_ok_def q'_def old intro!: trans [OF _ old [symmetric]] less_le_trans [OF _ ord])
    next
      case (PopRelease i w)
      with r below [of i] show ?thesis
        by (auto simp: popping_ok_def q'_def old intro!: trans [OF _ old [symmetric]] less_le_trans [OF _ ord])
    qed (use r old in \<open>auto simp: pushing_ok_def q'_def\<close>)
  qed
qed

lemma pop_cas_step:
  assumes sh: "shared_ok N q L" and p: "pc_ok N q L (PopCas (dequeue_pos q))"
  defines "q' \<equiv> q\<lparr>dequeue_pos := dequeue_pos q + 1\<rparr>"
  shows "shared_ok N q' L" "pc_ok N q' L (PopLoad (dequeue_pos q))" "pc_ok N q L r \<Longrightarrow> pc_ok N q' L r"
proof -
  let ?d = "dequeue_pos q"
  have d: "?d < enqueue_pos q" "seq q ?d = ?d + 1" using p by auto
  have full: "enqueue_pos q \<le> ?d + N" and ring: "ring_ok N q" using sh by (auto simp: shared_ok_def)
  have v: "val q ?d = L ! ?d" using sh d by (auto simp: shared_ok_def)
  have "seq q (?d + N) = ?d + 1" using d(2) ring by (simp add: seq_def cell_mod)
  then show "shared_ok N q' L"
    using sh d by (auto simp: shared_ok_def q'_def less_Suc_eq)
  show "pc_ok N q' L (PopLoad ?d)" using d full v by (simp add: popping_ok_def q'_def)
  show "pc_ok N q' L r" if r: "pc_ok N q L r"
  proof -
    have "?d < i" if "pushing_ok q i" for i
    proof -
      have "i \<noteq> ?d" using that d by (auto simp: pushing_ok_def)
      with that show ?thesis by (auto simp: pushing_ok_def)
    qed
    then have push: "pushing_ok q' i" if "pushing_ok q i" for i using that by (auto simp: pushing_ok_def q'_def Suc_le_eq)
    with r d show ?thesis by (cases r) (auto simp: popping_ok_def q'_def [symmetric], auto simp: q'_def)
  qed
qed

lemma push_test_ok:
  assumes sh: "shared_ok N q L" and i: "i \<le> enqueue_pos q"
  shows "pc_ok N q L (push_test v i q)"
proof -
  have "i < dequeue_pos q + N" if "i = enqueue_pos q" "seq q i = i"
  proof (rule ccontr)
    assume "\<not> i < dequeue_pos q + N"
    with that sh have e: "i = dequeue_pos q + N" by (auto simp: shared_ok_def)
    then have "i mod N = dequeue_pos q mod N" by simp
    then have "seq q i = seq q (dequeue_pos q)" by (rule seq_mod [OF shared_ring [OF sh]])
    moreover have N: "2 \<le> N" using shared_ring [OF sh] by (simp add: ring_ok_def)
    moreover have "seq q (dequeue_pos q) = dequeue_pos q \<or> seq q (dequeue_pos q) = dequeue_pos q + 1"
    proof -
      have "dequeue_pos q < enqueue_pos q" using e that(1) N by linarith
      then show ?thesis using sh unfolding shared_ok_def by blast
    qed
    ultimately show False using that(2) e by linarith
  qed
  with i show ?thesis by (auto simp: push_test_def Let_def cell_fields)
qed

lemma pop_test_ok:
  assumes sh: "shared_ok N q L" and i: "i \<le> dequeue_pos q"
  shows "pc_ok N q L (pop_test i q)"
proof -
  have "i < enqueue_pos q" if "i = dequeue_pos q" "seq q i = i + 1"
  proof (rule ccontr)
    assume "\<not> i < enqueue_pos q"
    with that sh have "i = enqueue_pos q" "i < dequeue_pos q + N" by (auto simp: shared_ok_def ring_ok_def)
    then have "seq q i = i \<or> N \<le> i \<and> seq q i = i - N + 1" using sh by (auto simp: shared_ok_def)
    then show False using that(2) sh by (auto simp: shared_ok_def ring_ok_def)
  qed
  with i show ?thesis by (auto simp: pop_test_def Let_def cell_fields)
qed

lemma thread_step_ok:
  assumes sh: "shared_ok N q L" and p: "pc_ok N q L p" and st: "thread_step sp p q = (p', q')"
  shows "shared_ok N q' (L @ log_push p p')" "pc_ok N q' (L @ log_push p p') p'"
    "pc_ok N q L r \<Longrightarrow> no_conflict p r \<Longrightarrow> pc_ok N q' (L @ log_push p p') r"
proof -
  have quiet: "shared_ok N q' (L @ log_push p p') \<and> pc_ok N q' (L @ log_push p p') p' \<and>
      (pc_ok N q L r \<longrightarrow> no_conflict p r \<longrightarrow> pc_ok N q' (L @ log_push p p') r)"
    if "q' = q" "log_push p p' = []" "pc_ok N q L p'"
    using that sh by simp
  have "shared_ok N q' (L @ log_push p p') \<and> pc_ok N q' (L @ log_push p p') p' \<and>
      (pc_ok N q L r \<longrightarrow> no_conflict p r \<longrightarrow> pc_ok N q' (L @ log_push p p') r)"
  proof (cases p)
    case (PushAt v i)
    with st p push_test_ok [OF sh, of i v] show ?thesis by (intro quiet) (auto simp: log_push_def)
  next
    case (PushCas v i)
    show ?thesis
    proof (cases "enqueue_pos q = i \<and> \<not> sp")
      case True
      with PushCas st p push_cas_step [OF sh, of v] show ?thesis by (auto simp: log_push_def)
    next
      case False
      with PushCas st show ?thesis by (intro quiet) (auto simp: log_push_def)
    qed
  next
    case (PushStore v i)
    with st p store_step [OF sh, of i v] show ?thesis by (auto simp: log_push_def)
  next
    case (PushPublish i)
    with st p publish_step [OF sh, of i] show ?thesis by (auto simp: log_push_def)
  next
    case (PopAt i)
    with st p pop_test_ok [OF sh, of i] show ?thesis by (intro quiet) (auto simp: log_push_def)
  next
    case (PopCas i)
    show ?thesis
    proof (cases "dequeue_pos q = i \<and> \<not> sp")
      case True
      with PopCas st p pop_cas_step [OF sh] show ?thesis by (auto simp: log_push_def)
    next
      case False
      with PopCas st show ?thesis by (intro quiet) (auto simp: log_push_def)
    qed
  next
    case (PopLoad i)
    with st p show ?thesis by (intro quiet) (auto simp: log_push_def cell_fields)
  next
    case (PopRelease i v)
    with st p release_step [OF sh, of i] show ?thesis by (auto simp: log_push_def)
  qed (use st sh in \<open>auto simp: log_push_def\<close>)
  then show "shared_ok N q' (L @ log_push p p')" "pc_ok N q' (L @ log_push p p') p'"
    "pc_ok N q L r \<Longrightarrow> no_conflict p r \<Longrightarrow> pc_ok N q' (L @ log_push p p') r" by blast+
qed

section \<open>Reachable states\<close>

definition claims_ok :: "'a bq_sys \<Rightarrow> bool" where
  "claims_ok s \<longleftrightarrow>
     distinct (map fst (results s)) \<and> (\<forall>(i, v)\<in>set (results s). i < dequeue_pos (queue s) \<and> v = pushed s ! i) \<and>
     (\<forall>i<dequeue_pos (queue s). i \<in> fst ` set (results s) \<or> (\<exists>t. popping (pcs s t) = Some i)) \<and>
     (\<forall>t i. popping (pcs s t) = Some i \<longrightarrow> i \<notin> fst ` set (results s))"

definition bq_inv :: "nat \<Rightarrow> 'a bq_sys \<Rightarrow> bool" where
  "bq_inv N s \<longleftrightarrow> shared_ok N (queue s) (pushed s) \<and> (\<forall>t. pc_ok N (queue s) (pushed s) (pcs s t)) \<and>
     (\<forall>t t'. t \<noteq> t' \<longrightarrow> no_conflict (pcs s t) (pcs s t')) \<and> claims_ok s"

lemma pc_ok_held:
  "pc_ok N q L p \<Longrightarrow> pushing p = Some i \<Longrightarrow> pushing_ok q i"
  "pc_ok N q L p \<Longrightarrow> popping p = Some i \<Longrightarrow> popping_ok N q i"
  by (cases p; simp)+

lemma thread_step_pushing:
  "thread_step sp p q = (p', q') \<Longrightarrow>
     pushing p' = None \<or> pushing p' = pushing p \<or> pushing p' = Some (enqueue_pos q)"
  by (cases p) (auto simp: push_test_def pop_test_def Let_def split: if_splits)

lemma thread_step_popping:
  "thread_step sp p q = (p', q') \<Longrightarrow>
     popping p' = popping p \<and> dequeue_pos q' = dequeue_pos q \<and> log_pop p = [] \<or>
     popping p = None \<and> popping p' = Some (dequeue_pos q) \<and> dequeue_pos q' = dequeue_pos q + 1 \<and> log_pop p = [] \<or>
     (\<exists>i v. p = PopRelease i v \<and> popping p' = None \<and> dequeue_pos q' = dequeue_pos q)"
  by (cases p) (auto simp: push_test_def pop_test_def Let_def log_pop_def split: if_splits)

lemma no_conflict_step:
  assumes st: "thread_step sp p q = (p', q')" and nc: "no_conflict p r" and r: "pc_ok N q L r" and nr: "no_conflict r p"
  shows "no_conflict p' r" "no_conflict r p'"
proof -
  have "pushing r \<noteq> Some (enqueue_pos q)" "popping r \<noteq> Some (dequeue_pos q)"
    using pc_ok_held [OF r] by (fastforce simp: pushing_ok_def popping_ok_def)+
  then show "no_conflict p' r" "no_conflict r p'"
    using nc nr thread_step_pushing [OF st] thread_step_popping [OF st] by (auto simp: no_conflict_def)
qed

lemma log_push_nth: "i < length L \<Longrightarrow> (L @ log_push p p') ! i = L ! i"
  by (simp add: nth_append)

lemma claims_step:
  assumes inv: "bq_inv N s" and st: "thread_step sp (pcs s t) (queue s) = (p', q')"
  shows "claims_ok (run_thread sp t s)"
proof -
  let ?q = "queue s" and ?R = "results s" and ?d = "dequeue_pos (queue s)"
  have c: "distinct (map fst ?R)" "\<And>i v. (i, v) \<in> set ?R \<Longrightarrow> i < ?d \<and> v = pushed s ! i"
    "\<And>i. i < ?d \<Longrightarrow> i \<in> fst ` set ?R \<or> (\<exists>t. popping (pcs s t) = Some i)"
    "\<And>t i. popping (pcs s t) = Some i \<Longrightarrow> i \<notin> fst ` set ?R"
    using inv by (auto simp: bq_inv_def claims_ok_def)
  have len: "?d \<le> length (pushed s)" and pc: "\<And>t. pc_ok N ?q (pushed s) (pcs s t)"
    and nc: "\<And>t t'. t \<noteq> t' \<Longrightarrow> no_conflict (pcs s t) (pcs s t')" using inv by (auto simp: bq_inv_def shared_ok_def)
  have old: "(pushed s @ log_push (pcs s t) p') ! i = pushed s ! i" if "i < ?d" for i
    using that len by (intro log_push_nth) simp
  have run: "run_thread sp t s = s\<lparr>queue := q', pcs := (pcs s)(t := p'), pushed := pushed s @ log_push (pcs s t) p',
      results := ?R @ log_pop (pcs s t)\<rparr>" using st by (simp add: run_thread_def)
  consider (keep) "popping p' = popping (pcs s t)" "dequeue_pos q' = ?d" "log_pop (pcs s t) = []"
    | (claim) "popping (pcs s t) = None" "popping p' = Some ?d" "dequeue_pos q' = ?d + 1" "log_pop (pcs s t) = []"
    | (release) i v where "pcs s t = PopRelease i v" "popping p' = None" "dequeue_pos q' = ?d"
    using thread_step_popping [OF st] by auto
  then show ?thesis
  proof cases
    case keep
    have "popping (((pcs s)(t := p')) u) = popping (pcs s u)" for u using keep by simp
    then show ?thesis using c old keep by (auto simp: claims_ok_def run)
  next
    case claim
    have here: "\<exists>u. popping (((pcs s)(t := p')) u) = Some i" if "popping (pcs s u) = Some i" for u i
      using that claim by (intro exI [of _ u]) auto
    have all: "i \<in> fst ` set ?R \<or> (\<exists>u. popping (((pcs s)(t := p')) u) = Some i)" if "i < dequeue_pos q'" for i
    proof (cases "i = ?d")
      case True
      then show ?thesis using claim by (intro disjI2 exI [of _ t]) simp
    next
      case False
      then have "i < ?d" using that claim by simp
      then show ?thesis using c(3) [of i] here by blast
    qed
    have "?d \<notin> fst ` set ?R" using c(2) by fastforce
    then have fresh: "i \<notin> fst ` set ?R" if "popping (((pcs s)(t := p')) u) = Some i" for u i
      using that claim c(4) [of u i] by (auto split: if_splits)
    have vals: "\<forall>(i, v)\<in>set ?R. i < dequeue_pos q' \<and> v = (pushed s @ log_push (pcs s t) p') ! i"
      using c(2) old claim(3) by fastforce
    show ?thesis unfolding claims_ok_def run using vals all fresh c(1) claim(4) by simp
  next
    case release
    have i: "i < ?d" "v = pushed s ! i" "i \<notin> fst ` set ?R" using pc [of t] c(4) [of t i] release by (auto simp: popping_ok_def)
    have log: "log_pop (pcs s t) = [(i, v)]" using release by (simp add: log_pop_def)
    have here: "\<exists>u. popping (((pcs s)(t := p')) u) = Some j" if "popping (pcs s u) = Some j" "j \<noteq> i" for u j
      using that release by (intro exI [of _ u]) auto
    have all: "j \<in> fst ` set (?R @ [(i, v)]) \<or> (\<exists>u. popping (((pcs s)(t := p')) u) = Some j)" if "j < ?d" for j
    proof (cases "j \<in> fst ` set (?R @ [(i, v)])")
      case False
      then have "j \<noteq> i" "\<exists>u. popping (pcs s u) = Some j" using c(3) [OF that] by auto
      then show ?thesis using here by blast
    qed blast
    have single: "popping (pcs s u) \<noteq> Some i" if "u \<noteq> t" for u
      using nc [of t u] that release by (auto simp: no_conflict_def)
    have fresh: "j \<notin> fst ` set (?R @ [(i, v)])" if "popping (((pcs s)(t := p')) u) = Some j" for u j
      using that release c(4) [of u j] single [of u] by (auto split: if_splits)
    have vals: "\<forall>(j, w)\<in>set (?R @ [(i, v)]). j < ?d \<and> w = (pushed s @ log_push (pcs s t) p') ! j"
      using c(2) old i by fastforce
    show ?thesis unfolding claims_ok_def run using vals all fresh c(1) i(3) log release(3) by simp
  qed
qed

lemma bq_inv_step: "bq_inv N s \<Longrightarrow> bq_step s s' \<Longrightarrow> bq_inv N s'"
proof (erule bq_step_cases)
  fix t v assume inv: "bq_inv N s" and s': "s' = s\<lparr>pcs := (pcs s)(t := PushStart v)\<rparr>" "pcs s t = Idle"
  have "popping (((pcs s)(t := PushStart v)) u) = popping (pcs s u)" for u using s'(2) by simp
  with inv s' show "bq_inv N s'" by (auto simp: bq_inv_def claims_ok_def no_conflict_def)
next
  fix t assume inv: "bq_inv N s" and s': "s' = s\<lparr>pcs := (pcs s)(t := PopStart)\<rparr>" "pcs s t = Idle"
  have "popping (((pcs s)(t := PopStart)) u) = popping (pcs s u)" for u using s'(2) by simp
  with inv s' show "bq_inv N s'" by (auto simp: bq_inv_def claims_ok_def no_conflict_def)
next
  fix sp t assume inv: "bq_inv N s" and s': "s' = run_thread sp t s"
  obtain p' q' where st: "thread_step sp (pcs s t) (queue s) = (p', q')" by (metis surj_pair)
  have i: "shared_ok N (queue s) (pushed s)" "pc_ok N (queue s) (pushed s) (pcs s u)"
    "u \<noteq> u' \<Longrightarrow> no_conflict (pcs s u) (pcs s u')" for u u' using inv by (auto simp: bq_inv_def)
  note ok = thread_step_ok [OF i(1) i(2) st]
  have "pc_ok N q' (pushed s @ log_push (pcs s t) p') (((pcs s)(t := p')) u)" for u
    using ok(2) ok(3) [OF i(2) i(3), of u] by auto
  moreover have "no_conflict (((pcs s)(t := p')) u) (((pcs s)(t := p')) u')" if "u \<noteq> u'" for u u'
    using that i(3) no_conflict_step [OF st i(3) i(2) i(3), of u] no_conflict_step [OF st i(3) i(2) i(3), of u'] by auto
  ultimately show "bq_inv N s'" using ok(1) claims_step [OF inv st] st
    by (simp add: bq_inv_def s') (simp add: run_thread_def)
qed

lemma bq_inv_init:
  assumes "AtomicBoundedQueue_new raw n = Inr q"
  shows "bq_inv n (bq_init q)"
proof -
  have q: "2 \<le> n" "n AND (n - 1) = 0" "q = \<lparr>buffer = (\<lambda>i. \<lparr>sequence = i, cdata = raw i\<rparr>), buffer_mask = n - 1, enqueue_pos = 0, dequeue_pos = 0\<rparr>"
    using assms by (auto simp: AtomicBoundedQueue_new_def rbind_simps)
  then have ring: "ring_ok n q" by (simp add: ring_ok_def)
  then have "seq q i = i" if "i < n" for i using that q by (simp add: seq_def cell_mod)
  with ring q show ?thesis by (auto simp: bq_inv_def bq_init_def shared_ok_def claims_ok_def no_conflict_def)
qed

lemma bq_reach_inv: "bq_reach q s \<Longrightarrow> AtomicBoundedQueue_new raw n = Inr q \<Longrightarrow> bq_inv n s"
  by (induction rule: bq_reach.induct) (auto intro: bq_inv_init bq_inv_step)

section \<open>Refused operations\<close>

text \<open>A claimed position without a value, or a free one that is not yet usable, is held by some thread.\<close>

definition held_ok :: "nat \<Rightarrow> 'a bqueue \<Rightarrow> (nat \<Rightarrow> 'a pc) \<Rightarrow> bool" where
  "held_ok N q P \<longleftrightarrow>
     (\<forall>i. dequeue_pos q \<le> i \<and> i < enqueue_pos q \<and> seq q i = i \<longrightarrow> (\<exists>t. pushing (P t) = Some i)) \<and>
     (\<forall>i. enqueue_pos q \<le> i \<and> i < dequeue_pos q + N \<and> seq q i \<noteq> i \<longrightarrow> (\<exists>t. popping (P t) = Some (i - N)))"

lemma held_same:
  assumes "held_ok N q P" "pushing p' = pushing (P t)" "popping p' = popping (P t)"
    "enqueue_pos q' = enqueue_pos q" "dequeue_pos q' = dequeue_pos q" "\<And>i. seq q' i = seq q i"
  shows "held_ok N q' (P(t := p'))"
proof -
  have "pushing ((P(t := p')) u) = pushing (P u)" "popping ((P(t := p')) u) = popping (P u)" for u using assms by auto
  with assms(1) show ?thesis unfolding held_ok_def assms(4-6) by simp
qed

lemma other_holds:
  "pushing (P u) = Some i \<Longrightarrow> pushing (P t) \<noteq> Some i \<Longrightarrow> \<exists>u. pushing ((P(t := p')) u) = Some i"
  "popping (P u) = Some i \<Longrightarrow> popping (P t) \<noteq> Some i \<Longrightarrow> \<exists>u. popping ((P(t := p')) u) = Some i"
  by (intro exI [of _ u], auto)+

text \<open>What another thread holds it keeps.\<close>

lemma held_keep:
  assumes "held_ok N q P"
  shows "dequeue_pos q \<le> i \<Longrightarrow> i < enqueue_pos q \<Longrightarrow> seq q i = i \<Longrightarrow> pushing (P t) \<noteq> Some i \<Longrightarrow> \<exists>u. pushing ((P(t := p')) u) = Some i"
    "enqueue_pos q \<le> i \<Longrightarrow> i < dequeue_pos q + N \<Longrightarrow> seq q i \<noteq> i \<Longrightarrow> popping (P t) \<noteq> Some (i - N) \<Longrightarrow>
     \<exists>u. popping ((P(t := p')) u) = Some (i - N)"
proof -
  assume i: "dequeue_pos q \<le> i" "i < enqueue_pos q" "seq q i = i" "pushing (P t) \<noteq> Some i"
  then obtain u where "pushing (P u) = Some i" using assms by (auto simp: held_ok_def)
  then show "\<exists>u. pushing ((P(t := p')) u) = Some i" using i(4) by (rule other_holds(1))
next
  assume i: "enqueue_pos q \<le> i" "i < dequeue_pos q + N" "seq q i \<noteq> i" "popping (P t) \<noteq> Some (i - N)"
  then obtain u where "popping (P u) = Some (i - N)" using assms by (auto simp: held_ok_def)
  then show "\<exists>u. popping ((P(t := p')) u) = Some (i - N)" using i(4) by (rule other_holds(2))
qed

lemma held_push_cas:
  assumes "held_ok N q P" "P t = PushCas v i" "i = enqueue_pos q"
  shows "held_ok N (q\<lparr>enqueue_pos := i + 1\<rparr>) (P(t := PushStore v i))"
proof -
  note keep = held_keep [OF assms(1), where t = t]
  have "\<exists>u. pushing ((P(t := PushStore v i)) u) = Some j" if "dequeue_pos q \<le> j" "j < i + 1" "seq q j = j" for j
  proof (cases "j = i")
    case True
    then show ?thesis by (intro exI [of _ t]) simp
  next
    case False
    then show ?thesis using that assms by (intro keep) auto
  qed
  moreover have "\<exists>u. popping ((P(t := PushStore v i)) u) = Some (j - N)" if "i + 1 \<le> j" "j < dequeue_pos q + N" "seq q j \<noteq> j" for j
    using that assms by (intro keep) auto
  ultimately show ?thesis unfolding held_ok_def by simp
qed

lemma held_pop_cas:
  assumes "held_ok N q P" "P t = PopCas i" "i = dequeue_pos q"
  shows "held_ok N (q\<lparr>dequeue_pos := i + 1\<rparr>) (P(t := PopLoad i))"
proof -
  note keep = held_keep [OF assms(1), where t = t]
  have "\<exists>u. popping ((P(t := PopLoad i)) u) = Some (j - N)" if "enqueue_pos q \<le> j" "j < i + 1 + N" "seq q j \<noteq> j" for j
  proof (cases "j = i + N")
    case True
    then show ?thesis by (intro exI [of _ t]) simp
  next
    case False
    then show ?thesis using that assms by (intro keep) auto
  qed
  moreover have "\<exists>u. pushing ((P(t := PopLoad i)) u) = Some j" if "i + 1 \<le> j" "j < enqueue_pos q" "seq q j = j" for j
    using that assms by (intro keep) auto
  ultimately show ?thesis unfolding held_ok_def by simp
qed

lemma held_publish:
  assumes sh: "shared_ok N q L" and p: "pc_ok N q L (P t)" and h: "held_ok N q P" and t: "P t = PushPublish i"
    and q': "q' = set_cell i ((cell i q)\<lparr>sequence := i + 1\<rparr>) q"
  shows "held_ok N q' (P(t := PushReturn True))"
proof -
  note keep = held_keep [OF h, where t = t]
  have ring: "ring_ok N q" and full: "enqueue_pos q \<le> dequeue_pos q + N" "dequeue_pos q \<le> enqueue_pos q" using sh by (auto simp: shared_ok_def)
  have i: "dequeue_pos q \<le> i" "i < enqueue_pos q" using p t by (auto simp: pushing_ok_def)
  have sq: "seq q' j = (if j = i then i + 1 else seq q j)" if "dequeue_pos q \<le> j" "j < dequeue_pos q + N" for j
    using that ring i full mod_window [of i j N] mod_window' [of j i N]
    by (cases i j rule: linorder_cases) (auto simp: q' seq_update)
  have "\<exists>u. pushing ((P(t := PushReturn True)) u) = Some j" if "dequeue_pos q \<le> j" "j < enqueue_pos q" "seq q' j = j" for j
    using that sq [of j] full t by (intro keep) (auto split: if_splits)
  moreover have "\<exists>u. popping ((P(t := PushReturn True)) u) = Some (j - N)"
    if "enqueue_pos q \<le> j" "j < dequeue_pos q + N" "seq q' j \<noteq> j" for j
    using that sq [of j] full i t by (intro keep) (auto split: if_splits)
  ultimately show ?thesis unfolding held_ok_def by (simp add: q')
qed

lemma held_release:
  assumes sh: "shared_ok N q L" and p: "pc_ok N q L (P t)" and h: "held_ok N q P" and t: "P t = PopRelease i v"
    and q': "q' = set_cell i ((cell i q)\<lparr>sequence := i + buffer_mask q + 1\<rparr>) q"
  shows "held_ok N q' (P(t := PopReturn (Some v)))"
proof -
  note keep = held_keep [OF h, where t = t]
  have ring: "ring_ok N q" and full: "enqueue_pos q \<le> dequeue_pos q + N" "dequeue_pos q \<le> enqueue_pos q" using sh by (auto simp: shared_ok_def)
  have i: "i < dequeue_pos q" "enqueue_pos q \<le> i + N" using p t by (auto simp: popping_ok_def)
  have mask: "i + buffer_mask q + 1 = i + N" using ring by (auto simp: ring_ok_def)
  have sq: "seq q' j = (if j = i + N then i + N else seq q j)" if "dequeue_pos q \<le> j" "j < dequeue_pos q + N" for j
    using that ring i full mask mod_window [of j "i + N" N] mod_window' [of "i + N" j N]
    by (cases j "i + N" rule: linorder_cases) (auto simp: q' seq_update)
  have "\<exists>u. pushing ((P(t := PopReturn (Some v))) u) = Some j" if "dequeue_pos q \<le> j" "j < enqueue_pos q" "seq q' j = j" for j
    using that sq [of j] full i t by (intro keep) (auto split: if_splits)
  moreover have "\<exists>u. popping ((P(t := PopReturn (Some v))) u) = Some (j - N)"
    if j: "enqueue_pos q \<le> j" "j < dequeue_pos q + N" "seq q' j \<noteq> j" for j
  proof -
    have "dequeue_pos q \<le> j" using sh j(1) by (auto simp: shared_ok_def)
    then have "j \<noteq> i + N" "seq q j \<noteq> j" using j sq [of j] by (auto split: if_splits)
    moreover from this(2) j sh have "N \<le> j" by (auto simp: shared_ok_def)
    ultimately show ?thesis using j t by (intro keep) auto
  qed
  ultimately show ?thesis unfolding held_ok_def by (simp add: q')
qed

lemma held_step:
  assumes sh: "shared_ok N q L" and p: "pc_ok N q L (P t)" and h: "held_ok N q P"
    and st: "thread_step sp (P t) q = (p', q')"
  shows "held_ok N q' (P(t := p'))"
proof (cases "P t")
  case (PushCas v i)
  then show ?thesis using st h held_push_cas [OF h PushCas]
    by (cases "enqueue_pos q = i \<and> \<not> sp") (auto intro: held_same)
next
  case (PopCas i)
  then show ?thesis using st h held_pop_cas [OF h PopCas]
    by (cases "dequeue_pos q = i \<and> \<not> sp") (auto intro: held_same)
next
  case (PushStore v i)
  then have q': "p' = PushPublish i" "q' = set_cell i ((cell i q)\<lparr>cdata := v\<rparr>) q" using st by auto
  have "ring_ok N q" using sh by (simp add: shared_ok_def)
  then have "seq q' j = seq q j" for j by (auto simp: q' seq_update cell_fields intro: seq_mod)
  with q' PushStore h show ?thesis by (intro held_same) auto
next
  case (PushPublish i)
  then show ?thesis using st held_publish [OF sh p h PushPublish refl] by auto
next
  case (PopRelease i v)
  then show ?thesis using st held_release [OF sh p h PopRelease refl] by auto
qed (use st h in \<open>auto intro!: held_same simp: push_test_def pop_test_def Let_def split: if_splits\<close>)

lemma bq_reach_held: "bq_reach q s \<Longrightarrow> AtomicBoundedQueue_new raw n = Inr q \<Longrightarrow> held_ok n (queue s) (pcs s)"
proof (induction rule: bq_reach.induct)
  case start
  then have i: "bq_inv n (bq_init q)" and q: "enqueue_pos q = 0" "dequeue_pos q = 0" "\<forall>i<n. seq q i = i"
    using bq_inv_init [OF start] by (auto simp: AtomicBoundedQueue_new_def rbind_simps bq_inv_def bq_init_def shared_ok_def)
  then show ?case by (auto simp: held_ok_def bq_init_def)
next
  case (step s s')
  then have h: "held_ok n (queue s) (pcs s)" and inv: "bq_inv n s" using bq_reach_inv by blast+
  from step.hyps(2) show ?case
  proof (cases rule: bq_step.cases)
    case (call_push t v)
    with h held_same [of n "queue s" "pcs s" "PushStart v" t "queue s"] show ?thesis by (simp add: fun_upd_def)
  next
    case (call_pop t)
    with h held_same [of n "queue s" "pcs s" PopStart t "queue s"] show ?thesis by (simp add: fun_upd_def)
  next
    case (run sp t)
    obtain p' q' where st: "thread_step sp (pcs s t) (queue s) = (p', q')" by (metis surj_pair)
    have "held_ok n q' ((pcs s)(t := p'))"
      by (rule held_step [OF _ _ h st]) (use inv in \<open>auto simp: bq_inv_def\<close>)
    with run st show ?thesis by (simp add: run_thread_def fun_upd_def)
  qed
qed

lemma window_exists: "0 < N \<Longrightarrow> \<exists>j\<ge>d. j < d + N \<and> j mod N = i mod (N :: nat)"
proof -
  assume N: "0 < N"
  let ?j = "d + (i + d * (N - 1)) mod N"
  have "?j mod N = (d + (i + d * (N - 1))) mod N" by (simp add: mod_add_right_eq)
  also have "d + (i + d * (N - 1)) = i + d * N" using N by (cases N) (auto simp: algebra_simps)
  finally have "?j mod N = i mod N" by simp
  moreover have "?j < d + N" using N by simp
  ultimately show ?thesis by (intro exI [of _ ?j]) auto
qed

text \<open>The cell of a position that has been passed shows a later sequence number.\<close>

lemma seq_passed:
  assumes sh: "shared_ok N q L" and i: "i < dequeue_pos q"
  shows "i + 1 \<le> seq q i"
proof -
  have ring: "ring_ok N q" and N: "2 \<le> N" using sh by (auto simp: shared_ok_def ring_ok_def)
  obtain j where j: "dequeue_pos q \<le> j" "j < dequeue_pos q + N" "j mod N = i mod N"
    using window_exists [of N "dequeue_pos q" i] N by auto
  have "N dvd j - i" using i j by (metis mod_eq_dvd_iff_nat less_imp_le less_le_trans)
  then have "i + N \<le> j" using i j by (auto dest: dvd_imp_le)
  moreover have "seq q j = j \<or> seq q j = j + 1 \<or> N \<le> j \<and> seq q j = j - N + 1"
    using shared_claimed [OF sh j(1)] shared_free [OF sh _ j(2)] by (cases "j < enqueue_pos q") auto
  moreover have "seq q i = seq q j" using ring j(3) by (intro seq_mod) auto
  ultimately show ?thesis using N by auto
qed

text \<open>Schedules, to run the queue on concrete inputs.\<close>

datatype 'a bq_act = CallPush nat 'a | CallPop nat | Run nat

primrec bq_exec :: "'a bq_act \<Rightarrow> 'a bq_sys \<Rightarrow> 'a bq_sys" where
  "bq_exec (CallPush t v) s = (if pcs s t = Idle then s\<lparr>pcs := (pcs s)(t := PushStart v)\<rparr> else s)"
| "bq_exec (CallPop t) s = (if pcs s t = Idle then s\<lparr>pcs := (pcs s)(t := PopStart)\<rparr> else s)"
| "bq_exec (Run t) s = run_thread False t s"

lemma bq_exec_reach: "bq_reach q s \<Longrightarrow> bq_reach q (fold bq_exec acts s)"
proof (induction acts arbitrary: s)
  case (Cons a acts)
  have "bq_reach q (bq_exec a s)"
    using Cons.prems by (cases a) (auto intro: bq_reach.step bq_step.intros)
  with Cons.IH show ?case by simp
qed simp

definition sample_queue :: "nat bqueue" where
  "sample_queue = \<lparr>buffer = (\<lambda>i. \<lparr>sequence = i, cdata = 0\<rparr>), buffer_mask = 1, enqueue_pos = 0, dequeue_pos = 0\<rparr>"

definition sample_schedule :: "nat bq_act list" where
  "sample_schedule = CallPush 1 7 # CallPush 2 8 # replicate 3 (Run 1) @ replicate 5 (Run 2) @ replicate 2 (Run 1) @
     CallPop 3 # replicate 5 (Run 3)"

lemma sample_queue_new: "AtomicBoundedQueue_new (\<lambda>_. 0) 2 = Inr sample_queue"
  by (simp add: AtomicBoundedQueue_new_def sample_queue_def and_rec [of 2])

lemmas bq_eval = sample_queue_def bq_init_def run_thread_def push_test_def pop_test_def cell_def set_cell_def
  log_push_def log_pop_def

section \<open>Properties\<close>



text \<open>
  An operation is refused only for a reason: \<open>push\<close> returns false only when, at its last access, all cells are
  claimed or the cell it needs is still held by a consumer of the previous round; \<open>pop\<close> returns false
  only when the queue is empty or its oldest value is still being written.
\<close>

theorem bounded_queue_refusal:
  assumes new: "AtomicBoundedQueue_new raw n = Inr q" and reach: "bq_reach q s"
  shows "(pcs s t = PushAt v i \<and> push_test v i (queue s) = PushReturn False \<longrightarrow>
      i = enqueue_pos (queue s) \<and> (enqueue_pos (queue s) = dequeue_pos (queue s) + n \<or> (\<exists>u. popping (pcs s u) = Some (i - n)))) \<and>
    (pcs s t = PopAt i \<and> pop_test i (queue s) = PopReturn None \<longrightarrow>
      i = dequeue_pos (queue s) \<and> (dequeue_pos (queue s) = enqueue_pos (queue s) \<or> (\<exists>u. pushing (pcs s u) = Some i)))"
proof -
  let ?q = "queue s"
  have inv: "bq_inv n s" and h: "held_ok n ?q (pcs s)" using bq_reach_inv bq_reach_held new reach by blast+
  then have sh: "shared_ok n ?q (pushed s)" and pc: "pc_ok n ?q (pushed s) (pcs s t)" by (auto simp: bq_inv_def)
  have full: "enqueue_pos ?q \<le> dequeue_pos ?q + n" using sh by (simp add: shared_ok_def)
  have "i = enqueue_pos ?q \<and> (enqueue_pos ?q = dequeue_pos ?q + n \<or> (\<exists>u. popping (pcs s u) = Some (i - n)))"
    if "pcs s t = PushAt v i" "push_test v i ?q = PushReturn False"
  proof -
    have lt: "seq ?q i < i" using that(2) by (auto simp: push_test_def Let_def cell_fields split: if_splits)
    moreover have "i \<le> enqueue_pos ?q" using pc that(1) by simp
    moreover have "\<not> i < enqueue_pos ?q"
    proof
      assume "i < enqueue_pos ?q"
      then have "i \<le> seq ?q i" using seq_passed [OF sh, of i] shared_claimed [OF sh, of i] by (cases "i < dequeue_pos ?q") auto
      with lt show False by simp
    qed
    ultimately show ?thesis using h full by (auto simp: held_ok_def)
  qed
  moreover have "i = dequeue_pos ?q \<and> (dequeue_pos ?q = enqueue_pos ?q \<or> (\<exists>u. pushing (pcs s u) = Some i))"
    if "pcs s t = PopAt i" "pop_test i ?q = PopReturn None"
  proof -
    have lt: "seq ?q i < i + 1" using that(2) by (auto simp: pop_test_def Let_def cell_fields split: if_splits)
    then have i: "i = dequeue_pos ?q" using pc that(1) seq_passed [OF sh, of i] by (cases "i < dequeue_pos ?q") auto
    show ?thesis
    proof (cases "i < enqueue_pos ?q")
      case True
      then have "seq ?q i = i" using lt i shared_claimed [OF sh, of i] by auto
      with True i h show ?thesis by (auto simp: held_ok_def)
    next
      case False
      with i sh show ?thesis by (auto simp: shared_ok_def)
    qed
  qed
  ultimately show ?thesis by blast
qed

theorem bounded_queue_refusal_witness:
  "let s = fold bq_exec [CallPop 3, Run 3] (bq_init sample_queue) in
     pcs s 3 = PopAt 0 \<and> pop_test 0 (queue s) = PopReturn None \<and> dequeue_pos (queue s) = enqueue_pos (queue s)"
proof -
  let ?s = "fold bq_exec [CallPop 3, Run 3] (bq_init sample_queue)"
  have e: "pcs ?s 3 = PopAt 0" "pop_test 0 (queue ?s) = PopReturn None" "\<And>u. pushing (pcs ?s u) = None"
    by (simp_all add: bq_eval)
  moreover have "dequeue_pos (queue ?s) = enqueue_pos (queue ?s)"
    using bounded_queue_refusal [OF sample_queue_new bq_exec_reach [OF bq_reach.start], of "[CallPop 3, Run 3]" 3 _ 0] e by auto
  ultimately show ?thesis by (simp add: Let_def)
qed

end
