(* ===== verification/Graph_Util.thy ===== *)
theory Graph_Util
  imports Prelude
begin

text \<open>
  Graphs with references (\<open>include/utility/GraphUtil.h\<close>): helper functions that keep two maps, from vertex and edge
  references of the user's choice to the descriptors of a Boost graph, in step with the graph. The Boost
  Graph Library is not part of the sources: the functions of it that the code calls are the fields of
  \<open>bgl\<close>, an argument of every definition, and \<open>bgl_queries\<close>, \<open>bgl_updates\<close> and \<open>bgl_sorts\<close> state what its documentation says of them for an
  \<open>adjacency_list\<close> with \<open>setS\<close> edges and bidirectional access.
\<close>

section \<open>The graph library\<close>

record ('g, 'v, 'e, 'r, 's) bgl =
  b_add_vertex :: "'g \<Rightarrow> 'v \<times> 'g"
  b_remove_vertex :: "'v \<Rightarrow> 'g \<Rightarrow> 'g"
  b_add_edge :: "'v \<Rightarrow> 'v \<Rightarrow> 'g \<Rightarrow> ('e \<times> bool) \<times> 'g"
  b_remove_edge :: "'e \<Rightarrow> 'g \<Rightarrow> 'g"
  b_remove_edges :: "'v \<Rightarrow> 'v \<Rightarrow> 'g \<Rightarrow> 'g"
  b_edge :: "'v \<Rightarrow> 'v \<Rightarrow> 'g \<Rightarrow> 'e \<times> bool"
  b_vertices :: "'g \<Rightarrow> 'v list"
  b_edges :: "'g \<Rightarrow> 'e list"
  b_out_edges :: "'v \<Rightarrow> 'g \<Rightarrow> 'e list"
  b_in_edges :: "'v \<Rightarrow> 'g \<Rightarrow> 'e list"
  b_source :: "'e \<Rightarrow> 'g \<Rightarrow> 'v"
  b_target :: "'e \<Rightarrow> 'g \<Rightarrow> 'v"
  b_clear :: "'g \<Rightarrow> 'g"
  b_get_vref :: "'v \<Rightarrow> 'g \<Rightarrow> 'r"
  b_put_vref :: "'v \<Rightarrow> 'r \<Rightarrow> 'g \<Rightarrow> 'g"
  b_get_eref :: "'e \<Rightarrow> 'g \<Rightarrow> 's"
  b_put_eref :: "'e \<Rightarrow> 's \<Rightarrow> 'g \<Rightarrow> 'g"
  b_topological_sort :: "'g \<Rightarrow> 'v list option"

text \<open>The graph, its references, and the two maps of \<open>indirect_graph_mapping\<close>.\<close>

record ('g, 'v, 'e, 'r, 's) igraph =
  graph :: 'g
  mVertexReferenceMap :: "'r \<rightharpoonup> 'v"
  mEdgeReferenceMap :: "'s \<rightharpoonup> 'e"

section \<open>indirect\_graph\_mapping\<close>

definition mapping_clear :: "('g, 'v, 'e, 'r, 's) igraph \<Rightarrow> ('g, 'v, 'e, 'r, 's) igraph" where
  "mapping_clear m = m\<lparr>mVertexReferenceMap := Map.empty, mEdgeReferenceMap := Map.empty\<rparr>"

definition findVertexReference :: "'r \<Rightarrow> ('g, 'v, 'e, 'r, 's) igraph \<Rightarrow> 'v option" where
  "findVertexReference r m = mVertexReferenceMap m r"

definition findEdgeReference :: "'s \<Rightarrow> ('g, 'v, 'e, 'r, 's) igraph \<Rightarrow> 'e option" where
  "findEdgeReference r m = mEdgeReferenceMap m r"

definition addVertexReference :: "'r \<Rightarrow> 'v \<Rightarrow> ('g, 'v, 'e, 'r, 's) igraph \<Rightarrow> bool \<times> ('g, 'v, 'e, 'r, 's) igraph" where
  "addVertexReference r v m =
     (if mVertexReferenceMap m r \<noteq> None then (False, m)
      else (True, m\<lparr>mVertexReferenceMap := (mVertexReferenceMap m)(r \<mapsto> v)\<rparr>))"

definition removeVertexReference :: "'r \<Rightarrow> ('g, 'v, 'e, 'r, 's) igraph \<Rightarrow> 'v option \<times> ('g, 'v, 'e, 'r, 's) igraph" where
  "removeVertexReference r m =
     (case mVertexReferenceMap m r of None \<Rightarrow> (None, m)
      | Some v \<Rightarrow> (Some v, m\<lparr>mVertexReferenceMap := (mVertexReferenceMap m)(r := None)\<rparr>))"

definition addEdgeReference :: "'s \<Rightarrow> 'e \<Rightarrow> ('g, 'v, 'e, 'r, 's) igraph \<Rightarrow> bool \<times> ('g, 'v, 'e, 'r, 's) igraph" where
  "addEdgeReference r e m =
     (if mEdgeReferenceMap m r \<noteq> None then (False, m)
      else (True, m\<lparr>mEdgeReferenceMap := (mEdgeReferenceMap m)(r \<mapsto> e)\<rparr>))"

definition removeEdgeReference :: "'s \<Rightarrow> ('g, 'v, 'e, 'r, 's) igraph \<Rightarrow> 'e option \<times> ('g, 'v, 'e, 'r, 's) igraph" where
  "removeEdgeReference r m =
     (case mEdgeReferenceMap m r of None \<Rightarrow> (None, m)
      | Some e \<Rightarrow> (Some e, m\<lparr>mEdgeReferenceMap := (mEdgeReferenceMap m)(r := None)\<rparr>))"

section \<open>Helper functions\<close>

text \<open>
  A function returns its result, or \<open>Inl InvalidArgument\<close> for a thrown \<open>std::invalid_argument\<close>, with the graph and the maps
  as they are then. The overloads that take a vertex or edge descriptor carry the suffix \<open>_d\<close>.
\<close>

type_synonym ('a, 'g, 'v, 'e, 'r, 's) igm = "('g, 'v, 'e, 'r, 's) igraph \<Rightarrow> 'a result \<times> ('g, 'v, 'e, 'r, 's) igraph"

definition copy_vertices :: "('g, 'v, 'e, 'r, 's) bgl \<Rightarrow> ('g, 'v, 'e, 'r, 's) igraph \<Rightarrow> ('g, 'v, 'e, 'r, 's) igraph" where
  "copy_vertices G m = fold (\<lambda>v m. snd (addVertexReference (b_get_vref G v (graph m)) v m)) (b_vertices G (graph m)) m"

definition copy_edges :: "('g, 'v, 'e, 'r, 's) bgl \<Rightarrow> ('g, 'v, 'e, 'r, 's) igraph \<Rightarrow> ('g, 'v, 'e, 'r, 's) igraph" where
  "copy_edges G m = fold (\<lambda>e m. snd (addEdgeReference (b_get_eref G e (graph m)) e m)) (b_edges G (graph m)) m"

definition copy :: "('g, 'v, 'e, 'r, 's) bgl \<Rightarrow> ('g, 'v, 'e, 'r, 's) igraph \<Rightarrow> ('g, 'v, 'e, 'r, 's) igraph \<Rightarrow> ('g, 'v, 'e, 'r, 's) igraph" where
  "copy G m_new m = copy_edges G (copy_vertices G (mapping_clear (m_new\<lparr>graph := graph m\<rparr>)))"

definition ig_clear :: "('g, 'v, 'e, 'r, 's) bgl \<Rightarrow> ('g, 'v, 'e, 'r, 's) igraph \<Rightarrow> ('g, 'v, 'e, 'r, 's) igraph" where
  "ig_clear G m = mapping_clear (m\<lparr>graph := b_clear G (graph m)\<rparr>)"

definition add_vertex :: "('g, 'v, 'e, 'r, 's) bgl \<Rightarrow> 'r \<Rightarrow> ('v, 'g, 'v, 'e, 'r, 's) igm" where
  "add_vertex G ru m =
     (let (u, g) = b_add_vertex G (graph m); m = m\<lparr>graph := g\<rparr>; (ok, m) = addVertexReference ru u m in
      if \<not> ok then (Inl InvalidArgument, m\<lparr>graph := b_remove_vertex G u (graph m)\<rparr>)
      else (Inr u, m\<lparr>graph := b_put_vref G u ru (graph m)\<rparr>))"

definition remove_vertex :: "('g, 'v, 'e, 'r, 's) bgl \<Rightarrow> 'r \<Rightarrow> (unit, 'g, 'v, 'e, 'r, 's) igm" where
  "remove_vertex G ru m =
     (case removeVertexReference ru m of (None, m) \<Rightarrow> (Inl InvalidArgument, m)
      | (Some u, m) \<Rightarrow> (Inr (), m\<lparr>graph := b_remove_vertex G u (graph m)\<rparr>))"

definition remove_vertex_d :: "('g, 'v, 'e, 'r, 's) bgl \<Rightarrow> 'v \<Rightarrow> (unit, 'g, 'v, 'e, 'r, 's) igm" where
  "remove_vertex_d G u m =
     (case removeVertexReference (b_get_vref G u (graph m)) m of (None, m) \<Rightarrow> (Inl InvalidArgument, m)
      | (Some dummy, m) \<Rightarrow> if dummy \<noteq> u then (Inl AssertFailed, m) else (Inr (), m\<lparr>graph := b_remove_vertex G u (graph m)\<rparr>))"

definition vertex_ref :: "('g, 'v, 'e, 'r, 's) bgl \<Rightarrow> 'v \<Rightarrow> ('g, 'v, 'e, 'r, 's) igraph \<Rightarrow> 'r" where
  "vertex_ref G u m = b_get_vref G u (graph m)"

definition vertex :: "'r \<Rightarrow> ('g, 'v, 'e, 'r, 's) igraph \<Rightarrow> 'v result" where
  "vertex ru m = (case findVertexReference ru m of None \<Rightarrow> Inl InvalidArgument | Some u \<Rightarrow> Inr u)"

definition add_edge_d :: "('g, 'v, 'e, 'r, 's) bgl \<Rightarrow> 's \<Rightarrow> 'v \<Rightarrow> 'v \<Rightarrow> ('e, 'g, 'v, 'e, 'r, 's) igm" where
  "add_edge_d G re u v m =
     (let ((e, added), g) = b_add_edge G u v (graph m); m = m\<lparr>graph := g\<rparr> in
      if \<not> added then (Inl InvalidArgument, m)
      else let (ok, m) = addEdgeReference re e m in
        if \<not> ok then (Inl InvalidArgument, m\<lparr>graph := b_remove_edge G e (graph m)\<rparr>)
        else (Inr e, m\<lparr>graph := b_put_eref G e re (graph m)\<rparr>))"

definition add_edge :: "('g, 'v, 'e, 'r, 's) bgl \<Rightarrow> 's \<Rightarrow> 'r \<Rightarrow> 'r \<Rightarrow> ('e, 'g, 'v, 'e, 'r, 's) igm" where
  "add_edge G re ru rv m =
     (case (findVertexReference ru m, findVertexReference rv m) of
        (Some u, Some v) \<Rightarrow> add_edge_d G re u v m
      | _ \<Rightarrow> (Inl InvalidArgument, m))"

definition remove_edge_uv :: "('g, 'v, 'e, 'r, 's) bgl \<Rightarrow> 'v \<Rightarrow> 'v \<Rightarrow> (unit, 'g, 'v, 'e, 'r, 's) igm" where
  "remove_edge_uv G u v m =
     (let (e, found) = b_edge G u v (graph m) in
      if \<not> found then (Inl InvalidArgument, m)
      else case removeEdgeReference (b_get_eref G e (graph m)) m of (None, m) \<Rightarrow> (Inl InvalidArgument, m)
        | (Some _, m) \<Rightarrow> (Inr (), m\<lparr>graph := b_remove_edges G u v (graph m)\<rparr>))"

definition remove_edge :: "('g, 'v, 'e, 'r, 's) bgl \<Rightarrow> 'r \<Rightarrow> 'r \<Rightarrow> (unit, 'g, 'v, 'e, 'r, 's) igm" where
  "remove_edge G ru rv m =
     (case (findVertexReference ru m, findVertexReference rv m) of
        (Some u, Some v) \<Rightarrow> remove_edge_uv G u v m
      | _ \<Rightarrow> (Inl InvalidArgument, m))"

definition remove_edge_ref :: "('g, 'v, 'e, 'r, 's) bgl \<Rightarrow> 's \<Rightarrow> (unit, 'g, 'v, 'e, 'r, 's) igm" where
  "remove_edge_ref G re m =
     (case removeEdgeReference re m of (None, m) \<Rightarrow> (Inl InvalidArgument, m)
      | (Some e, m) \<Rightarrow> (Inr (), m\<lparr>graph := b_remove_edge G e (graph m)\<rparr>))"

definition remove_edge_d :: "('g, 'v, 'e, 'r, 's) bgl \<Rightarrow> 'e \<Rightarrow> (unit, 'g, 'v, 'e, 'r, 's) igm" where
  "remove_edge_d G e m =
     (case removeEdgeReference (b_get_eref G e (graph m)) m of (None, m) \<Rightarrow> (Inl InvalidArgument, m)
      | (Some dummy, m) \<Rightarrow> if dummy \<noteq> e then (Inl AssertFailed, m) else (Inr (), m\<lparr>graph := b_remove_edge G e (graph m)\<rparr>))"

text \<open>The loop over a copy of the incident edges, which ignores \<open>std::invalid_argument\<close>.\<close>

fun remove_edges_d :: "('g, 'v, 'e, 'r, 's) bgl \<Rightarrow> 'e list \<Rightarrow> (unit, 'g, 'v, 'e, 'r, 's) igm" where
  "remove_edges_d G [] m = (Inr (), m)"
| "remove_edges_d G (e # es) m =
     (case remove_edge_d G e m of (Inl AssertFailed, m) \<Rightarrow> (Inl AssertFailed, m) | (_, m) \<Rightarrow> remove_edges_d G es m)"

definition clear_out_edges_d :: "('g, 'v, 'e, 'r, 's) bgl \<Rightarrow> 'v \<Rightarrow> (unit, 'g, 'v, 'e, 'r, 's) igm" where
  "clear_out_edges_d G u m = remove_edges_d G (b_out_edges G u (graph m)) m"

definition clear_in_edges_d :: "('g, 'v, 'e, 'r, 's) bgl \<Rightarrow> 'v \<Rightarrow> (unit, 'g, 'v, 'e, 'r, 's) igm" where
  "clear_in_edges_d G u m = remove_edges_d G (b_in_edges G u (graph m)) m"

definition clear_vertex_d :: "('g, 'v, 'e, 'r, 's) bgl \<Rightarrow> 'v \<Rightarrow> (unit, 'g, 'v, 'e, 'r, 's) igm" where
  "clear_vertex_d G u m =
     (case clear_out_edges_d G u m of (Inl x, m) \<Rightarrow> (Inl x, m) | (Inr _, m) \<Rightarrow> clear_in_edges_d G u m)"

definition clear_vertex :: "('g, 'v, 'e, 'r, 's) bgl \<Rightarrow> 'r \<Rightarrow> (unit, 'g, 'v, 'e, 'r, 's) igm" where
  "clear_vertex G ru m = (case vertex ru m of Inl x \<Rightarrow> (Inl x, m) | Inr u \<Rightarrow> clear_vertex_d G u m)"

definition clear_out_edges :: "('g, 'v, 'e, 'r, 's) bgl \<Rightarrow> 'r \<Rightarrow> (unit, 'g, 'v, 'e, 'r, 's) igm" where
  "clear_out_edges G ru m = (case vertex ru m of Inl x \<Rightarrow> (Inl x, m) | Inr u \<Rightarrow> clear_out_edges_d G u m)"

definition clear_in_edges :: "('g, 'v, 'e, 'r, 's) bgl \<Rightarrow> 'r \<Rightarrow> (unit, 'g, 'v, 'e, 'r, 's) igm" where
  "clear_in_edges G ru m = (case vertex ru m of Inl x \<Rightarrow> (Inl x, m) | Inr u \<Rightarrow> clear_in_edges_d G u m)"

definition edge_ref :: "('g, 'v, 'e, 'r, 's) bgl \<Rightarrow> 'e \<Rightarrow> ('g, 'v, 'e, 'r, 's) igraph \<Rightarrow> 's" where
  "edge_ref G e m = b_get_eref G e (graph m)"

definition edge_by_ref :: "'s \<Rightarrow> ('g, 'v, 'e, 'r, 's) igraph \<Rightarrow> 'e result" where
  "edge_by_ref re m = (case findEdgeReference re m of None \<Rightarrow> Inl InvalidArgument | Some e \<Rightarrow> Inr e)"

definition edge :: "('g, 'v, 'e, 'r, 's) bgl \<Rightarrow> 'r \<Rightarrow> 'r \<Rightarrow> ('g, 'v, 'e, 'r, 's) igraph \<Rightarrow> 'e result" where
  "edge G ru rv m =
     (case (findVertexReference ru m, findVertexReference rv m) of
        (Some u, Some v) \<Rightarrow> (let (e, found) = b_edge G u v (graph m) in if found then Inr e else Inl InvalidArgument)
      | _ \<Rightarrow> Inl InvalidArgument)"

section \<open>What the library documents\<close>

text \<open>
  \<open>agraph\<close> is the abstract graph behind a value of the library's type: vertices, edges with their ends, and the
  reference property of each.
\<close>

record ('v, 'e, 'r, 's) agraph =
  av :: "'v list"
  ae :: "'e \<rightharpoonup> 'v \<times> 'v"
  avref :: "'v \<Rightarrow> 'r"
  aeref :: "'e \<Rightarrow> 's"

definition agraph_ok :: "('v, 'e, 'r, 's) agraph \<Rightarrow> bool" where
  "agraph_ok A \<longleftrightarrow> distinct (av A) \<and> (\<forall>e u v. ae A e = Some (u, v) \<longrightarrow> u \<in> set (av A) \<and> v \<in> set (av A)) \<and>
     (\<forall>e e' p. ae A e = Some p \<longrightarrow> ae A e' = Some p \<longrightarrow> e = e') \<and> finite (dom (ae A))"

definition arel :: "('v, 'e, 'r, 's) agraph \<Rightarrow> ('v \<times> 'v) set" where
  "arel A = ran (ae A)"

text \<open>Queries, changes, and \<open>topological_sort\<close>: for an edge from \<open>u\<close> to \<open>v\<close> the output has \<open>v\<close> before \<open>u\<close>.\<close>

definition bgl_queries :: "('g, 'v, 'e, 'r, 's) bgl \<Rightarrow> ('g \<Rightarrow> ('v, 'e, 'r, 's) agraph) \<Rightarrow> bool" where
  "bgl_queries G view \<longleftrightarrow> (\<forall>g. agraph_ok (view g) \<and> b_vertices G g = av (view g) \<and>
     (set (b_edges G g) = dom (ae (view g)) \<and> distinct (b_edges G g)) \<and>
     (\<forall>u. set (b_out_edges G u g) = {e. \<exists>v. ae (view g) e = Some (u, v)} \<and> distinct (b_out_edges G u g)) \<and>
     (\<forall>v. set (b_in_edges G v g) = {e. \<exists>u. ae (view g) e = Some (u, v)} \<and> distinct (b_in_edges G v g)) \<and>
     (\<forall>e u v. ae (view g) e = Some (u, v) \<longrightarrow> b_source G e g = u \<and> b_target G e g = v) \<and>
     (\<forall>u v. case b_edge G u v g of (e, found) \<Rightarrow> (found \<longleftrightarrow> (u, v) \<in> arel (view g)) \<and> (found \<longrightarrow> ae (view g) e = Some (u, v))) \<and>
     (\<forall>v. b_get_vref G v g = avref (view g) v) \<and> (\<forall>e. b_get_eref G e g = aeref (view g) e))"

definition bgl_updates :: "('g, 'v, 'e, 'r, 's) bgl \<Rightarrow> ('g \<Rightarrow> ('v, 'e, 'r, 's) agraph) \<Rightarrow> bool" where
  "bgl_updates G view \<longleftrightarrow> (\<forall>g.
     (case b_add_vertex G g of (v, g') \<Rightarrow> v \<notin> set (av (view g)) \<and> set (av (view g')) = insert v (set (av (view g))) \<and>
        ae (view g') = ae (view g) \<and> (\<forall>u\<in>set (av (view g)). avref (view g') u = avref (view g) u) \<and> aeref (view g') = aeref (view g)) \<and>
     (\<forall>v\<in>set (av (view g)). (\<forall>u. (u, v) \<notin> arel (view g) \<and> (v, u) \<notin> arel (view g)) \<longrightarrow>
        set (av (view (b_remove_vertex G v g))) = set (av (view g)) - {v} \<and> ae (view (b_remove_vertex G v g)) = ae (view g) \<and>
        (\<forall>u\<in>set (av (view g)) - {v}. avref (view (b_remove_vertex G v g)) u = avref (view g) u) \<and>
        aeref (view (b_remove_vertex G v g)) = aeref (view g)) \<and>
     (\<forall>u\<in>set (av (view g)). \<forall>v\<in>set (av (view g)). case b_add_edge G u v g of ((e, added), g') \<Rightarrow>
        (added \<longleftrightarrow> (u, v) \<notin> arel (view g)) \<and> (\<not> added \<longrightarrow> view g' = view g) \<and>
        (added \<longrightarrow> ae (view g) e = None \<and> set (av (view g')) = set (av (view g)) \<and> ae (view g') = (ae (view g))(e \<mapsto> (u, v)) \<and>
           (\<forall>w\<in>set (av (view g)). avref (view g') w = avref (view g) w) \<and> (\<forall>e'\<in>dom (ae (view g)). aeref (view g') e' = aeref (view g) e'))) \<and>
     (\<forall>e. e \<in> dom (ae (view g)) \<longrightarrow> view (b_remove_edge G e g) = (view g)\<lparr>ae := (ae (view g))(e := None)\<rparr>) \<and>
     (\<forall>e u v. ae (view g) e = Some (u, v) \<longrightarrow> view (b_remove_edges G u v g) = (view g)\<lparr>ae := (ae (view g))(e := None)\<rparr>) \<and>
     (av (view (b_clear G g)) = [] \<and> ae (view (b_clear G g)) = Map.empty) \<and>
     (\<forall>v r. view (b_put_vref G v r g) = (view g)\<lparr>avref := (avref (view g))(v := r)\<rparr>) \<and>
     (\<forall>e r. view (b_put_eref G e r g) = (view g)\<lparr>aeref := (aeref (view g))(e := r)\<rparr>))"

definition bgl_sorts :: "('g, 'v, 'e, 'r, 's) bgl \<Rightarrow> ('g \<Rightarrow> ('v, 'e, 'r, 's) agraph) \<Rightarrow> bool" where
  "bgl_sorts G view \<longleftrightarrow> (\<forall>g. (case b_topological_sort G g of None \<Rightarrow> \<not> acyclic (arel (view g))
     | Some xs \<Rightarrow> distinct xs \<and> set xs = set (av (view g)) \<and>
        (\<forall>(u, v)\<in>arel (view g). \<exists>as bs cs. xs = as @ v # bs @ u # cs)))"

end
