(* ===== verification/Dependency.thy ===== *)
theory Dependency
  imports Graph_Util
begin

text \<open>
  The dependency solver (\<open>include/utility/DependencySolver.h\<close>, \<open>DependencySolver.cpp\<close>): named nodes and dependencies in a
  referenced graph, load and unload orders by topological sorting, and the nodes one node requires or is
  required by, found by a depth-first search over colour flags. An edge leads from a node to what it requires.
\<close>

section \<open>State and operations\<close>

record ('g, 'v, 'e) solver =
  dep :: "('g, 'v, 'e, string, int) igraph"
  mGroupFlag :: "'v \<Rightarrow> bool"
  mIndex :: "'v \<Rightarrow> nat"
  increment_number :: int

text \<open>\<open>g0\<close> is the default-constructed graph; the counter is a static variable, shared by all solvers.\<close>

definition DependencySolver_new :: "'g \<Rightarrow> int \<Rightarrow> ('g, 'v, 'e) solver" where
  "DependencySolver_new g0 n =
     \<lparr>dep = \<lparr>graph = g0, mVertexReferenceMap = Map.empty, mEdgeReferenceMap = Map.empty\<rparr>, mGroupFlag = (\<lambda>_. False), mIndex = (\<lambda>_. 0),
      increment_number = n\<rparr>"

text \<open>\<open>try { ... return true; } catch(std::invalid_argument&) { return false; }\<close>; an assertion aborts.\<close>

definition catch_invalid :: "'a result \<times> ('g, 'v, 'e, string, int) igraph \<Rightarrow> ('g, 'v, 'e) solver \<Rightarrow> bool result \<times> ('g, 'v, 'e) solver" where
  "catch_invalid r s = (case r of (Inr _, m) \<Rightarrow> (Inr True, s\<lparr>dep := m\<rparr>)
     | (Inl InvalidArgument, m) \<Rightarrow> (Inr False, s\<lparr>dep := m\<rparr>) | (Inl x, m) \<Rightarrow> (Inl x, s\<lparr>dep := m\<rparr>))"

definition addNode :: "('g, 'v, 'e, string, int) bgl \<Rightarrow> string \<Rightarrow> ('g, 'v, 'e) solver \<Rightarrow> bool result \<times> ('g, 'v, 'e) solver" where
  "addNode G nid s = catch_invalid (add_vertex G nid (dep s)) s"

definition addDependency :: "('g, 'v, 'e, string, int) bgl \<Rightarrow> string \<Rightarrow> string \<Rightarrow> ('g, 'v, 'e) solver \<Rightarrow> bool result \<times> ('g, 'v, 'e) solver" where
  "addDependency G nid require_id s =
     (let s = s\<lparr>increment_number := increment_number s + 1\<rparr> in
      catch_invalid (add_edge G (increment_number s) nid require_id (dep s)) s)"

definition removeNode :: "('g, 'v, 'e, string, int) bgl \<Rightarrow> string \<Rightarrow> ('g, 'v, 'e) solver \<Rightarrow> bool result \<times> ('g, 'v, 'e) solver" where
  "removeNode G nid s =
     catch_invalid (case clear_vertex G nid (dep s) of (Inl x, m) \<Rightarrow> (Inl x, m) | (Inr _, m) \<Rightarrow> remove_vertex G nid m) s"

definition removeDependency :: "('g, 'v, 'e, string, int) bgl \<Rightarrow> string \<Rightarrow> string \<Rightarrow> ('g, 'v, 'e) solver \<Rightarrow> bool result \<times> ('g, 'v, 'e) solver" where
  "removeDependency G nid require_id s = catch_invalid (remove_edge G nid require_id (dep s)) s"

definition isNodeExist :: "string \<Rightarrow> ('g, 'v, 'e) solver \<Rightarrow> bool" where
  "isNodeExist nid s = is_ok (vertex nid (dep s))"

definition isDependencyExist :: "('g, 'v, 'e, string, int) bgl \<Rightarrow> string \<Rightarrow> string \<Rightarrow> ('g, 'v, 'e) solver \<Rightarrow> bool" where
  "isDependencyExist G nid require_id s = is_ok (edge G nid require_id (dep s))"

definition solver_clear :: "('g, 'v, 'e, string, int) bgl \<Rightarrow> ('g, 'v, 'e) solver \<Rightarrow> ('g, 'v, 'e) solver" where
  "solver_clear G s = s\<lparr>dep := ig_clear G (dep s)\<rparr>"

text \<open>\<open>put(mIndex, *vi, cnt++)\<close> over the vertices, and \<open>mGroupFlag[*vi] = false\<close>.\<close>

fun number_vertices :: "nat \<Rightarrow> 'v list \<Rightarrow> ('v \<Rightarrow> nat) \<Rightarrow> 'v \<Rightarrow> nat" where
  "number_vertices cnt [] f = f"
| "number_vertices cnt (v # vs) f = number_vertices (cnt + 1) vs (f(v := cnt))"

definition reset_flags :: "('g, 'v, 'e, string, int) bgl \<Rightarrow> ('g, 'v, 'e) solver \<Rightarrow> ('g, 'v, 'e) solver" where
  "reset_flags G s = s\<lparr>mGroupFlag := foldl (\<lambda>f v. f(v := False)) (mGroupFlag s) (b_vertices G (graph (dep s)))\<rparr>"

definition index_vertices :: "('g, 'v, 'e, string, int) bgl \<Rightarrow> ('g, 'v, 'e) solver \<Rightarrow> ('g, 'v, 'e) solver" where
  "index_vertices G s = s\<lparr>mIndex := number_vertices 0 (b_vertices G (graph (dep s))) (mIndex s)\<rparr>"

text \<open>\<open>topological_sort\<close> with a \<open>front_inserter\<close> into an empty list; \<open>None\<close> is \<open>boost::not_a_dag\<close>.\<close>

definition make_order :: "('g, 'v, 'e, string, int) bgl \<Rightarrow> ('g, 'v, 'e) solver \<Rightarrow> 'v list option" where
  "make_order G s = map_option (foldl (\<lambda>l v. v # l) []) (b_topological_sort G (graph (dep s)))"

definition compileTopologicalOrder :: "('g, 'v, 'e, string, int) bgl \<Rightarrow> string list \<Rightarrow> ('g, 'v, 'e) solver \<Rightarrow> bool \<times> string list \<times> ('g, 'v, 'e) solver" where
  "compileTopologicalOrder G result s =
     (let s = index_vertices G s in
      case make_order G s of None \<Rightarrow> (False, result, s)
      | Some ord \<Rightarrow> (True, foldl (\<lambda>r v. vertex_ref G v (dep s) # r) result ord, s))"

definition compileReversedTopologicalOrder :: "('g, 'v, 'e, string, int) bgl \<Rightarrow> string list \<Rightarrow> ('g, 'v, 'e) solver \<Rightarrow> bool \<times> string list \<times> ('g, 'v, 'e) solver" where
  "compileReversedTopologicalOrder G result s =
     (let s = index_vertices G s in
      case make_order G s of None \<Rightarrow> (False, result, s)
      | Some ord \<Rightarrow> (True, foldl (\<lambda>r v. r @ [vertex_ref G v (dep s)]) result ord, s))"

text \<open>
  The search of \<open>findRequireNode\<close> and \<open>findDependentNode\<close> over the neighbours \<open>ws\<close> of a vertex; \<open>k\<close> bounds the depth of the
  recursion.
\<close>

fun find_nodes :: "nat \<Rightarrow> ('v \<Rightarrow> 'v list) \<Rightarrow> 'v list \<Rightarrow> ('v \<Rightarrow> bool) \<Rightarrow> ('v \<Rightarrow> bool) result" where
  "find_nodes 0 nb ws fl = Inl NoReturn"
| "find_nodes (Suc k) nb [] fl = Inr fl"
| "find_nodes (Suc k) nb (w # ws) fl =
     (if fl w then find_nodes (Suc k) nb ws fl
      else rbind (find_nodes k nb (nb w) (fl(w := True))) (\<lambda>fl. find_nodes (Suc k) nb ws fl))"

definition requires :: "('g, 'v, 'e, string, int) bgl \<Rightarrow> ('g, 'v, 'e) solver \<Rightarrow> 'v \<Rightarrow> 'v list" where
  "requires G s v = map (\<lambda>e. b_target G e (graph (dep s))) (b_out_edges G v (graph (dep s)))"

definition dependents :: "('g, 'v, 'e, string, int) bgl \<Rightarrow> ('g, 'v, 'e) solver \<Rightarrow> 'v \<Rightarrow> 'v list" where
  "dependents G s v = map (\<lambda>e. b_source G e (graph (dep s))) (b_in_edges G v (graph (dep s)))"

definition findRequireNode :: "('g, 'v, 'e, string, int) bgl \<Rightarrow> 'v \<Rightarrow> ('g, 'v, 'e) solver \<Rightarrow> ('g, 'v, 'e) solver result" where
  "findRequireNode G v s =
     rbind (find_nodes (length (b_vertices G (graph (dep s))) + 1) (requires G s) (requires G s v) (mGroupFlag s)) (\<lambda>fl.
       Inr (s\<lparr>mGroupFlag := fl\<rparr>))"

definition findDependentNode :: "('g, 'v, 'e, string, int) bgl \<Rightarrow> 'v \<Rightarrow> ('g, 'v, 'e) solver \<Rightarrow> ('g, 'v, 'e) solver result" where
  "findDependentNode G v s =
     rbind (find_nodes (length (b_vertices G (graph (dep s))) + 1) (dependents G s) (dependents G s v) (mGroupFlag s)) (\<lambda>fl.
       Inr (s\<lparr>mGroupFlag := fl\<rparr>))"

text \<open>The look-up of the node stands outside the \<open>try\<close> block: an unknown node is thrown to the caller.\<close>

definition compileRequireNodes :: "('g, 'v, 'e, string, int) bgl \<Rightarrow> string \<Rightarrow> string list \<Rightarrow> ('g, 'v, 'e) solver \<Rightarrow> (bool \<times> string list \<times> ('g, 'v, 'e) solver) result" where
  "compileRequireNodes G nid result s =
     (let s = reset_flags G s in
      rbind (vertex nid (dep s)) (\<lambda>v. rbind (findRequireNode G v s) (\<lambda>s.
      let s = index_vertices G s in
      Inr (case make_order G s of None \<Rightarrow> (False, result, s)
      | Some ord \<Rightarrow> (True, foldl (\<lambda>r v. if mGroupFlag s v then vertex_ref G v (dep s) # r else r) result ord, s)))))"

definition compileDependentNodes :: "('g, 'v, 'e, string, int) bgl \<Rightarrow> string \<Rightarrow> string list \<Rightarrow> ('g, 'v, 'e) solver \<Rightarrow> (bool \<times> string list \<times> ('g, 'v, 'e) solver) result" where
  "compileDependentNodes G nid result s =
     (let s = reset_flags G s in
      rbind (vertex nid (dep s)) (\<lambda>v. rbind (findDependentNode G v s) (\<lambda>s.
      let s = index_vertices G s in
      Inr (case make_order G s of None \<Rightarrow> (False, result, s)
      | Some ord \<Rightarrow> (True, foldl (\<lambda>r v. if mGroupFlag s v then r @ [vertex_ref G v (dep s)] else r) result ord, s)))))"

section \<open>The search\<close>

text \<open>It ends for every finite graph, and marks exactly what can be reached.\<close>

lemma find_nodes_marks:
  assumes "finite V" "\<And>v. v \<in> V \<Longrightarrow> set (nb v) \<subseteq> V" "set ws \<subseteq> V" "card {v\<in>V. \<not> fl v} < k"
  shows "\<exists>fl'. find_nodes k nb ws fl = Inr fl' \<and> (\<forall>x. fl x \<longrightarrow> fl' x) \<and> (\<forall>w\<in>set ws. fl' w) \<and>
    (\<forall>x. fl' x \<and> \<not> fl x \<longrightarrow> (\<forall>y\<in>set (nb x). fl' y)) \<and>
    (\<forall>x. fl' x \<and> \<not> fl x \<longrightarrow> (\<exists>w\<in>set ws. (w, x) \<in> {(a, b). b \<in> set (nb a)}\<^sup>*))"
  using assms(3,4)
proof (induction k arbitrary: ws fl)
  case (Suc k)
  let ?R = "{(a, b). b \<in> set (nb a)}"
  from Suc.prems show ?case
  proof (induction ws arbitrary: fl)
    case (Cons w ws)
    show ?case
    proof (cases "fl w")
      case True
      have "\<exists>fl'. find_nodes (Suc k) nb ws fl = Inr fl' \<and> (\<forall>x. fl x \<longrightarrow> fl' x) \<and> (\<forall>w\<in>set ws. fl' w) \<and>
        (\<forall>x. fl' x \<and> \<not> fl x \<longrightarrow> (\<forall>y\<in>set (nb x). fl' y)) \<and> (\<forall>x. fl' x \<and> \<not> fl x \<longrightarrow> (\<exists>w\<in>set ws. (w, x) \<in> ?R\<^sup>*))"
        by (rule Cons.IH) (use Cons.prems in auto)
      with True show ?thesis by auto
    next
      case False
      let ?fl = "fl(w := True)"
      have w: "w \<in> V" using Cons.prems(1) by simp
      have "{v\<in>V. \<not> ?fl v} = {v\<in>V. \<not> fl v} - {w}" by auto
      moreover have "card ({v\<in>V. \<not> fl v} - {w}) < card {v\<in>V. \<not> fl v}"
        by (rule card_Diff1_less) (use w False assms(1) in auto)
      ultimately have "card {v\<in>V. \<not> ?fl v} < k" using Cons.prems(2) by simp
      then obtain f1 where f1: "find_nodes k nb (nb w) ?fl = Inr f1" "\<forall>x. ?fl x \<longrightarrow> f1 x" "\<forall>y\<in>set (nb w). f1 y"
        "\<forall>x. f1 x \<and> \<not> ?fl x \<longrightarrow> (\<forall>y\<in>set (nb x). f1 y)" "\<forall>x. f1 x \<and> \<not> ?fl x \<longrightarrow> (\<exists>y\<in>set (nb w). (y, x) \<in> ?R\<^sup>*)"
        using Suc.IH [of "nb w" ?fl] assms(2) [OF w] by blast
      have "{v\<in>V. \<not> f1 v} \<subseteq> {v\<in>V. \<not> fl v}" using f1(2) by auto
      then have "card {v\<in>V. \<not> f1 v} < Suc k" using Cons.prems(2) assms(1) card_mono [of "{v\<in>V. \<not> fl v}" "{v\<in>V. \<not> f1 v}"] by simp
      then obtain f2 where f2: "find_nodes (Suc k) nb ws f1 = Inr f2" "\<forall>x. f1 x \<longrightarrow> f2 x" "\<forall>w\<in>set ws. f2 w"
        "\<forall>x. f2 x \<and> \<not> f1 x \<longrightarrow> (\<forall>y\<in>set (nb x). f2 y)" "\<forall>x. f2 x \<and> \<not> f1 x \<longrightarrow> (\<exists>w\<in>set ws. (w, x) \<in> ?R\<^sup>*)"
        using Cons.IH [of f1] Cons.prems(1) by auto
      have "find_nodes (Suc k) nb (w # ws) fl = Inr f2" using False f1(1) f2(1) by simp
      moreover have "\<forall>x. fl x \<longrightarrow> f2 x" "\<forall>x\<in>set (w # ws). f2 x" using f1(2) f2(2,3) by auto
      moreover have "\<forall>x. f2 x \<and> \<not> fl x \<longrightarrow> (\<forall>y\<in>set (nb x). f2 y)" using f1(3,4) f2(2,4) by (metis fun_upd_apply)
      moreover have "\<exists>a\<in>set (w # ws). (a, x) \<in> ?R\<^sup>*" if x: "f2 x" "\<not> fl x" for x
      proof (cases "f1 x")
        case False
        with x f2(5) show ?thesis by auto
      next
        case True
        then have "x = w \<or> (\<exists>y\<in>set (nb w). (y, x) \<in> ?R\<^sup>*)" using f1(5) x(2) by (auto split: if_splits)
        then have "(w, x) \<in> ?R\<^sup>*" by (auto intro: converse_rtrancl_into_rtrancl)
        then show ?thesis by auto
      qed
      ultimately show ?thesis by blast
    qed
  qed simp
qed simp

text \<open>From cleared flags the search marks what a vertex leads to in one or more steps.\<close>

lemma find_nodes_reach:
  assumes "finite V" "\<And>v. v \<in> V \<Longrightarrow> set (nb v) \<subseteq> V" "v \<in> V" "\<forall>x\<in>V. \<not> fl x" "card V < k"
  shows "\<exists>fl'. find_nodes k nb (nb v) fl = Inr fl' \<and> (\<forall>x\<in>V. fl' x \<longleftrightarrow> (v, x) \<in> {(a, b). b \<in> set (nb a)}\<^sup>+)"
proof -
  let ?R = "{(a, b). b \<in> set (nb a)}"
  have inV: "y \<in> V" if "(a, y) \<in> ?R\<^sup>*" "a \<in> V" for a y
    using that by (induction rule: rtrancl_induct) (use assms(2) in auto)
  have "{x\<in>V. \<not> fl x} = V" using assms(4) by auto
  then obtain fl' where fl': "find_nodes k nb (nb v) fl = Inr fl'" "\<forall>w\<in>set (nb v). fl' w"
    "\<forall>x. fl' x \<and> \<not> fl x \<longrightarrow> (\<forall>y\<in>set (nb x). fl' y)" "\<forall>x. fl' x \<and> \<not> fl x \<longrightarrow> (\<exists>w\<in>set (nb v). (w, x) \<in> ?R\<^sup>*)"
    using find_nodes_marks [of V nb "nb v" fl k] assms(1,2,3,5) by auto
  have "fl' x" if "(v, x) \<in> ?R\<^sup>+" for x
    using that
  proof (induction rule: trancl_induct)
    case (base y)
    then show ?case using fl'(2) by simp
  next
    case (step y z)
    have "y \<in> V" using inV [of v y] step.hyps(1) assms(3) trancl_into_rtrancl by fast
    with step fl'(3) assms(4) show ?case by auto
  qed
  moreover have "(v, x) \<in> ?R\<^sup>+" if x: "x \<in> V" "fl' x" for x
  proof -
    obtain w where w: "w \<in> set (nb v)" "(w, x) \<in> ?R\<^sup>*" using x fl'(4) assms(4) by blast
    then have "(v, w) \<in> ?R" by simp
    with w(2) show ?thesis by (rule rtrancl_into_trancl2 [rotated])
  qed
  ultimately show ?thesis using fl'(1) by blast
qed

end
