(* ===== verification/Dependency_Spec.thy ===== *)
theory Dependency_Spec
  imports Dependency
begin

text \<open>
  The contract of the dependency solver: a set of node names and a relation between them. Under the laws the graph
  library documents, every operation acts on them as its name says, the maps stay in step with the graph
  (\<open>ig_ok\<close>), the orders respect the dependencies, and the searches collect the transitive requirements and
  dependents. A list-based graph shows that the laws can hold.
\<close>

section \<open>Consequences of the laws\<close>

lemma query_laws:
  assumes "bgl_queries G view"
  shows "agraph_ok (view g)" "b_vertices G g = av (view g)"
    "set (b_edges G g) = dom (ae (view g))"
    "set (b_out_edges G u g) = {e. \<exists>v. ae (view g) e = Some (u, v)}"
    "set (b_in_edges G v g) = {e. \<exists>u. ae (view g) e = Some (u, v)}"
    "ae (view g) e = Some (u, v) \<Longrightarrow> b_source G e g = u \<and> b_target G e g = v"
    "b_get_vref G v g = avref (view g) v" "b_get_eref G e g = aeref (view g) e"
    "distinct (b_out_edges G u g)" "distinct (b_in_edges G v g)"
  using assms unfolding bgl_queries_def by blast+

lemma edge_law:
  assumes "bgl_queries G view"
  obtains e where "b_edge G u v g = (e, True)" "ae (view g) e = Some (u, v)" | e where "b_edge G u v g = (e, False)" "(u, v) \<notin> arel (view g)"
proof -
  obtain e found where e: "b_edge G u v g = (e, found)" by (cases "b_edge G u v g")
  have "case b_edge G u v g of (e, found) \<Rightarrow> (found \<longleftrightarrow> (u, v) \<in> arel (view g)) \<and> (found \<longrightarrow> ae (view g) e = Some (u, v))"
    using assms unfolding bgl_queries_def by simp
  with e that show thesis by (cases found) auto
qed

lemma add_vertex_graph:
  assumes "bgl_updates G view"
  obtains v g' where "b_add_vertex G g = (v, g')" "v \<notin> set (av (view g))" "set (av (view g')) = insert v (set (av (view g)))"
    "ae (view g') = ae (view g)" "\<forall>u\<in>set (av (view g)). avref (view g') u = avref (view g) u" "aeref (view g') = aeref (view g)"
proof -
  obtain v g' where e: "b_add_vertex G g = (v, g')" by (cases "b_add_vertex G g")
  have "case b_add_vertex G g of (v, g') \<Rightarrow> v \<notin> set (av (view g)) \<and> set (av (view g')) = insert v (set (av (view g))) \<and>
        ae (view g') = ae (view g) \<and> (\<forall>u\<in>set (av (view g)). avref (view g') u = avref (view g) u) \<and> aeref (view g') = aeref (view g)"
    using assms unfolding bgl_updates_def by simp
  with e that show thesis by auto
qed

lemma remove_vertex_graph:
  assumes "bgl_updates G view" "v \<in> set (av (view g))" "\<forall>u. (u, v) \<notin> arel (view g) \<and> (v, u) \<notin> arel (view g)"
  shows "set (av (view (b_remove_vertex G v g))) = set (av (view g)) - {v}" "ae (view (b_remove_vertex G v g)) = ae (view g)"
    "\<forall>u\<in>set (av (view g)) - {v}. avref (view (b_remove_vertex G v g)) u = avref (view g) u"
    "aeref (view (b_remove_vertex G v g)) = aeref (view g)"
  using assms unfolding bgl_updates_def by blast+

lemma add_edge_graph:
  assumes "bgl_updates G view" "u \<in> set (av (view g))" "v \<in> set (av (view g))"
  obtains e g' where "b_add_edge G u v g = ((e, False), g')" "(u, v) \<in> arel (view g)" "view g' = view g"
  | e g' where "b_add_edge G u v g = ((e, True), g')" "(u, v) \<notin> arel (view g)" "ae (view g) e = None"
     "set (av (view g')) = set (av (view g))" "ae (view g') = (ae (view g))(e \<mapsto> (u, v))"
     "\<forall>w\<in>set (av (view g)). avref (view g') w = avref (view g) w" "\<forall>e'\<in>dom (ae (view g)). aeref (view g') e' = aeref (view g) e'"
proof -
  obtain e b g' where e: "b_add_edge G u v g = ((e, b), g')" by (metis surj_pair)
  have "case b_add_edge G u v g of ((e, added), g') \<Rightarrow>
        (added \<longleftrightarrow> (u, v) \<notin> arel (view g)) \<and> (\<not> added \<longrightarrow> view g' = view g) \<and>
        (added \<longrightarrow> ae (view g) e = None \<and> set (av (view g')) = set (av (view g)) \<and> ae (view g') = (ae (view g))(e \<mapsto> (u, v)) \<and>
           (\<forall>w\<in>set (av (view g)). avref (view g') w = avref (view g) w) \<and> (\<forall>e'\<in>dom (ae (view g)). aeref (view g') e' = aeref (view g) e'))"
    using assms unfolding bgl_updates_def by simp
  with e that show thesis by (cases b) auto
qed

lemma other_updates:
  assumes "bgl_updates G view"
  shows "e \<in> dom (ae (view g)) \<Longrightarrow> view (b_remove_edge G e g) = (view g)\<lparr>ae := (ae (view g))(e := None)\<rparr>"
    "ae (view g) e = Some (u, v) \<Longrightarrow> view (b_remove_edges G u v g) = (view g)\<lparr>ae := (ae (view g))(e := None)\<rparr>"
    "av (view (b_clear G g)) = []" "ae (view (b_clear G g)) = Map.empty"
    "view (b_put_vref G v r g) = (view g)\<lparr>avref := (avref (view g))(v := r)\<rparr>"
    "view (b_put_eref G e x g) = (view g)\<lparr>aeref := (aeref (view g))(e := x)\<rparr>"
  using assms unfolding bgl_updates_def by blast+

section \<open>Maps in step with the graph\<close>

definition ig_ok :: "('g \<Rightarrow> ('v, 'e, 'r, 's) agraph) \<Rightarrow> ('g, 'v, 'e, 'r, 's) igraph \<Rightarrow> bool" where
  "ig_ok view m \<longleftrightarrow>
     (\<forall>r v. mVertexReferenceMap m r = Some v \<longleftrightarrow> v \<in> set (av (view (graph m))) \<and> avref (view (graph m)) v = r) \<and>
     (\<forall>r e. mEdgeReferenceMap m r = Some e \<longleftrightarrow> e \<in> dom (ae (view (graph m))) \<and> aeref (view (graph m)) e = r)"

definition nodes :: "('g, 'v, 'e, 'r, 's) igraph \<Rightarrow> 'r set" where
  "nodes m = dom (mVertexReferenceMap m)"

definition deps :: "('g \<Rightarrow> ('v, 'e, 'r, 's) agraph) \<Rightarrow> ('g, 'v, 'e, 'r, 's) igraph \<Rightarrow> ('r \<times> 'r) set" where
  "deps view m = map_prod (avref (view (graph m))) (avref (view (graph m))) ` arel (view (graph m))"

lemma ig_okD:
  assumes "ig_ok view m"
  shows "mVertexReferenceMap m r = Some v \<longleftrightarrow> v \<in> set (av (view (graph m))) \<and> avref (view (graph m)) v = r"
    "mEdgeReferenceMap m x = Some e \<longleftrightarrow> e \<in> dom (ae (view (graph m))) \<and> aeref (view (graph m)) e = x"
  using assms by (auto simp: ig_ok_def)

lemma arel_ends: "agraph_ok A \<Longrightarrow> (u, v) \<in> arel A \<Longrightarrow> u \<in> set (av A) \<and> v \<in> set (av A)"
  by (auto simp: agraph_ok_def arel_def ran_def)

lemma avref_inj: "ig_ok view m \<Longrightarrow> inj_on (avref (view (graph m))) (set (av (view (graph m))))"
  by (intro inj_onI) (metis ig_okD(1) option.inject)

lemma nodes_avref: "ig_ok view m \<Longrightarrow> nodes m = avref (view (graph m)) ` set (av (view (graph m)))"
  by (auto simp: nodes_def ig_okD dom_def)

lemma deps_iff:
  assumes "agraph_ok (view (graph m))" "ig_ok view m" "mVertexReferenceMap m a = Some u" "mVertexReferenceMap m b = Some v"
  shows "(a, b) \<in> deps view m \<longleftrightarrow> (u, v) \<in> arel (view (graph m))"
proof -
  let ?A = "view (graph m)"
  have uv: "u \<in> set (av ?A)" "avref ?A u = a" "v \<in> set (av ?A)" "avref ?A v = b" using assms(2-4) ig_okD(1) by metis+
  have "(u', v') = (u, v)" if "(u', v') \<in> arel ?A" "avref ?A u' = a" "avref ?A v' = b" for u' v'
    using that uv arel_ends [OF assms(1) that(1)] avref_inj [OF assms(2)] by (auto dest: inj_onD)
  then show ?thesis using uv by (force simp: deps_def)
qed

text \<open>Two graphs with the same vertices, ends and references have the same dependencies.\<close>

lemma deps_cong:
  assumes "agraph_ok (view (graph m))" "arel (view (graph m')) = arel (view (graph m))"
    "\<forall>u\<in>set (av (view (graph m))). avref (view (graph m')) u = avref (view (graph m)) u"
  shows "deps view m' = deps view m"
  unfolding deps_def assms(2) using arel_ends [OF assms(1)] assms(3) by (intro image_cong) (auto simp: map_prod_def)

lemma add_vertex_law:
  assumes Q: "bgl_queries G view" and U: "bgl_updates G view" and ok: "ig_ok view m"
  obtains m' where "add_vertex G r m = (Inl InvalidArgument, m')" "r \<in> nodes m" "nodes m' = nodes m" "deps view m' = deps view m"
    "ig_ok view m'" "mEdgeReferenceMap m' = mEdgeReferenceMap m"
  | u m' where "add_vertex G r m = (Inr u, m')" "r \<notin> nodes m" "nodes m' = insert r (nodes m)" "deps view m' = deps view m" "ig_ok view m'"
    "mEdgeReferenceMap m' = mEdgeReferenceMap m"
proof -
  let ?g = "graph m"
  let ?A = "view ?g"
  have gok: "agraph_ok ?A" by (rule query_laws(1) [OF Q])
  obtain v g' where v: "b_add_vertex G ?g = (v, g')" "v \<notin> set (av ?A)" "set (av (view g')) = insert v (set (av ?A))"
    "ae (view g') = ae ?A" "\<forall>u\<in>set (av ?A). avref (view g') u = avref ?A u" "aeref (view g') = aeref ?A"
    by (rule add_vertex_graph [OF U])
  have ar: "arel (view g') = arel ?A" using v(4) by (simp add: arel_def)
  show thesis
  proof (cases "r \<in> nodes m")
    case True
    have iso: "\<forall>u. (u, v) \<notin> arel (view g') \<and> (v, u) \<notin> arel (view g')" using arel_ends [OF gok] v(2) ar by auto
    let ?g2 = "b_remove_vertex G v g'"
    have vin: "v \<in> set (av (view g'))" using v(3) by simp
    note rm = remove_vertex_graph [OF U vin iso]
    have same: "set (av (view ?g2)) = set (av ?A)" "ae (view ?g2) = ae ?A" "\<forall>u\<in>set (av ?A). avref (view ?g2) u = avref ?A u" "aeref (view ?g2) = aeref ?A"
      using rm v by auto
    have e: "add_vertex G r m = (Inl InvalidArgument, m\<lparr>graph := ?g2\<rparr>)"
      using True v(1) by (auto simp: add_vertex_def addVertexReference_def nodes_def Let_def)
    have "ig_ok view (m\<lparr>graph := ?g2\<rparr>)" using ok same by (auto simp: ig_ok_def)
    moreover have "deps view (m\<lparr>graph := ?g2\<rparr>) = deps view m" by (rule deps_cong) (use gok same in \<open>auto simp: arel_def\<close>)
    ultimately show thesis using that(1) [OF e True] by (simp add: nodes_def)
  next
    case False
    let ?g2 = "b_put_vref G v r g'"
    let ?m = "m\<lparr>graph := ?g2, mVertexReferenceMap := (mVertexReferenceMap m)(r \<mapsto> v)\<rparr>"
    have A2: "view ?g2 = (view g')\<lparr>avref := (avref (view g'))(v := r)\<rparr>" by (rule other_updates(5) [OF U])
    have e: "add_vertex G r m = (Inr v, ?m)"
      using False v(1) by (auto simp: add_vertex_def addVertexReference_def nodes_def Let_def)
    have new: "avref ?A u \<noteq> r" if "u \<in> set (av ?A)" for u using False that nodes_avref [OF ok] by auto
    have "ig_ok view ?m" using ok v new unfolding ig_ok_def by (auto simp: A2)
    moreover have "deps view ?m = deps view m"
      by (rule deps_cong) (use gok v ar A2 in \<open>auto simp: arel_def\<close>)
    moreover have "nodes ?m = insert r (nodes m)" by (auto simp: nodes_def)
    ultimately show thesis using that(2) [OF e False] by simp
  qed
qed

lemma add_edge_law:
  assumes Q: "bgl_queries G view" and U: "bgl_updates G view" and ok: "ig_ok view m" and new: "mEdgeReferenceMap m x = None"
  obtains m' where "add_edge G x a b m = (Inl InvalidArgument, m')" "a \<notin> nodes m \<or> b \<notin> nodes m \<or> (a, b) \<in> deps view m"
    "nodes m' = nodes m" "deps view m' = deps view m" "ig_ok view m'" "mEdgeReferenceMap m' = mEdgeReferenceMap m"
  | e m' where "add_edge G x a b m = (Inr e, m')" "a \<in> nodes m" "b \<in> nodes m" "(a, b) \<notin> deps view m"
    "nodes m' = nodes m" "deps view m' = insert (a, b) (deps view m)" "ig_ok view m'" "dom (mEdgeReferenceMap m') = insert x (dom (mEdgeReferenceMap m))"
proof (cases "a \<in> nodes m \<and> b \<in> nodes m")
  case False
  then have "add_edge G x a b m = (Inl InvalidArgument, m)"
    by (auto simp: add_edge_def findVertexReference_def nodes_def domIff split: option.splits)
  with False that(1) ok show thesis by blast
next
  case True
  let ?g = "graph m"
  let ?A = "view ?g"
  have gok: "agraph_ok ?A" by (rule query_laws(1) [OF Q])
  obtain u v where uv: "mVertexReferenceMap m a = Some u" "mVertexReferenceMap m b = Some v" using True by (auto simp: nodes_def)
  then have uv': "u \<in> set (av ?A)" "v \<in> set (av ?A)" "avref ?A u = a" "avref ?A v = b" using ig_okD(1) [OF ok] by auto
  have ab: "(a, b) \<in> deps view m \<longleftrightarrow> (u, v) \<in> arel ?A" by (rule deps_iff [OF gok ok uv])
  have ae: "add_edge G x a b m = add_edge_d G x u v m" using uv by (simp add: add_edge_def findVertexReference_def)
  from U uv'(1,2) show thesis
  proof (cases rule: add_edge_graph)
    case (1 e g')
    have e: "add_edge G x a b m = (Inl InvalidArgument, m\<lparr>graph := g'\<rparr>)" using 1(1) ae by (simp add: add_edge_d_def Let_def)
    have "ig_ok view (m\<lparr>graph := g'\<rparr>)" "deps view (m\<lparr>graph := g'\<rparr>) = deps view m" using ok 1(3) by (simp_all add: ig_ok_def deps_def)
    then show thesis using that(1) [OF e] ab 1(2) by (simp add: nodes_def)
  next
    case (2 e g')
    let ?g2 = "b_put_eref G e x g'"
    let ?m = "m\<lparr>graph := ?g2, mEdgeReferenceMap := (mEdgeReferenceMap m)(x \<mapsto> e)\<rparr>"
    have A2: "view ?g2 = (view g')\<lparr>aeref := (aeref (view g'))(e := x)\<rparr>" by (rule other_updates(6) [OF U])
    have e: "add_edge G x a b m = (Inr e, ?m)" using 2(1) ae new by (simp add: add_edge_d_def addEdgeReference_def Let_def)
    have nx: "aeref ?A e' \<noteq> x" if "e' \<in> dom (ae ?A)" for e' using ig_okD(2) [OF ok, of x e'] that new by auto
    have "ig_ok view ?m" unfolding ig_ok_def
    proof (intro conjI allI)
      show "mVertexReferenceMap ?m r = Some w \<longleftrightarrow> w \<in> set (av (view (graph ?m))) \<and> avref (view (graph ?m)) w = r" for r w
        using ig_okD(1) [OF ok, of r w] 2 by (auto simp: A2)
      show "mEdgeReferenceMap ?m r = Some e' \<longleftrightarrow> e' \<in> dom (ae (view (graph ?m))) \<and> aeref (view (graph ?m)) e' = r" for r e'
      proof (cases "e' \<in> dom (ae ?A)")
        case True
        then have "e' \<noteq> e" "aeref (view g') e' = aeref ?A e'" using 2(3,7) by auto
        with True show ?thesis using ig_okD(2) [OF ok, of r e'] nx [OF True] 2(5) by (auto simp: A2)
      next
        case False
        with 2(3,5) show ?thesis using ig_okD(2) [OF ok, of r e'] by (auto simp: A2)
      qed
    qed
    moreover have "arel (view ?g2) = insert (u, v) (arel ?A)" using 2(3,5) by (simp add: arel_def A2)
    moreover have "map_prod (avref (view ?g2)) (avref (view ?g2)) p = map_prod (avref ?A) (avref ?A) p" if "p \<in> insert (u, v) (arel ?A)" for p
      using that arel_ends [OF gok] uv'(1,2) 2(6) by (cases p) (auto simp: A2)
    then have "map_prod (avref (view ?g2)) (avref (view ?g2)) ` insert (u, v) (arel ?A) = map_prod (avref ?A) (avref ?A) ` insert (u, v) (arel ?A)"
      by (rule image_cong [OF refl])
    ultimately have "ig_ok view ?m" "deps view ?m = insert (a, b) (deps view m)" using uv' by (simp_all add: deps_def)
    then show thesis using that(2) [OF e] True ab 2(2) by (auto simp: nodes_def)
  qed
qed

text \<open>Removing an edge through its descriptor: the maps say where it is.\<close>

definition without_edge :: "'e \<Rightarrow> ('g \<Rightarrow> ('v, 'e, 'r, 's) agraph) \<Rightarrow> ('g, 'v, 'e, 'r, 's) igraph \<Rightarrow> ('g, 'v, 'e, 'r, 's) igraph \<Rightarrow> bool" where
  "without_edge e view m m' \<longleftrightarrow> ig_ok view m' \<and> mVertexReferenceMap m' = mVertexReferenceMap m \<and>
     view (graph m') = (view (graph m))\<lparr>ae := (ae (view (graph m)))(e := None)\<rparr> \<and> dom (mEdgeReferenceMap m') \<subseteq> dom (mEdgeReferenceMap m)"

lemma drop_edge_ok:
  assumes "ig_ok view m" "e \<in> dom (ae (view (graph m)))" "view g' = (view (graph m))\<lparr>ae := (ae (view (graph m)))(e := None)\<rparr>"
  shows "without_edge e view m
    (m\<lparr>mEdgeReferenceMap := (mEdgeReferenceMap m)(aeref (view (graph m)) e := None), graph := g'\<rparr>)" (is "without_edge e view m ?m")
proof -
  have "ig_ok view ?m" unfolding ig_ok_def
  proof (intro conjI allI)
    show "mVertexReferenceMap ?m r = Some w \<longleftrightarrow> w \<in> set (av (view (graph ?m))) \<and> avref (view (graph ?m)) w = r" for r w
      using ig_okD(1) [OF assms(1), of r w] assms(3) by simp
    show "mEdgeReferenceMap ?m r = Some e' \<longleftrightarrow> e' \<in> dom (ae (view (graph ?m))) \<and> aeref (view (graph ?m)) e' = r" for r e'
    proof (cases "e' = e")
      case True
      then show ?thesis using ig_okD(2) [OF assms(1), of r e] assms(3) by simp
    next
      case False
      moreover have "mEdgeReferenceMap m (aeref (view (graph m)) e) \<noteq> Some e'"
        using ig_okD(2) [OF assms(1), of "aeref (view (graph m)) e" e] assms(2) False by simp
      ultimately show ?thesis using ig_okD(2) [OF assms(1), of r e'] assms(3) by auto
    qed
  qed
  with assms(3) show ?thesis by (auto simp: without_edge_def)
qed

lemma remove_edge_d_law:
  assumes Q: "bgl_queries G view" and U: "bgl_updates G view" and ok: "ig_ok view m" and e: "e \<in> dom (ae (view (graph m)))"
  shows "\<exists>m'. remove_edge_d G e m = (Inr (), m') \<and> without_edge e view m m'"
proof -
  let ?r = "aeref (view (graph m)) e"
  have "mEdgeReferenceMap m ?r = Some e" using ig_okD(2) [OF ok, of ?r e] e by simp
  then have "remove_edge_d G e m = (Inr (), m\<lparr>mEdgeReferenceMap := (mEdgeReferenceMap m)(?r := None), graph := b_remove_edge G e (graph m)\<rparr>)"
    by (simp add: remove_edge_d_def removeEdgeReference_def query_laws(8) [OF Q])
  moreover have "view (b_remove_edge G e (graph m)) = (view (graph m))\<lparr>ae := (ae (view (graph m)))(e := None)\<rparr>"
    by (rule other_updates(1) [OF U e])
  ultimately show ?thesis using drop_edge_ok [OF ok e, of "b_remove_edge G e (graph m)"] by auto
qed

lemma remove_edges_d_law:
  assumes Q: "bgl_queries G view" and U: "bgl_updates G view"
  shows "ig_ok view m \<Longrightarrow> set es \<subseteq> dom (ae (view (graph m))) \<Longrightarrow> distinct es \<Longrightarrow>
    \<exists>m'. remove_edges_d G es m = (Inr (), m') \<and> ig_ok view m' \<and> mVertexReferenceMap m' = mVertexReferenceMap m \<and>
      view (graph m') = (view (graph m))\<lparr>ae := ae (view (graph m)) |` (- set es)\<rparr> \<and> dom (mEdgeReferenceMap m') \<subseteq> dom (mEdgeReferenceMap m)"
proof (induction es arbitrary: m)
  case Nil
  then show ?case by simp
next
  case (Cons e es)
  obtain m1 where m1: "remove_edge_d G e m = (Inr (), m1)" "without_edge e view m m1" using remove_edge_d_law [OF Q U Cons.prems(1), of e] Cons.prems(2) by auto
  have sub: "set es \<subseteq> dom (ae (view (graph m1)))" using m1(2) Cons.prems(2,3) by (auto simp: without_edge_def)
  obtain m2 where m2: "remove_edges_d G es m1 = (Inr (), m2)" "ig_ok view m2" "mVertexReferenceMap m2 = mVertexReferenceMap m1"
    "view (graph m2) = (view (graph m1))\<lparr>ae := ae (view (graph m1)) |` (- set es)\<rparr>" "dom (mEdgeReferenceMap m2) \<subseteq> dom (mEdgeReferenceMap m1)"
    using Cons.IH [OF _ sub] m1(2) Cons.prems(3) unfolding without_edge_def by (metis distinct.simps(2))
  have "(ae (view (graph m)))(e := None) |` (- set es) = ae (view (graph m)) |` (- set (e # es))"
    by (auto simp: restrict_map_def fun_eq_iff)
  with m1 m2 show ?case by (auto simp: without_edge_def)
qed

lemma clear_vertex_law:
  assumes Q: "bgl_queries G view" and U: "bgl_updates G view" and ok: "ig_ok view m"
  shows "\<exists>m'. clear_vertex_d G u m = (Inr (), m') \<and> ig_ok view m' \<and> mVertexReferenceMap m' = mVertexReferenceMap m \<and>
    av (view (graph m')) = av (view (graph m)) \<and> avref (view (graph m')) = avref (view (graph m)) \<and>
    arel (view (graph m')) = {(a, b)\<in>arel (view (graph m)). a \<noteq> u \<and> b \<noteq> u} \<and> dom (mEdgeReferenceMap m') \<subseteq> dom (mEdgeReferenceMap m)"
proof -
  let ?A = "view (graph m)"
  let ?es = "b_out_edges G u (graph m)"
  have out: "set ?es = {e. \<exists>v. ae ?A e = Some (u, v)}" "distinct ?es" by (rule query_laws(4,9) [OF Q])+
  then have "set ?es \<subseteq> dom (ae ?A)" by auto
  from remove_edges_d_law [OF Q U ok this out(2)] obtain m1 where m1: "remove_edges_d G ?es m = (Inr (), m1)" "ig_ok view m1"
    "mVertexReferenceMap m1 = mVertexReferenceMap m" "view (graph m1) = ?A\<lparr>ae := ae ?A |` (- set ?es)\<rparr>"
    "dom (mEdgeReferenceMap m1) \<subseteq> dom (mEdgeReferenceMap m)" by blast
  let ?fs = "b_in_edges G u (graph m1)"
  have inn: "set ?fs = {e. \<exists>v. ae (view (graph m1)) e = Some (v, u)}" "distinct ?fs" by (rule query_laws(5,10) [OF Q])+
  then have "set ?fs \<subseteq> dom (ae (view (graph m1)))" by auto
  from remove_edges_d_law [OF Q U m1(2) this inn(2)] obtain m2 where m2: "remove_edges_d G ?fs m1 = (Inr (), m2)" "ig_ok view m2"
    "mVertexReferenceMap m2 = mVertexReferenceMap m1" "view (graph m2) = (view (graph m1))\<lparr>ae := ae (view (graph m1)) |` (- set ?fs)\<rparr>"
    "dom (mEdgeReferenceMap m2) \<subseteq> dom (mEdgeReferenceMap m1)" by blast
  have c: "ae (view (graph m2)) e = Some (a, b) \<longleftrightarrow> ae ?A e = Some (a, b) \<and> a \<noteq> u \<and> b \<noteq> u" for e a b
    using out(1) inn(1) by (auto simp: m2(4) m1(4) restrict_map_def split: if_splits)
  have "arel (view (graph m2)) = {(a, b)\<in>arel ?A. a \<noteq> u \<and> b \<noteq> u}" unfolding arel_def ran_def using c by auto
  then show ?thesis using m1 m2 by (auto simp: clear_vertex_d_def clear_out_edges_d_def clear_in_edges_d_def)
qed

lemma remove_node_law:
  assumes Q: "bgl_queries G view" and U: "bgl_updates G view" and ok: "ig_ok view m" and r: "r \<in> nodes m"
  shows "\<exists>m1 m'. clear_vertex G r m = (Inr (), m1) \<and> remove_vertex G r m1 = (Inr (), m') \<and> ig_ok view m' \<and> nodes m' = nodes m - {r} \<and>
    deps view m' = {(a, b)\<in>deps view m. a \<noteq> r \<and> b \<noteq> r} \<and> dom (mEdgeReferenceMap m') \<subseteq> dom (mEdgeReferenceMap m)"
proof -
  let ?A = "view (graph m)"
  have gok: "agraph_ok ?A" by (rule query_laws(1) [OF Q])
  obtain u where u: "mVertexReferenceMap m r = Some u" using r by (auto simp: nodes_def)
  then have u': "u \<in> set (av ?A)" "avref ?A u = r" using ig_okD(1) [OF ok] by auto
  obtain m1 where m1: "clear_vertex_d G u m = (Inr (), m1)" "ig_ok view m1" "mVertexReferenceMap m1 = mVertexReferenceMap m"
    "av (view (graph m1)) = av ?A" "avref (view (graph m1)) = avref ?A"
    "arel (view (graph m1)) = {(a, b)\<in>arel ?A. a \<noteq> u \<and> b \<noteq> u}" "dom (mEdgeReferenceMap m1) \<subseteq> dom (mEdgeReferenceMap m)"
    using clear_vertex_law [OF Q U ok] by blast
  let ?g = "b_remove_vertex G u (graph m1)"
  let ?m = "m1\<lparr>mVertexReferenceMap := (mVertexReferenceMap m1)(r := None), graph := ?g\<rparr>"
  have iso: "\<forall>w. (w, u) \<notin> arel (view (graph m1)) \<and> (u, w) \<notin> arel (view (graph m1))" using m1(6) by simp
  have uin: "u \<in> set (av (view (graph m1)))" using m1(4) u' by simp
  note rm = remove_vertex_graph [OF U uin iso]
  have inj: "avref ?A w = r \<longleftrightarrow> w = u" if "w \<in> set (av ?A)" for w using that u' avref_inj [OF ok] by (auto dest: inj_onD)
  have "ig_ok view ?m" unfolding ig_ok_def
  proof (intro conjI allI)
    show "mVertexReferenceMap ?m x = Some w \<longleftrightarrow> w \<in> set (av (view (graph ?m))) \<and> avref (view (graph ?m)) w = x" for x w
      using ig_okD(1) [OF m1(2), of x w] rm inj [of w] m1(4,5) by auto
    show "mEdgeReferenceMap ?m x = Some e \<longleftrightarrow> e \<in> dom (ae (view (graph ?m))) \<and> aeref (view (graph ?m)) e = x" for x e
      using ig_okD(2) [OF m1(2), of x e] rm by simp
  qed
  moreover have "deps view ?m = {(a, b)\<in>deps view m. a \<noteq> r \<and> b \<noteq> r}"
  proof -
    let ?f = "map_prod (avref ?A) (avref ?A)"
    have ar: "arel (view ?g) = {(a, b)\<in>arel ?A. a \<noteq> u \<and> b \<noteq> u}" using rm(2) m1(6) by (simp add: arel_def)
    have "map_prod (avref (view ?g)) (avref (view ?g)) p = ?f p" if "p \<in> {(a, b)\<in>arel ?A. a \<noteq> u \<and> b \<noteq> u}" for p
      using that arel_ends [OF gok] rm(3) m1(4,5) by (cases p) auto
    then have "deps view ?m = ?f ` {(a, b)\<in>arel ?A. a \<noteq> u \<and> b \<noteq> u}" unfolding deps_def using ar by (auto intro!: image_cong)
    also have "\<dots> = {(a, b)\<in>?f ` arel ?A. a \<noteq> r \<and> b \<noteq> r}" using arel_ends [OF gok] inj by fastforce
    finally show ?thesis by (simp add: deps_def)
  qed
  moreover have "clear_vertex G r m = (Inr (), m1)" using u m1(1) by (simp add: clear_vertex_def vertex_def findVertexReference_def)
  moreover have "remove_vertex G r m1 = (Inr (), ?m)" using u m1(3) by (simp add: remove_vertex_def removeVertexReference_def)
  ultimately show ?thesis using m1(3,7) by (auto simp: nodes_def)
qed

lemma remove_edge_law:
  assumes Q: "bgl_queries G view" and U: "bgl_updates G view" and ok: "ig_ok view m"
  obtains m' where "remove_edge G a b m = (Inr (), m')" "(a, b) \<in> deps view m" "ig_ok view m'" "nodes m' = nodes m" "deps view m' = deps view m - {(a, b)}"
    "dom (mEdgeReferenceMap m') \<subseteq> dom (mEdgeReferenceMap m)"
  | "remove_edge G a b m = (Inl InvalidArgument, m)" "(a, b) \<notin> deps view m"
proof (cases "a \<in> nodes m \<and> b \<in> nodes m")
  case False
  have gok: "agraph_ok (view (graph m))" by (rule query_laws(1) [OF Q])
  from False have "remove_edge G a b m = (Inl InvalidArgument, m)"
    by (auto simp: remove_edge_def findVertexReference_def nodes_def domIff split: option.splits)
  moreover have "(a, b) \<notin> deps view m" using False nodes_avref [OF ok] arel_ends [OF gok] by (auto simp: deps_def)
  ultimately show thesis by (rule that(2))
next
  case True
  let ?A = "view (graph m)"
  have gok: "agraph_ok ?A" by (rule query_laws(1) [OF Q])
  obtain u v where uv: "mVertexReferenceMap m a = Some u" "mVertexReferenceMap m b = Some v" using True by (auto simp: nodes_def)
  have uv': "u \<in> set (av ?A)" "v \<in> set (av ?A)" "avref ?A u = a" "avref ?A v = b" using ig_okD(1) [OF ok] uv by auto
  have ab: "(a, b) \<in> deps view m \<longleftrightarrow> (u, v) \<in> arel ?A" by (rule deps_iff [OF gok ok uv])
  have re: "remove_edge G a b m = remove_edge_uv G u v m" using uv by (simp add: remove_edge_def findVertexReference_def)
  from Q show thesis
  proof (cases rule: edge_law [where u = u and v = v and g = "graph m"])
    case (2 e)
    then show thesis using that(2) ab re by (simp add: remove_edge_uv_def)
  next
    case (1 e)
    let ?r = "aeref ?A e"
    let ?m = "m\<lparr>mEdgeReferenceMap := (mEdgeReferenceMap m)(?r := None), graph := b_remove_edges G u v (graph m)\<rparr>"
    have e: "e \<in> dom (ae ?A)" using 1(2) by auto
    have "mEdgeReferenceMap m ?r = Some e" using ig_okD(2) [OF ok, of ?r e] e by simp
    then have r: "remove_edge G a b m = (Inr (), ?m)"
      using 1(1) re by (simp add: remove_edge_uv_def removeEdgeReference_def query_laws(8) [OF Q])
    have w: "without_edge e view m ?m" by (rule drop_edge_ok [OF ok e other_updates(2) [OF U 1(2)]])
    have uniq: "ae ?A e' = Some (u, v) \<longleftrightarrow> e' = e" for e' using 1(2) gok unfolding agraph_ok_def by blast
    have "ae (view (graph ?m)) = (ae ?A)(e := None)" using w by (simp add: without_edge_def)
    moreover have "((ae ?A)(e := None)) e' = Some p \<longleftrightarrow> ae ?A e' = Some p \<and> p \<noteq> (u, v)" for e' p
    proof (cases "e' = e")
      case True
      with 1(2) show ?thesis by auto
    next
      case False
      then have "ae ?A e' \<noteq> Some (u, v)" using uniq by blast
      with False show ?thesis by auto
    qed
    ultimately have ar: "arel (view (graph ?m)) = arel ?A - {(u, v)}" unfolding arel_def ran_def by (auto simp del: fun_upd_apply)
    have "deps view ?m = deps view m - {(a, b)}"
    proof -
      let ?f = "map_prod (avref ?A) (avref ?A)"
      have "inj_on ?f (arel ?A)" using avref_inj [OF ok] arel_ends [OF gok] by (auto simp: inj_on_def)
      then have "?f ` (arel ?A - {(u, v)}) = ?f ` arel ?A - ?f ` {(u, v)}" using ab 1(2) by (intro inj_on_image_set_diff) (auto simp: arel_def ran_def)
      then show ?thesis using w ar uv' by (simp add: deps_def without_edge_def)
    qed
    then show thesis using that(1) [OF r] w ab 1(2) by (auto simp: without_edge_def nodes_def arel_def ran_def)
  qed
qed

section \<open>The abstract solver\<close>

datatype dep_op = AddNode string | AddDep string string | RemNode string | RemDep string string | AskNode string | AskDep string string | ClearAll

type_synonym dep_spec = "string set \<times> (string \<times> string) set"

fun spec_op :: "dep_op \<Rightarrow> dep_spec \<Rightarrow> bool \<times> dep_spec" where
  "spec_op (AddNode a) (N, D) = (a \<notin> N, insert a N, D)"
| "spec_op (AddDep a b) (N, D) = (a \<in> N \<and> b \<in> N \<and> (a, b) \<notin> D, N, if a \<in> N \<and> b \<in> N then insert (a, b) D else D)"
| "spec_op (RemNode a) (N, D) = (a \<in> N, N - {a}, {(x, y)\<in>D. x \<noteq> a \<and> y \<noteq> a})"
| "spec_op (RemDep a b) (N, D) = ((a, b) \<in> D, N, D - {(a, b)})"
| "spec_op (AskNode a) (N, D) = (a \<in> N, N, D)"
| "spec_op (AskDep a b) (N, D) = ((a, b) \<in> D, N, D)"
| "spec_op ClearAll (N, D) = (True, {}, {})"

primrec solver_op :: "('g, 'v, 'e, string, int) bgl \<Rightarrow> dep_op \<Rightarrow> ('g, 'v, 'e) solver \<Rightarrow> bool result \<times> ('g, 'v, 'e) solver" where
  "solver_op G (AddNode a) s = addNode G a s"
| "solver_op G (AddDep a b) s = addDependency G a b s"
| "solver_op G (RemNode a) s = removeNode G a s"
| "solver_op G (RemDep a b) s = removeDependency G a b s"
| "solver_op G (AskNode a) s = (Inr (isNodeExist a s), s)"
| "solver_op G (AskDep a b) s = (Inr (isDependencyExist G a b s), s)"
| "solver_op G ClearAll s = (Inr True, solver_clear G s)"

fun spec_run :: "dep_op list \<Rightarrow> dep_spec \<Rightarrow> bool list \<times> dep_spec" where
  "spec_run [] S = ([], S)"
| "spec_run (p # ps) S = (let (b, S) = spec_op p S; (bs, S) = spec_run ps S in (b # bs, S))"

fun solver_run :: "('g, 'v, 'e, string, int) bgl \<Rightarrow> dep_op list \<Rightarrow> ('g, 'v, 'e) solver \<Rightarrow> bool result list \<times> ('g, 'v, 'e) solver" where
  "solver_run G [] s = ([], s)"
| "solver_run G (p # ps) s = (let (b, s) = solver_op G p s; (bs, s) = solver_run G ps s in (b # bs, s))"

definition solver_ok :: "('g \<Rightarrow> ('v, 'e, string, int) agraph) \<Rightarrow> dep_spec \<Rightarrow> ('g, 'v, 'e) solver \<Rightarrow> bool" where
  "solver_ok view S s \<longleftrightarrow> ig_ok view (dep s) \<and> S = (nodes (dep s), deps view (dep s)) \<and>
     (\<forall>x\<in>dom (mEdgeReferenceMap (dep s)). x \<le> increment_number s)"

lemma deps_in_nodes:
  assumes "bgl_queries G view" "ig_ok view m" "(a, b) \<in> deps view m"
  shows "a \<in> nodes m" "b \<in> nodes m"
  using assms(3) nodes_avref [OF assms(2)] arel_ends [OF query_laws(1) [OF assms(1)]] by (auto simp: deps_def)

lemma dependency_exists:
  assumes Q: "bgl_queries G view" and m: "ig_ok view (dep s)"
  shows "isDependencyExist G a b s \<longleftrightarrow> (a, b) \<in> deps view (dep s)"
proof -
  have gok: "agraph_ok (view (graph (dep s)))" by (rule query_laws(1) [OF Q])
  show ?thesis
  proof (cases "a \<in> nodes (dep s) \<and> b \<in> nodes (dep s)")
    case False
    then have "(a, b) \<notin> deps view (dep s)" using deps_in_nodes [OF Q m, of a b] by blast
    with False show ?thesis
      by (auto simp: isDependencyExist_def edge_def findVertexReference_def nodes_def domIff split: option.splits)
  next
    case True
    then obtain u v where uv: "mVertexReferenceMap (dep s) a = Some u" "mVertexReferenceMap (dep s) b = Some v" by (auto simp: nodes_def)
    have ab: "(a, b) \<in> deps view (dep s) \<longleftrightarrow> (u, v) \<in> arel (view (graph (dep s)))" by (rule deps_iff [OF gok m uv])
    have ie: "isDependencyExist G a b s = snd (b_edge G u v (graph (dep s)))"
      using uv by (simp add: isDependencyExist_def edge_def findVertexReference_def split: prod.splits)
    from Q show ?thesis
      by (cases rule: edge_law [where u = u and v = v and g = "graph (dep s)"]) (use ab ie in \<open>auto simp: arel_def ran_def\<close>)
  qed
qed

lemma removeNode_refines:
  assumes Q: "bgl_queries G view" and U: "bgl_updates G view" and ok: "solver_ok view S s"
  shows "\<exists>s'. solver_op G (RemNode a) s = (Inr (fst (spec_op (RemNode a) S)), s') \<and> solver_ok view (snd (spec_op (RemNode a) S)) s'"
proof -
  have m: "ig_ok view (dep s)" and S: "S = (nodes (dep s), deps view (dep s))"
    and inc: "\<forall>x\<in>dom (mEdgeReferenceMap (dep s)). x \<le> increment_number s"
    using ok by (auto simp: solver_ok_def)
  show ?thesis
  proof (cases "a \<in> nodes (dep s)")
    case True
    obtain m1 m' where r: "clear_vertex G a (dep s) = (Inr (), m1)" "remove_vertex G a m1 = (Inr (), m')" "ig_ok view m'" "nodes m' = nodes (dep s) - {a}"
      "deps view m' = {(x, y)\<in>deps view (dep s). x \<noteq> a \<and> y \<noteq> a}" "dom (mEdgeReferenceMap m') \<subseteq> dom (mEdgeReferenceMap (dep s))"
      using remove_node_law [OF Q U m True] by blast
    have "\<forall>x\<in>dom (mEdgeReferenceMap m'). x \<le> increment_number s" using inc r(6) by blast
    with True r show ?thesis by (simp add: S removeNode_def catch_invalid_def solver_ok_def)
  next
    case False
    then have "clear_vertex G a (dep s) = (Inl InvalidArgument, (dep s))"
      by (auto simp: clear_vertex_def vertex_def findVertexReference_def nodes_def domIff)
    moreover have "{(x, y)\<in>deps view (dep s). x \<noteq> a \<and> y \<noteq> a} = deps view (dep s)" using deps_in_nodes [OF Q m] False by auto
    ultimately show ?thesis using False ok by (simp add: S removeNode_def catch_invalid_def solver_ok_def)
  qed
qed

lemma solver_op_refines:
  assumes Q: "bgl_queries G view" and U: "bgl_updates G view" and ok: "solver_ok view S s"
  shows "\<exists>s'. solver_op G p s = (Inr (fst (spec_op p S)), s') \<and> solver_ok view (snd (spec_op p S)) s'"
proof -
  let ?m = "dep s"
  have m: "ig_ok view ?m" and S: "S = (nodes ?m, deps view ?m)" and inc: "\<forall>x\<in>dom (mEdgeReferenceMap ?m). x \<le> increment_number s"
    using ok by (auto simp: solver_ok_def)
  show ?thesis
  proof (cases p)
    case (AddNode a)
    from Q U m show ?thesis
      by (cases rule: add_vertex_law [where r = a]) (use inc in \<open>auto simp: AddNode S addNode_def catch_invalid_def solver_ok_def\<close>)
  next
    case (AddDep a b)
    let ?n = "increment_number s + 1"
    have new: "mEdgeReferenceMap ?m ?n = None" using inc by (metis domIff add_le_same_cancel1 not_one_le_zero)
    have le: "x \<le> ?n" if "x \<in> dom (mEdgeReferenceMap ?m)" for x using bspec [OF inc that] by simp
    from Q U m new show ?thesis
    proof (cases rule: add_edge_law [where a = a and b = b])
      case (1 m')
      then show ?thesis using le by (auto simp: AddDep S addDependency_def catch_invalid_def solver_ok_def Let_def)
    next
      case (2 e m')
      then show ?thesis using le by (auto simp: AddDep S addDependency_def catch_invalid_def solver_ok_def Let_def)
    qed
  next
    case (RemNode a)
    from removeNode_refines [OF Q U ok, of a] S show ?thesis by (simp add: RemNode)
  next
    case (RemDep a b)
    from Q U m show ?thesis
    proof (cases rule: remove_edge_law [where a = a and b = b])
      case (1 m')
      have "\<forall>x\<in>dom (mEdgeReferenceMap m'). x \<le> increment_number s" using inc 1(6) by blast
      with 1 show ?thesis by (simp add: RemDep S removeDependency_def catch_invalid_def solver_ok_def)
    next
      case 2
      with ok show ?thesis by (auto simp: RemDep S removeDependency_def catch_invalid_def solver_ok_def)
    qed
  next
    case (AskNode a)
    have "isNodeExist a s \<longleftrightarrow> a \<in> nodes ?m"
      by (auto simp: isNodeExist_def vertex_def findVertexReference_def nodes_def domIff split: option.splits)
    with ok show ?thesis by (simp add: AskNode S solver_ok_def)
  next
    case (AskDep a b)
    have "isDependencyExist G a b s \<longleftrightarrow> (a, b) \<in> deps view ?m" by (rule dependency_exists [OF Q m])
    with ok show ?thesis by (simp add: AskDep S solver_ok_def)
  next
    case ClearAll
    show ?thesis
      by (simp add: ClearAll S solver_ok_def solver_clear_def ig_clear_def mapping_clear_def ig_ok_def nodes_def deps_def arel_def other_updates [OF U])
  qed
qed

lemma solver_run_refines:
  assumes Q: "bgl_queries G view" and U: "bgl_updates G view"
  shows "solver_ok view S s \<Longrightarrow> \<exists>s'. solver_run G ps s = (map Inr (fst (spec_run ps S)), s') \<and> solver_ok view (snd (spec_run ps S)) s'"
proof (induction ps arbitrary: S s)
  case (Cons p ps)
  obtain s1 where "solver_op G p s = (Inr (fst (spec_op p S)), s1)" "solver_ok view (snd (spec_op p S)) s1"
    using solver_op_refines [OF Q U Cons.prems] by blast
  with Cons.IH [of "snd (spec_op p S)" s1] show ?case by (auto simp: split_beta Let_def)
qed simp

lemma new_ok: "av (view g0) = [] \<Longrightarrow> ae (view g0) = Map.empty \<Longrightarrow> solver_ok view ({}, {}) (DependencySolver_new g0 n)"
  by (simp add: solver_ok_def DependencySolver_new_def ig_ok_def nodes_def deps_def arel_def)

section \<open>Orders\<close>

definition comes_before :: "'a list \<Rightarrow> 'a \<Rightarrow> 'a \<Rightarrow> bool" where
  "comes_before xs a b \<longleftrightarrow> (\<exists>as bs cs. xs = as @ a # bs @ b # cs)"

lemma before_map: "comes_before xs a b \<Longrightarrow> comes_before (map f xs) (f a) (f b)"
  by (auto simp: comes_before_def) (metis map_append list.simps(9))

lemma before_filter: "comes_before xs a b \<Longrightarrow> P a \<Longrightarrow> P b \<Longrightarrow> comes_before (filter P xs) a b"
  by (auto simp: comes_before_def) (metis filter.simps(2) filter_append)

lemma before_rev: "comes_before xs a b \<Longrightarrow> comes_before (rev xs) b a"
proof -
  assume "comes_before xs a b"
  then obtain as bs cs where "xs = as @ a # bs @ b # cs" by (auto simp: comes_before_def)
  then have "rev xs = rev cs @ b # rev bs @ a # rev as" by simp
  then show ?thesis unfolding comes_before_def by blast
qed

lemma before_trancl:
  assumes "distinct xs" "\<forall>(u, v)\<in>R. comes_before xs v u"
  shows "acyclic R"
proof -
  define pos where "pos v = (THE i. i < length xs \<and> xs ! i = v)" for v
  have pos: "pos (xs ! i) = i" if "i < length xs" for i
    unfolding pos_def using that assms(1) by (intro the_equality) (auto simp: nth_eq_iff_index_eq)
  have lt: "pos v < pos u" if uv: "(u, v) \<in> R" for u v
  proof -
    obtain as bs cs where xs: "xs = as @ v # bs @ u # cs" using bspec [OF assms(2) uv] by (auto simp: comes_before_def)
    have "pos v = length as" using pos [of "length as"] xs by simp
    moreover have "pos u = length as + length bs + 1" using pos [of "length as + length bs + 1"] xs by (simp add: nth_append)
    ultimately show ?thesis by simp
  qed
  have "R \<subseteq> (measure pos)\<inverse>" using lt by auto
  then show ?thesis by (meson acyclic_converse acyclic_subset wf_acyclic wf_measure)
qed

lemma foldl_cons: "foldl (\<lambda>r v. f v # r) r xs = map f (rev xs) @ r"
  by (induction xs arbitrary: r) auto

lemma foldl_snoc: "foldl (\<lambda>r v. r @ [f v]) r xs = r @ map f xs"
  by (induction xs arbitrary: r) auto

lemma foldl_cons_if: "foldl (\<lambda>r v. if P v then f v # r else r) r xs = map f (filter P (rev xs)) @ r"
  by (induction xs arbitrary: r) auto

lemma foldl_snoc_if: "foldl (\<lambda>r v. if P v then r @ [f v] else r) r xs = r @ map f (filter P xs)"
  by (induction xs arbitrary: r) auto

lemma make_order_rev: "make_order G s = map_option rev (b_topological_sort G (graph (dep s)))"
  using foldl_cons [of "\<lambda>v. v" "[]"] by (cases "b_topological_sort G (graph (dep s))") (simp_all add: make_order_def)

lemma sort_law:
  assumes "bgl_sorts G view"
  shows "b_topological_sort G g = None \<Longrightarrow> \<not> acyclic (arel (view g))"
    "b_topological_sort G g = Some xs \<Longrightarrow> distinct xs \<and> set xs = set (av (view g)) \<and> (\<forall>(u, v)\<in>arel (view g). comes_before xs v u)"
proof -
  have *: "case b_topological_sort G g of None \<Rightarrow> \<not> acyclic (arel (view g))
     | Some xs \<Rightarrow> distinct xs \<and> set xs = set (av (view g)) \<and> (\<forall>(u, v)\<in>arel (view g). comes_before xs v u)"
    using assms unfolding bgl_sorts_def comes_before_def by blast
  show "b_topological_sort G g = None \<Longrightarrow> \<not> acyclic (arel (view g))"
    "b_topological_sort G g = Some xs \<Longrightarrow> distinct xs \<and> set xs = set (av (view g)) \<and> (\<forall>(u, v)\<in>arel (view g). comes_before xs v u)"
    using * by auto
qed

text \<open>Names and vertices have the same transitive closure.\<close>

lemma trancl_image:
  assumes "inj_on f X" "R \<subseteq> X \<times> X" "x \<in> X" "y \<in> X"
  shows "(f x, f y) \<in> (map_prod f f ` R)\<^sup>+ \<longleftrightarrow> (x, y) \<in> R\<^sup>+"
proof
  assume "(f x, f y) \<in> (map_prod f f ` R)\<^sup>+"
  then have "\<exists>z\<in>X. f y = f z \<and> (x, z) \<in> R\<^sup>+"
  proof (induction rule: trancl_induct)
    case (base q)
    then obtain a b where "(a, b) \<in> R" "f x = f a" "q = f b" by auto
    then show ?case using assms by (auto dest: inj_onD)
  next
    case (step p q)
    then obtain z where z: "z \<in> X" "p = f z" "(x, z) \<in> R\<^sup>+" by blast
    obtain a b where "(a, b) \<in> R" "p = f a" "q = f b" using step.hyps(2) by auto
    moreover from this have "a = z" using z assms by (auto dest: inj_onD)
    ultimately show ?case using z assms(2) by (auto intro: trancl_into_trancl)
  qed
  then show "(x, y) \<in> R\<^sup>+" using assms(1,4) by (auto dest: inj_onD)
next
  assume "(x, y) \<in> R\<^sup>+"
  then show "(f x, f y) \<in> (map_prod f f ` R)\<^sup>+"
  proof (induction rule: trancl_induct)
    case (base y)
    then show ?case by (intro r_into_trancl) force
  next
    case (step y z)
    then show ?case by (intro trancl_into_trancl [OF step.IH]) force
  qed
qed

lemma names_trancl:
  assumes Q: "bgl_queries G view" and ok: "ig_ok view m" and uv: "mVertexReferenceMap m a = Some u" "mVertexReferenceMap m b = Some v"
  shows "(a, b) \<in> (deps view m)\<^sup>+ \<longleftrightarrow> (u, v) \<in> (arel (view (graph m)))\<^sup>+"
proof -
  let ?A = "view (graph m)"
  have "u \<in> set (av ?A)" "avref ?A u = a" "v \<in> set (av ?A)" "avref ?A v = b" using ig_okD(1) [OF ok] uv by auto
  moreover have "arel ?A \<subseteq> set (av ?A) \<times> set (av ?A)" using arel_ends [OF query_laws(1) [OF Q]] by auto
  ultimately show ?thesis using trancl_image [OF avref_inj [OF ok], of "arel ?A" u v] by (simp add: deps_def)
qed

lemma names_acyclic:
  assumes Q: "bgl_queries G view" and ok: "ig_ok view m"
  shows "acyclic (deps view m) \<longleftrightarrow> acyclic (arel (view (graph m)))"
proof -
  let ?A = "view (graph m)"
  have ar: "arel ?A \<subseteq> set (av ?A) \<times> set (av ?A)" using arel_ends [OF query_laws(1) [OF Q]] by auto
  have "(avref ?A u, avref ?A u) \<in> (deps view m)\<^sup>+ \<longleftrightarrow> (u, u) \<in> (arel ?A)\<^sup>+" if "u \<in> set (av ?A)" for u
    using trancl_image [OF avref_inj [OF ok] ar that that] by (simp add: deps_def)
  note cyc = this
  have inV: "u \<in> set (av ?A)" if c: "(u, u) \<in> (arel ?A)\<^sup>+" for u
  proof -
    obtain w where "(u, w) \<in> arel ?A" using c by (meson tranclD)
    with ar show ?thesis by auto
  qed
  have named: "\<exists>u\<in>set (av ?A). a = avref ?A u" if c: "(a, a) \<in> (deps view m)\<^sup>+" for a
  proof -
    obtain b where "(a, b) \<in> deps view m" using c by (meson tranclD)
    then show ?thesis using deps_in_nodes(1) [OF Q ok] nodes_avref [OF ok] by auto
  qed
  show ?thesis
  proof
    assume "acyclic (deps view m)"
    then show "acyclic (arel ?A)" unfolding acyclic_def using cyc inV by fast
  next
    assume a: "acyclic (arel ?A)"
    show "acyclic (deps view m)" unfolding acyclic_def
    proof (intro allI notI)
      fix x assume x: "(x, x) \<in> (deps view m)\<^sup>+"
      then obtain u where "u \<in> set (av ?A)" "x = avref ?A u" using named by blast
      with x cyc have "(u, u) \<in> (arel ?A)\<^sup>+" by simp
      with a show False by (simp add: acyclic_def)
    qed
  qed
qed

text \<open>The order of all nodes, on names.\<close>

lemma order_names:
  assumes Q: "bgl_queries G view" and T: "bgl_sorts G view" and ok: "ig_ok view (dep s)" and x: "b_topological_sort G (graph (dep s)) = Some xs"
  defines "f \<equiv> \<lambda>v. vertex_ref G v (dep s)"
  shows "distinct (map f xs)" "set (map f xs) = nodes (dep s)" "\<forall>(a, b)\<in>deps view (dep s). comes_before (map f xs) b a"
proof -
  let ?A = "view (graph (dep s))"
  have f: "f = avref ?A" by (auto simp: f_def vertex_ref_def query_laws(7) [OF Q])
  note s = sort_law(2) [OF T x]
  show "distinct (map f xs)" using s avref_inj [OF ok] by (simp add: f distinct_map)
  show "set (map f xs) = nodes (dep s)" using s nodes_avref [OF ok] by (simp add: f)
  show "\<forall>(a, b)\<in>deps view (dep s). comes_before (map f xs) b a" using s by (auto simp: deps_def f intro!: before_map)
qed

section \<open>Requirements and dependents\<close>

lemma foldl_reset: "foldl (\<lambda>f v. f(v := False)) f vs x \<longleftrightarrow> x \<notin> set vs \<and> f x"
  by (induction vs arbitrary: f) auto

lemma reset_flags_False: "v \<in> set (b_vertices G (graph (dep s))) \<Longrightarrow> \<not> mGroupFlag (reset_flags G s) v"
  by (simp add: reset_flags_def foldl_reset)

lemma neighbours:
  assumes Q: "bgl_queries G view"
  shows "set (requires G s u) = {v. (u, v) \<in> arel (view (graph (dep s)))}" "set (dependents G s u) = {v. (v, u) \<in> arel (view (graph (dep s)))}"
proof -
  have "b_target G e (graph (dep s)) = v" "b_source G e (graph (dep s)) = u" if "ae (view (graph (dep s))) e = Some (u, v)" for e u v
    using query_laws(6) [OF Q that] by auto
  then show "set (requires G s u) = {v. (u, v) \<in> arel (view (graph (dep s)))}" "set (dependents G s u) = {v. (v, u) \<in> arel (view (graph (dep s)))}"
    by (force simp: requires_def dependents_def query_laws(4,5) [OF Q] arel_def ran_def)+
qed

lemma search_law:
  assumes Q: "bgl_queries G view" and v: "v \<in> set (av (view (graph (dep s))))"
  shows "\<exists>s'. findRequireNode G v (reset_flags G s) = Inr s' \<and> dep s' = dep s \<and>
      (\<forall>x\<in>set (av (view (graph (dep s)))). mGroupFlag s' x \<longleftrightarrow> (v, x) \<in> (arel (view (graph (dep s))))\<^sup>+)"
    "\<exists>s'. findDependentNode G v (reset_flags G s) = Inr s' \<and> dep s' = dep s \<and>
      (\<forall>x\<in>set (av (view (graph (dep s)))). mGroupFlag s' x \<longleftrightarrow> (x, v) \<in> (arel (view (graph (dep s))))\<^sup>+)"
proof -
  let ?A = "view (graph (dep s))"
  let ?V = "set (av ?A)"
  let ?s = "reset_flags G s"
  have d: "dep ?s = dep s" by (simp add: reset_flags_def)
  have ends: "u \<in> ?V" "w \<in> ?V" if "(u, w) \<in> arel ?A" for u w using arel_ends [OF query_laws(1) [OF Q] that] by auto
  have nb: "set (requires G ?s u) = {w. (u, w) \<in> arel ?A}" "set (dependents G ?s u) = {w. (w, u) \<in> arel ?A}" for u
    using neighbours [OF Q, of ?s] by (simp_all add: d)
  have fl: "\<forall>x\<in>?V. \<not> mGroupFlag ?s x" using reset_flags_False [of _ G s] by (simp add: query_laws(2) [OF Q])
  have len: "length (b_vertices G (graph (dep ?s))) = card ?V"
    using query_laws(1,2) [OF Q, of "graph (dep s)"] by (simp add: d distinct_card agraph_ok_def)
  have rel: "{(a, b). b \<in> set (requires G ?s a)} = arel ?A" "{(a, b). b \<in> set (dependents G ?s a)} = (arel ?A)\<inverse>" using nb by auto
  have cl: "set (requires G ?s u) \<subseteq> ?V" "set (dependents G ?s u) \<subseteq> ?V" for u using nb ends by auto
  have fin: "finite ?V" "card ?V < card ?V + 1" by simp_all
  obtain f where "find_nodes (card ?V + 1) (requires G ?s) (requires G ?s v) (mGroupFlag ?s) = Inr f" "\<forall>x\<in>?V. f x \<longleftrightarrow> (v, x) \<in> (arel ?A)\<^sup>+"
    using find_nodes_reach [where nb = "requires G ?s", OF fin(1) cl(1) v fl fin(2)] unfolding rel(1) by blast
  then show "\<exists>s'. findRequireNode G v ?s = Inr s' \<and> dep s' = dep s \<and> (\<forall>x\<in>?V. mGroupFlag s' x \<longleftrightarrow> (v, x) \<in> (arel ?A)\<^sup>+)"
    using len d by (simp add: findRequireNode_def)
  obtain h where "find_nodes (card ?V + 1) (dependents G ?s) (dependents G ?s v) (mGroupFlag ?s) = Inr h" "\<forall>x\<in>?V. h x \<longleftrightarrow> (v, x) \<in> ((arel ?A)\<inverse>)\<^sup>+"
    using find_nodes_reach [where nb = "dependents G ?s", OF fin(1) cl(2) v fl fin(2)] unfolding rel(2) by blast
  then show "\<exists>s'. findDependentNode G v ?s = Inr s' \<and> dep s' = dep s \<and> (\<forall>x\<in>?V. mGroupFlag s' x \<longleftrightarrow> (x, v) \<in> (arel ?A)\<^sup>+)"
    using len d by (simp add: findDependentNode_def trancl_converse)
qed

lemma index_vertices_simps [simp]: "dep (index_vertices G s) = dep s" "mGroupFlag (index_vertices G s) = mGroupFlag s"
  by (simp_all add: index_vertices_def)

text \<open>The nodes a search marked, in the order of all nodes.\<close>

lemma marked_names:
  assumes Q: "bgl_queries G view" and T: "bgl_sorts G view" and ok: "ig_ok view (dep s)"
    and x: "b_topological_sort G (graph (dep s)) = Some xs" and P: "\<forall>u\<in>set (av (view (graph (dep s)))). P u \<longleftrightarrow> R (avref (view (graph (dep s))) u)"
  defines "ys \<equiv> map (\<lambda>v. vertex_ref G v (dep s)) (filter P xs)"
  shows "distinct ys" "set ys = {a\<in>nodes (dep s). R a}" "\<forall>(a, b)\<in>deps view (dep s). R a \<longrightarrow> R b \<longrightarrow> comes_before ys b a"
proof -
  let ?A = "view (graph (dep s))"
  let ?f = "\<lambda>v. vertex_ref G v (dep s)"
  note s = sort_law(2) [OF T x]
  have f: "vertex_ref G v (dep s) = avref ?A v" for v by (simp add: vertex_ref_def query_laws(7) [OF Q])
  have "filter P xs = filter (\<lambda>v. R (?f v)) xs" using s P f by (intro filter_cong) auto
  then have ys: "ys = filter R (map ?f xs)" by (simp add: ys_def filter_map comp_def)
  note o = order_names [OF Q T ok x]
  show "distinct ys" "set ys = {a\<in>nodes (dep s). R a}" using o(1,2) by (auto simp: ys)
  show "\<forall>(a, b)\<in>deps view (dep s). R a \<longrightarrow> R b \<longrightarrow> comes_before ys b a" using o(3) by (auto simp: ys intro!: before_filter)
qed

end
