(* ===== verification/Dependency_Order.thy ===== *)
theory Dependency_Order
  imports Dependency_Spec
begin

text \<open>
  The properties of the dependency solver: it refines a set of names with a relation, its orders put every node after what it
  requires, and its searches return the transitive requirements and dependents of a node. A graph kept in lists, with a
  topological sort that takes out one sink after another, satisfies the laws of the library and is where
  the witnesses are evaluated.
\<close>

section \<open>A graph in lists\<close>

record lgraph =
  lvs :: "nat list"
  les :: "(nat \<times> nat) list"
  lvref :: "nat \<Rightarrow> string"
  leref :: "nat \<times> nat \<Rightarrow> int"

definition lv :: "lgraph \<Rightarrow> nat list" where
  "lv g = remdups (lvs g)"

definition le :: "lgraph \<Rightarrow> (nat \<times> nat) list" where
  "le g = remdups (filter (\<lambda>(u, v). u \<in> set (lvs g) \<and> v \<in> set (lvs g)) (les g))"

text \<open>One sink after another; \<open>None\<close> when there is a vertex left and no sink.\<close>

fun lsort :: "nat \<Rightarrow> nat list \<Rightarrow> (nat \<times> nat) list \<Rightarrow> nat list option" where
  "lsort 0 vs es = (if vs = [] then Some [] else None)"
| "lsort (Suc n) vs es = (if vs = [] then Some [] else
     (case find (\<lambda>v. list_all (\<lambda>(a, b). a = v \<longrightarrow> b \<notin> set vs) es) vs of None \<Rightarrow> None
      | Some v \<Rightarrow> map_option (Cons v) (lsort n (remove1 v vs) es)))"

definition list_bgl :: "(lgraph, nat, nat \<times> nat, string, int) bgl" where
  "list_bgl = \<lparr>
     b_add_vertex = (\<lambda>g. let v = Suc (foldr max (lvs g) 0) in (v, g\<lparr>lvs := v # lvs g, les := le g\<rparr>)),
     b_remove_vertex = (\<lambda>v g. g\<lparr>lvs := removeAll v (lvs g), les := le g\<rparr>),
     b_add_edge = (\<lambda>u v g. if (u, v) \<in> set (le g) then (((u, v), False), g) else (((u, v), True), g\<lparr>les := (u, v) # les g\<rparr>)),
     b_remove_edge = (\<lambda>e g. g\<lparr>les := removeAll e (les g)\<rparr>),
     b_remove_edges = (\<lambda>u v g. g\<lparr>les := removeAll (u, v) (les g)\<rparr>),
     b_edge = (\<lambda>u v g. ((u, v), (u, v) \<in> set (le g))),
     b_vertices = lv, b_edges = le,
     b_out_edges = (\<lambda>u g. filter (\<lambda>e. fst e = u) (le g)), b_in_edges = (\<lambda>v g. filter (\<lambda>e. snd e = v) (le g)),
     b_source = (\<lambda>e g. fst e), b_target = (\<lambda>e g. snd e),
     b_clear = (\<lambda>g. g\<lparr>lvs := [], les := []\<rparr>),
     b_get_vref = (\<lambda>v g. lvref g v), b_put_vref = (\<lambda>v r g. g\<lparr>lvref := (lvref g)(v := r)\<rparr>),
     b_get_eref = (\<lambda>e g. leref g e), b_put_eref = (\<lambda>e r g. g\<lparr>leref := (leref g)(e := r)\<rparr>),
     b_topological_sort = (\<lambda>g. lsort (length (lv g)) (lv g) (le g))\<rparr>"

definition list_view :: "lgraph \<Rightarrow> (nat, nat \<times> nat, string, int) agraph" where
  "list_view g = \<lparr>av = lv g, ae = (\<lambda>e. if e \<in> set (le g) then Some e else None), avref = lvref g, aeref = leref g\<rparr>"

definition list_empty :: lgraph where
  "list_empty = \<lparr>lvs = [], les = [], lvref = (\<lambda>_. []), leref = (\<lambda>_. 0)\<rparr>"

lemma set_le: "set (le g) = {(u, v)\<in>set (les g). u \<in> set (lvs g) \<and> v \<in> set (lvs g)}"
  by (auto simp: le_def)

lemma list_arel: "arel (list_view g) = set (le g)"
  by (auto simp: arel_def list_view_def ran_def)

lemma finite_le: "finite {(u, v). (u, v) \<in> set (les (g :: lgraph)) \<and> u \<in> set (lvs g) \<and> v \<in> set (lvs g)}"
  using set_le [of g] by (metis (no_types, lifting) List.finite_set)

lemma distinct_le: "distinct (le g)"
  by (simp add: le_def)

lemma list_queries: "bgl_queries list_bgl list_view"
  unfolding bgl_queries_def list_arel
  by (auto simp: list_bgl_def list_view_def agraph_ok_def lv_def set_le dom_def distinct_le finite_le split: if_splits)

lemma foldr_max_ge: "x \<in> set xs \<Longrightarrow> x \<le> foldr max xs (0 :: nat)"
  by (induction xs) auto

lemma fresh_vertex: "Suc (foldr max xs 0) \<notin> set xs"
  using foldr_max_ge [of "Suc (foldr max xs 0)" xs] by auto

lemma list_updates: "bgl_updates list_bgl list_view"
  unfolding bgl_updates_def list_arel
  using fresh_vertex by (auto simp: list_bgl_def list_view_def lv_def set_le Let_def fun_eq_iff)

lemma lsort_sound:
  "lsort n vs es = Some xs \<Longrightarrow> distinct vs \<Longrightarrow>
   distinct xs \<and> set xs = set vs \<and> (\<forall>(u, v)\<in>set es. u \<in> set vs \<longrightarrow> v \<in> set vs \<longrightarrow> comes_before xs v u)"
proof (induction n vs es arbitrary: xs rule: lsort.induct)
  case (2 n vs es)
  show ?case
  proof (cases "vs = []")
    case False
    then obtain w ys where w: "find (\<lambda>v. list_all (\<lambda>(a, b). a = v \<longrightarrow> b \<notin> set vs) es) vs = Some w" and ys: "lsort n (remove1 w vs) es = Some ys"
      and xs: "xs = w # ys" using 2(2) by (auto split: option.splits)
    have wv: "w \<in> set vs" and sink: "\<forall>(a, b)\<in>set es. a = w \<longrightarrow> b \<notin> set vs"
      using w by (auto simp: find_Some_iff list_all_iff)
    have ih: "distinct ys" "set ys = set vs - {w}"
      "\<forall>(u, v)\<in>set es. u \<in> set vs - {w} \<longrightarrow> v \<in> set vs - {w} \<longrightarrow> comes_before ys v u"
      using 2(1) [OF False w ys] 2(3) by auto
    have "comes_before xs v u" if e: "(u, v) \<in> set es" "u \<in> set vs" "v \<in> set vs" for u v
    proof -
      have uw: "u \<noteq> w" using sink e by auto
      show ?thesis
      proof (cases "v = w")
        case True
        obtain bs cs where "ys = bs @ u # cs" using uw e(2) ih(2) split_list [of u ys] by auto
        then have "xs = [] @ v # bs @ u # cs" using True xs by simp
        then show ?thesis unfolding comes_before_def by blast
      next
        case False
        then have "comes_before ys v u" using ih(3) e uw by auto
        then show ?thesis unfolding comes_before_def xs by (metis append_Cons)
      qed
    qed
    then show ?thesis using ih(1,2) xs wv by auto
  qed (use 2 in auto)
qed (auto split: if_splits)

lemma lsort_complete: "acyclic (set es) \<Longrightarrow> distinct vs \<Longrightarrow> length vs \<le> n \<Longrightarrow> lsort n vs es \<noteq> None"
proof (induction n vs es rule: lsort.induct)
  case (2 n vs es)
  show ?case
  proof (cases "vs = []")
    case False
    have "wf ((set es)\<inverse>)" using 2(2) by (simp add: finite_acyclic_wf_converse)
    then obtain w where w: "w \<in> set vs" "\<forall>b. (b, w) \<in> (set es)\<inverse> \<longrightarrow> b \<notin> set vs"
      using False wf_eq_minimal [of "(set es)\<inverse>"] by (metis equals0I set_empty)
    then have "find (\<lambda>v. list_all (\<lambda>(a, b). a = v \<longrightarrow> b \<notin> set vs) es) vs \<noteq> None"
      by (auto simp: find_None_iff list_all_iff)
    then obtain v where v: "find (\<lambda>v. list_all (\<lambda>(a, b). a = v \<longrightarrow> b \<notin> set vs) es) vs = Some v" by blast
    then have "v \<in> set vs" by (auto simp: find_Some_iff)
    then have "lsort n (remove1 v vs) es \<noteq> None"
      using 2(1) [OF False v 2(2)] 2(3,4) by (simp add: length_remove1)
    with v show ?thesis by auto
  qed simp
qed auto

lemma list_sorts: "bgl_sorts list_bgl list_view"
  unfolding bgl_sorts_def list_arel
proof
  fix g
  have d: "distinct (lv g)" by (simp add: lv_def)
  have t: "b_topological_sort list_bgl g = lsort (length (lv g)) (lv g) (le g)" by (simp add: list_bgl_def)
  show "case b_topological_sort list_bgl g of None \<Rightarrow> \<not> acyclic (set (le g))
     | Some xs \<Rightarrow> distinct xs \<and> set xs = set (av (list_view g)) \<and> (\<forall>(u, v)\<in>set (le g). \<exists>as bs cs. xs = as @ v # bs @ u # cs)"
  proof (cases "lsort (length (lv g)) (lv g) (le g)")
    case None
    then show ?thesis using lsort_complete [of "le g" "lv g" "length (lv g)"] d t by auto
  next
    case (Some xs)
    note s = lsort_sound [OF Some d]
    have "u \<in> set (lv g) \<and> v \<in> set (lv g)" if "(u, v) \<in> set (le g)" for u v using that by (auto simp: le_def lv_def)
    with s have "\<forall>(u, v)\<in>set (le g). comes_before xs v u" by auto
    with s t Some show ?thesis unfolding comes_before_def by (simp add: list_view_def)
  qed
qed

lemma list_start: "av (list_view list_empty) = []" "ae (list_view list_empty) = Map.empty"
  by (simp_all add: list_view_def list_empty_def lv_def le_def fun_eq_iff)

section \<open>Properties\<close>


definition sample_ops :: "dep_op list" where
  "sample_ops = [AddNode ''a'', AddNode ''b'', AddNode ''c'', AddNode ''a'', AddDep ''a'' ''b'', AddDep ''b'' ''c'', AddDep ''a'' ''x'', AskDep ''a'' ''b'']"

lemma sample_spec:
  "spec_run sample_ops ({}, {}) =
    ([True, True, True, False, True, True, False, True], {''a'', ''b'', ''c''}, {(''a'', ''b''), (''b'', ''c'')})"
  by (simp add: sample_ops_def) blast

lemma sample_acyclic: "acyclic {(''a'', ''b''), (''b'', ''c'')}"
proof -
  have "{(''a'', ''b''), (''b'', ''c'')} \<subseteq> (measure (\<lambda>s. if s = ''a'' then 2 else if s = ''b'' then 1 else (0 :: nat)))\<inverse>" by auto
  then show ?thesis by (meson acyclic_converse acyclic_subset wf_acyclic wf_measure)
qed


lemma run_state:
  assumes "bgl_queries G view" "bgl_updates G view" "av (view g0) = []" "ae (view g0) = Map.empty"
    "solver_run G ps (DependencySolver_new g0 n) = (rs, s)" "spec_run ps ({}, {}) = (bs, N, D)"
  shows "ig_ok view (dep s)" "nodes (dep s) = N" "deps view (dep s) = D"
  using solver_run_refines [OF assms(1,2) new_ok [where view = view, OF assms(3,4)], of ps n] assms(5,6) by (auto simp: solver_ok_def)





end
