(* ===== verification/Locked_Queue.thy ===== *)
theory Locked_Queue
  imports Prelude
begin

text \<open>
  The queue behind a mutex and a condition variable (\<open>include/core/ConcurrentQueue.h\<close>) and the signalling variable built on it
  (\<open>include/core/ConditionVariable.h\<close>, the implementation the source selects). What a thread does while it holds the mutex is one
  step; between steps other threads run. A waiting thread may wake up without a notification, \<open>notify_one\<close> wakes any
  one of the sleeping threads, and a timed wait may end at any time.
\<close>

section \<open>Under the lock\<close>

text \<open>A \<open>std::queue\<close> is a list with its front first.\<close>

definition cq_push :: "'a \<Rightarrow> 'a list \<Rightarrow> 'a list" where
  "cq_push data q = q @ [data]"

fun cq_clear :: "'a list \<Rightarrow> 'a list" where
  "cq_clear [] = []"
| "cq_clear (x # q) = cq_clear q"

definition cq_empty :: "'a list \<Rightarrow> bool" where
  "cq_empty q \<longleftrightarrow> q = []"

definition cq_try_peek :: "'a list \<Rightarrow> 'a option" where
  "cq_try_peek q = (case q of [] \<Rightarrow> None | x # _ \<Rightarrow> Some x)"

definition cq_try_pop :: "'a list \<Rightarrow> 'a option \<times> 'a list" where
  "cq_try_pop q = (case q of [] \<Rightarrow> (None, []) | x # xs \<Rightarrow> (Some x, xs))"

section \<open>Threads\<close>

text \<open>
  \<open>Notifying\<close>: in \<open>push\<close> between \<open>unlock\<close> and \<open>notify_one\<close>. \<open>Sleeping timed\<close>: waiting on the condition variable. \<open>Woken timed
  expired\<close>: about to take the lock again and to evaluate \<open>prevent_spurious_wakeup_predicate\<close>.
\<close>

datatype cq_pc = Outside | Notifying | Sleeping bool | Woken bool bool

datatype 'a cq_event = Push nat 'a | Notify nat "nat option" | Clear nat | Empty nat | TryPeek nat | TryPop nat
  | WaitPop nat bool | Wake nat | Expire nat | Resume nat

text \<open>
  \<open>pushed\<close> and \<open>taken\<close> are history: what was pushed, and what left the queue with the thread that received it (\<open>None\<close> for an
  element that \<open>clear\<close> dropped).
\<close>

record 'a cq_state =
  mQueue :: "'a list"
  cpc :: "nat \<Rightarrow> cq_pc"
  pushed :: "'a list"
  taken :: "(nat option \<times> 'a) list"

definition cq_new :: "'a cq_state" where
  "cq_new = \<lparr>mQueue = [], cpc = (\<lambda>_. Outside), pushed = [], taken = []\<rparr>"

definition set_cpc :: "nat \<Rightarrow> cq_pc \<Rightarrow> 'a cq_state \<Rightarrow> 'a cq_state" where
  "set_cpc t p s = s\<lparr>cpc := (cpc s)(t := p)\<rparr>"

definition deliver :: "nat \<Rightarrow> 'a cq_state \<Rightarrow> 'a cq_state" where
  "deliver t s = (case cq_try_pop (mQueue s) of (None, _) \<Rightarrow> s
     | (Some x, q) \<Rightarrow> s\<lparr>mQueue := q, taken := taken s @ [(Some t, x)]\<rparr>)"

definition is_sleeping :: "cq_pc \<Rightarrow> bool" where
  "is_sleeping p \<longleftrightarrow> (\<exists>b. p = Sleeping b)"

text \<open>
  One step; \<open>None\<close> when it is not possible. In \<open>Notify t r\<close> the thread \<open>t\<close> executes \<open>notify_one\<close> and \<open>r\<close> is the thread it
  wakes; \<open>None\<close> is possible only when no thread sleeps.
\<close>

definition notify_one :: "nat \<Rightarrow> nat option \<Rightarrow> 'a cq_state \<Rightarrow> 'a cq_state option" where
  "notify_one t r s = (case r of
       None \<Rightarrow> if \<exists>u. is_sleeping (cpc s u) then None else Some (set_cpc t Outside s)
     | Some u \<Rightarrow> (case cpc s u of Sleeping b \<Rightarrow> Some (set_cpc u (Woken b False) (set_cpc t Outside s)) | _ \<Rightarrow> None))"

text \<open>\<open>wait(lock, p)\<close> and \<open>timed_wait(lock, time, p)\<close> test the predicate first and after every wake-up.\<close>

definition wait_test :: "nat \<Rightarrow> bool \<Rightarrow> bool \<Rightarrow> 'a cq_state \<Rightarrow> 'a cq_state" where
  "wait_test t timed expired s =
     (if \<not> cq_empty (mQueue s) then set_cpc t Outside (deliver t s)
      else if expired then set_cpc t Outside s else set_cpc t (Sleeping timed) s)"

fun cq_step :: "'a cq_event \<Rightarrow> 'a cq_state \<Rightarrow> 'a cq_state option" where
  "cq_step (Push t x) s = (if cpc s t = Outside then
     Some (set_cpc t Notifying (s\<lparr>mQueue := cq_push x (mQueue s), pushed := pushed s @ [x]\<rparr>)) else None)"
| "cq_step (Notify t r) s = (if cpc s t = Notifying then notify_one t r s else None)"
| "cq_step (Clear t) s = (if cpc s t = Outside then
     Some (s\<lparr>mQueue := cq_clear (mQueue s), taken := taken s @ map (\<lambda>x. (None, x)) (mQueue s)\<rparr>) else None)"
| "cq_step (Empty t) s = (if cpc s t = Outside then Some s else None)"
| "cq_step (TryPeek t) s = (if cpc s t = Outside then Some s else None)"
| "cq_step (TryPop t) s = (if cpc s t = Outside then Some (deliver t s) else None)"
| "cq_step (WaitPop t timed) s = (if cpc s t = Outside then Some (wait_test t timed False s) else None)"
| "cq_step (Wake t) s = (case cpc s t of Sleeping b \<Rightarrow> Some (set_cpc t (Woken b False) s) | _ \<Rightarrow> None)"
| "cq_step (Expire t) s = (case cpc s t of Sleeping True \<Rightarrow> Some (set_cpc t (Woken True True) s) | _ \<Rightarrow> None)"
| "cq_step (Resume t) s = (case cpc s t of Woken b e \<Rightarrow> Some (wait_test t b e s) | _ \<Rightarrow> None)"

fun cq_run :: "'a cq_event list \<Rightarrow> 'a cq_state \<Rightarrow> 'a cq_state option" where
  "cq_run [] s = Some s"
| "cq_run (e # es) s = (case cq_step e s of None \<Rightarrow> None | Some s \<Rightarrow> cq_run es s)"

section \<open>The signalling variable\<close>

text \<open>\<open>ConditionVariable\<close>: \<open>signal\<close> pushes a value, \<open>wait\<close> pops one and blocks while there is none, \<open>reset\<close> clears.\<close>

definition cv_reset :: "'a list \<Rightarrow> 'a list" where
  "cv_reset q = cq_clear q"

definition cv_signal :: "'a \<Rightarrow> 'a list \<Rightarrow> 'a list" where
  "cv_signal result q = cq_push result q"

definition cv_wait :: "'a list \<Rightarrow> ('a \<times> 'a list) option" where
  "cv_wait q = (case cq_try_pop q of (None, _) \<Rightarrow> None | (Some x, q) \<Rightarrow> Some (x, q))"

definition cv_timed_wait :: "'a list \<Rightarrow> bool \<times> 'a option \<times> 'a list" where
  "cv_timed_wait q = (case cq_try_pop q of (None, q) \<Rightarrow> (False, None, q) | (Some x, q) \<Rightarrow> (True, Some x, q))"

section \<open>Order and wake-ups\<close>

lemma cq_clear_Nil [simp]: "cq_clear q = []"
  by (induction q) auto

definition busy :: "'a cq_state \<Rightarrow> nat set" where
  "busy s = {t. cpc s t = Notifying \<or> (\<exists>b e. cpc s t = Woken b e)}"

definition cq_inv :: "'a cq_state \<Rightarrow> bool" where
  "cq_inv s \<longleftrightarrow> pushed s = map snd (taken s) @ mQueue s \<and> finite (busy s) \<and>
     ((\<exists>t. is_sleeping (cpc s t)) \<longrightarrow> length (mQueue s) \<le> card (busy s))"

lemma busy_set_cpc:
  "busy (set_cpc t p s) = (if p = Notifying \<or> (\<exists>b e. p = Woken b e) then insert t (busy s) else busy s - {t})"
  by (auto simp: busy_def set_cpc_def)

lemma busy_eq: "cpc s' = cpc s \<Longrightarrow> busy s' = busy s"
  by (simp add: busy_def)

lemma set_cpc_simps [simp]: "mQueue (set_cpc t p s) = mQueue s" "pushed (set_cpc t p s) = pushed s" "taken (set_cpc t p s) = taken s"
  "cpc (set_cpc t p s) = (cpc s)(t := p)"
  by (simp_all add: set_cpc_def)

lemma cpc_deliver [simp]: "cpc (deliver t s) = cpc s" "pushed (deliver t s) = pushed s"
  by (simp_all add: deliver_def cq_try_pop_def split: list.splits)

lemma busy_deliver [simp]: "busy (deliver t s) = busy s"
  by (rule busy_eq) simp

lemma deliver_queue: "map snd (taken (deliver t s)) @ mQueue (deliver t s) = map snd (taken s) @ mQueue s"
  "length (mQueue (deliver t s)) = length (mQueue s) - 1"
  by (simp_all add: deliver_def cq_try_pop_def split: list.splits)

lemma wait_test_inv:
  assumes "cq_inv s" "cpc s t = Outside \<or> (\<exists>b e. cpc s t = Woken b e)"
  shows "cq_inv (wait_test t b e s)"
proof (cases "mQueue s = []")
  case True
  then show ?thesis using assms by (auto simp: wait_test_def cq_empty_def cq_inv_def busy_set_cpc)
next
  case False
  let ?s = "set_cpc t Outside (deliver t s)"
  have w: "wait_test t b e s = ?s" using False by (simp add: wait_test_def cq_empty_def)
  have b: "busy ?s = busy s - {t}" by (simp add: busy_set_cpc)
  have "length (mQueue ?s) \<le> card (busy ?s)" if "is_sleeping (cpc ?s u)" for u
  proof -
    have "is_sleeping (cpc s u)" using that by (auto simp: is_sleeping_def split: if_splits)
    then have "length (mQueue s) \<le> card (busy s)" using assms(1) by (auto simp: cq_inv_def)
    moreover have "card (busy s) - 1 \<le> card (busy s - {t})" using assms(1) by (simp add: cq_inv_def card_Diff_singleton_if)
    ultimately show ?thesis by (simp add: b deliver_queue)
  qed
  moreover have "finite (busy ?s)" "pushed ?s = map snd (taken ?s) @ mQueue ?s" using assms(1) b by (simp_all add: cq_inv_def deliver_queue)
  ultimately have "cq_inv ?s" unfolding cq_inv_def by blast
  then show ?thesis by (simp add: w)
qed

lemma cq_step_inv:
  assumes "cq_inv s" "cq_step e s = Some s'"
  shows "cq_inv s'"
proof (cases e)
  case (Push t x)
  then have s': "cpc s t = Outside" "s' = set_cpc t Notifying (s\<lparr>mQueue := cq_push x (mQueue s), pushed := pushed s @ [x]\<rparr>)"
    using assms(2) by (auto split: if_splits)
  have "t \<notin> busy s" using s'(1) by (simp add: busy_def)
  then show ?thesis using assms(1) by (auto simp: s'(2) cq_inv_def busy_set_cpc busy_eq [of "s\<lparr>mQueue := _, pushed := _\<rparr>" s] cq_push_def is_sleeping_def split: if_splits)
next
  case (Notify t r)
  then have t: "cpc s t = Notifying" "notify_one t r s = Some s'" using assms(2) by (auto split: if_splits)
  show ?thesis
  proof (cases r)
    case None
    then have "\<nexists>u. is_sleeping (cpc s u)" "s' = set_cpc t Outside s" using t(2) by (auto simp: notify_one_def split: if_splits)
    then show ?thesis using assms(1) by (auto simp: cq_inv_def busy_set_cpc is_sleeping_def split: if_splits)
  next
    case (Some u)
    then obtain b where u: "cpc s u = Sleeping b" "s' = set_cpc u (Woken b False) (set_cpc t Outside s)"
      using t(2) by (auto simp: notify_one_def split: cq_pc.splits)
    have "u \<notin> busy s" "t \<in> busy s" using u(1) t(1) by (auto simp: busy_def)
    then have "card (busy s') = Suc (card (busy s - {t}))" "finite (busy s')" using assms(1) by (auto simp: u(2) busy_set_cpc cq_inv_def)
    moreover have "Suc (card (busy s - {t})) = card (busy s)" using assms(1) \<open>t \<in> busy s\<close> by (intro card.remove [symmetric]) (auto simp: cq_inv_def)
    moreover have "is_sleeping (cpc s u)" using u(1) by (simp add: is_sleeping_def)
    ultimately show ?thesis using assms(1) by (auto simp: cq_inv_def u(2))
  qed
next
  case (Clear t)
  then show ?thesis using assms by (auto simp: cq_inv_def busy_def comp_def split: if_splits)
next
  case (TryPop t)
  then show ?thesis using assms by (auto simp: cq_inv_def deliver_queue split: if_splits)
next
  case (WaitPop t timed)
  then show ?thesis using assms wait_test_inv by (auto split: if_splits)
next
  case (Resume t)
  then show ?thesis using assms wait_test_inv by (fastforce split: cq_pc.splits)
next
  case (Wake t)
  then obtain b where t: "cpc s t = Sleeping b" "s' = set_cpc t (Woken b False) s" using assms(2) by (auto split: cq_pc.splits)
  have "t \<notin> busy s" "is_sleeping (cpc s t)" using t(1) by (auto simp: busy_def is_sleeping_def)
  then show ?thesis using assms(1) by (auto simp: cq_inv_def t(2) busy_set_cpc)
next
  case (Expire t)
  then obtain b where t: "cpc s t = Sleeping True" "s' = set_cpc t (Woken True True) s" using assms(2) by (auto split: cq_pc.splits bool.splits)
  have "t \<notin> busy s" "is_sleeping (cpc s t)" using t(1) by (auto simp: busy_def is_sleeping_def)
  then show ?thesis using assms(1) by (auto simp: cq_inv_def t(2) busy_set_cpc)
qed (use assms in \<open>auto split: if_splits\<close>)

lemma cq_run_inv: "cq_inv s \<Longrightarrow> cq_run es s = Some s' \<Longrightarrow> cq_inv s'"
  by (induction es arbitrary: s) (auto split: option.splits dest: cq_step_inv)

lemma cq_new_inv: "cq_inv cq_new"
  by (simp add: cq_inv_def cq_new_def busy_def is_sleeping_def)

text \<open>
  C23. The locked queue is a queue and loses no wake-up. Whatever the interleaving of any number of threads, spurious wake-ups
  and expiring timeouts included, elements leave in the order in which they were pushed and each at most once; and while
  a thread sleeps, every element in the queue has a notification under way or a woken thread that is about to
  look at it, so no thread sleeps beside an element that nobody will take.
\<close>
theorem locked_queue_wakeup:
  assumes "cq_run es cq_new = Some s"
  shows "pushed s = map snd (taken s) @ mQueue s \<and>
    ((\<exists>t. is_sleeping (cpc s t)) \<longrightarrow> length (mQueue s) \<le> card {u. cpc s u = Notifying \<or> (\<exists>b e. cpc s u = Woken b e)})"
  using cq_run_inv [OF cq_new_inv assms] by (auto simp: cq_inv_def busy_def)

definition cq_sample :: "nat cq_event list" where
  "cq_sample = [WaitPop 1 False, WaitPop 2 True, Push 0 7, Notify 0 (Some 1), Push 0 8, Resume 1]"

theorem locked_queue_wakeup_witness:
  "\<exists>s. cq_run cq_sample cq_new = Some s \<and> pushed s = [7, 8] \<and> map snd (taken s) @ mQueue s = [7, 8] \<and> mQueue s = [8] \<and>
    length (mQueue s) \<le> card {u. cpc s u = Notifying \<or> (\<exists>b e. cpc s u = Woken b e)}"
proof -
  have r: "\<exists>s. cq_run cq_sample cq_new = Some s \<and> pushed s = [7, 8] \<and> mQueue s = [8] \<and> cpc s 2 = Sleeping True"
    by (simp add: cq_sample_def cq_new_def wait_test_def notify_one_def deliver_def cq_try_pop_def cq_push_def cq_empty_def is_sleeping_def set_cpc_def)
  then obtain s where s: "cq_run cq_sample cq_new = Some s" "pushed s = [7, 8]" "mQueue s = [8]" "is_sleeping (cpc s 2)" by (auto simp: is_sleeping_def)
  show ?thesis using locked_queue_wakeup [OF s(1)] s by auto
qed

end
