(* ===== verification/Worker.thy ===== *)
theory Worker
  imports Locked_Queue "HOL-Library.Multiset"
begin

text \<open>
  The task dispatcher of \<open>include/core/Worker.h\<close>: callers hand handlers to threads that run an \<open>io_service\<close>, and a blocking caller
  waits on the condition variable of a slot that it takes from a table and that the executing thread gives back. The
  step between two accesses to shared state is the unit of interleaving; clients and executing threads are numbered.
  \<open>boost::asio::io_service\<close> and \<open>tbb::concurrent_bounded_queue\<close> are not part of the sources: what the code calls of them is
  a parameter (\<open>worker_lib\<close>), with what their documentation promises in \<open>worker_laws\<close>.
\<close>

section \<open>State\<close>

text \<open>A queued handler, plain or bound to \<open>Worker::wrap\<close> with the key of its slot.\<close>

datatype 'h job = Plain 'h | Wrapped nat 'h

record ('io, 'q, 'h) worker_lib =
  io_new :: 'io
  io_post :: "'h job \<Rightarrow> 'io \<Rightarrow> 'io"
  io_next :: "'io \<Rightarrow> ('h job \<times> 'io) option"
  slot_new :: 'q
  slot_push :: "nat \<Rightarrow> 'q \<Rightarrow> 'q"
  slot_pop :: "'q \<Rightarrow> (nat \<times> 'q) option"

text \<open>Every handler that was posted is taken once, in an unspecified order; the same of the keys in the bounded queue.\<close>

definition worker_laws :: "('io, 'q, 'h) worker_lib \<Rightarrow> ('io \<Rightarrow> 'h job multiset) \<Rightarrow> ('q \<Rightarrow> nat multiset) \<Rightarrow> bool" where
  "worker_laws L jobs keys \<longleftrightarrow> jobs (io_new L) = {#} \<and> keys (slot_new L) = {#} \<and>
     (\<forall>j q. jobs (io_post L j q) = add_mset j (jobs q)) \<and> (\<forall>k q. keys (slot_push L k q) = add_mset k (keys q)) \<and>
     (\<forall>q. case io_next L q of None \<Rightarrow> jobs q = {#} | Some (j, q') \<Rightarrow> jobs q = add_mset j (jobs q')) \<and>
     (\<forall>q. case slot_pop L q of None \<Rightarrow> keys q = {#} | Some (k, q') \<Rightarrow> keys q = add_mset k (keys q'))"

text \<open>
  Where a thread stands. \<open>PopSlot\<close> to \<open>Submit\<close> are the statements of a blocking \<open>dispatch\<close> or \<open>post\<close> and of \<open>async\<close>; \<open>Await\<close> is the wait on
  the condition of a slot, at the end of a blocking call with handler \<open>h\<close> (\<open>Some h\<close>) or in \<open>wait(key)\<close>; \<open>InWrap\<close> is
  \<open>Worker::wrap\<close> before the test of the cancellation flag, the call of the handler, the signal and the return of the slot, with
  the place where the thread continues.
\<close>

datatype call = Dispatch | Post | Async
datatype stage = Check | Exec | Signal | Release
datatype 'h wpc = WOutside | PopSlot call 'h | SetFlag call nat 'h | ResetCond nat 'h | Submit call nat 'h
  | Await nat "'h option" | InWrap stage nat 'h "'h wpc" | RunPlain 'h

text \<open>
  \<open>executed\<close>, \<open>finished\<close> and \<open>lost\<close> are history: handlers that have run, handlers whose blocking call has returned, and keys whose slot
  \<open>wrap\<close> did not give back. \<open>threads\<close> is the number of threads.
\<close>

record ('io, 'q, 'h) worker =
  mIoService :: 'io
  mTerminated :: bool
  mConditionTableSize :: nat
  mConditionSlots :: 'q
  mConditions :: "nat \<Rightarrow> nat list"
  mCancellationFlags :: "nat \<Rightarrow> bool"
  threads :: nat
  wpc :: "nat \<Rightarrow> 'h wpc"
  executed :: "'h list"
  finished :: "'h list"
  lost :: "nat list"

definition Worker_new :: "('io, 'q, 'h) worker_lib \<Rightarrow> nat \<Rightarrow> nat \<Rightarrow> ('io, 'q, 'h) worker" where
  "Worker_new L maxConcurrentCalls nthreads =
     \<lparr>mIoService = io_new L, mTerminated = False, mConditionTableSize = maxConcurrentCalls,
      mConditionSlots = fold (slot_push L) [0..<maxConcurrentCalls] (slot_new L), mConditions = (\<lambda>_. []),
      mCancellationFlags = (\<lambda>_. False), threads = nthreads, wpc = (\<lambda>_. WOutside), executed = [], finished = [], lost = []\<rparr>"

section \<open>Steps\<close>

definition set_wpc :: "nat \<Rightarrow> 'h wpc \<Rightarrow> ('io, 'q, 'h) worker \<Rightarrow> ('io, 'q, 'h) worker" where
  "set_wpc t p s = s\<lparr>wpc := (wpc s)(t := p)\<rparr>"

definition set_cond :: "nat \<Rightarrow> nat list \<Rightarrow> ('io, 'q, 'h) worker \<Rightarrow> ('io, 'q, 'h) worker" where
  "set_cond k q s = s\<lparr>mConditions := (mConditions s)(k := q)\<rparr>"

definition set_flag :: "nat \<Rightarrow> bool \<Rightarrow> ('io, 'q, 'h) worker \<Rightarrow> ('io, 'q, 'h) worker" where
  "set_flag k b s = s\<lparr>mCancellationFlags := (mCancellationFlags s)(k := b)\<rparr>"

text \<open>The statements of \<open>Worker::wrap\<close>; \<open>threw\<close>: the handler throws, and the rest of the function is skipped.\<close>

fun worker_wrap :: "('io, 'q, 'h) worker_lib \<Rightarrow> bool \<Rightarrow> stage \<Rightarrow> nat \<Rightarrow> 'h \<Rightarrow> 'h wpc \<Rightarrow> ('io, 'q, 'h) worker \<Rightarrow> 'h wpc \<times> ('io, 'q, 'h) worker" where
  "worker_wrap L threw Check k h ret s = (if \<not> mCancellationFlags s k then (InWrap Exec k h ret, s)
     else (ret, set_flag k False (s\<lparr>lost := lost s @ [k]\<rparr>)))"
| "worker_wrap L threw Exec k h ret s = (if threw then (WOutside, s\<lparr>lost := lost s @ [k]\<rparr>)
     else (InWrap Signal k h ret, s\<lparr>executed := executed s @ [h]\<rparr>))"
| "worker_wrap L threw Signal k h ret s = (InWrap Release k h ret, set_cond k (cv_signal 0 (mConditions s k)) s)"
| "worker_wrap L threw Release k h ret s = (ret, s\<lparr>mConditionSlots := slot_push L k (mConditionSlots s)\<rparr>)"

text \<open>
  The next step of a thread, \<open>None\<close> while it is blocked; \<open>inside\<close>: it is called from a thread that runs the \<open>io_service\<close>, where
  \<open>io_service::dispatch\<close> executes the handler at once.
\<close>

fun advance :: "('io, 'q, 'h) worker_lib \<Rightarrow> bool \<Rightarrow> bool \<Rightarrow> 'h wpc \<Rightarrow> ('io, 'q, 'h) worker \<Rightarrow> ('h wpc \<times> ('io, 'q, 'h) worker) option" where
  "advance L inside threw WOutside s = None"
| "advance L inside threw (PopSlot c h) s = (case slot_pop L (mConditionSlots s) of None \<Rightarrow> None
     | Some (k, q) \<Rightarrow> Some (SetFlag c k h, s\<lparr>mConditionSlots := q\<rparr>))"
| "advance L inside threw (SetFlag c k h) s = Some (if c = Async then ResetCond k h else Submit c k h, set_flag k False s)"
| "advance L inside threw (ResetCond k h) s = Some (Submit Async k h, set_cond k (cv_reset (mConditions s k)) s)"
| "advance L inside threw (Submit c k h) s = Some (if c = Dispatch \<and> inside then (InWrap Check k h (Await k (Some h)), s)
     else (if c = Async then WOutside else Await k (Some h), s\<lparr>mIoService := io_post L (Wrapped k h) (mIoService s)\<rparr>))"
| "advance L inside threw (Await k r) s = (case cv_wait (mConditions s k) of None \<Rightarrow> None
     | Some (_, q) \<Rightarrow> Some (WOutside, set_cond k q (s\<lparr>finished := finished s @ (case r of None \<Rightarrow> [] | Some h \<Rightarrow> [h])\<rparr>)))"
| "advance L inside threw (InWrap st k h ret) s = Some (worker_wrap L threw st k h ret s)"
| "advance L inside threw (RunPlain h) s = Some (WOutside, if threw then s else s\<lparr>executed := executed s @ [h]\<rparr>)"

text \<open>
  What can happen: a call of \<open>dispatch\<close>, \<open>post\<close> (blocking) or \<open>async\<close>; a call of \<open>dispatch\<close> or \<open>post\<close> that does not block; \<open>wait\<close>; the end of a
  \<open>timed_wait\<close> without a signal; \<open>cancel\<close>; a thread in \<open>run\<close> takes a handler; a thread goes on; \<open>stop\<close>.
\<close>

datatype 'h wevent = Call nat call 'h | CallPlain nat call 'h | WaitKey nat nat | TimeOut nat | Cancel nat nat | Take nat
  | Advance nat bool bool | Stop

fun worker_step :: "('io, 'q, 'h) worker_lib \<Rightarrow> 'h wevent \<Rightarrow> ('io, 'q, 'h) worker \<Rightarrow> ('io, 'q, 'h) worker option" where
  "worker_step L (Call t c h) s = (if t < threads s \<and> wpc s t = WOutside then Some (set_wpc t (PopSlot c h) s) else None)"
| "worker_step L (CallPlain t c h) s = (if t < threads s \<and> wpc s t = WOutside
     then Some (s\<lparr>mIoService := io_post L (Plain h) (mIoService s)\<rparr>) else None)"
| "worker_step L (WaitKey t k) s = (if t < threads s \<and> wpc s t = WOutside then Some (set_wpc t (Await k None) s) else None)"
| "worker_step L (TimeOut t) s = (case wpc s t of Await k None \<Rightarrow>
     if t < threads s \<and> \<not> fst (cv_timed_wait (mConditions s k)) then Some (set_wpc t WOutside s) else None | _ \<Rightarrow> None)"
| "worker_step L (Cancel t k) s = (if t < threads s \<and> wpc s t = WOutside then Some (set_flag k True s) else None)"
| "worker_step L (Take t) s = (if t < threads s \<and> wpc s t = WOutside \<and> \<not> mTerminated s then
     (case io_next L (mIoService s) of None \<Rightarrow> None
      | Some (Plain h, q) \<Rightarrow> Some (set_wpc t (RunPlain h) (s\<lparr>mIoService := q\<rparr>))
      | Some (Wrapped k h, q) \<Rightarrow> Some (set_wpc t (InWrap Check k h WOutside) (s\<lparr>mIoService := q\<rparr>))) else None)"
| "worker_step L (Advance t inside threw) s = (if t < threads s then
     (case advance L inside threw (wpc s t) s of None \<Rightarrow> None | Some (p, s) \<Rightarrow> Some (set_wpc t p s)) else None)"
| "worker_step L Stop s = Some (s\<lparr>mTerminated := True\<rparr>)"

fun worker_run :: "('io, 'q, 'h) worker_lib \<Rightarrow> 'h wevent list \<Rightarrow> ('io, 'q, 'h) worker \<Rightarrow> ('io, 'q, 'h) worker option" where
  "worker_run L [] s = Some s"
| "worker_run L (e # es) s = (case worker_step L e s of None \<Rightarrow> None | Some s \<Rightarrow> worker_run L es s)"

end
