(* ===== verification/Worker_Spec.thy ===== *)
theory Worker_Spec
  imports Worker
begin

text \<open>
  What the slots and signals of a worker guarantee. No slot is ever held twice, and none is lost unless a call is cancelled or
  a handler throws. A blocking call of a single client returns after its handler has run. With two clients this fails: the
  slot is given back after the signal but before the waiting caller has taken it, and the next owner of
  the slot can take it instead.
\<close>

section \<open>Slots\<close>

lemma worker_lawsD:
  assumes "worker_laws L jobs keys"
  shows "jobs (io_new L) = {#}" "keys (slot_new L) = {#}" "jobs (io_post L j q) = add_mset j (jobs q)"
    "keys (slot_push L k r) = add_mset k (keys r)"
    "io_next L q = None \<Longrightarrow> jobs q = {#}" "io_next L q = Some (j, q') \<Longrightarrow> jobs q = add_mset j (jobs q')"
    "slot_pop L r = None \<Longrightarrow> keys r = {#}" "slot_pop L r = Some (k, r') \<Longrightarrow> keys r = add_mset k (keys r')"
proof -
  have i: "case io_next L q of None \<Rightarrow> jobs q = {#} | Some (j, q') \<Rightarrow> jobs q = add_mset j (jobs q')"
    and s: "case slot_pop L r of None \<Rightarrow> keys r = {#} | Some (k, r') \<Rightarrow> keys r = add_mset k (keys r')"
    using assms unfolding worker_laws_def by blast+
  show "jobs (io_new L) = {#}" "keys (slot_new L) = {#}" "jobs (io_post L j q) = add_mset j (jobs q)"
    "keys (slot_push L k r) = add_mset k (keys r)" using assms unfolding worker_laws_def by blast+
  show "io_next L q = None \<Longrightarrow> jobs q = {#}" "io_next L q = Some (j, q') \<Longrightarrow> jobs q = add_mset j (jobs q')" using i by auto
  show "slot_pop L r = None \<Longrightarrow> keys r = {#}" "slot_pop L r = Some (k, r') \<Longrightarrow> keys r = add_mset k (keys r')" using s by auto
qed

text \<open>The key a thread is responsible for, and the keys of queued handlers.\<close>

fun held :: "'h wpc \<Rightarrow> nat multiset" where
  "held (SetFlag c k h) = {#k#}"
| "held (ResetCond k h) = {#k#}"
| "held (Submit c k h) = {#k#}"
| "held (InWrap st k h ret) = {#k#}"
| "held _ = {#}"

fun job_keys :: "'h job \<Rightarrow> nat multiset" where
  "job_keys (Wrapped k h) = {#k#}"
| "job_keys (Plain h) = {#}"

definition queued_keys :: "('io \<Rightarrow> 'h job multiset) \<Rightarrow> ('io, 'q, 'h) worker \<Rightarrow> nat multiset" where
  "queued_keys jobs s = \<Sum>\<^sub># (image_mset job_keys (jobs (mIoService s)))"

definition thread_keys :: "('io, 'q, 'h) worker \<Rightarrow> nat multiset" where
  "thread_keys s = (\<Sum>t<threads s. held (wpc s t))"

fun ret_ok :: "'h wpc \<Rightarrow> bool" where
  "ret_ok (InWrap st k h ret) \<longleftrightarrow> held ret = {#} \<and> (\<forall>st' k' h' r. ret \<noteq> InWrap st' k' h' r)"
| "ret_ok _ \<longleftrightarrow> True"

lemma ret_okI: "\<forall>st k h r. p \<noteq> InWrap st k h r \<Longrightarrow> ret_ok p"
  by (cases p) auto

lemma held_update:
  assumes "t < threads s"
  shows "thread_keys (set_wpc t p s) + held (wpc s t) = thread_keys s + held p"
proof -
  have r: "(\<Sum>u<threads s. f u) = f t + (\<Sum>u\<in>{..<threads s} - {t}. f u)" for f :: "nat \<Rightarrow> nat multiset"
    using assms by (intro sum.remove) auto
  have "(\<Sum>u\<in>{..<threads s} - {t}. held (((wpc s)(t := p)) u)) = (\<Sum>u\<in>{..<threads s} - {t}. held (wpc s u))"
    by (intro sum.cong) auto
  then show ?thesis using r [of "\<lambda>u. held (((wpc s)(t := p)) u)"] r [of "\<lambda>u. held (wpc s u)"]
    by (simp add: thread_keys_def set_wpc_def)
qed

lemma set_wpc_simps [simp]: "mIoService (set_wpc t p s) = mIoService s" "mConditionSlots (set_wpc t p s) = mConditionSlots s"
  "mConditions (set_wpc t p s) = mConditions s" "mCancellationFlags (set_wpc t p s) = mCancellationFlags s" "threads (set_wpc t p s) = threads s"
  "wpc (set_wpc t p s) = (wpc s)(t := p)" "executed (set_wpc t p s) = executed s" "finished (set_wpc t p s) = finished s" "lost (set_wpc t p s) = lost s"
  "mConditionTableSize (set_wpc t p s) = mConditionTableSize s"
  by (simp_all add: set_wpc_def)

lemma set_cond_simps [simp]: "mIoService (set_cond k q s) = mIoService s" "mConditionSlots (set_cond k q s) = mConditionSlots s"
  "mConditions (set_cond k q s) = (mConditions s)(k := q)" "mCancellationFlags (set_cond k q s) = mCancellationFlags s" "threads (set_cond k q s) = threads s"
  "wpc (set_cond k q s) = wpc s" "executed (set_cond k q s) = executed s" "finished (set_cond k q s) = finished s" "lost (set_cond k q s) = lost s"
  "mConditionTableSize (set_cond k q s) = mConditionTableSize s"
  by (simp_all add: set_cond_def)

lemma set_flag_simps [simp]: "mIoService (set_flag k b s) = mIoService s" "mConditionSlots (set_flag k b s) = mConditionSlots s"
  "mConditions (set_flag k b s) = mConditions s" "mCancellationFlags (set_flag k b s) = (mCancellationFlags s)(k := b)" "threads (set_flag k b s) = threads s"
  "wpc (set_flag k b s) = wpc s" "executed (set_flag k b s) = executed s" "finished (set_flag k b s) = finished s" "lost (set_flag k b s) = lost s"
  "mConditionTableSize (set_flag k b s) = mConditionTableSize s"
  by (simp_all add: set_flag_def)

definition slots_ok :: "('io \<Rightarrow> 'h job multiset) \<Rightarrow> ('q \<Rightarrow> nat multiset) \<Rightarrow> ('io, 'q, 'h) worker \<Rightarrow> bool" where
  "slots_ok jobs keys s \<longleftrightarrow> (\<forall>t. ret_ok (wpc s t)) \<and>
     keys (mConditionSlots s) + thread_keys s + queued_keys jobs s + mset (lost s) = mset [0..<mConditionTableSize s]"

text \<open>A step of a thread moves its key, or leaves it behind as lost.\<close>

lemma advance_keys:
  assumes "worker_laws L jobs keys" "advance L i threw p s = Some (p', s')" "ret_ok p"
  shows "keys (mConditionSlots s') + held p' + queued_keys jobs s' + mset (lost s') = keys (mConditionSlots s) + held p + queued_keys jobs s + mset (lost s)"
    "ret_ok p'" "threads s' = threads s" "wpc s' = wpc s" "mConditionTableSize s' = mConditionTableSize s"
proof -
  note l = worker_lawsD [OF assms(1)]
  show "keys (mConditionSlots s') + held p' + queued_keys jobs s' + mset (lost s') = keys (mConditionSlots s) + held p + queued_keys jobs s + mset (lost s)"
    using assms(2,3) l(8)
    by (cases "(L, i, threw, p, s)" rule: advance.cases)
      (auto simp: queued_keys_def l cv_wait_def split: option.splits if_splits prod.splits elim!: worker_wrap.elims)
  show "ret_ok p'" using assms(2,3)
    by (cases "(L, i, threw, p, s)" rule: advance.cases)
      (auto split: option.splits if_splits prod.splits elim!: worker_wrap.elims intro: ret_okI)
  show "threads s' = threads s" "wpc s' = wpc s" "mConditionTableSize s' = mConditionTableSize s" using assms(2)
    by (cases "(L, i, threw, p, s)" rule: advance.cases; auto split: option.splits if_splits prod.splits elim!: worker_wrap.elims)+
qed

lemma shift_sum:
  fixes a :: "nat multiset"
  assumes "a' + p' + q' + l' = a + p + q + l" "T' + p = T + p'" "a + T + q + l = M"
  shows "a' + T' + q' + l' = M"
proof -
  have "(a' + T' + q' + l') + p = (a' + q' + l') + (T' + p)" by (simp add: ac_simps)
  also have "\<dots> = (a' + p' + q' + l') + T" unfolding assms(2) by (simp add: ac_simps)
  also have "\<dots> = (a + T + q + l) + p" unfolding assms(1) by (simp add: ac_simps)
  finally show ?thesis by (simp add: assms(3))
qed

lemma slots_ok_move:
  assumes "slots_ok jobs keys s" "t < threads s" "threads s1 = threads s" "wpc s1 = wpc s" "mConditionTableSize s1 = mConditionTableSize s"
    "keys (mConditionSlots s1) + held p + queued_keys jobs s1 + mset (lost s1) = keys (mConditionSlots s) + held (wpc s t) + queued_keys jobs s + mset (lost s)"
    "ret_ok p"
  shows "slots_ok jobs keys (set_wpc t p s1)"
proof -
  have "thread_keys (set_wpc t p s1) + held (wpc s t) = thread_keys s + held p"
    using held_update [of t s1 p] assms(2-4) by (simp add: thread_keys_def)
  from shift_sum [OF assms(6) this] have "keys (mConditionSlots s1) + thread_keys (set_wpc t p s1) + queued_keys jobs s1 + mset (lost s1) = mset [0..<mConditionTableSize s]"
    using assms(1) by (simp add: slots_ok_def)
  then show ?thesis using assms(1,4,5,7) by (auto simp: slots_ok_def queued_keys_def)
qed

lemma step_slots:
  assumes W: "worker_laws L jobs keys" and ok: "slots_ok jobs keys s" and st: "worker_step L e s = Some s'"
  shows "slots_ok jobs keys s' \<and> mConditionTableSize s' = mConditionTableSize s"
proof (cases e)
  case (Call t c h)
  then have "t < threads s" "wpc s t = WOutside" "s' = set_wpc t (PopSlot c h) s" using st by (auto split: if_splits)
  then show ?thesis using slots_ok_move [OF ok, of t s] by simp
next
  case (CallPlain t c h)
  then have "s' = s\<lparr>mIoService := io_post L (Plain h) (mIoService s)\<rparr>" using st by (auto split: if_splits)
  then show ?thesis using ok by (simp add: slots_ok_def queued_keys_def thread_keys_def worker_lawsD [OF W])
next
  case (WaitKey t k)
  then have "t < threads s" "wpc s t = WOutside" "s' = set_wpc t (Await k None) s" using st by (auto split: if_splits)
  then show ?thesis using slots_ok_move [OF ok, of t s] by simp
next
  case (TimeOut t)
  then obtain k where "t < threads s" "wpc s t = Await k None" "s' = set_wpc t WOutside s" using st by (auto split: if_splits wpc.splits option.splits)
  then show ?thesis using slots_ok_move [OF ok, of t s] by simp
next
  case (Cancel t k)
  then have "s' = set_flag k True s" using st by (auto split: if_splits)
  then show ?thesis using ok by (simp add: slots_ok_def queued_keys_def thread_keys_def)
next
  case (Take t)
  then obtain j q where t: "t < threads s" "wpc s t = WOutside" and j: "io_next L (mIoService s) = Some (j, q)"
    and s': "s' = set_wpc t (case j of Plain h \<Rightarrow> RunPlain h | Wrapped k h \<Rightarrow> InWrap Check k h WOutside) (s\<lparr>mIoService := q\<rparr>)"
    using st by (auto split: if_splits option.splits job.splits)
  have "jobs (mIoService s) = add_mset j (jobs q)" by (rule worker_lawsD(6) [OF W j])
  then show ?thesis unfolding s' using slots_ok_move [OF ok t(1), of "s\<lparr>mIoService := q\<rparr>"] t(2) by (cases j) (auto simp: queued_keys_def)
next
  case (Advance t i threw)
  then obtain p s1 where t: "t < threads s" and a: "advance L i threw (wpc s t) s = Some (p, s1)" and s': "s' = set_wpc t p s1"
    using st by (auto split: if_splits option.splits)
  have "ret_ok (wpc s t)" using ok by (simp add: slots_ok_def)
  note k = advance_keys [OF W a this]
  show ?thesis unfolding s' using slots_ok_move [OF ok t k(3,4,5,1,2)] k(5) by simp
next
  case Stop
  then show ?thesis using st ok by (auto simp: slots_ok_def queued_keys_def thread_keys_def)
qed

lemma fold_push_keys: "worker_laws L jobs keys \<Longrightarrow> keys (fold (slot_push L) xs q) = mset xs + keys q"
  by (induction xs arbitrary: q) (auto simp: worker_lawsD(4))

lemma new_slots: "worker_laws L jobs keys \<Longrightarrow> slots_ok jobs keys (Worker_new L n m)"
  by (simp add: slots_ok_def Worker_new_def fold_push_keys worker_lawsD thread_keys_def queued_keys_def)

lemma run_slots:
  assumes "worker_laws L jobs keys"
  shows "slots_ok jobs keys s \<Longrightarrow> worker_run L es s = Some s' \<Longrightarrow> slots_ok jobs keys s' \<and> mConditionTableSize s' = mConditionTableSize s"
  by (induction es arbitrary: s) (use step_slots [OF assms] in \<open>fastforce split: option.splits\<close>)+

text \<open>Nothing is lost while no call is cancelled and no handler throws.\<close>

fun calm :: "'h wevent \<Rightarrow> bool" where
  "calm (Cancel t k) = False"
| "calm (Advance t inside threw) \<longleftrightarrow> \<not> threw"
| "calm _ = True"

definition none_lost :: "('io, 'q, 'h) worker \<Rightarrow> bool" where
  "none_lost s \<longleftrightarrow> lost s = [] \<and> (\<forall>k. \<not> mCancellationFlags s k)"

lemma advance_none_lost: "advance L i False p s = Some (p', s') \<Longrightarrow> none_lost s \<Longrightarrow> none_lost s'"
  by (cases "(L, i, False, p, s)" rule: advance.cases)
    (auto simp: none_lost_def split: option.splits if_splits prod.splits elim!: worker_wrap.elims)

lemma step_none_lost: "worker_step L e s = Some s' \<Longrightarrow> calm e \<Longrightarrow> none_lost s \<Longrightarrow> none_lost s'"
  by (cases e) (auto split: if_splits option.splits wpc.splits job.splits dest: advance_none_lost simp: none_lost_def)

lemma run_none_lost: "worker_run L es s = Some s' \<Longrightarrow> \<forall>e\<in>set es. calm e \<Longrightarrow> none_lost s \<Longrightarrow> none_lost s'"
  by (induction es arbitrary: s) (use step_none_lost in \<open>fastforce split: option.splits\<close>)+

text \<open>
  C21. The slots of a worker are conserved. In every state reached by calls, waits, cancellations and executing threads in any
  interleaving, every key of the table is in exactly one place: free, with a caller between taking it and queueing
  the handler, with a queued handler, with a thread inside \<open>wrap\<close>, or lost; and none is lost unless a call was cancelled
  or a handler threw.
\<close>
theorem worker_slots_conserved:
  assumes "worker_laws L jobs keys" "worker_run L es (Worker_new L n m) = Some s"
  shows "keys (mConditionSlots s) + (\<Sum>t<threads s. held (wpc s t)) + \<Sum>\<^sub># (image_mset job_keys (jobs (mIoService s))) + mset (lost s) = mset [0..<n] \<and>
    (list_all calm es \<longrightarrow> lost s = [])"
proof -
  have "slots_ok jobs keys s" "mConditionTableSize s = n"
    using run_slots [OF assms(1) new_slots [OF assms(1)] assms(2)] by (auto simp: Worker_new_def)
  moreover have "lost s = []" if "list_all calm es"
    using run_none_lost [OF assms(2)] that by (simp add: none_lost_def Worker_new_def list_all_iff)
  ultimately show ?thesis by (simp add: slots_ok_def thread_keys_def queued_keys_def)
qed

section \<open>First in, first out\<close>

text \<open>An instance of the library for the witnesses: both queues are lists.\<close>

definition list_lib :: "('h job list, nat list, 'h) worker_lib" where
  "list_lib = \<lparr>io_new = [], io_post = (\<lambda>j q. q @ [j]), io_next = (\<lambda>q. case q of [] \<Rightarrow> None | j # q \<Rightarrow> Some (j, q)),
     slot_new = [], slot_push = (\<lambda>k q. q @ [k]), slot_pop = (\<lambda>q. case q of [] \<Rightarrow> None | k # q \<Rightarrow> Some (k, q))\<rparr>"

lemma list_lib_laws: "worker_laws list_lib mset mset"
  by (simp add: worker_laws_def list_lib_def split: list.splits)

lemmas worker_eval = list_lib_def Worker_new_def set_wpc_def set_cond_def set_flag_def cv_wait_def cv_signal_def cq_try_pop_def cq_push_def
  cv_reset_def cv_timed_wait_def upt_rec

definition cancel_run :: "nat wevent list" where
  "cancel_run = [Call 0 Async 7, Advance 0 False False, Advance 0 False False, Advance 0 False False, Advance 0 False False,
     Cancel 0 0, WaitKey 0 0, Take 1, Advance 1 False False]"

theorem worker_slots_conserved_witness:
  "\<exists>s. worker_run list_lib cancel_run (Worker_new list_lib 1 2) = Some s \<and> mConditionSlots s = [] \<and> mIoService s = [] \<and> wpc s 0 = Await 0 None \<and>
    mset (mConditionSlots s) + (\<Sum>t<threads s. held (wpc s t)) + \<Sum>\<^sub># (image_mset job_keys (mset (mIoService s))) + mset (lost s) = mset [0..<1]"
proof -
  have "\<exists>s. worker_run list_lib cancel_run (Worker_new list_lib 1 2) = Some s \<and> mConditionSlots s = [] \<and> mIoService s = [] \<and> wpc s 0 = Await 0 None"
    by (simp add: cancel_run_def worker_eval)
  then show ?thesis using worker_slots_conserved [OF list_lib_laws, of cancel_run 1 2] by blast
qed

section \<open>One client\<close>

text \<open>
  The life of a blocking call of the only client \<open>c\<close>: nothing outstanding, queued, inside \<open>wrap\<close> up to the signal, signalled. Threads
  that still have to return the slot of an earlier call do not matter.
\<close>

datatype 'h phase = Quiet | Queued nat 'h | Running nat stage nat 'h | Signalled nat 'h

fun acting :: "'h wpc \<Rightarrow> bool" where
  "acting (InWrap st k h ret) \<longleftrightarrow> st \<noteq> Release"
| "acting _ \<longleftrightarrow> False"

fun is_wrapped :: "'h job \<Rightarrow> bool" where
  "is_wrapped (Wrapped k h) = True"
| "is_wrapped (Plain h) = False"

text \<open>Where the client may be between calls, and where any other thread may be.\<close>

fun client_pc :: "'h wpc \<Rightarrow> bool" where
  "client_pc (PopSlot c h) \<longleftrightarrow> c \<noteq> Async"
| "client_pc (SetFlag c k h) \<longleftrightarrow> c \<noteq> Async"
| "client_pc (Submit c k h) \<longleftrightarrow> c \<noteq> Async"
| "client_pc WOutside \<longleftrightarrow> True"
| "client_pc _ \<longleftrightarrow> False"

fun server_pc :: "'h wpc \<Rightarrow> bool" where
  "server_pc WOutside \<longleftrightarrow> True"
| "server_pc (RunPlain h) \<longleftrightarrow> True"
| "server_pc (InWrap st k h ret) \<longleftrightarrow> ret = WOutside"
| "server_pc _ \<longleftrightarrow> False"

fun phase_ok :: "('io \<Rightarrow> 'h job multiset) \<Rightarrow> nat \<Rightarrow> 'h phase \<Rightarrow> ('io, 'q, 'h) worker \<Rightarrow> bool" where
  "phase_ok jobs c Quiet s \<longleftrightarrow> filter_mset is_wrapped (jobs (mIoService s)) = {#} \<and> (\<forall>t. \<not> acting (wpc s t)) \<and> mConditions s = (\<lambda>_. []) \<and> client_pc (wpc s c)"
| "phase_ok jobs c (Queued k h) s \<longleftrightarrow> filter_mset is_wrapped (jobs (mIoService s)) = {#Wrapped k h#} \<and> (\<forall>t. \<not> acting (wpc s t)) \<and> mConditions s = (\<lambda>_. []) \<and>
     wpc s c = Await k (Some h)"
| "phase_ok jobs c (Running t st k h) s \<longleftrightarrow> filter_mset is_wrapped (jobs (mIoService s)) = {#} \<and> (\<forall>u. acting (wpc s u) \<longrightarrow> u = t) \<and> mConditions s = (\<lambda>_. []) \<and>
     st \<noteq> Release \<and> (st = Signal \<longrightarrow> h \<in> set (executed s)) \<and>
     (if t = c then wpc s c = InWrap st k h (Await k (Some h)) else wpc s t = InWrap st k h WOutside \<and> wpc s c = Await k (Some h))"
| "phase_ok jobs c (Signalled k h) s \<longleftrightarrow> filter_mset is_wrapped (jobs (mIoService s)) = {#} \<and> (\<forall>t. \<not> acting (wpc s t)) \<and> mConditions s = (\<lambda>_. [])(k := [0]) \<and>
     h \<in> set (executed s) \<and> (wpc s c = Await k (Some h) \<or> wpc s c = InWrap Release k h (Await k (Some h)))"

definition serial_ok :: "('io \<Rightarrow> 'h job multiset) \<Rightarrow> nat \<Rightarrow> ('io, 'q, 'h) worker \<Rightarrow> bool" where
  "serial_ok jobs c s \<longleftrightarrow> (\<exists>ph. phase_ok jobs c ph s) \<and> (\<forall>t. t \<noteq> c \<longrightarrow> server_pc (wpc s t)) \<and> (\<forall>k. \<not> mCancellationFlags s k) \<and>
     set (finished s) \<subseteq> set (executed s)"

text \<open>The client only makes blocking calls; other threads post without blocking and execute.\<close>

fun serial_event :: "nat \<Rightarrow> 'h wevent \<Rightarrow> bool" where
  "serial_event c (Call t k h) \<longleftrightarrow> t = c \<and> k \<noteq> Async"
| "serial_event c (CallPlain t k h) \<longleftrightarrow> True"
| "serial_event c (WaitKey t k) \<longleftrightarrow> False"
| "serial_event c (TimeOut t) \<longleftrightarrow> True"
| "serial_event c (Cancel t k) \<longleftrightarrow> False"
| "serial_event c (Take t) \<longleftrightarrow> t \<noteq> c"
| "serial_event c (Advance t inside threw) \<longleftrightarrow> \<not> threw"
| "serial_event c Stop \<longleftrightarrow> True"

lemma phase_frame:
  assumes "phase_ok jobs c ph s" "filter_mset is_wrapped (jobs (mIoService s')) = filter_mset is_wrapped (jobs (mIoService s))"
    "mConditions s' = mConditions s" "set (executed s) \<subseteq> set (executed s')" "wpc s' = (wpc s)(t := p)" "t \<noteq> c" "\<not> acting (wpc s t)" "\<not> acting p"
  shows "phase_ok jobs c ph s'"
  using assms by (cases ph) (auto split: if_splits)

lemma serial_client:
  assumes W: "worker_laws L jobs keys" and ok: "serial_ok jobs c s" and a: "advance L i False (wpc s c) s = Some (p, s1)"
  shows "serial_ok jobs c (set_wpc c p s1)"
proof -
  note l = worker_lawsD [OF W]
  obtain ph where ph: "phase_ok jobs c ph s" and r: "\<forall>t. t \<noteq> c \<longrightarrow> server_pc (wpc s t)" "\<forall>k. \<not> mCancellationFlags s k" "set (finished s) \<subseteq> set (executed s)"
    using ok by (auto simp: serial_ok_def)
  show ?thesis
  proof (cases ph)
    case Quiet
    from ph consider k h where "wpc s c = PopSlot k h" "k \<noteq> Async" | k n h where "wpc s c = SetFlag k n h" "k \<noteq> Async" | k n h where "wpc s c = Submit k n h" "k \<noteq> Async"
      using a by (cases "wpc s c") (auto simp: Quiet)
    then show ?thesis
    proof cases
      case 1
      have "phase_ok jobs c Quiet (set_wpc c p s1)" using ph a 1 by (auto simp: Quiet split: option.splits)
      with r a 1 show ?thesis unfolding serial_ok_def by (auto split: option.splits simp del: phase_ok.simps)
    next
      case 2
      have "phase_ok jobs c Quiet (set_wpc c p s1)" using ph a 2 by (auto simp: Quiet split: option.splits)
      with r a 2 show ?thesis unfolding serial_ok_def by (auto split: option.splits if_splits simp del: phase_ok.simps)
    next
      case (3 k n h)
      have "phase_ok jobs c (if k = Dispatch \<and> i then Running c Check n h else Queued n h) (set_wpc c p s1)" using ph a 3 by (auto simp: Quiet l split: if_splits)
      moreover have "mCancellationFlags s1 = mCancellationFlags s" "finished s1 = finished s" "executed s1 = executed s" "wpc s1 = wpc s" using a 3 by (auto split: if_splits)
      ultimately show ?thesis using r unfolding serial_ok_def by (auto simp del: phase_ok.simps)
    qed
  next
    case (Queued k h)
    with ph a show ?thesis by (simp add: cv_wait_def cq_try_pop_def)
  next
    case (Running t st k h)
    show ?thesis
    proof (cases "t = c")
      case False
      with Running ph a show ?thesis by (simp add: cv_wait_def cq_try_pop_def)
    next
      case True
      have w: "wpc s c = InWrap st k h (Await k (Some h))" using ph Running True by simp
      have "\<exists>ph. phase_ok jobs c ph (set_wpc c p s1)"
      proof (cases st)
        case Check
        have "phase_ok jobs c (Running c Exec k h) (set_wpc c p s1)" using ph a w r(2) by (auto simp: Running True Check)
        then show ?thesis by blast
      next
        case Exec
        have "phase_ok jobs c (Running c Signal k h) (set_wpc c p s1)" using ph a w by (auto simp: Running True Exec)
        then show ?thesis by blast
      next
        case Signal
        have "phase_ok jobs c (Signalled k h) (set_wpc c p s1)" using ph a w by (auto simp: Running True Signal cv_signal_def cq_push_def split: if_splits)
        then show ?thesis by blast
      qed (use ph Running in simp)
      moreover have "mCancellationFlags s1 = mCancellationFlags s" "finished s1 = finished s" "set (executed s) \<subseteq> set (executed s1)" "wpc s1 = wpc s"
        using a w r(2) by (cases st; auto)+
      ultimately show ?thesis using r unfolding serial_ok_def by (auto simp del: phase_ok.simps)
    qed
  next
    case (Signalled k h)
    then have h: "h \<in> set (executed s)" and d: "wpc s c = Await k (Some h) \<or> wpc s c = InWrap Release k h (Await k (Some h))" using ph by auto
    from d show ?thesis
    proof
      assume w: "wpc s c = Await k (Some h)"
      have "phase_ok jobs c Quiet (set_wpc c p s1)" using ph a w by (auto simp: Signalled cv_wait_def cq_try_pop_def)
      with r h a w show ?thesis unfolding serial_ok_def by (auto simp: cv_wait_def split: option.splits prod.splits simp del: phase_ok.simps)
    next
      assume w: "wpc s c = InWrap Release k h (Await k (Some h))"
      have "phase_ok jobs c (Signalled k h) (set_wpc c p s1)" using ph a w by (auto simp: Signalled)
      with r a w show ?thesis unfolding serial_ok_def by (auto simp del: phase_ok.simps)
    qed
  qed
qed

lemma serial_server:
  assumes W: "worker_laws L jobs keys" and ok: "serial_ok jobs c s" and t: "t \<noteq> c" and a: "advance L i False (wpc s t) s = Some (p, s1)"
  shows "serial_ok jobs c (set_wpc t p s1)"
proof -
  obtain ph where ph: "phase_ok jobs c ph s" and r: "\<forall>t. t \<noteq> c \<longrightarrow> server_pc (wpc s t)" "\<forall>k. \<not> mCancellationFlags s k" "set (finished s) \<subseteq> set (executed s)"
    using ok by (auto simp: serial_ok_def)
  have sv: "server_pc (wpc s t)" using r(1) t by simp
  have same: "mCancellationFlags s1 = mCancellationFlags s" "finished s1 = finished s" "set (executed s) \<subseteq> set (executed s1)" "wpc s1 = wpc s" "server_pc p"
    using a sv r(2) by (cases "wpc s t"; auto elim!: worker_wrap.elims split: if_splits)+
  have "\<exists>ph. phase_ok jobs c ph (set_wpc t p s1)"
  proof (cases "acting (wpc s t)")
    case False
    have "\<not> acting p" "mConditions s1 = mConditions s" "mIoService s1 = mIoService s"
      using a sv False by (cases "wpc s t"; auto elim!: worker_wrap.elims split: if_splits)+
    then have "phase_ok jobs c ph (set_wpc t p s1)" using same t False by (intro phase_frame [OF ph]) auto
    then show ?thesis by blast
  next
    case True
    then obtain st k h where w: "wpc s t = InWrap st k h WOutside" "st \<noteq> Release" using sv by (cases "wpc s t") auto
    have ph': "ph = Running t st k h"
    proof (cases ph)
      case (Running u st' k' h')
      with ph True have "u = t" by auto
      with ph Running t w show ?thesis by auto
    qed (use ph True in auto)
    show ?thesis
    proof (cases st)
      case Check
      have "phase_ok jobs c (Running t Exec k h) (set_wpc t p s1)" using ph a w r(2) t by (auto simp: ph' Check)
      then show ?thesis by blast
    next
      case Exec
      have "phase_ok jobs c (Running t Signal k h) (set_wpc t p s1)" using ph a w t by (auto simp: ph' Exec)
      then show ?thesis by blast
    next
      case Signal
      have "phase_ok jobs c (Signalled k h) (set_wpc t p s1)" using ph a w t by (auto simp: ph' Signal cv_signal_def cq_push_def)
      then show ?thesis by blast
    qed (use w in simp)
  qed
  with r same show ?thesis unfolding serial_ok_def by (auto simp del: phase_ok.simps)
qed

lemma serial_step:
  assumes W: "worker_laws L jobs keys" and ok: "serial_ok jobs c s" and e: "serial_event c e" and st: "worker_step L e s = Some s'"
  shows "serial_ok jobs c s'"
proof -
  note l = worker_lawsD [OF W]
  obtain ph where ph: "phase_ok jobs c ph s" and r: "\<forall>t. t \<noteq> c \<longrightarrow> server_pc (wpc s t)" "\<forall>k. \<not> mCancellationFlags s k" "set (finished s) \<subseteq> set (executed s)"
    using ok by (auto simp: serial_ok_def)
  show ?thesis
  proof (cases e)
    case (Call t k h)
    then have c: "wpc s c = WOutside" "s' = set_wpc c (PopSlot k h) s" "k \<noteq> Async" using st e by (auto split: if_splits)
    have "ph = Quiet" using ph c(1) by (cases ph) (auto split: if_splits)
    then have "phase_ok jobs c Quiet s'" using ph c by auto
    with r c show ?thesis unfolding serial_ok_def by (auto simp del: phase_ok.simps)
  next
    case (CallPlain t k h)
    then have s': "s' = s\<lparr>mIoService := io_post L (Plain h) (mIoService s)\<rparr>" using st by (auto split: if_splits)
    have "phase_ok jobs c ph s'" using ph by (cases ph) (auto simp: s' l split: if_splits)
    with r s' show ?thesis unfolding serial_ok_def by (auto simp del: phase_ok.simps)
  next
    case (TimeOut t)
    then obtain k where k: "wpc s t = Await k None" using st by (auto split: wpc.splits option.splits)
    then have "t = c" using r(1) by (auto dest!: spec [of _ t])
    with k ph show ?thesis by (cases ph) (auto split: if_splits)
  next
    case (Take t)
    then obtain j q where t: "t \<noteq> c" "wpc s t = WOutside" and j: "io_next L (mIoService s) = Some (j, q)"
      and s': "s' = set_wpc t (case j of Plain h \<Rightarrow> RunPlain h | Wrapped k h \<Rightarrow> InWrap Check k h WOutside) (s\<lparr>mIoService := q\<rparr>)"
      using st e by (auto split: if_splits option.splits job.splits)
    have jq: "jobs (mIoService s) = add_mset j (jobs q)" by (rule l(6) [OF j])
    have "\<exists>ph. phase_ok jobs c ph s'"
    proof (cases j)
      case (Plain h)
      have "phase_ok jobs c ph s'" unfolding s' by (rule phase_frame [OF ph, of _ t "RunPlain h"]) (use jq t in \<open>auto simp: Plain\<close>)
      then show ?thesis by blast
    next
      case (Wrapped k h)
      have "ph = Queued k h" using ph jq Wrapped by (cases ph) (auto split: if_splits)
      then have "phase_ok jobs c (Running t Check k h) s'" using ph jq t by (auto simp: s' Wrapped)
      then show ?thesis by blast
    qed
    moreover have "server_pc (wpc s' u)" if "u \<noteq> c" for u using r(1) that by (cases j) (auto simp: s')
    ultimately show ?thesis using r s' unfolding serial_ok_def by (auto simp del: phase_ok.simps)
  next
    case (Advance t i threw)
    then obtain p s1 where "advance L i False (wpc s t) s = Some (p, s1)" "s' = set_wpc t p s1" using st e by (auto split: if_splits option.splits)
    then show ?thesis using serial_client [OF W ok] serial_server [OF W ok] by (cases "t = c") auto
  next
    case Stop
    then have "s' = s\<lparr>mTerminated := True\<rparr>" using st by simp
    moreover from this have "phase_ok jobs c ph s'" using ph by (cases ph) (auto split: if_splits)
    ultimately show ?thesis using r unfolding serial_ok_def by (auto simp del: phase_ok.simps)
  qed (use e in simp_all)
qed

lemma serial_run:
  assumes "worker_laws L jobs keys"
  shows "serial_ok jobs c s \<Longrightarrow> list_all (serial_event c) es \<Longrightarrow> worker_run L es s = Some s' \<Longrightarrow> serial_ok jobs c s'"
  by (induction es arbitrary: s) (use serial_step [OF assms] in \<open>fastforce split: option.splits\<close>)+

text \<open>
  C22. A blocking call of the only blocking client returns after its handler has run: in every interleaving of that client with any number
  of executing threads and of threads that post without blocking, the handlers whose calls have returned have
  all been executed.
\<close>
theorem blocking_call_completes:
  assumes "worker_laws L jobs keys" "list_all (serial_event c) es" "worker_run L es (Worker_new L n m) = Some s"
  shows "set (finished s) \<subseteq> set (executed s)"
proof -
  have "phase_ok jobs c Quiet (Worker_new L n m)" by (simp add: Worker_new_def worker_lawsD [OF assms(1)])
  then have "serial_ok jobs c (Worker_new L n m)" unfolding serial_ok_def by (auto simp: Worker_new_def simp del: phase_ok.simps)
  from serial_run [OF assms(1) this assms(2,3)] show ?thesis by (simp add: serial_ok_def)
qed

definition single_run :: "nat wevent list" where
  "single_run = [Call 0 Post 7, Advance 0 False False, Advance 0 False False, Advance 0 False False, CallPlain 2 Post 9, Take 1,
     Advance 1 False False, Advance 1 False False, Advance 1 False False, Advance 0 False False, Advance 1 False False]"

theorem blocking_call_completes_witness:
  "\<exists>s. worker_run list_lib single_run (Worker_new list_lib 1 3) = Some s \<and> finished s = [7] \<and> set [7] \<subseteq> set (executed s)"
proof -
  have "\<exists>s. worker_run list_lib single_run (Worker_new list_lib 1 3) = Some s \<and> finished s = [7]"
    by (simp add: single_run_def worker_eval)
  moreover have "list_all (serial_event 0) single_run" by (simp add: single_run_def)
  ultimately show ?thesis using blocking_call_completes [OF list_lib_laws, of 0 single_run 1 3] by force
qed

text \<open>All calls are blocking posts, and nobody calls \<open>wait\<close>.\<close>

fun blocking_posts :: "'h wevent \<Rightarrow> bool" where
  "blocking_posts (Call t c h) \<longleftrightarrow> c = Post"
| "blocking_posts (CallPlain t c h) \<longleftrightarrow> False"
| "blocking_posts (WaitKey t k) \<longleftrightarrow> False"
| "blocking_posts _ \<longleftrightarrow> True"

text \<open>
  Two clients break the promise. Thread 0 posts handler 7 and waits; thread 2 executes it, signals and gives the slot back; thread
  1 takes the same slot for handler 8 and, since a blocking call does not reset the condition, takes the signal meant
  for thread 0: its call has returned, its handler is still in the queue, and thread 0 waits on.
\<close>
theorem blocking_call_returns_early:
  "\<exists>es s. worker_run list_lib es (Worker_new list_lib 1 3) = Some s \<and>
    list_all blocking_posts es \<and> list_all calm es \<and> mset (finished s) = {#8#} \<and> executed s = [7 :: nat] \<and>
    mIoService s = [Wrapped 0 8] \<and> wpc s 0 = Await 0 (Some 7)"
proof -
  let ?a = "\<lambda>t. Advance t False False"
  let ?es = "[Call 0 Post 7, ?a 0, ?a 0, ?a 0, Take 2, ?a 2, ?a 2, ?a 2, ?a 2, Call 1 Post 8, ?a 1, ?a 1, ?a 1, ?a 1] :: nat wevent list"
  have "\<exists>s. worker_run list_lib ?es (Worker_new list_lib 1 3) = Some s \<and> mset (finished s) = {#8#} \<and> executed s = [7] \<and>
    mIoService s = [Wrapped 0 8] \<and> wpc s 0 = Await 0 (Some 7)" by (simp add: worker_eval)
  then show ?thesis by (intro exI [of _ ?es]) auto
qed

end
