(* ===== verification/Strings.thy ===== *)
theory Strings
  imports Prelude "HOL-Library.Monad_Syntax"
begin

text \<open>
  String utilities (\<open>include/utility/StringUtil.h\<close>, \<open>StringUtil.cpp\<close>): splitting into tokens, substitution, and conversion of integers to
  text. The functions on \<open>std::string\<close> and \<open>std::wstring\<close> are the same code; a string is a list of characters of any type.
  \<open>substitute\<close> need not return, so it is a partial function in which \<open>None\<close> stands for a loop without end.
\<close>

section \<open>The operations of std::string\<close>

text \<open>\<open>None\<close> is \<open>std::string::npos\<close>.\<close>

definition find_first_of :: "'a list \<Rightarrow> 'a list \<Rightarrow> nat \<Rightarrow> nat option" where
  "find_first_of str ds pos = find (\<lambda>i. str ! i \<in> set ds) [pos..<length str]"

definition find_first_not_of :: "'a list \<Rightarrow> 'a list \<Rightarrow> nat \<Rightarrow> nat option" where
  "find_first_not_of str ds pos = find (\<lambda>i. str ! i \<notin> set ds) [pos..<length str]"

definition substr :: "'a list \<Rightarrow> nat \<Rightarrow> nat \<Rightarrow> 'a list" where
  "substr str pos n = take n (drop pos str)"

definition find_sub :: "'a list \<Rightarrow> 'a list \<Rightarrow> nat \<Rightarrow> nat option" where
  "find_sub s key pos = find (\<lambda>i. take (length key) (drop i s) = key) [pos..<length s - length key + 1]"

definition replace_at :: "'a list \<Rightarrow> nat \<Rightarrow> nat \<Rightarrow> 'a list \<Rightarrow> 'a list" where
  "replace_at s p n r = take p s @ r @ drop (p + n) s"

section \<open>StringUtil\<close>

lemma find_Some_bound: "find P [a..<b] = Some i \<Longrightarrow> a \<le> i \<and> i < b \<and> P i \<and> (\<forall>j. a \<le> j \<and> j < i \<longrightarrow> \<not> P j)"
proof -
  assume "find P [a..<b] = Some i"
  then obtain n where n: "n < b - a" "P (a + n)" "i = a + n" "\<forall>j<n. \<not> P (a + j)" by (auto simp: find_Some_iff)
  have "\<not> P j" if j: "a \<le> j" "j < i" for j
    using n(4) [rule_format, of "j - a"] j n(3) by simp
  with n show ?thesis by auto
qed

text \<open>What one pass of the loop appends: the text up to the delimiter, or an empty token where the text is empty.\<close>

definition token_before :: "'a list \<Rightarrow> bool \<Rightarrow> nat \<Rightarrow> nat \<Rightarrow> nat option \<Rightarrow> 'a list list" where
  "token_before str allowEmpty pos delimPos tokenPos = (case tokenPos of
       Some t \<Rightarrow> if t < delimPos then [substr str pos (delimPos - pos)] else if allowEmpty then [[]] else []
     | None \<Rightarrow> if allowEmpty then [[]] else [])"

definition last_token :: "'a list \<Rightarrow> bool \<Rightarrow> nat \<Rightarrow> nat option \<Rightarrow> 'a list list" where
  "last_token str allowEmpty pos tokenPos = (case tokenPos of
       Some t \<Rightarrow> [drop pos str] | None \<Rightarrow> if allowEmpty then [[]] else [])"

function tokenize_loop :: "'a list \<Rightarrow> 'a list \<Rightarrow> bool \<Rightarrow> nat \<Rightarrow> 'a list list \<Rightarrow> 'a list list" where
  "tokenize_loop str ds allowEmpty pos tokens =
     (case find_first_of str ds pos of
        Some delimPos \<Rightarrow> tokenize_loop str ds allowEmpty (delimPos + 1)
          (tokens @ token_before str allowEmpty pos delimPos (find_first_not_of str ds pos))
      | None \<Rightarrow> tokens @ last_token str allowEmpty pos (find_first_not_of str ds pos))"
  by pat_completeness auto
termination
  by (relation "measure (\<lambda>(str, ds, e, pos, ts). length str - pos)") (auto simp: find_first_of_def dest!: find_Some_bound)

declare tokenize_loop.simps [simp del]

definition tokenize :: "'a list \<Rightarrow> 'a list \<Rightarrow> bool \<Rightarrow> 'a list list" where
  "tokenize str ds allowEmpty = (if length str < 1 then [] else tokenize_loop str ds allowEmpty 0 [])"

partial_function (option) substitute_loop :: "'a list \<Rightarrow> 'a list \<Rightarrow> 'a list \<Rightarrow> nat \<Rightarrow> bool \<Rightarrow> ('a list \<times> bool) option" where
  "substitute_loop key r s p found =
     (case find_sub s key p of None \<Rightarrow> Some (s, found)
      | Some p \<Rightarrow> substitute_loop key r (replace_at s p (length key) r) (p + 1) True)"

definition substitute :: "'a list \<Rightarrow> 'a list \<Rightarrow> 'a list \<Rightarrow> ('a list \<times> bool) option" where
  "substitute s to_search to_replace = substitute_loop to_search to_replace s 0 False"

text \<open>
  \<open>itoa(value, base)\<close> for an integer type that holds \<open>value\<close>; division and remainder truncate, and the loop runs at least once (it
  is reached with a base of at least two).
  The second \<open>itoa\<close> appends two upper-case digits of \<open>itoaAlphabet\<close> for each of the \<open>n\<close> bytes of its argument, the highest first.
\<close>

definition hex_lower :: string where
  "hex_lower = ''0123456789abcdef''"

definition hex_upper :: string where
  "hex_upper = ''0123456789ABCDEF''"

definition tdiv :: "int \<Rightarrow> int \<Rightarrow> int" where
  "tdiv a b = sgn a * sgn b * (\<bar>a\<bar> div \<bar>b\<bar>)"

definition trem :: "int \<Rightarrow> int \<Rightarrow> int" where
  "trem a b = sgn a * (\<bar>a\<bar> mod \<bar>b\<bar>)"

lemma abs_tdiv: "2 \<le> b \<Longrightarrow> \<bar>tdiv q b\<bar> = \<bar>q\<bar> div b"
  by (simp add: tdiv_def abs_mult sgn_if pos_imp_zdiv_nonneg_iff)

function itoa_loop :: "int \<Rightarrow> int \<Rightarrow> string" where
  "itoa_loop q base = (if 2 \<le> base \<and> tdiv q base \<noteq> 0
     then hex_lower ! nat \<bar>trem q base\<bar> # itoa_loop (tdiv q base) base
     else [hex_lower ! nat \<bar>trem q base\<bar>])"
  by pat_completeness auto
termination
proof (relation "measure (\<lambda>(q, b). nat \<bar>q\<bar>)", goal_cases)
  case (2 q b)
  then have "\<bar>q\<bar> > 0" "b > 1" "\<bar>tdiv q b\<bar> = \<bar>q\<bar> div b" by (auto simp: abs_tdiv) (simp add: tdiv_def)
  moreover have "\<bar>q\<bar> div b < \<bar>q\<bar>" using calculation by (intro int_div_less_self) auto
  ultimately show ?case by simp
qed simp

declare itoa_loop.simps [simp del]

definition itoa :: "int \<Rightarrow> int \<Rightarrow> string" where
  "itoa value base = (if base < 2 \<or> base > 16 then []
     else let buf = itoa_loop value base in rev (if value < 0 then buf @ ''-'' else buf))"

definition itoaAlphabet :: "nat \<Rightarrow> string" where
  "itoaAlphabet i = [hex_upper ! (i div 16), hex_upper ! (i mod 16)]"

fun itoa_bytes :: "nat \<Rightarrow> int \<Rightarrow> string \<Rightarrow> string" where
  "itoa_bytes 0 t s = s"
| "itoa_bytes (Suc i) t s = itoa_bytes i t (s @ itoaAlphabet (nat (drop_bit (i * 8) t AND 0xFF)))"

end
