(* ===== verification/Strings_Spec.thy ===== *)
theory Strings_Spec
  imports Strings "HOL-Library.Sublist"
begin

text \<open>
  What the string utilities compute: \<open>tokenize\<close> yields the fields between delimiters, \<open>substitute\<close> replaces all occurrences when the
  replacement shares no character with the key and runs forever when it contains the key behind its first character, and
  the text that \<open>itoa\<close> produces reads as the number.
\<close>

section \<open>Tokens\<close>

fun fields :: "('a \<Rightarrow> bool) \<Rightarrow> 'a list \<Rightarrow> 'a list list" where
  "fields P [] = [[]]"
| "fields P (x # xs) = (if P x then [] # fields P xs else (x # hd (fields P xs)) # tl (fields P xs))"

lemma fields_none: "\<forall>x\<in>set xs. \<not> P x \<Longrightarrow> fields P xs = [xs]"
  by (induction xs) auto

lemma fields_split: "\<forall>x\<in>set w. \<not> P x \<Longrightarrow> P d \<Longrightarrow> fields P (w @ d # ys) = w # fields P ys"
  by (induction w) auto

text \<open>Joining the fields with one delimiter gives back the text.\<close>

fun join :: "'a \<Rightarrow> 'a list list \<Rightarrow> 'a list" where
  "join d [] = []"
| "join d [f] = f"
| "join d (f # g # fs) = f @ d # join d (g # fs)"

lemma fields_ne: "fields P xs \<noteq> []"
  by (cases xs) auto

lemma join_cons: "fs \<noteq> [] \<Longrightarrow> join d ((x # f) # fs) = x # join d (f # fs)" "fs \<noteq> [] \<Longrightarrow> join d ([] # fs) = d # join d fs"
  by (cases fs; simp)+

lemma join_fields: "join d (fields (\<lambda>c. c = d) xs) = xs"
proof (induction xs)
  case (Cons x xs)
  obtain f fs where f: "fields (\<lambda>c. c = d) xs = f # fs" using fields_ne by (cases "fields (\<lambda>c. c = d) xs") auto
  then show ?case using Cons.IH by (cases fs) auto
qed simp

lemma tokenize_loop_fields:
  "pos \<le> length str \<Longrightarrow> tokenize_loop str ds e pos ts = ts @ filter (\<lambda>t. e \<or> t \<noteq> []) (fields (\<lambda>c. c \<in> set ds) (drop pos str))"
proof (induction str ds e pos ts rule: tokenize_loop.induct)
  case (1 str ds e pos ts)
  show ?case
  proof (cases "find_first_of str ds pos")
    case None
    then have nd: "str ! i \<notin> set ds" if "pos \<le> i" "i < length str" for i using that by (auto simp: find_first_of_def find_None_iff)
    have "\<forall>x\<in>set (drop pos str). x \<notin> set ds"
    proof
      fix x assume "x \<in> set (drop pos str)"
      then obtain j where "j < length (drop pos str)" "x = drop pos str ! j" by (metis in_set_conv_nth)
      then show "x \<notin> set ds" using nd [of "pos + j"] 1(2) by simp
    qed
    then have f: "fields (\<lambda>c. c \<in> set ds) (drop pos str) = [drop pos str]" by (rule fields_none)
    have "find_first_not_of str ds pos = (if pos < length str then Some pos else None)"
      using nd [of pos] by (auto simp: find_first_not_of_def upt_conv_Cons)
    then show ?thesis using None f 1(2) by (subst tokenize_loop.simps) (simp add: last_token_def)
  next
    case (Some d)
    note d = find_Some_bound [OF Some [unfolded find_first_of_def]]
    let ?w = "substr str pos (d - pos)"
    have split: "drop pos str = ?w @ str ! d # drop (d + 1) str"
    proof -
      have "drop pos str = take (d - pos) (drop pos str) @ drop (d - pos) (drop pos str)" by (rule append_take_drop_id [symmetric])
      also have "drop (d - pos) (drop pos str) = drop d str" using d by simp
      also have "\<dots> = str ! d # drop (d + 1) str" using d by (simp add: Cons_nth_drop_Suc)
      finally show ?thesis by (simp add: substr_def)
    qed
    have "\<forall>x\<in>set ?w. x \<notin> set ds"
    proof
      fix x assume "x \<in> set ?w"
      then obtain j where "j < length ?w" "x = ?w ! j" by (metis in_set_conv_nth)
      then have "x = str ! (pos + j)" "pos + j < d" using d by (auto simp: substr_def)
      then show "x \<notin> set ds" using d by simp
    qed
    then have f: "fields (\<lambda>c. c \<in> set ds) (drop pos str) = ?w # fields (\<lambda>c. c \<in> set ds) (drop (d + 1) str)"
      unfolding split using d by (intro fields_split) auto
    have len: "length ?w = d - pos" using d by (auto simp: substr_def)
    have t: "token_before str e pos d (find_first_not_of str ds pos) = filter (\<lambda>t. e \<or> t \<noteq> []) [?w]"
    proof (cases "pos = d")
      case True
      then have "find_first_not_of str ds pos = None \<or> (\<exists>t. find_first_not_of str ds pos = Some t \<and> d \<le> t)"
        by (cases "find_first_not_of str ds pos") (auto simp: find_first_not_of_def dest!: find_Some_bound)
      then show ?thesis using True len by (auto simp: token_before_def)
    next
      case False
      then have "find_first_not_of str ds pos = Some pos" using d by (auto simp: find_first_not_of_def upt_conv_Cons)
      moreover have "?w \<noteq> []" using len False d by auto
      ultimately show ?thesis using False d by (simp add: token_before_def)
    qed
    have "tokenize_loop str ds e (d + 1) (ts @ filter (\<lambda>t. e \<or> t \<noteq> []) [?w]) = (ts @ filter (\<lambda>t. e \<or> t \<noteq> []) [?w]) @ filter (\<lambda>t. e \<or> t \<noteq> []) (fields (\<lambda>c. c \<in> set ds) (drop (d + 1) str))"
      using 1(1) [OF Some] d unfolding t by simp
    then show ?thesis unfolding f using Some t by (subst tokenize_loop.simps) (simp)
  qed
qed

text \<open>
  C33. \<open>tokenize\<close> computes the fields of the text between delimiters, all of them or the non-empty ones, and none for the empty text. With
  one delimiter and empty tokens allowed, joining the tokens gives back the text.
\<close>
theorem tokenize_fields:
  "tokenize str ds e = (if str = [] then [] else if e then fields (\<lambda>c. c \<in> set ds) str
     else filter (\<lambda>t. t \<noteq> []) (fields (\<lambda>c. c \<in> set ds) str)) \<and>
   join d (tokenize str [d] True) = str"
proof -
  have t: "tokenize str ds e = (if str = [] then [] else if e then fields (\<lambda>c. c \<in> set ds) str
     else filter (\<lambda>t. t \<noteq> []) (fields (\<lambda>c. c \<in> set ds) str))" for ds e
    using tokenize_loop_fields [of 0 str ds e "[]"] by (simp add: tokenize_def)
  show ?thesis using t [of ds e] t [of "[d]" True] join_fields [of d str] by auto
qed

section \<open>Substitution\<close>

lemma find_sub_Some:
  assumes "find_sub s key pos = Some i"
  shows "pos \<le> i" "\<exists>a b. s = a @ key @ b \<and> length a = i" "\<forall>j. pos \<le> j \<and> j < i \<longrightarrow> take (length key) (drop j s) \<noteq> key"
proof -
  note f = find_Some_bound [OF assms [unfolded find_sub_def]]
  show "pos \<le> i" "\<forall>j. pos \<le> j \<and> j < i \<longrightarrow> take (length key) (drop j s) \<noteq> key" using f by auto
  have k: "take (length key) (drop i s) = key" using f by simp
  show "\<exists>a b. s = a @ key @ b \<and> length a = i"
  proof (cases "i \<le> length s")
    case True
    have "s = take i s @ key @ drop (length key) (drop i s)" using k by (metis append_take_drop_id)
    then show ?thesis using True by (metis length_take min.absorb2)
  next
    case False
    with f show ?thesis by auto
  qed
qed

lemma find_sub_occurs:
  assumes "pos \<le> length a"
  shows "find_sub (a @ key @ b) key pos \<noteq> None"
proof -
  have "length a \<in> set [pos..<length (a @ key @ b) - length key + 1]" using assms by auto
  moreover have "take (length key) (drop (length a) (a @ key @ b)) = key" by simp
  ultimately show ?thesis unfolding find_sub_def find_None_iff by blast
qed

text \<open>A replacement that contains the key behind its first character is found again, one step further, forever.\<close>

lemma substitute_loop_forever:
  assumes "substitute_loop key r s p found = Some y"
  shows "\<forall>u v. r = u @ key @ v \<longrightarrow> u \<noteq> [] \<longrightarrow> find_sub s key p = None"
  using assms
proof (rule substitute_loop.raw_induct [where P = "\<lambda>key r s p found y. \<forall>u v. r = u @ key @ v \<longrightarrow> u \<noteq> [] \<longrightarrow> find_sub s key p = None", rotated], intro allI impI)
  fix f :: "'a list \<Rightarrow> 'a list \<Rightarrow> 'a list \<Rightarrow> nat \<Rightarrow> bool \<Rightarrow> ('a list \<times> bool) option"
  fix key r s p found y u v
  assume ih: "\<And>key r s p found y. f key r s p found = Some y \<Longrightarrow> \<forall>u v. r = u @ key @ v \<longrightarrow> u \<noteq> [] \<longrightarrow> find_sub s key p = None"
    and st: "(case find_sub s key p of None \<Rightarrow> Some (s, found) | Some p \<Rightarrow> f key r (replace_at s p (length key) r) (p + 1) True) = Some y"
    and r: "r = u @ key @ v" "u \<noteq> []"
  show "find_sub s key p = None"
  proof (rule ccontr)
    assume "find_sub s key p \<noteq> None"
    then obtain i where i: "find_sub s key p = Some i" by blast
    obtain a b where s: "s = a @ key @ b" "length a = i" using find_sub_Some(2) [OF i] by blast
    have s': "replace_at s i (length key) r = (a @ u) @ key @ (v @ b)" using s r by (simp add: replace_at_def)
    have "f key r (replace_at s i (length key) r) (i + 1) True = Some y" using st i by simp
    from ih [OF this] r have "find_sub (replace_at s i (length key) r) key (i + 1) = None" by metis
    moreover have "i + 1 \<le> length (a @ u)" using s(2) r(2) by (cases u) auto
    ultimately show False unfolding s' using find_sub_occurs by blast
  qed
qed

function replace_all :: "'a list \<Rightarrow> 'a list \<Rightarrow> 'a list \<Rightarrow> 'a list" where
  "replace_all key r [] = []"
| "replace_all key r (x # xs) = (if key \<noteq> [] \<and> take (length key) (x # xs) = key then r @ replace_all key r (drop (length key) (x # xs))
     else x # replace_all key r xs)"
  by pat_completeness auto
termination by (relation "measure (\<lambda>(key, r, s). length s)") (auto simp: not_less_eq_eq Suc_le_eq)

text \<open>The occurrences of a non-empty key, without the bound on the position.\<close>

definition occurs_at :: "'a list \<Rightarrow> 'a list \<Rightarrow> nat \<Rightarrow> bool" where
  "occurs_at s key j \<longleftrightarrow> take (length key) (drop j s) = key"

lemma occurs_bound: "key \<noteq> [] \<Longrightarrow> occurs_at s key j \<Longrightarrow> j + length key \<le> length s"
proof -
  assume k: "key \<noteq> []" "occurs_at s key j"
  then have "length key = min (length key) (length s - j)" unfolding occurs_at_def by (metis length_drop length_take min.commute)
  with k(1) show ?thesis by (cases key) (auto simp: min_def split: if_splits)
qed

lemma find_sub_iff:
  assumes "key \<noteq> []"
  shows "find_sub s key p = None \<longleftrightarrow> (\<forall>j\<ge>p. \<not> occurs_at s key j)"
    "find_sub s key p = Some i \<longleftrightarrow> p \<le> i \<and> occurs_at s key i \<and> (\<forall>j. p \<le> j \<and> j < i \<longrightarrow> \<not> occurs_at s key j)"
proof -
  have b: "j < length s - length key + 1" if "occurs_at s key j" for j using occurs_bound [OF assms that] by simp
  show n: "find_sub s key p = None \<longleftrightarrow> (\<forall>j\<ge>p. \<not> occurs_at s key j)"
    unfolding find_sub_def find_None_iff occurs_at_def [symmetric] using b by (metis atLeastLessThan_iff set_upt)
  show "find_sub s key p = Some i \<longleftrightarrow> p \<le> i \<and> occurs_at s key i \<and> (\<forall>j. p \<le> j \<and> j < i \<longrightarrow> \<not> occurs_at s key j)" (is "?l \<longleftrightarrow> ?r")
  proof
    show "?l \<Longrightarrow> ?r" unfolding find_sub_def occurs_at_def by (drule find_Some_bound) blast
  next
    assume r: ?r
    then obtain i' where i': "find_sub s key p = Some i'" using n by (cases "find_sub s key p") auto
    then have "p \<le> i' \<and> occurs_at s key i' \<and> (\<forall>j. p \<le> j \<and> j < i' \<longrightarrow> \<not> occurs_at s key j)"
      unfolding find_sub_def occurs_at_def by (drule_tac find_Some_bound) blast
    with r have "i' = i" by (meson linorder_neqE_nat)
    with i' show ?l by simp
  qed
qed

lemma replace_all_none: "key \<noteq> [] \<Longrightarrow> \<forall>j. \<not> occurs_at s key j \<Longrightarrow> replace_all key r s = s"
proof (induction s)
  case (Cons x s)
  have "\<not> occurs_at s key j" for j using Cons.prems(2) [rule_format, of "Suc j"] by (simp add: occurs_at_def)
  moreover have "take (length key) (x # s) \<noteq> key" using Cons.prems(2) [rule_format, of 0] by (simp add: occurs_at_def)
  ultimately show ?case using Cons by simp
qed simp

lemma replace_all_first:
  "key \<noteq> [] \<Longrightarrow> occurs_at s key i \<Longrightarrow> \<forall>j<i. \<not> occurs_at s key j \<Longrightarrow> replace_all key r s = take i s @ r @ replace_all key r (drop (i + length key) s)"
proof (induction s arbitrary: i)
  case Nil
  then show ?case by (simp add: occurs_at_def)
next
  case (Cons x s)
  show ?case
  proof (cases i)
    case 0
    then show ?thesis using Cons.prems(1,2) by (simp add: occurs_at_def)
  next
    case (Suc n)
    have "take (length key) (x # s) \<noteq> key" using Cons.prems(3) [rule_format, of 0] Suc by (simp add: occurs_at_def)
    moreover have "occurs_at s key n" using Cons.prems(2) Suc by (simp add: occurs_at_def)
    moreover have "\<not> occurs_at s key j" if "j < n" for j using Cons.prems(3) [rule_format, of "Suc j"] that Suc by (simp add: occurs_at_def)
    ultimately show ?thesis using Cons.IH [OF Cons.prems(1), of n] Suc by simp
  qed
qed

text \<open>
  The loop has replaced everything in \<open>pre @ mid\<close>, stands at the end of \<open>pre\<close>, and cannot find the key at a character of \<open>mid\<close>.
\<close>

lemma substitute_loop_all:
  "key \<noteq> [] \<Longrightarrow> r \<noteq> [] \<Longrightarrow> set r \<inter> set key = {} \<Longrightarrow> set mid \<inter> set key = {} \<Longrightarrow>
   substitute_loop key r (pre @ mid @ rest) (length pre) found = Some (pre @ mid @ replace_all key r rest, found \<or> (\<exists>j. occurs_at rest key j))"
proof (induction "length rest" arbitrary: pre mid rest found rule: less_induct)
  case less
  let ?s = "pre @ mid @ rest"
  have skip: "\<not> occurs_at ?s key j" if j: "length pre \<le> j" "j < length pre + length mid" for j
  proof
    assume o: "occurs_at ?s key j"
    obtain k ks where k: "key = k # ks" using less.prems(1) by (cases key) auto
    have "j - length pre < length mid" using j by linarith
    then have "?s ! j \<in> set mid" using j(1) by (simp add: nth_append)
    moreover have "drop j ?s = ?s ! j # drop (Suc j) ?s" using j by (intro Cons_nth_drop_Suc [symmetric]) simp
    then have "k = ?s ! j" using o k unfolding occurs_at_def by (metis length_Cons list.inject take_Suc_Cons)
    ultimately have "k \<in> set mid" by simp
    with less.prems(4) k show False by auto
  qed
  have at: "occurs_at ?s key (length pre + length mid + j) \<longleftrightarrow> occurs_at rest key j" for j by (simp add: occurs_at_def)
  show ?case
  proof (cases "find_sub ?s key (length pre)")
    case None
    then have n: "\<forall>j. \<not> occurs_at rest key j" using at find_sub_iff(1) [OF less.prems(1)] by (metis add.assoc le_add1)
    then show ?thesis using None replace_all_none [OF less.prems(1) n] by (subst substitute_loop.simps) auto
  next
    case (Some i)
    then have i: "length pre \<le> i" "occurs_at ?s key i" "\<And>j. length pre \<le> j \<Longrightarrow> j < i \<Longrightarrow> \<not> occurs_at ?s key j"
      using find_sub_iff(2) [OF less.prems(1)] by auto
    have "length pre + length mid \<le> i" using skip i(1,2) by (meson not_le_imp_less)
    then obtain n where n: "i = length pre + length mid + n" by (metis le_add_diff_inverse)
    have o: "occurs_at rest key n" using i(2) at [of n] n by simp
    have o': "\<forall>j<n. \<not> occurs_at rest key j"
    proof (intro allI impI)
      fix j assume "j < n"
      then show "\<not> occurs_at rest key j" using i(3) [of "length pre + length mid + j"] at [of j] n by simp
    qed
    have bd: "n + length key \<le> length rest" by (rule occurs_bound [OF less.prems(1) o])
    let ?rest = "drop (n + length key) rest"
    let ?pre = "pre @ mid @ take n rest @ [hd r]"
    have s': "replace_at ?s i (length key) r = ?pre @ tl r @ ?rest"
      using bd less.prems(2) by (cases r) (auto simp: replace_at_def n)
    have p': "i + 1 = length ?pre" using bd by (simp add: n)
    have "substitute_loop key r (?pre @ tl r @ ?rest) (length ?pre) True = Some (?pre @ tl r @ replace_all key r ?rest, True)"
      using less.hyps [of ?rest "tl r" ?pre True] less.prems bd by (cases key; cases r; simp)
    moreover have "pre @ mid @ replace_all key r rest = ?pre @ tl r @ replace_all key r ?rest"
      using replace_all_first [OF less.prems(1) o o'] less.prems(2) by (cases r) auto
    ultimately show ?thesis using Some o s' p' by (subst substitute_loop.simps) auto
  qed
qed



section \<open>Numbers\<close>

text \<open>The value of a digit, of a list of digits with the lowest first, and of signed text.\<close>

definition digit_value :: "string \<Rightarrow> char \<Rightarrow> int" where
  "digit_value tab c = int (length (takeWhile (\<lambda>x. x \<noteq> c) tab))"

fun number :: "int \<Rightarrow> string \<Rightarrow> int" where
  "number base [] = 0"
| "number base (c # cs) = digit_value hex_lower c + base * number base cs"

definition read_int :: "int \<Rightarrow> string \<Rightarrow> int" where
  "read_int base s = (if s \<noteq> [] \<and> hd s = CHR ''-'' then - number base (rev (tl s)) else number base (rev s))"

definition read_hex :: "string \<Rightarrow> int" where
  "read_hex s = foldl (\<lambda>n c. 16 * n + digit_value hex_upper c) 0 s"

lemma less_16: "(\<forall>i<(16 :: nat). P i) \<longleftrightarrow> P 0 \<and> P 1 \<and> P 2 \<and> P 3 \<and> P 4 \<and> P 5 \<and> P 6 \<and> P 7 \<and> P 8 \<and> P 9 \<and> P 10 \<and> P 11 \<and> P 12 \<and> P 13 \<and> P 14 \<and> P 15"
  by (simp add: numeral_eq_Suc All_less_Suc conj_ac)

lemma digit_values: "i < 16 \<Longrightarrow> digit_value hex_lower (hex_lower ! i) = int i" "i < 16 \<Longrightarrow> digit_value hex_upper (hex_upper ! i) = int i"
  "i < 16 \<Longrightarrow> hex_lower ! i \<noteq> CHR ''-''"
proof -
  have "\<forall>i<16. digit_value hex_lower (hex_lower ! i) = int i \<and> digit_value hex_upper (hex_upper ! i) = int i \<and> hex_lower ! i \<noteq> CHR ''-''"
    unfolding less_16 by (simp add: digit_value_def hex_lower_def hex_upper_def)
  then show "i < 16 \<Longrightarrow> digit_value hex_lower (hex_lower ! i) = int i" "i < 16 \<Longrightarrow> digit_value hex_upper (hex_upper ! i) = int i"
    "i < 16 \<Longrightarrow> hex_lower ! i \<noteq> CHR ''-''" by blast+
qed

lemma abs_trem: "2 \<le> b \<Longrightarrow> \<bar>trem q b\<bar> = \<bar>q\<bar> mod b"
  by (auto simp: trem_def abs_mult sgn_if)

lemma digit_bound: "2 \<le> b \<Longrightarrow> b \<le> 16 \<Longrightarrow> nat \<bar>trem q b\<bar> < 16"
proof -
  assume "2 \<le> b" "b \<le> 16"
  moreover from this have "\<bar>q\<bar> mod b < b" by (intro pos_mod_bound) simp
  ultimately have "\<bar>q\<bar> mod b < 16" by linarith
  then show ?thesis using \<open>2 \<le> b\<close> by (simp add: abs_trem nat_less_iff)
qed

lemma itoa_loop_number: "2 \<le> b \<Longrightarrow> b \<le> 16 \<Longrightarrow> number b (itoa_loop q b) = \<bar>q\<bar> \<and> itoa_loop q b \<noteq> [] \<and> (\<forall>c\<in>set (itoa_loop q b). c \<noteq> CHR ''-'')"
proof (induction q b rule: itoa_loop.induct)
  case (1 q b)
  have d: "digit_value hex_lower (hex_lower ! nat \<bar>trem q b\<bar>) = \<bar>q\<bar> mod b" "hex_lower ! nat \<bar>trem q b\<bar> \<noteq> CHR ''-''"
    using digit_values(1,3) [OF digit_bound [OF 1(2,3)]] 1(2) by (simp_all add: abs_trem)
  show ?case
  proof (cases "tdiv q b = 0")
    case True
    then have "\<bar>q\<bar> div b = 0" using 1(2) abs_tdiv [of b q] by simp
    then have "\<bar>q\<bar> mod b = \<bar>q\<bar>" using div_mult_mod_eq [of "\<bar>q\<bar>" b] by simp
    with True d show ?thesis by (subst (1 2 3) itoa_loop.simps) simp
  next
    case False
    then have ih: "number b (itoa_loop (tdiv q b) b) = \<bar>q\<bar> div b" "\<forall>c\<in>set (itoa_loop (tdiv q b) b). c \<noteq> CHR ''-''"
      using 1 abs_tdiv [of b q] by simp_all
    then show ?thesis using False 1(2) d by (subst (1 2 3) itoa_loop.simps) (simp add: mod_mult_div_eq add.commute)
  qed
qed

lemma read_hex_snoc: "read_hex (s @ itoaAlphabet n) = 256 * read_hex s + int n" if "n < 256"
  using that by (simp add: read_hex_def itoaAlphabet_def digit_values(2)) (metis div_mult_mod_eq mult.commute of_nat_add of_nat_mult of_nat_numeral)

lemma read_hex_bytes: "read_hex (itoa_bytes n t s) = read_hex s * 256 ^ n + t mod 256 ^ n"
proof (induction n arbitrary: s)
  case (Suc n)
  have b: "drop_bit (n * 8) t AND 0xFF = (t div 256 ^ n) mod 256"
  proof -
    have "(2 :: int) ^ (8 * n) = 256 ^ n" unfolding power_mult by simp
    moreover have "x AND 0xFF = x mod 256" for x :: int using take_bit_eq_mask [of 8 x] by (simp add: mask_eq_exp_minus_1 take_bit_eq_mod)
    ultimately show ?thesis by (simp add: drop_bit_eq_div mult.commute)
  qed
  have nn: "nat (t div 256 ^ n mod 256) < 256" "0 \<le> t div 256 ^ n mod 256" by (simp_all add: nat_less_iff)
  have "t mod 256 ^ Suc n = (t div 256 ^ n mod 256) * 256 ^ n + t mod 256 ^ n"
    using zmod_zmult2_eq [of 256 t "256 ^ n"] by (simp add: mult.commute)
  with Suc.IH show ?case using nn by (simp add: b read_hex_snoc algebra_simps)
qed simp

lemma itoa_bytes_append: "itoa_bytes n t s = s @ itoa_bytes n t []" "length (itoa_bytes n t []) = 2 * n"
proof -
  have a: "itoa_bytes n t s = s @ itoa_bytes n t []" for n s
  proof (induction n arbitrary: s)
    case (Suc n)
    let ?d = "itoaAlphabet (nat (drop_bit (n * 8) t AND 0xFF))"
    show ?case using Suc [of "s @ ?d"] Suc [of ?d] by simp
  qed simp
  show "itoa_bytes n t s = s @ itoa_bytes n t []" by (rule a)
  show "length (itoa_bytes n t []) = 2 * n"
  proof (induction n)
    case (Suc n)
    have "itoa_bytes (Suc n) t [] = itoaAlphabet (nat (drop_bit (n * 8) t AND 0xFF)) @ itoa_bytes n t []" using a [of n "itoaAlphabet _"] by simp
    with Suc show ?case by (simp add: itoaAlphabet_def)
  qed simp
qed

text \<open>
  C36. Numbers as text. For every base from 2 to 16 the text that \<open>itoa(value, base)\<close> returns reads as the value, its sign included;
  for any other base it is empty. \<open>itoa(t, s)\<close> appends two hexadecimal digits per byte that read as the value of the \<open>n\<close> bytes.
\<close>
theorem itoa_reads_back:
  "(if 2 \<le> b \<and> b \<le> 16 then read_int b (itoa v b) = v else itoa v b = []) \<and>
   (\<exists>ds. itoa_bytes n t s = s @ ds \<and> length ds = 2 * n \<and> read_hex ds = t mod 2 ^ (8 * n))"
proof
  show "if 2 \<le> b \<and> b \<le> 16 then read_int b (itoa v b) = v else itoa v b = []"
  proof (cases "2 \<le> b \<and> b \<le> 16")
    case True
    then have l: "number b (itoa_loop v b) = \<bar>v\<bar>" "itoa_loop v b \<noteq> []" "\<forall>c\<in>set (itoa_loop v b). c \<noteq> CHR ''-''" using itoa_loop_number by blast+
    have "last (itoa_loop v b) \<noteq> CHR ''-''" using l(2,3) last_in_set by blast
    then show ?thesis using True l(1,2) by (auto simp: itoa_def Let_def read_int_def hd_rev)
  qed (auto simp: itoa_def)
  have "read_hex (itoa_bytes n t []) = t mod 256 ^ n" by (simp add: read_hex_bytes) (simp add: read_hex_def)
  moreover have "(256 :: int) ^ n = 2 ^ (8 * n)" unfolding power_mult by simp
  ultimately show "\<exists>ds. itoa_bytes n t s = s @ ds \<and> length ds = 2 * n \<and> read_hex ds = t mod 2 ^ (8 * n)"
    using itoa_bytes_append(1) [of n t s] itoa_bytes_append(2) [of n t] by auto
qed

end
