(* ===== verification/Unicode.thy ===== *)
theory Unicode
  imports Prelude
begin

text \<open>
  The conversions between wide strings and bytes of \<open>include/utility/StringUtil.h\<close>. \<open>wchar_t\<close> is a signed 32-bit integer and \<open>char\<close> a byte, as on
  the platforms other than Windows; comparison is signed, and appending an \<open>int\<close> to a \<open>std::string\<close> keeps its low byte. What
  decoding gives back of encoded text is shown exactly.
\<close>

section \<open>Definitions\<close>

type_synonym wchar = u32

text \<open>What one pass of the loop of \<open>wstrToUtf8\<close> appends. The shift of a signed value is arithmetic.\<close>

definition utf8_char :: "wchar \<Rightarrow> u8 list" where
  "utf8_char wc =
     (if wc <s 0x80 then [ucast wc]
      else if wc <s 0x800 then
        [ucast (0xc0 OR signed_drop_bit 6 wc), ucast (0x80 OR (wc AND 0x3f))]
      else if wc <s 0x10000 then
        [ucast (0xe0 OR signed_drop_bit 12 wc), ucast (0x80 OR (signed_drop_bit 6 wc AND 0x3f)), ucast (0x80 OR (wc AND 0x3f))]
      else if wc <s 0x20000 then
        [ucast (0xf0 OR signed_drop_bit 18 wc), ucast (0x80 OR (signed_drop_bit 12 wc AND 0x3f)), ucast (0x80 OR (signed_drop_bit 6 wc AND 0x3f)),
         ucast (0x80 OR (wc AND 0x3f))]
      else if wc <s 0x4000000 then
        [ucast (0xf8 OR signed_drop_bit 24 wc), ucast (0x80 OR (signed_drop_bit 18 wc AND 0x3f)), ucast (0x80 OR (signed_drop_bit 12 wc AND 0x3f)),
         ucast (0x80 OR (signed_drop_bit 6 wc AND 0x3f)), ucast (0x80 OR (wc AND 0x3f))]
      else if wc <s 0x8000000 then
        [ucast (0xfc OR signed_drop_bit 30 wc), ucast (0x80 OR (signed_drop_bit 24 wc AND 0x3f)), ucast (0x80 OR (signed_drop_bit 18 wc AND 0x3f)),
         ucast (0x80 OR (signed_drop_bit 12 wc AND 0x3f)), ucast (0x80 OR (signed_drop_bit 6 wc AND 0x3f)), ucast (0x80 OR (wc AND 0x3f))]
      else [])"

definition wstrToUtf8 :: "wchar list \<Rightarrow> u8 list" where
  "wstrToUtf8 wstr = foldl (\<lambda>ret wc. ret @ utf8_char wc) [] wstr"

text \<open>
  The lead byte of a sequence in \<open>utf8ToWstr\<close>: the number of bytes to follow and the bits it contributes. The comparisons with \<open>0xc\<close> and \<open>0xfd\<close>
  are those of the source. A promoted \<open>char\<close> is sign-extended.
\<close>

definition lead_byte :: "u8 \<Rightarrow> (nat \<times> wchar) option" where
  "lead_byte c =
     (let i = scast c :: wchar in
      if i AND 0xe0 = 0xc then Some (1, i AND 0x1f)
      else if i AND 0xf0 = 0xe0 then Some (2, i AND 0x0f)
      else if i AND 0xf8 = 0xf0 then Some (3, i AND 0x07)
      else if i AND 0xfc = 0xf8 then Some (4, i AND 0x3)
      else if i AND 0xfe = 0xfd then Some (5, i AND 0x1f)
      else None)"

fun utf8_loop :: "u8 list \<Rightarrow> nat \<Rightarrow> wchar \<Rightarrow> wchar list \<Rightarrow> wchar list" where
  "utf8_loop [] tailing wc ret = ret"
| "utf8_loop (c # cs) tailing wc ret =
     (if tailing > 0 then
        let wc = push_bit 6 wc OR (scast c AND 0x3f); tailing = tailing - 1 in
        if tailing = 0 then utf8_loop cs 0 0 (ret @ [wc]) else utf8_loop cs tailing wc ret
      else if (scast c :: wchar) AND 0x80 = 0x80 then
        (case lead_byte c of Some (n, v) \<Rightarrow> utf8_loop cs n v ret | None \<Rightarrow> utf8_loop cs tailing wc ret)
      else utf8_loop cs 0 wc (ret @ [scast c]))"

definition utf8ToWstr :: "u8 list \<Rightarrow> wchar list" where
  "utf8ToWstr str = utf8_loop str 0 0 []"

text \<open>
  The conversions of 7-bit text copy into a fresh array of \<open>length + 1\<close> elements whose last element is never set (\<open>raw\<close> is what the
  allocation holds there) and construct a string from the array up to the first zero.
\<close>

definition upto_zero :: "'a :: zero list \<Rightarrow> 'a list result" where
  "upto_zero buf = (if 0 \<in> set buf then Inr (takeWhile (\<lambda>c. c \<noteq> 0) buf) else Inl MemFault)"

definition toWStr_ascii :: "wchar \<Rightarrow> u8 list \<Rightarrow> wchar list result" where
  "toWStr_ascii raw s = upto_zero (map scast s @ [raw])"

definition ws2s_ascii :: "u8 \<Rightarrow> wchar list \<Rightarrow> u8 list result" where
  "ws2s_ascii raw s = upto_zero (map ucast s @ [raw])"

section \<open>Single bytes\<close>

lemma word_below:
  assumes "(y :: u32) < word_of_nat n" "n < 2 ^ 32" "list_all (\<lambda>i. P (word_of_nat i)) [0..<n]"
  shows "P y"
proof -
  have "unat y < n" using assms(1,2) by (simp add: word_less_nat_alt unat_of_nat take_bit_eq_mod)
  then have "unat y \<in> set [0..<n]" by simp
  then have "P (word_of_nat (unat y))" using assms(3) unfolding list_all_iff by (rule bspec [rotated])
  then show ?thesis by simp
qed

lemma ascii_byte: "y < 0x80 \<Longrightarrow> (scast (ucast y :: u8) :: wchar) = y \<and> y AND 0x80 \<noteq> 0x80"
  by (rule word_below [of y 128]) (simp, simp, code_simp)

lemma tail_byte: "y < 0x40 \<Longrightarrow> (scast (ucast (0x80 OR y) :: u8) :: wchar) AND 0x3f = y \<and>
    lead_byte (ucast (0x80 OR y)) = None \<and> (scast (ucast (0x80 OR y) :: u8) :: wchar) AND 0x80 = 0x80"
  by (rule word_below [of y 64]) (simp, simp, code_simp)

lemma lead2: "(y :: wchar) < 0x20 \<Longrightarrow> lead_byte (ucast (0xc0 OR y)) = None \<and> (scast (ucast (0xc0 OR y) :: u8) :: wchar) AND 0x80 = 0x80"
  by (rule word_below [of y 32]) (simp, simp, code_simp)

lemma lead3: "y < 0x10 \<Longrightarrow> lead_byte (ucast (0xe0 OR y)) = Some (2, y) \<and> (scast (ucast (0xe0 OR y) :: u8) :: wchar) AND 0x80 = 0x80"
  by (rule word_below [of y 16]) (simp, simp, code_simp)

lemma lead4: "y < 0x8 \<Longrightarrow> lead_byte (ucast (0xf0 OR y)) = Some (3, y) \<and> (scast (ucast (0xf0 OR y) :: u8) :: wchar) AND 0x80 = 0x80"
  by (rule word_below [of y 8]) (simp, simp, code_simp)

lemma lead5: "y < 0x4 \<Longrightarrow> lead_byte (ucast (0xf8 OR y)) = Some (4, y) \<and> (scast (ucast (0xf8 OR y) :: u8) :: wchar) AND 0x80 = 0x80"
  by (rule word_below [of y 4]) (simp, simp, code_simp)

lemma lead6: "(y :: wchar) < 0x2 \<Longrightarrow> lead_byte (ucast (0xfc OR y)) = None \<and> (scast (ucast (0xfc OR y) :: u8) :: wchar) AND 0x80 = 0x80"
  by (rule word_below [of y 2]) (simp, simp, code_simp)

section \<open>Reassembly\<close>

lemma low_bits: "(x :: wchar) AND 0x3f < 0x40"
proof -
  have "x AND 0x3f = take_bit 6 x" using take_bit_eq_mask [of 6 x] by (simp add: mask_eq_exp_minus_1)
  moreover have "unat (take_bit 6 x) < 2 ^ 6" unfolding unsigned_take_bit_eq by (rule take_bit_nat_less_exp)
  ultimately show ?thesis by (simp add: word_less_nat_alt)
qed

lemma join_bits: "push_bit 6 (drop_bit (n + 6) x) OR (drop_bit n x AND 0x3f) = drop_bit n (x :: wchar)"
proof -
  have m: "y AND 0x3f = take_bit 6 y" for y :: wchar using take_bit_eq_mask [of 6 y] by (simp add: mask_eq_exp_minus_1)
  have "push_bit 6 (drop_bit 6 y) OR take_bit 6 y = y" for y :: wchar
    by (rule bit_word_eqI) (auto simp: bit_simps)
  from this [of "drop_bit n x"] show ?thesis by (simp add: m add.commute)
qed

lemma unat_p2: "m < 32 \<Longrightarrow> unat (2 ^ m :: u32) = 2 ^ m"
proof -
  assume "m < 32"
  then have "unat (word_of_nat (2 ^ m) :: u32) = 2 ^ m" using power_strict_increasing [of m 32 "2 :: nat"] by (subst unsigned_of_nat, subst take_bit_nat_eq_self) simp_all
  then show ?thesis by simp
qed

lemma drop_bit_bound: "(w :: wchar) < 2 ^ (n + k) \<Longrightarrow> n + k < 32 \<Longrightarrow> drop_bit n w < 2 ^ k"
proof -
  assume a: "w < 2 ^ (n + k)" "n + k < 32"
  then have "unat w < 2 ^ (n + k)" by (simp add: word_less_nat_alt unat_p2)
  then have "unat w div 2 ^ n < 2 ^ k" by (simp add: less_mult_imp_div_less power_add mult.commute)
  moreover have "unat (drop_bit n w) = unat w div 2 ^ n" unfolding unat_drop_bit_eq by (rule drop_bit_eq_div)
  ultimately show ?thesis unfolding word_less_nat_alt using a(2) by (simp only: unat_p2)
qed

lemma nonneg_simps:
  assumes "(w :: wchar) < 0x80000000"
  shows "c < 0x80000000 \<Longrightarrow> w <s c \<longleftrightarrow> w < c" "signed_drop_bit n w = drop_bit n w"
proof -
  have s: "sint x = uint x" if "x < 0x80000000" for x :: wchar
  proof -
    have "uint x < 2 ^ 31" using that by (simp add: word_less_alt)
    moreover have "- (2 ^ 31) \<le> uint x" by (rule order_trans [of _ 0]) auto
    ultimately have "signed_take_bit 31 (uint x) = uint x" by (intro signed_take_bit_int_eq_self)
    then show ?thesis by (simp add: sint_uint)
  qed
  show "c < 0x80000000 \<Longrightarrow> w <s c \<longleftrightarrow> w < c" using s [OF assms] s [of c] by (simp add: word_sless_alt word_less_alt)
  have "unat w < 2 ^ 31" using assms by (simp add: word_less_nat_alt)
  then have "\<not> bit (unat w) 31" by (simp add: bit_iff_odd)
  then have "\<not> bit w 31" by (simp add: bit_unsigned_iff)
  show "signed_drop_bit n w = drop_bit n w"
    by (rule bit_word_eqI) (use \<open>\<not> bit w 31\<close> in \<open>auto simp: bit_signed_drop_bit_iff bit_drop_bit_eq not_le dest: bit_imp_le_length\<close>)
qed

section \<open>Encoding, then decoding\<close>

lemma utf8_loop_wc: "utf8_loop cs 0 v ret = utf8_loop cs 0 0 ret"
  by (induction cs arbitrary: v ret) (auto split: option.splits)

lemma loop_lead:
  assumes "(scast c :: wchar) AND 0x80 = 0x80"
  shows "lead_byte c = Some (n, v) \<Longrightarrow> utf8_loop (c # cs) 0 u ret = utf8_loop cs n v ret"
    "lead_byte c = None \<Longrightarrow> utf8_loop (c # cs) 0 u ret = utf8_loop cs 0 0 ret"
  using assms utf8_loop_wc [of cs u ret] by simp_all

lemma loop_tail:
  assumes "y < 0x40"
  shows "utf8_loop (ucast (0x80 OR y) # cs) (Suc (Suc n)) v ret = utf8_loop cs (Suc n) (push_bit 6 v OR y) ret"
    "utf8_loop (ucast (0x80 OR y) # cs) (Suc 0) v ret = utf8_loop cs 0 0 (ret @ [push_bit 6 v OR y])"
    "utf8_loop (ucast (0x80 OR y) # cs) 0 v ret = utf8_loop cs 0 0 ret"
  using tail_byte [OF assms] utf8_loop_wc [of cs v ret] by (simp_all add: Let_def)

declare utf8_loop.simps [simp del]

text \<open>The characters that come through: one byte, or three to five bytes.\<close>

definition survives :: "wchar \<Rightarrow> bool" where
  "survives w \<longleftrightarrow> w < 0x80 \<or> 0x800 \<le> w \<and> w < 0x4000000"

lemma utf8_loop_char:
  assumes "w < 0x80000000"
  shows "utf8_loop (utf8_char w @ cs) 0 0 ret = utf8_loop cs 0 0 (ret @ (if survives w then [w] else []))"
proof -
  have c: "utf8_char w =
     (if w < 0x80 then [ucast w]
      else if w < 0x800 then [ucast (0xc0 OR drop_bit 6 w), ucast (0x80 OR (w AND 0x3f))]
      else if w < 0x10000 then
        [ucast (0xe0 OR drop_bit 12 w), ucast (0x80 OR (drop_bit 6 w AND 0x3f)), ucast (0x80 OR (w AND 0x3f))]
      else if w < 0x20000 then
        [ucast (0xf0 OR drop_bit 18 w), ucast (0x80 OR (drop_bit 12 w AND 0x3f)), ucast (0x80 OR (drop_bit 6 w AND 0x3f)), ucast (0x80 OR (w AND 0x3f))]
      else if w < 0x4000000 then
        [ucast (0xf8 OR drop_bit 24 w), ucast (0x80 OR (drop_bit 18 w AND 0x3f)), ucast (0x80 OR (drop_bit 12 w AND 0x3f)),
         ucast (0x80 OR (drop_bit 6 w AND 0x3f)), ucast (0x80 OR (w AND 0x3f))]
      else if w < 0x8000000 then
        [ucast (0xfc OR drop_bit 30 w), ucast (0x80 OR (drop_bit 24 w AND 0x3f)), ucast (0x80 OR (drop_bit 18 w AND 0x3f)),
         ucast (0x80 OR (drop_bit 12 w AND 0x3f)), ucast (0x80 OR (drop_bit 6 w AND 0x3f)), ucast (0x80 OR (w AND 0x3f))]
      else [])"
    by (simp add: utf8_char_def nonneg_simps [OF assms])
  note t = loop_tail [OF low_bits]
  have j: "push_bit 6 (drop_bit 24 w) OR (drop_bit 18 w AND 0x3f) = drop_bit 18 w" "push_bit 6 (drop_bit 18 w) OR (drop_bit 12 w AND 0x3f) = drop_bit 12 w"
    "push_bit 6 (drop_bit 12 w) OR (drop_bit 6 w AND 0x3f) = drop_bit 6 w" "push_bit 6 (drop_bit 6 w) OR (w AND 0x3f) = w"
    using join_bits [of 18 w] join_bits [of 12 w] join_bits [of 6 w] join_bits [of 0 w] by simp_all
  note u = word_less_nat_alt word_le_nat_alt
  have n: "w < 0x80 \<longleftrightarrow> unat w < 0x80" "w < 0x800 \<longleftrightarrow> unat w < 0x800" "w < 0x10000 \<longleftrightarrow> unat w < 0x10000" "w < 0x20000 \<longleftrightarrow> unat w < 0x20000"
    "w < 0x4000000 \<longleftrightarrow> unat w < 0x4000000" "w < 0x8000000 \<longleftrightarrow> unat w < 0x8000000" "0x800 \<le> w \<longleftrightarrow> 0x800 \<le> unat w" by (simp_all add: u)
  consider "unat w < 0x80" | "0x80 \<le> unat w" "unat w < 0x800" | "0x800 \<le> unat w" "unat w < 0x10000" | "0x10000 \<le> unat w" "unat w < 0x20000"
    | "0x20000 \<le> unat w" "unat w < 0x4000000" | "0x4000000 \<le> unat w" "unat w < 0x8000000" | "0x8000000 \<le> unat w" by linarith
  then show ?thesis
  proof cases
    case 1
    then show ?thesis using ascii_byte [of w] by (simp add: c survives_def n utf8_loop.simps)
  next
    case 2
    have "drop_bit 6 w < 2 ^ 5" by (rule drop_bit_bound) (use 2 in \<open>simp_all add: u\<close>)
    then show ?thesis using 2 lead2 [of "drop_bit 6 w"] by (simp add: c n survives_def loop_lead t)
  next
    case 3
    have "drop_bit 12 w < 2 ^ 4" by (rule drop_bit_bound) (use 3 in \<open>simp_all add: u\<close>)
    then show ?thesis using 3 lead3 [of "drop_bit 12 w"] by (simp add: c n survives_def loop_lead numeral_2_eq_2 t j)
  next
    case 4
    have "drop_bit 18 w < 2 ^ 3" by (rule drop_bit_bound) (use 4 in \<open>simp_all add: u\<close>)
    then show ?thesis using 4 lead4 [of "drop_bit 18 w"] by (simp add: c n survives_def loop_lead numeral_3_eq_3 t j)
  next
    case 5
    have four: "(4 :: nat) = Suc (Suc (Suc (Suc 0)))" by simp
    have "drop_bit 24 w < 2 ^ 2" by (rule drop_bit_bound) (use 5 in \<open>simp_all add: u\<close>)
    then show ?thesis using 5 lead5 [of "drop_bit 24 w"] by (simp add: c n survives_def loop_lead four t j)
  next
    case 6
    have "drop_bit 30 w < 2 ^ 1" by (rule drop_bit_bound) (use 6 in \<open>simp_all add: u\<close>)
    then show ?thesis using 6 lead6 [of "drop_bit 30 w"] by (simp add: c n survives_def loop_lead t)
  next
    case 7
    then show ?thesis by (simp add: c n survives_def)
  qed
qed

lemma utf8_loop_string:
  "list_all (\<lambda>w. w < 0x80000000) ws \<Longrightarrow> utf8_loop (concat (map utf8_char ws) @ cs) 0 0 ret = utf8_loop cs 0 0 (ret @ filter survives ws)"
  by (induction ws arbitrary: ret) (auto simp: utf8_loop_char)

lemma wstrToUtf8_concat: "wstrToUtf8 ws = concat (map utf8_char ws)"
proof -
  have "foldl (\<lambda>ret wc. ret @ utf8_char wc) ret ws = ret @ concat (map utf8_char ws)" for ret by (induction ws arbitrary: ret) auto
  then show ?thesis by (simp add: wstrToUtf8_def)
qed

text \<open>
  C35. Decoding after encoding. For every wide string of non-negative characters, \<open>utf8ToWstr (wstrToUtf8 s)\<close> is the string without the characters
  from \<open>0x80\<close> to \<open>0x7ff\<close> (whose lead byte is compared with \<open>0xc\<close> instead of \<open>0xc0\<close>) and from \<open>0x4000000\<close> on; everything else,
  in particular all of ASCII and the rest of the basic plane, comes back unchanged.
\<close>
theorem utf8_roundtrip:
  assumes "list_all (\<lambda>w. w < 0x80000000) ws"
  shows "utf8ToWstr (wstrToUtf8 ws) = filter (\<lambda>w. w < 0x80 \<or> 0x800 \<le> w \<and> w < 0x4000000) ws"
proof -
  have s: "filter survives ws = filter (\<lambda>w. w < 0x80 \<or> 0x800 \<le> w \<and> w < 0x4000000) ws" by (intro filter_cong) (auto simp: survives_def)
  show ?thesis using utf8_loop_string [OF assms, of "[]" "[]"] by (simp add: utf8ToWstr_def wstrToUtf8_concat utf8_loop.simps s)
qed

theorem utf8_roundtrip_witness: "utf8ToWstr (wstrToUtf8 [0x41, 0xe9, 0x4e2d, 0x1f600]) = [0x41, 0x4e2d, 0x1f600]"
  using utf8_roundtrip [of "[0x41, 0xe9, 0x4e2d, 0x1f600]"] by simp

text \<open>The conversions of 7-bit text depend on the element of the array that is never set.\<close>

lemma ascii_conversion:
  assumes "0 \<notin> set s"
  shows "toWStr_ascii raw s = (if raw = 0 then Inr (map scast s) else Inl MemFault)"
proof -
  have "ucast (scast c :: wchar) = c" for c :: u8 by (rule bit_word_eqI) (auto simp: bit_simps)
  then have "(scast c :: wchar) \<noteq> 0" if "c \<in> set s" for c using that assms by (metis unsigned_0)
  then show ?thesis by (auto simp: toWStr_ascii_def upto_zero_def takeWhile_append)
qed

end
