(* ===== verification/Sha1_Spec.thy ===== *)
theory Sha1_Spec
  imports Sha1
begin

text \<open>\<open>calc\<close> computes SHA-1, whatever its work array held before; and how the two ways to print the digest differ.\<close>

section \<open>Compression\<close>

lemma select_eq: "t < 20 \<Longrightarrow> (\<lambda>b c d. (b AND c) OR (NOT b AND d)) = f_t t"
  by (intro ext bit_word_eqI) (auto simp: f_t_def bit_simps)

lemma parity_eq: "20 \<le> t \<and> t < 40 \<or> 60 \<le> t \<Longrightarrow> (\<lambda>b c d. b XOR c XOR d) = f_t t"
  by (intro ext) (auto simp: f_t_def)

lemma major_eq: "40 \<le> t \<Longrightarrow> t < 60 \<Longrightarrow> (\<lambda>b c d. (b AND c) OR (b AND d) OR (c AND d)) = f_t t"
  by (intro ext bit_word_eqI) (auto simp: f_t_def bit_simps)

definition filled :: "u32 list \<Rightarrow> nat \<Rightarrow> u32 list \<Rightarrow> bool" where
  "filled M n w \<longleftrightarrow> length w = 80 \<and> (\<forall>i<n. w ! i = schedule M i)"

lemma rounds_given:
  assumes "filled M 16 w" "n \<le> 16" "\<And>t. t < n \<Longrightarrow> f = f_t t \<and> k = K_t t"
  shows "fold (round_given f k) [0..<n] (r, w) = (fold (std_round M) [0..<n] r, w)"
  using assms(2,3)
proof (induction n)
  case (Suc n)
  have "f = f_t n" "k = K_t n" "w ! n = schedule M n" using Suc.prems assms(1) by (auto simp: filled_def)
  with Suc show ?case by (simp add: round_given_def std_round_def sha1macro_def split: prod.splits)
qed simp

lemma rounds_extend:
  assumes "16 \<le> a" "a \<le> b" "b \<le> 80" "filled M a w" "\<And>t. a \<le> t \<Longrightarrow> t < b \<Longrightarrow> f = f_t t \<and> k = K_t t"
  shows "\<exists>w'. fold (round_extend f k) [a..<b] (r, w) = (fold (std_round M) [a..<b] r, w') \<and> filled M b w'"
  using assms(2,3,5)
proof (induction b)
  case 0
  then show ?case using assms(1) by simp
next
  case (Suc b)
  show ?case
  proof (cases "a = Suc b")
    case True
    with assms(4) show ?thesis by simp
  next
    case False
    then obtain w' where w': "fold (round_extend f k) [a..<b] (r, w) = (fold (std_round M) [a..<b] r, w')" "filled M b w'" using Suc by auto
    have f: "f = f_t b" "k = K_t b" using Suc.prems(3) [of b] False Suc.prems(1) by auto
    let ?w = "w'[b := rol (w' ! (b - 3) XOR w' ! (b - 8) XOR w' ! (b - 14) XOR w' ! (b - 16)) 1]"
    have "b \<ge> 16" using assms(1) False Suc.prems(1) by simp
    then have "rol (w' ! (b - 3) XOR w' ! (b - 8) XOR w' ! (b - 14) XOR w' ! (b - 16)) 1 = schedule M b"
      using w'(2) by (subst schedule.simps) (simp add: filled_def)
    then have "filled M (Suc b) ?w" "?w ! b = schedule M b" using w'(2) Suc.prems(2) by (auto simp: filled_def nth_list_update less_Suc_eq)
    moreover have "round_extend f k b (r', w') = (std_round M b r', ?w)" for r'
      using calculation(2) f by (cases r') (simp add: round_extend_def std_round_def sha1macro_def Let_def)
    ultimately show ?thesis using w'(1) False Suc.prems(1) by auto
  qed
qed

lemma innerHash_compress:
  assumes "length w = 80" "take 16 w = map be_word (chunks 4 block)"
  shows "\<exists>w'. innerHash (H, w) = (compress block H, w') \<and> length w' = 80"
proof -
  let ?M = "take 16 w"
  have "filled ?M 16 w" using assms(1) by (auto simp: filled_def schedule.simps)
  note r0 = rounds_given [OF this order_refl, of _ _ H]
  let ?f = "\<lambda>n. fold (std_round ?M) [0..<n] H"
  have s0: "fold (round_given (\<lambda>b c d. (b AND c) OR (NOT b AND d)) 0x5A827999) [0..<16] (H, w) = (?f 16, w)"
    by (rule r0) (auto simp: select_eq K_t_def)
  have st: "fold (std_round ?M) [a..<b] (?f a) = ?f b" if "a \<le> b" for a b
    using that by (metis fold_append comp_apply upt_add_eq_append le_add_diff_inverse zero_le)
  obtain w1 where s1: "fold (round_extend (\<lambda>b c d. (b AND c) OR (NOT b AND d)) 0x5A827999) [16..<20] (?f 16, w) = (?f 20, w1)" "filled ?M 20 w1"
    using rounds_extend [OF _ _ _ \<open>filled ?M 16 w\<close>, of 20 "\<lambda>b c d. (b AND c) OR (NOT b AND d)" "0x5A827999" "?f 16"] st [of 16 20] by (auto simp: select_eq K_t_def)
  obtain w2 where s2: "fold (round_extend (\<lambda>b c d. b XOR c XOR d) 0x6ED9EBA1) [20..<40] (?f 20, w1) = (?f 40, w2)" "filled ?M 40 w2"
    using rounds_extend [OF _ _ _ s1(2), of 40 "\<lambda>b c d. b XOR c XOR d" "0x6ED9EBA1" "?f 20"] st [of 20 40] by (auto simp: parity_eq K_t_def)
  obtain w3 where s3: "fold (round_extend (\<lambda>b c d. (b AND c) OR (b AND d) OR (c AND d)) 0x8F1BBCDC) [40..<60] (?f 40, w2) = (?f 60, w3)" "filled ?M 60 w3"
    using rounds_extend [OF _ _ _ s2(2), of 60 "\<lambda>b c d. (b AND c) OR (b AND d) OR (c AND d)" "0x8F1BBCDC" "?f 40"] st [of 40 60] by (auto simp: major_eq K_t_def)
  obtain w4 where s4: "fold (round_extend (\<lambda>b c d. b XOR c XOR d) 0xCA62C1D6) [60..<80] (?f 60, w3) = (?f 80, w4)" "filled ?M 80 w4"
    using rounds_extend [OF _ _ _ s3(2), of 80 "\<lambda>b c d. b XOR c XOR d" "0xCA62C1D6" "?f 60"] st [of 60 80] by (auto simp: parity_eq K_t_def)
  have "innerHash (H, w) = (compress block H, w4)"
    unfolding innerHash_def Let_def fst_conv s0 s1(1) s2(1) s3(1) s4(1) by (simp add: compress_def assms(2) [symmetric] Let_def split: prod.splits)
  with s4(2) show ?thesis by (auto simp: filled_def)
qed

section \<open>Blocks\<close>

lemma chunks_append: "0 < n \<Longrightarrow> length xs = n * m \<Longrightarrow> chunks n (xs @ ys) = chunks n xs @ chunks n ys"
proof (induction m arbitrary: xs)
  case (Suc m)
  then have "xs \<noteq> []" "length (drop n xs) = n * m" "n \<le> length xs" by auto
  then show ?case using Suc.IH [of "drop n xs"] Suc.prems(1) by (subst (1 2) chunks.simps) simp
qed (simp add: chunks.simps)

lemma chunks_nth: "0 < n \<Longrightarrow> length xs = n * m \<Longrightarrow> chunks n xs = map (\<lambda>k. take n (drop (n * k) xs)) [0..<m]"
proof (induction m arbitrary: xs)
  case (Suc m)
  then have "xs \<noteq> []" "length (drop n xs) = n * m" by auto
  then have "chunks n xs = take n xs # map (\<lambda>k. take n (drop (n * k) (drop n xs))) [0..<m]" using Suc by (subst chunks.simps) simp
  also have "\<dots> = map (\<lambda>k. take n (drop (n * k) xs)) (0 # map Suc [0..<m])" by (simp add: add.commute)
  also have "0 # map Suc [0..<m] = [0..<Suc m]" by (simp add: map_Suc_upt upt_conv_Cons del: upt_Suc)
  finally show ?case .
qed (simp add: chunks.simps)

lemma chunk_single: "0 < n \<Longrightarrow> length xs = n \<Longrightarrow> chunks n xs = [xs]"
  using chunks_nth [of n xs 1] by simp

definition block_words :: "u8 list \<Rightarrow> u32 list" where
  "block_words bs = map (\<lambda>k. be_word (take 4 (drop (4 * k) bs))) [0..<16]"

lemma block_words: "length bs = 64 \<Longrightarrow> map be_word (chunks 4 bs) = block_words bs"
  using chunks_nth [of 4 bs 16] by (simp add: block_words_def)

lemma be_word4: "be_word [a, b, c, d] = ucast d OR push_bit 8 (ucast c) OR push_bit 16 (ucast b) OR push_bit 24 (ucast a)"
  by (simp add: be_word_def push_bit_or ac_simps)

lemma take4: "j + 4 \<le> length xs \<Longrightarrow> take 4 (drop j xs) = [xs ! j, xs ! (j + 1), xs ! (j + 2), xs ! (j + 3)]"
  by (intro nth_equalityI) (auto simp: less_Suc_eq numeral_eq_Suc)

lemma fold_updates: "n \<le> length w \<Longrightarrow> fold (\<lambda>k w. w[k := g k]) [0..<n] w = map g [0..<n] @ drop n w"
  by (induction n) (auto simp: list_update_append Cons_nth_drop_Suc [symmetric])

lemma load_block_words:
  assumes "i + 64 \<le> length src" "length w = 80"
  shows "take 16 (load_block src i w) = map be_word (chunks 4 (take 64 (drop i src)))" "length (load_block src i w) = 80"
proof -
  have l: "load_block src i w = map (\<lambda>k. load_word src (i + 4 * k)) [0..<16] @ drop 16 w"
    unfolding load_block_def using assms(2) by (intro fold_updates) simp
  have "load_word src (i + 4 * k) = be_word (take 4 (drop (4 * k) (take 64 (drop i src))))" if "k < 16" for k
    using that assms(1) by (simp add: take4 be_word4 load_word_def ac_simps)
  then show "take 16 (load_block src i w) = map be_word (chunks 4 (take 64 (drop i src)))"
    using assms(1) by (subst block_words) (auto simp: l block_words_def)
  show "length (load_block src i w) = 80" using assms(2) by (simp add: l)
qed

lemma full_blocks_compress:
  assumes "length w = 80" "i \<le> length src"
  shows "\<exists>m w'. full_blocks src i (H, w) = (i + 64 * m, fold compress (chunks 64 (take (64 * m) (drop i src))) H, w') \<and> length w' = 80 \<and>
    i + 64 * m \<le> length src \<and> length src - (i + 64 * m) < 64"
  using assms
proof (induction src i "(H, w)" arbitrary: H w rule: full_blocks.induct)
  case (1 src i)
  show ?case
  proof (cases "i + 64 \<le> length src")
    case False
    then show ?thesis using "1.prems" by (subst full_blocks.simps) (auto intro!: exI [of _ 0] simp: chunks.simps)
  next
    case True
    note lb = load_block_words [OF True "1.prems"(1)]
    let ?b = "take 64 (drop i src)"
    obtain w1 where w1: "innerHash (H, load_block src i w) = (compress ?b H, w1)" "length w1 = 80"
      using innerHash_compress [OF lb(2,1)] by blast
    obtain m w' where m: "full_blocks src (i + 64) (compress ?b H, w1) = (i + 64 + 64 * m, fold compress (chunks 64 (take (64 * m) (drop (i + 64) src))) (compress ?b H), w')"
      "length w' = 80" "i + 64 + 64 * m \<le> length src" "length src - (i + 64 + 64 * m) < 64"
      using "1.hyps" [OF True, of "compress ?b H" w1] w1 True by auto
    have "take (64 * Suc m) (drop i src) = ?b @ take (64 * m) (drop (i + 64) src)" by (simp add: take_add add.commute)
    then have "chunks 64 (take (64 * Suc m) (drop i src)) = [?b] @ chunks 64 (take (64 * m) (drop (i + 64) src))"
      using chunks_append [of 64 ?b 1] chunk_single [of 64 ?b] True by simp
    then show ?thesis using m w1 True by (subst full_blocks.simps) (auto intro!: exI [of _ "Suc m"])
  qed
qed

section \<open>The last block\<close>

text \<open>Setting a zero byte of a block is what \<open>put_byte\<close> does to its words.\<close>

lemma word_update:
  assumes "length bs = 64" "q < 16" "r < 4" "bs ! (4 * q + r) = 0"
  shows "be_word (take 4 (drop (4 * q) (bs[4 * q + r := c]))) = be_word (take 4 (drop (4 * q) bs)) OR push_bit ((3 - r) * 8) (ucast c)"
proof -
  have b: "4 * q + 4 \<le> length bs" using assms(1,2) by simp
  consider "r = 0" | "r = 1" | "r = 2" | "r = 3" using assms(3) by linarith
  then show ?thesis by cases (use b assms(4) in \<open>simp_all add: take4 be_word4 ac_simps\<close>)
qed

lemma block_words_update:
  assumes "length bs = 64" "j < 64" "bs ! j = 0"
  shows "put_byte c j (block_words bs @ ws) = block_words (bs[j := c]) @ ws"
proof -
  let ?q = "j div 4"
  have q: "?q < 16" using assms(2) by simp
  have other: "take 4 (drop (4 * k) (bs[j := c])) = take 4 (drop (4 * k) bs)" if "k \<noteq> ?q" "k < 16" for k
    using that assms(1,2) by (auto simp: take4 nth_list_update)
  have j: "j = 4 * ?q + j mod 4" by simp
  have same: "be_word (take 4 (drop (4 * ?q) (bs[j := c]))) = be_word (take 4 (drop (4 * ?q) bs)) OR push_bit ((3 - j mod 4) * 8) (ucast c)"
    using word_update [OF assms(1) q, of "j mod 4" c] assms(3) j by simp
  show ?thesis
  proof (rule nth_equalityI)
    show "length (put_byte c j (block_words bs @ ws)) = length (block_words (bs[j := c]) @ ws)" by (simp add: put_byte_def block_words_def)
    fix i assume "i < length (put_byte c j (block_words bs @ ws))"
    then show "put_byte c j (block_words bs @ ws) ! i = (block_words (bs[j := c]) @ ws) ! i"
      using q same other [of i] by (cases "i = ?q") (auto simp: put_byte_def block_words_def nth_append nth_list_update)
  qed
qed

lemma put_bytes:
  assumes "length bs = 64" "n \<le> 64" "\<forall>j<n. bs ! j = 0"
  shows "fold (\<lambda>j w. put_byte (g j) j w) [0..<n] (block_words bs @ ws) = block_words (map g [0..<n] @ drop n bs) @ ws"
  using assms(2,3)
proof (induction n)
  case (Suc n)
  let ?b = "map g [0..<n] @ drop n bs"
  have "?b ! n = 0" "length ?b = 64" "n < 64" using Suc.prems assms(1) by (auto simp: nth_append)
  then have "put_byte (g n) n (block_words ?b @ ws) = block_words (?b[n := g n]) @ ws" by (intro block_words_update)
  moreover have "?b[n := g n] = map g [0..<Suc n] @ drop (Suc n) bs"
    using assms(1) \<open>n < 64\<close> by (auto simp: list_update_append Cons_nth_drop_Suc [symmetric])
  ultimately show ?case using Suc by simp
qed simp

lemma block_words_zero: "block_words (replicate 64 0) = replicate 16 0"
proof -
  have "be_word (replicate 4 0) = 0" by (simp add: be_word_def numeral_eq_Suc)
  then have "be_word (take 4 (drop (4 * k) (replicate 64 0))) = 0" if "k < 16" for k using that by simp
  then show ?thesis unfolding block_words_def by (auto intro: nth_equalityI)
qed

lemma clear16_words: "16 \<le> length w \<Longrightarrow> clear16 w = block_words (replicate 64 0) @ drop 16 w"
  by (simp add: clear16_def block_words_zero)

text \<open>The length in the last eight bytes.\<close>

lemma be_word_bytes: "be_word (be_bytes 4 x) = word_of_nat x"
proof -
  have "be_bytes 4 x = [word_of_nat (drop_bit 24 x), word_of_nat (drop_bit 16 x), word_of_nat (drop_bit 8 x), word_of_nat x]"
    by (simp add: be_bytes_def upt_rec drop_bit_eq_div)
  then have "be_word (be_bytes 4 x) = ucast (word_of_nat x :: u8) OR push_bit 8 (ucast (word_of_nat (drop_bit 8 x) :: u8)) OR
    push_bit 16 (ucast (word_of_nat (drop_bit 16 x) :: u8)) OR push_bit 24 (ucast (word_of_nat (drop_bit 24 x) :: u8))" by (simp only: be_word4)
  also have "\<dots> = word_of_nat x"
  proof (rule bit_word_eqI)
    fix n assume "n < LENGTH(32)"
    then consider "n < 8" | "8 \<le> n" "n < 16" | "16 \<le> n" "n < 24" | "24 \<le> n" "n < 32" by (simp, linarith)
    then show "bit (ucast (word_of_nat x :: u8) OR push_bit 8 (ucast (word_of_nat (drop_bit 8 x) :: u8)) OR
      push_bit 16 (ucast (word_of_nat (drop_bit 16 x) :: u8)) OR push_bit 24 (ucast (word_of_nat (drop_bit 24 x) :: u8)) :: u32) n = bit (word_of_nat x :: u32) n"
      by cases (auto simp: bit_simps)
  qed
  finally show ?thesis .
qed

lemma length_field:
  assumes "length xs = 56" "n < 2 ^ 29"
  shows "block_words (xs @ be_bytes 8 (8 * n)) = (block_words (xs @ replicate 8 0))[15 := push_bit 3 (word_of_nat n)]"
proof -
  have hi: "8 * n div 256 ^ k = 0" if "k \<ge> 4" for k
  proof -
    have "(256 :: nat) ^ 4 \<le> 256 ^ k" using that by (intro power_increasing) auto
    then show ?thesis using assms(2) by simp
  qed
  have "be_bytes 8 (8 * n) = replicate 4 0 @ be_bytes 4 (8 * n)"
  proof (rule nth_equalityI)
    fix i assume "i < length (be_bytes 8 (8 * n))"
    then have i: "i < 8" by (simp add: be_bytes_def)
    then show "be_bytes 8 (8 * n) ! i = (replicate 4 0 @ be_bytes 4 (8 * n)) ! i" using hi [of "7 - i"] by (auto simp: be_bytes_def nth_append)
  qed (simp add: be_bytes_def)
  moreover have "length (be_bytes 4 (8 * n)) = 4" by (simp add: be_bytes_def)
  moreover have "be_word (be_bytes 4 (8 * n)) = push_bit 3 (word_of_nat n)" by (simp add: be_word_bytes push_bit_eq_mult)
  ultimately show ?thesis using assms(1)
    by (intro nth_equalityI) (auto simp: block_words_def nth_list_update take_append drop_append not_less)
qed

section \<open>The digest\<close>

lemma pad_split:
  assumes "i = 64 * m" "i \<le> length src" "length src - i < 64"
  shows "chunks 64 (pad src) = chunks 64 (take i src) @
    (if length src - i < 56 then [drop i src @ 0x80 # replicate (55 - (length src - i)) 0 @ be_bytes 8 (8 * length src)]
     else [drop i src @ 0x80 # replicate (63 - (length src - i)) 0, replicate 56 0 @ be_bytes 8 (8 * length src)])"
proof -
  let ?r = "length src - i"
  have "length src = 64 * m + ?r" using assms(1,2) by simp
  then have r: "length src mod 64 = ?r" using assms(3) by (metis mod_mult_self4 mod_less)
  have b8: "length (be_bytes 8 x) = 8" for x by (simp add: be_bytes_def)
  have p: "pad src = take i src @ (drop i src @ 0x80 # replicate ((119 - ?r) mod 64) 0 @ be_bytes 8 (8 * length src))"
    unfolding pad_def r by (simp add: append_take_drop_id flip: append_assoc)
  have c: "chunks 64 (pad src) = chunks 64 (take i src) @ chunks 64 (drop i src @ 0x80 # replicate ((119 - ?r) mod 64) 0 @ be_bytes 8 (8 * length src))"
    unfolding p using assms by (intro chunks_append [of 64 _ m]) auto
  show ?thesis
  proof (cases "?r < 56")
    case True
    then have e: "119 - ?r = 64 + (55 - ?r)" by linarith
    have "(119 - ?r) mod 64 = 55 - ?r" unfolding e by simp
    then show ?thesis using True assms(2) by (simp add: c chunk_single b8)
  next
    case False
    then have z: "(119 - ?r) mod 64 = 119 - ?r" "119 - ?r = (63 - ?r) + 56" using assms(3) by simp_all
    have "drop i src @ 0x80 # replicate ((119 - ?r) mod 64) 0 @ be_bytes 8 (8 * length src) =
      (drop i src @ 0x80 # replicate (63 - ?r) 0) @ (replicate 56 0 @ be_bytes 8 (8 * length src))" unfolding z(1) unfolding z(2) replicate_add by simp
    then show ?thesis using False assms(2,3) chunks_append [of 64 "drop i src @ 0x80 # replicate (63 - ?r) 0" 1] by (simp add: c chunk_single b8)
  qed
qed

lemma digest_bytes:
  "map (\<lambda>i. ucast (drop_bit (nat ((3 - int i) mod 4) * 8) ([a, b, c, d, e] ! (i div 4)) AND 0xFF)) [0..<20] =
   (concat (map (\<lambda>w. map (\<lambda>i. ucast (drop_bit (8 * (3 - i)) w)) [0..<4]) [a, b, c, d, e]) :: u8 list)" for a :: u32
proof -
  have u: "ucast (x AND 0xFF) = (ucast x :: u8)" for x :: u32
  proof -
    have "x AND 0xFF = take_bit 8 x" using take_bit_eq_mask [of 8 x] by (simp add: mask_eq_exp_minus_1)
    moreover have "ucast (take_bit 8 x) = (ucast x :: u8)" by (rule bit_word_eqI) (auto simp: bit_simps)
    ultimately show ?thesis by simp
  qed
  show ?thesis by (simp add: u upt_rec)
qed

lemma hash_block:
  assumes "length block = 64" "length w = 64"
  shows "\<exists>w'. innerHash (H, block_words block @ w) = (compress block H, w') \<and> length w' = 80"
  using innerHash_compress [of "block_words block @ w" block H] assms by (simp add: block_words, simp add: block_words_def)

lemma last_block:
  assumes "length xs = 56" "n < 2 ^ 29" "length w = 64"
  shows "\<exists>w'. innerHash (H, (block_words (xs @ replicate 8 0) @ w)[15 := push_bit 3 (word_of_nat n)]) = (compress (xs @ be_bytes 8 (8 * n)) H, w')"
proof -
  have "(block_words (xs @ replicate 8 0) @ w)[15 := push_bit 3 (word_of_nat n)] = block_words (xs @ be_bytes 8 (8 * n)) @ w"
    unfolding length_field [OF assms(1,2)] by (simp add: list_update_append block_words_def)
  moreover have "length (xs @ be_bytes 8 (8 * n)) = 64" using assms(1) by (simp add: be_bytes_def)
  ultimately show ?thesis using hash_block [of "xs @ be_bytes 8 (8 * n)" w H] assms(3) by auto
qed

lemma remainder_words:
  assumes "i \<le> length msg" "length msg - i < 64" "length w = 80"
  shows "put_byte 0x80 (length msg - i) (fold (\<lambda>j w. put_byte (msg ! (j + i)) j w) [0..<length msg - i] (clear16 w)) =
    block_words (drop i msg @ 0x80 # replicate (63 - (length msg - i)) 0) @ drop 16 w"
proof -
  let ?n = "length msg - i" and ?z = "replicate 64 (0 :: u8)"
  let ?b = "drop i msg @ drop ?n ?z"
  have tl: "map (\<lambda>j. msg ! (j + i)) [0..<?n] = drop i msg" by (rule nth_equalityI) (auto simp: add.commute)
  have "fold (\<lambda>j w. put_byte (msg ! (j + i)) j w) [0..<?n] (clear16 w) = block_words ?b @ drop 16 w"
    using put_bytes [of ?z ?n "\<lambda>j. msg ! (j + i)" "drop 16 w"] assms by (simp add: clear16_words tl)
  moreover have "put_byte 0x80 ?n (block_words ?b @ drop 16 w) = block_words (?b[?n := 0x80]) @ drop 16 w"
    by (rule block_words_update) (use assms in \<open>auto simp: nth_append\<close>)
  moreover have "?b[?n := 0x80] = drop i msg @ 0x80 # replicate (63 - ?n) 0"
  proof -
    have "64 - ?n = Suc (63 - ?n)" using assms(2) by simp
    then show ?thesis by (simp add: list_update_append)
  qed
  ultimately show ?thesis by simp
qed

text \<open>
  C32. \<open>calc\<close> computes SHA-1. For every message shorter than \<open>2 ^ 28\<close> bytes (the bit length fits into an \<open>int\<close>) and whatever the work array holds
  before, the 20 bytes it stores are those of the standard's definition on the padded message, and \<open>toHexString\<close> prints them
  from first to last, while \<open>sha1\<close> prints the bytes from last to first.
\<close>
theorem calc_is_sha1:
  assumes "length msg < 2 ^ 28" "length raw = 80"
  shows "calc raw msg = std_sha1 msg \<and> sha1 raw msg = toHexString (rev (std_sha1 msg))"
proof -
  obtain m w where f: "full_blocks msg 0 (sha_init, raw) = (64 * m, fold compress (chunks 64 (take (64 * m) msg)) sha_init, w)"
    "length w = 80" "64 * m \<le> length msg" "length msg - 64 * m < 64" using full_blocks_compress [OF assms(2), of 0 msg sha_init] by auto
  let ?i = "64 * m" and ?n = "length msg - 64 * m" and ?H = "fold compress (chunks 64 (take (64 * m) msg)) sha_init"
  let ?b = "drop ?i msg @ 0x80 # replicate (63 - ?n) 0" and ?len = "push_bit 3 (word_of_nat (length msg)) :: u32"
  let ?w = "block_words ?b @ drop 16 w"
  have len: "length msg < 2 ^ 29" using assms(1) by simp
  have rw: "put_byte 0x80 ?n (fold (\<lambda>j w. put_byte (msg ! (j + ?i)) j w) [0..<?n] (clear16 w)) = ?w"
    by (rule remainder_words) (use f in auto)
  obtain w2 where fin: "finish_hash (length msg) ?n (?H, ?w) = (fold compress (chunks 64 (pad msg)) sha_init, w2)"
  proof (cases "?n < 56")
    case True
    let ?xs = "drop ?i msg @ 0x80 # replicate (55 - ?n) 0"
    have x: "length ?xs = 56" "63 - ?n = (55 - ?n) + 8" using True f(3) by auto
    then have "?b = ?xs @ replicate 8 0" unfolding x(2) replicate_add by simp
    then obtain w2 where "innerHash (?H, ?w[15 := ?len]) = (compress (?xs @ be_bytes 8 (8 * length msg)) ?H, w2)"
      using last_block [OF x(1) len, of "drop 16 w" ?H] f(2) by auto
    then show thesis using that True pad_split [OF refl f(3,4)] by (simp add: finish_hash_def)
  next
    case False
    then obtain w1 where w1: "innerHash (?H, ?w) = (compress ?b ?H, w1)" "length w1 = 80" using hash_block [of ?b "drop 16 w" ?H] f(2,3,4) by auto
    have z: "clear16 w1 = block_words (replicate 56 0 @ replicate 8 0) @ drop 16 w1" using w1(2) by (simp add: clear16_words flip: replicate_add)
    obtain w2 where "innerHash (compress ?b ?H, (clear16 w1)[15 := ?len]) = (compress (replicate 56 0 @ be_bytes 8 (8 * length msg)) (compress ?b ?H), w2)"
      unfolding z using last_block [of "replicate 56 0" "length msg" "drop 16 w1" "compress ?b ?H"] len w1(2) by auto
    then show thesis using that False w1(1) pad_split [OF refl f(3,4)] by (simp add: finish_hash_def Let_def)
  qed
  have c: "calc raw msg = std_sha1 msg"
    using f(1) rw fin by (simp add: calc_def Let_def std_sha1_def store_hash_def digest_bytes)
  have l: "length (std_sha1 msg) = 20" by (simp add: std_sha1_def split: prod.splits)
  have fc: "foldl (\<lambda>r i. r @ g i) r is = r @ concat (map g is)" for g :: "nat \<Rightarrow> string" and r "is"
    by (induction "is" arbitrary: r) auto
  have m: "map (\<lambda>i. h (xs ! i)) (rev [0..<length xs]) = map h (rev xs)" for h :: "u8 \<Rightarrow> string" and xs
  proof -
    have "map (\<lambda>i. h (xs ! i)) [0..<length xs] = map h xs" by (rule nth_equalityI) auto
    then show ?thesis by (simp add: rev_map [symmetric] del: map_eq_conv)
  qed
  have "sha1 raw msg = toHexString (rev (std_sha1 msg))"
    unfolding sha1_def fc c toHexString_def append_Nil l [symmetric] m [of "\<lambda>c. [hex_digit (drop_bit 4 c AND 0xF), hex_digit (c AND 0xF)]"]
    by simp
  with c show ?thesis ..
qed

theorem calc_is_sha1_witness:
  "calc (replicate 80 7) [] = std_sha1 [] \<and> sha1 (replicate 80 7) [] = toHexString (rev (std_sha1 []))"
  by (rule calc_is_sha1) simp_all

end
