(* ===== verification/Spec2Isabelle.thy ===== *)
theory Spec2Isabelle
  imports Dispatcher_Net Hub_Serial Visitor_Order Object_Pool Bi_Map Thread_Map Inverted_Array Join_Tree Adaptive_Wait Buffer_Transfer Buffer_Lifetime Fragment_Refine Pool_Large Pool_Block_Spec Encoding Transaction Bounded_Queue Atomic_Queue_Rep Dependency_Order Worker_Spec
    Strings_Spec Unicode Sha1_Spec
begin

text \<open>
  Verification of the supercell common library (\<open>src/\<close>): the C++ foundation of a game server, with byte
  buffers and their serialization, two memory allocators, lock-free queues, transactions and small utilities.
  The parts are largely independent; a buffer takes its growth from the bit tricks, serialization is
  built on the raw buffer operations, the pipe on the chunked queue, the letter rotation on base64.

  \<^bold>\<open>Conventions.\<close> C++ failures are values of \<open>'a result\<close> (\<open>Prelude\<close>): a failing assertion, the exceptions the code
  throws, \<open>MemFault\<close> for undefined behaviour and \<open>NoReturn\<close> for a loop that exceeds its bound. \<open>size_t\<close> is a natural
  number below \<open>2 ^ 64\<close> with \<open>sz_add\<close> and \<open>sz_sub\<close> where the code can wrap; narrower integers and bit
  manipulation use words. Locales state what one part relies on (\<open>byte_queue\<close>, \<open>slot_queue\<close>, \<open>message_pipe\<close>, \<open>context_store\<close>,
  \<open>object_pool\<close>, \<open>strict_key_order\<close>) and are
  interpreted on the model's own definitions.

  \<^bold>\<open>Theories and what they show.\<close>
  \<^item> \<open>Prelude\<close>: machine types, failures, memory blocks, list lemmas.
  \<^item> \<open>BitTrick\<close> (\<open>utility/BitTrickUtil.h\<close>): rounding up by bit smearing is the least power of two. \<open>UUID\<close>
    (\<open>utility/UUIDUtil.h\<close>): comparison is a strict total order; \<open>operator>\<close> is not its converse.
  \<^item> \<open>Buffer_Core\<close>, \<open>Buffer_Spec\<close>, \<open>Buffer_Queue\<close> (\<open>core/Buffer.h\<close>, \<open>BufferBase\<close>): positions, marks, raw access, growth and
    crunching; every possible run of reads and writes behaves as on a queue of bytes, plain and circular; refusals
    and underflow; where \<open>zero\<close> leaves the block.
  \<^item> \<open>Buffer_Serial\<close>, \<open>Buffer_Serial_Spec\<close>: the read, write and probe overloads for all built-in types; values come back as
    written, and \<open>probeSize\<close> is the number of bytes written (with the type for which it is not).
  \<^item> \<open>Buffer_Lifetime\<close>: copying, moving and destruction on a heap of blocks; no double free, deep copies. \<open>Buffer_Transfer\<close>: nested
    buffers and streams.
  \<^item> \<open>Fragment\<close>, \<open>Fragment_Links\<close>, \<open>Fragment_Spec\<close>, \<open>Fragment_Refine\<close> (\<open>core/FragmentFreeAllocator\<close>): allocation and
    release on doubly linked blocks refine first fit and coalescing on a list of segments; reachable states are safe.
  \<^item> \<open>Pool\<close>, \<open>Pool_Large\<close>, \<open>Pool_Blocks\<close>, \<open>Pool_Block_Spec\<close> (\<open>core/ScalablePoolAllocator\<close>): size classes, large chunks and
    the bins of small blocks. The large free list refines first fit with joining of neighbours, the
    comparison tree equals linear search, and a block never hands out a chunk in use. \<open>pool_allocate\<close> and
    \<open>pool_deallocate\<close> are modelled in full; the properties are about the parts they are composed of.
  \<^item> \<open>Bounded_Queue\<close> (\<open>core/AtomicBoundedQueue.h\<close>): the multi-producer multi-consumer ring as interleaved atomic
    accesses; it is a queue, and an operation is refused only for a reason.
  \<^item> \<open>Atomic_Pipe\<close>, \<open>Atomic_Queue_Rep\<close> (\<open>core/AtomicQueue.h\<close>): the pipe over any queue of slots (locale \<open>slot_queue\<close>), and
    the chunked queue as an instance of it; order, no lost wake-up, no leak.
  \<^item> \<open>Encoding\<close> (\<open>utility/crypto/base64.cpp\<close>, \<open>Crypto.cpp\<close>): round trips. \<open>Transaction\<close> (\<open>core/Transaction.h\<close>): all or
    nothing under well-behaved rollbacks, and what \<open>rollback\<close> does to a paused transaction.
  \<^item> \<open>Graph_Util\<close>, \<open>Dependency\<close>, \<open>Dependency_Spec\<close>, \<open>Dependency_Order\<close> (\<open>utility/GraphUtil.h\<close>, \<open>utility/DependencySolver\<close>): reference maps
    beside a Boost graph, which is a parameter with its documented laws as hypotheses. The solver refines a set of names
    with a relation; load orders, and the nodes a node requires or is required by.
  \<^item> \<open>Locked_Queue\<close> (\<open>core/ConcurrentQueue.h\<close>, \<open>core/ConditionVariable.h\<close>): the queue behind a mutex and a condition variable, order and no
    lost wake-up. \<open>Worker\<close>, \<open>Worker_Spec\<close> (\<open>core/Worker.h\<close>): blocking and asynchronous calls over a table of slots, with the
    \<open>io_service\<close> and the slot queue as parameters; slots are conserved, a single client's blocking call completes, two
    clients can break this.
  \<^item> \<open>Dispatcher\<close>, \<open>Dispatcher_Spec\<close>, \<open>Dispatcher_Net\<close> (\<open>threading/Dispatcher*.h\<close>, the bitmap operations of \<open>core/Atomic.h\<close>, \<open>core/Semaphore.h\<close>): any number
    of threads over a pipe for every pair (locale \<open>message_pipe\<close>, which \<open>slot_queue\<close> gives) and a bitmap with a semaphore for every reader. No
    message and no wake-up is lost, and what a read returns; where blocking reads and reads through a destination go wrong.
  \<^item> \<open>Context_Hub\<close>, \<open>Context_Hub_Spec\<close>, \<open>Hub_Serial\<close> (\<open>core/ContextHub.h\<close>, \<open>core/ContextHubSerialization.h\<close>): the three stores of user objects as
    interpretations of the locale \<open>context_store\<close>; what they return, that each object given to a hub is deleted once, and that a hub
    comes back from an archive.
  \<^item> \<open>Visitors\<close>, \<open>Visitor_Order\<close> (\<open>core/Visitor.h\<close>): tags, dispatch tables and the three visitors; which function handles an object, and in
    which order objects are handled.
  \<^item> \<open>Object_Pool\<close> (\<open>core/ObjectPool.h\<close>): both pools as interpretations of the locale \<open>object_pool\<close>. \<open>Bi_Map\<close> (\<open>core/BiMap.h\<close>), \<open>Thread_Map\<close>
    (\<open>core/old/Map.h\<close>): maps with buffers for every thread refine what each thread has seen. \<open>Inverted_Array\<close>
    (\<open>core/InvertedArray.h\<close>): items know their position.
  \<^item> \<open>Join_Tree\<close> (\<open>threading/JoinFunctionModule.h\<close>): the tree of join nodes waits for all inputs. \<open>Adaptive_Wait\<close> (\<open>threading/AdaptiveWait.h\<close>,
    \<open>threading/ThreadCollisionDetector.h\<close>): bounds of the waiting time, and that collisions are detected.
  \<^item> \<open>Strings\<close>, \<open>Strings_Spec\<close>, \<open>Unicode\<close> (\<open>utility/StringUtil\<close>): tokens, substitution (a partial function: it may not return), numbers as
    text, and UTF-8 with exactly what a round trip keeps. \<open>Sha1\<close>, \<open>Sha1_Spec\<close> (\<open>utility/sha1.cpp\<close>): the code equals the hash
    on the padded message.

  \<^bold>\<open>Bounds and fuel.\<close> Pointer-chasing loops carry a bound: the number of objects ever allocated or the end address of
  the pool, which exceed the length of any list without a cycle; the refinement theorems show that the bound is
  not reached. The search of the dependency solver is bounded by the number of vertices. \<open>run_loop\<close> of a transaction is bounded by the number of actions. The fuel of a visitor bounds the depth of the
  recursion and the rounds of the loops; the theorem on the order of visits shows that there is enough. The buffer theorems assume
  sizes below an eighth of the address space (\<open>size_limit\<close>).

  \<^bold>\<open>Simplifications.\<close> Memory is sequentially consistent; sequence numbers of the bounded queue do not wrap; \<open>malloc\<close> and
  \<open>new\<close> succeed; operations of the pool allocator are atomic, and its statistics counters are left out; a typed
  view of the pool is not invalidated by writes through another view.

  \<^bold>\<open>Not modelled.\<close> Logging, file system, timers, threads and the other operating system wrappers; OpenSSL and the Apache Portable
  Runtime behind \<open>Crypto\<close> and \<open>UUID\<close>; the grammar of \<open>ExpressionParser\<close>, which is an
  expression of Boost.Spirit, and the coroutine macros; \<open>Foreach\<close>, \<open>BinaryCast\<close> and the other templates that only the compiler evaluates;
  \<open>Archive\<close>, which calls the zip library; \<open>AtomicStack\<close>, which the preprocessor leaves out.
\<close>

end
